(* ===== verification/Zvbi_Prelude.thy ===== *)
theory Zvbi_Prelude
  imports Main "HOL-Library.Word"
begin

text \<open>
  Shared vocabulary of the development: names for the machine types, the result of
  a C expression that may be undefined, and generic lemmas on bytes, table lookups
  and XOR-linear functions.
  A C \<^verbatim>\<open>int\<close> whose value stays in range is a HOL \<open>int\<close> (the HOL bit
  operations on \<open>int\<close> are those of two's complement); unsigned C integers are
  words, so that they wrap around.
\<close>

unbundle bit_operations_syntax

type_synonym u8 = "8 word"
type_synonym u16 = "16 word"
type_synonym u32 = "32 word"

named_theorems zvbi_simps \<open>evaluation rules shared by the component proofs\<close>
named_theorems zvbi_inv \<open>preservation of component invariants\<close>

section \<open>Undefined behaviour as a value\<close>

text \<open>
  \<open>Undef\<close> is the outcome of a C statement outside the language (an array access
  out of bounds); everything after it is lost.
\<close>

datatype 'a c_result = Ret 'a | Undef

definition c_bind :: "'a c_result \<Rightarrow> ('a \<Rightarrow> 'b c_result) \<Rightarrow> 'b c_result" where
  "c_bind m f = (case m of Ret a \<Rightarrow> f a | Undef \<Rightarrow> Undef)"

lemma c_bind_simps [simp]:
  "c_bind (Ret a) f = f a"
  "c_bind Undef f = Undef"
  by (simp_all add: c_bind_def)

lemma c_bind_eq_Ret: "c_bind m f = Ret b \<longleftrightarrow> (\<exists>a. m = Ret a \<and> f a = Ret b)"
  by (cases m) auto

lemma c_bind_eq_Undef: "c_bind m f = Undef \<longleftrightarrow> m = Undef \<or> (\<exists>a. m = Ret a \<and> f a = Undef)"
  by (cases m) auto

lemma c_bind_cong: "m = n \<Longrightarrow> (\<And>a. n = Ret a \<Longrightarrow> f a = g a) \<Longrightarrow> c_bind m f = c_bind n g"
  by (cases n) simp_all

definition c_read :: "'a list \<Rightarrow> nat \<Rightarrow> 'a c_result" where
  "c_read xs i = (if i < length xs then Ret (xs ! i) else Undef)"

lemma c_read_in [simp]: "i < length xs \<Longrightarrow> c_read xs i = Ret (xs ! i)"
  by (simp add: c_read_def)

lemma c_read_out [simp]: "length xs \<le> i \<Longrightarrow> c_read xs i = Undef"
  by (simp add: c_read_def)

section \<open>Bytes and table lookups\<close>

lemma unat_u8_less [simp]: "unat (b :: u8) < 256"
  by (rule order.strict_trans2 [OF unsigned_less]) simp

lemma u8_of_nat_unat: "of_nat (unat b) = (b :: u8)"
  by simp

lemma ucast_u8_u32 [simp]: "ucast (ucast (a :: u8) :: u32) = a"
  by (rule bit_word_eqI) (simp add: bit_simps)

lemma unat_ucast_u8_u32 [simp]: "unat (ucast (b :: u8) :: u32) = unat b"
proof -
  have "unat b < 2 ^ 32" by (rule order.strict_trans [OF unat_u8_less]) simp
  then show ?thesis by (simp add: unsigned_ucast_eq take_bit_nat_eq_self)
qed

lemma uint_ucast_u8_u32 [simp]: "uint (ucast (b :: u8) :: u32) = uint b"
  using unat_ucast_u8_u32 [of b] by (metis uint_nat)

text \<open>A table that lists a function is indexed by that function.\<close>

lemma table_nth:
  assumes "tbl = map f [0..<n]" and "i < n"
  shows "tbl ! i = f i"
  using assms by simp

lemma table_nth_u8:
  assumes "tbl = map f [0..<256]"
  shows "tbl ! unat (b :: u8) = f (unat b)"
  using assms by simp

section \<open>Small words\<close>

lemma unat_2p_less:
  fixes w :: "'a::len word"
  assumes "w < 2 ^ n" and "n < LENGTH('a)"
  shows "unat w < 2 ^ n"
proof -
  have "unat (2 ^ n :: 'a word) = 2 ^ n"
  proof -
    have "unat (push_bit n (1 :: 'a word)) = take_bit LENGTH('a) (push_bit n 1)"
      by (simp only: unsigned_push_bit_eq unsigned_1)
    then show ?thesis
      using assms(2) by (simp add: take_bit_nat_eq_self)
  qed
  with assms(1) show ?thesis by (simp add: word_less_nat_alt)
qed

lemma take_bit_small:
  fixes w :: "'a::len word"
  assumes "w < 2 ^ n" and "n < LENGTH('a)"
  shows "take_bit n w = w"
proof -
  have "unat (take_bit n w) = unat w"
    using unat_2p_less [OF assms] by (simp add: unsigned_take_bit_eq take_bit_nat_eq_self)
  then show ?thesis by (rule unsigned_word_eqI)
qed

lemma not_bit_small:
  fixes w :: "'a::len word"
  assumes "w < 2 ^ n" and "n < LENGTH('a)" and "n \<le> k"
  shows "\<not> bit w k"
  using take_bit_small [OF assms(1,2)] assms(3) by (metis bit_take_bit_iff not_le)

lemma sint_small:
  fixes w :: "'a::len word"
  assumes "w < 2 ^ n" and "n < LENGTH('a)"
  shows "sint w = uint w"
proof -
  have "\<not> bit (uint w) (LENGTH('a) - Suc 0)"
    using not_bit_small [OF assms, of "LENGTH('a) - Suc 0"] assms(2) by (simp add: bit_unsigned_iff)
  then have "sint w = take_bit (LENGTH('a) - Suc 0) (uint w)"
    by (simp add: sint_uint signed_take_bit_eq_if_positive)
  also have "\<dots> = uint (take_bit (LENGTH('a) - Suc 0) w)"
    by (simp add: unsigned_take_bit_eq)
  also have "take_bit (LENGTH('a) - Suc 0) w = w"
  proof (rule bit_word_eqI)
    fix k assume "k < LENGTH('a)"
    then show "bit (take_bit (LENGTH('a) - Suc 0) w) k = bit w k"
      using not_bit_small [OF assms, of k] assms(2)
      by (cases "n \<le> k") (auto simp: bit_take_bit_iff)
  qed
  finally show ?thesis .
qed

text \<open>\<open>n\<close> bytes of a buffer from position \<open>i\<close> on, all of them inside.\<close>

definition c_block :: "'a list \<Rightarrow> nat \<Rightarrow> nat \<Rightarrow> 'a list c_result" where
  "c_block xs i n = (if i + n \<le> length xs then Ret (take n (drop i xs)) else Undef)"

text \<open>
  Writing a block of bytes into a buffer: \<^verbatim>\<open>memcpy (dst + at, src, n)\<close> for a
  source of \<open>n\<close> bytes that fits.
\<close>

definition c_memcpy :: "nat \<Rightarrow> 'a list \<Rightarrow> 'a list \<Rightarrow> 'a list" where
  "c_memcpy at src dst = take at dst @ src @ drop (at + length src) dst"

lemma length_c_memcpy [simp]:
  "at + length src \<le> length dst \<Longrightarrow> length (c_memcpy at src dst) = length dst"
  by (simp add: c_memcpy_def)

lemma take_c_memcpy:
  "at + length src \<le> length dst \<Longrightarrow> take (at + length src) (c_memcpy at src dst) = take at dst @ src"
  by (simp add: c_memcpy_def)

text \<open>Bounded quantifiers as executable checks over a list.\<close>

lemma list_all_upt: "list_all P [0..<n] \<longleftrightarrow> (\<forall>k < n. P k)"
  by (auto simp: list_all_iff)

section \<open>XOR-linear functions\<close>

text \<open>
  \<open>xor_rows rs w\<close> is the XOR of the rows selected by the set bits of \<open>w\<close>, least
  significant bit first: the value of a linear map over GF(2) given by its matrix.
\<close>

primrec xor_rows :: "'b::len word list \<Rightarrow> 'a::len word \<Rightarrow> 'b word" where
  "xor_rows [] w = 0"
| "xor_rows (r # rs) w = (if bit w 0 then r else 0) XOR xor_rows rs (drop_bit 1 w)"

lemma xor_rows_0 [simp]: "xor_rows rs 0 = 0"
  by (induction rs) simp_all

lemma xor_rows_xor: "xor_rows rs (v XOR w) = xor_rows rs v XOR xor_rows rs w"
proof (induction rs arbitrary: v w)
  case Nil
  show ?case by simp
next
  case (Cons r rs)
  have "drop_bit 1 (v XOR w) = drop_bit 1 v XOR drop_bit 1 w"
    by simp
  then show ?case
    by (auto simp: Cons.IH bit_xor_iff xor.assoc xor.left_commute)
qed

lemma xor_rows_snoc:
  "xor_rows (rs @ [r]) w = xor_rows rs w XOR (if bit w (length rs) then r else 0)"
  by (induction rs arbitrary: w) (simp_all add: bit_simps xor.assoc)

lemma xor_rows_cong:
  assumes "\<And>k. k < length rs \<Longrightarrow> bit v k \<longleftrightarrow> bit w k"
  shows "xor_rows rs v = xor_rows rs w"
  using assms
proof (induction rs arbitrary: v w)
  case Nil
  show ?case by simp
next
  case (Cons r rs)
  have "bit v 0 \<longleftrightarrow> bit w 0" using Cons.prems [of 0] by simp
  moreover have "xor_rows rs (drop_bit 1 v) = xor_rows rs (drop_bit 1 w)"
    by (rule Cons.IH) (use Cons.prems [of "Suc _"] in \<open>simp add: bit_simps\<close>)
  ultimately show ?case by simp
qed

lemma bit_xor_rows_Nil: "\<not> bit (xor_rows [] w) j"
  by simp

lemma bit_xor_rows_Cons:
  "bit (xor_rows (r # rs) w) j \<longleftrightarrow> (bit w 0 \<and> bit r j) \<noteq> bit (xor_rows rs (drop_bit 1 w)) j"
  by (simp add: bit_xor_iff)

lemmas bit_xor_rows = bit_xor_rows_Nil bit_xor_rows_Cons

lemma xor_rows_append:
  "xor_rows (rs @ ss) w = xor_rows rs w XOR xor_rows ss (drop_bit (length rs) w)"
  by (induction rs arbitrary: w) (simp_all add: xor.assoc)

lemma xor_rows_add:
  "length rs = length ss \<Longrightarrow>
   xor_rows rs w XOR xor_rows ss w = xor_rows (map2 (XOR) rs ss) w"
  by (induction rs ss arbitrary: w rule: list_induct2)
    (auto simp: xor.assoc xor.left_commute)

lemma xor_rows_comp: "xor_rows rs (xor_rows ss w) = xor_rows (map (xor_rows rs) ss) w"
  by (induction ss arbitrary: w) (auto simp: xor_rows_xor)

lemma xor_rows_mask: "xor_rows rs (w AND mask n) = xor_rows (take n rs) w"
proof (induction rs arbitrary: w n)
  case Nil
  show ?case by simp
next
  case (Cons r rs)
  show ?case
  proof (cases n)
    case 0
    then show ?thesis by simp
  next
    case (Suc m)
    have "drop_bit 1 (w AND mask (Suc m)) = drop_bit 1 w AND mask m"
      by (rule bit_eqI) (auto simp: bit_simps dest: bit_imp_le_length)
    then show ?thesis
      using Suc Cons.IH [of "drop_bit 1 w" m] by (simp add: bit_simps)
  qed
qed

lemma xor_rows_zeros [simp]: "xor_rows (replicate n 0) w = 0"
  by (induction n arbitrary: w) simp_all

lemma xor_rows_drop_bit: "xor_rows rs (drop_bit n w) = xor_rows (replicate n 0 @ rs) w"
  by (simp add: xor_rows_append)

lemma ucast_xor_rows: "ucast (xor_rows rs w) = xor_rows (map ucast rs) w"
  by (induction rs arbitrary: w) (simp_all add: unsigned_xor_eq)

lemma xor_rows_and: "xor_rows rs w AND m = xor_rows (map (\<lambda>r. r AND m) rs) w"
  by (induction rs arbitrary: w) (simp_all add: bit.conj_xor_distrib2)

lemma xor_rows_disjoint:
  assumes "map (\<lambda>r. r AND m) rs = rs" and "map (\<lambda>r. r AND n) ss = ss" and "m AND n = 0"
  shows "xor_rows rs v AND xor_rows ss w = 0"
proof -
  have "xor_rows rs v AND xor_rows ss w = (xor_rows rs v AND m) AND (xor_rows ss w AND n)"
    using assms(1,2) by (simp add: xor_rows_and)
  also have "\<dots> = (xor_rows rs v AND xor_rows ss w) AND (m AND n)"
    by (simp only: ac_simps)
  finally show ?thesis using assms(3) by simp
qed

lemma xor_rows_pad: "xor_rows (rs @ replicate n 0) w = xor_rows rs w"
  by (simp add: xor_rows_append)

lemma xor_rows_push_bit:
  "j < length rs \<Longrightarrow> j < LENGTH('a) \<Longrightarrow> xor_rows rs (push_bit j (1 :: 'a::len word)) = rs ! j"
proof (induction rs arbitrary: j)
  case Nil
  then show ?case by simp
next
  case (Cons r rs)
  have "drop_bit 1 (push_bit (Suc m) (1 :: 'a word)) = push_bit m 1" if "Suc m < LENGTH('a)" for m
    by (rule bit_eqI) (use that in \<open>auto simp: bit_simps\<close>)
  with Cons show ?case
    by (cases j) (auto simp: bit_simps)
qed

lemma word_xor_eq_0 [simp]: "a XOR b = (0 :: 'a::len word) \<longleftrightarrow> a = b"
  by (metis xor.assoc xor.right_neutral xor_self_eq xor.commute)

lemma u8_eqI:
  assumes "bit a 0 = bit b 0" "bit a 1 = bit b 1" "bit a 2 = bit b 2" "bit a 3 = bit b 3"
    "bit a 4 = bit b 4" "bit a 5 = bit b 5" "bit a 6 = bit b 6" "bit a 7 = bit (b :: u8) 7"
  shows "a = b"
proof (rule bit_word_eqI)
  fix n assume "n < LENGTH(8)"
  then have "n \<in> {0, 1, 2, 3, 4, 5, 6, 7}" by auto
  then show "bit a n = bit b n" using assms by auto
qed

text \<open>The table of a linear map, built by doubling: row \<open>r\<close> adds the upper half.\<close>

definition xor_table :: "'b::len word list \<Rightarrow> 'b word list" where
  "xor_table rs = fold (\<lambda>r t. t @ map (\<lambda>x. x XOR r) t) rs [0]"

lemma xor_table_snoc:
  "xor_table (rs @ [r]) = xor_table rs @ map (\<lambda>x. x XOR r) (xor_table rs)"
  by (simp add: xor_table_def)

lemma length_xor_table [simp]: "length (xor_table rs) = 2 ^ length rs"
  by (induction rs rule: rev_induct) (simp_all add: xor_table_snoc, simp add: xor_table_def)

lemma xor_table_nth:
  fixes w :: "'a::len word"
  assumes "unat w < 2 ^ length rs"
  shows "xor_table rs ! unat w = xor_rows rs w"
  using assms
proof (induction rs arbitrary: w rule: rev_induct)
  case Nil
  then show ?case by (simp add: xor_table_def)
next
  case (snoc r rs)
  let ?n = "length rs"
  show ?case
  proof (cases "unat w < 2 ^ ?n")
    case True
    then have "\<not> bit (unat w) ?n" by (simp add: bit_iff_odd)
    then have "\<not> bit w ?n" by (simp add: bit_unsigned_iff)
    with True snoc.IH [of w] show ?thesis
      by (simp add: xor_table_snoc nth_append xor_rows_snoc)
  next
    case False
    have lt: "unat w < 2 * 2 ^ ?n" using snoc.prems by simp
    define v where "v = take_bit ?n w"
    have uv: "unat v = unat w - 2 ^ ?n"
      unfolding v_def unsigned_take_bit_eq using False lt by (simp add: take_bit_eq_mod le_mod_geq)
    have b: "bit w ?n"
    proof -
      have "unat w div 2 ^ ?n = 1"
        using False lt by (simp add: div_nat_eqI)
      then have "bit (unat w) ?n" by (simp add: bit_iff_odd)
      then show ?thesis by (simp add: bit_unsigned_iff)
    qed
    have "xor_rows rs v = xor_rows rs w"
      by (rule xor_rows_cong) (simp add: v_def bit_simps)
    moreover have "unat v < 2 ^ ?n" using uv lt False by simp
    ultimately show ?thesis
      using snoc.IH [of v] uv False lt b
      by (simp add: xor_table_snoc nth_append xor_rows_snoc)
  qed
qed

lemma xor_table_nth_u8: "length rs = 8 \<Longrightarrow> xor_table rs ! unat (b :: u8) = xor_rows rs b"
  by (rule xor_table_nth) simp

lemma unat_and_mask_less: "unat (w AND mask n) < 2 ^ n"
  by (simp add: take_bit_nat_less_exp unsigned_take_bit_eq flip: take_bit_eq_mask)

lemma xor_table_nth_mask: "xor_table rs ! unat (w AND mask (length rs)) = xor_rows rs w"
  using xor_table_nth [OF unat_and_mask_less] by (simp add: xor_rows_mask)

lemma length_xor_table_mask: "unat (w AND mask (length rs)) < length (xor_table rs)"
  by (simp add: unat_and_mask_less)

text \<open>Two linear maps that agree on the powers of two are equal.\<close>

lemma xor_basis_induct:
  fixes w :: "'a::len word"
  assumes zero: "P 0"
    and flip: "\<And>w k. k < LENGTH('a) \<Longrightarrow> P w \<Longrightarrow> P (w XOR push_bit k 1)"
  shows "P w"
proof -
  have "P (take_bit n w)" if "n \<le> LENGTH('a)" for n
    using that
  proof (induction n)
    case 0
    show ?case using zero by simp
  next
    case (Suc n)
    have IH: "P (take_bit n w)" using Suc by simp
    have eq: "take_bit (Suc n) w = (if bit w n then take_bit n w XOR push_bit n 1 else take_bit n w)"
      by (rule bit_eqI) (auto simp: bit_simps less_Suc_eq)
    show ?case
      unfolding eq using IH flip [of n "take_bit n w"] Suc.prems by simp
  qed
  from this [of "LENGTH('a)"] show ?thesis by simp
qed

lemma xor_linear_eqI:
  fixes f g :: "'a::len word \<Rightarrow> 'b::len word"
  assumes f: "\<And>v w. f (v XOR w) = f v XOR f w"
    and g: "\<And>v w. g (v XOR w) = g v XOR g w"
    and basis: "\<And>k. k < LENGTH('a) \<Longrightarrow> f (push_bit k 1) = g (push_bit k 1)"
  shows "f w = g w"
proof (induction w rule: xor_basis_induct)
  case 1
  show ?case using f [of 0 0] g [of 0 0] by simp
next
  case (2 w k)
  then show ?case by (simp only: f g basis)
qed

end
