(* ===== verification/Hammgen.thy ===== *)
theory Hammgen
  imports Hamm_Tables
begin

text \<open>
  The table generator \<^verbatim>\<open>vbi/src/hammgen.c\<close>: one definition per table entry (the
  body of the loop that fills the table) and one per table (the loop). The entries
  are computed on \<^verbatim>\<open>unsigned int\<close> and stored as bytes, as the C code does.
  The theorem at the end says that the shipped \<^verbatim>\<open>hamm-tables.h\<close> is what the
  generator computes.
\<close>

text \<open>\<^verbatim>\<open>(i >> k) & 1\<close>\<close>

definition hg_bit :: "nat \<Rightarrow> u32 \<Rightarrow> u32" where
  "hg_bit k i = drop_bit k i AND 1"

section \<open>Bit reversal\<close>

definition gen_bit_reverse_entry :: "u32 \<Rightarrow> u8" where
  "gen_bit_reverse_entry i = ucast
     (drop_bit 7 (i AND 0x80) + drop_bit 5 (i AND 0x40)
      + drop_bit 3 (i AND 0x20) + drop_bit 1 (i AND 0x10)
      + push_bit 1 (i AND 0x08) + push_bit 3 (i AND 0x04)
      + push_bit 5 (i AND 0x02) + push_bit 7 (i AND 0x01))"

definition gen_bit_reverse :: "u8 list" where
  "gen_bit_reverse = map (\<lambda>i. gen_bit_reverse_entry (word_of_int i)) [0..255]"

section \<open>Hamming 8/4\<close>

definition gen_hamm8_code :: "u32 \<Rightarrow> u32" where
  "gen_hamm8_code i =
     (let D1 = hg_bit 0 i; D2 = hg_bit 1 i; D3 = hg_bit 2 i; D4 = hg_bit 3 i;
          P1 = 1 XOR D1 XOR D3 XOR D4;
          P2 = 1 XOR D1 XOR D2 XOR D4;
          P3 = 1 XOR D1 XOR D2 XOR D3;
          P4 = 1 XOR P1 XOR D1 XOR P2 XOR D2 XOR P3 XOR D3 XOR D4
      in P1 + push_bit 1 D1 + push_bit 2 P2 + push_bit 3 D2
         + push_bit 4 P3 + push_bit 5 D3 + push_bit 6 P4 + push_bit 7 D4)"

definition gen_hamm8_fwd :: "u8 list" where
  "gen_hamm8_fwd = map (\<lambda>i. ucast (gen_hamm8_code (word_of_int i))) [0..15]"

text \<open>One round of the loop: the code word and its eight single bit errors decode to \<open>i\<close>.\<close>

definition gen_hamm8_inv_step :: "int \<Rightarrow> u8 list \<Rightarrow> u8 list" where
  "gen_hamm8_inv_step i t =
     (let c = gen_hamm8_code (word_of_int i)
      in fold (\<lambda>j t. t[unat (c XOR push_bit j 1) := word_of_int i]) [0..<8] (t[unat c := word_of_int i]))"

definition gen_hamm8_inv :: "u8 list" where
  "gen_hamm8_inv = fold gen_hamm8_inv_step [0..15] (replicate 256 (- 1))"

section \<open>Hamming 24/18 forward\<close>

definition gen_hamm24_fwd_0_entry :: "u32 \<Rightarrow> u8" where
  "gen_hamm24_fwd_0_entry i =
     (let D1 = hg_bit 0 i; D2 = hg_bit 1 i; D3 = hg_bit 2 i; D4 = hg_bit 3 i;
          D5 = hg_bit 4 i; D6 = hg_bit 5 i; D7 = hg_bit 6 i; D8 = hg_bit 7 i;
          P1 = 1 XOR D1 XOR D2 XOR D4 XOR D5 XOR D7;
          P2 = 1 XOR D1 XOR D3 XOR D4 XOR D6 XOR D7;
          P3 = 1 XOR D2 XOR D3 XOR D4 XOR D8;
          P4 = 1 XOR D5 XOR D6 XOR D7 XOR D8
      in ucast (P1 + push_bit 1 P2 + push_bit 2 D1 + push_bit 3 P3
                + push_bit 4 D2 + push_bit 5 D3 + push_bit 6 D4 + push_bit 7 P4))"

definition gen_hamm24_fwd_1_entry :: "u32 \<Rightarrow> u8" where
  "gen_hamm24_fwd_1_entry i =
     (let D9 = hg_bit 0 i; D10 = hg_bit 1 i; D11 = hg_bit 2 i; D12 = hg_bit 3 i;
          D13 = hg_bit 4 i; D14 = hg_bit 5 i; D15 = hg_bit 6 i; D16 = hg_bit 7 i;
          P1 = D9 XOR D11 XOR D12 XOR D14 XOR D16;
          P2 = D10 XOR D11 XOR D13 XOR D14;
          P3 = D9 XOR D10 XOR D11 XOR D15 XOR D16;
          P4 = D9 XOR D10 XOR D11
      in ucast (P1 + push_bit 1 P2 + push_bit 3 P3 + push_bit 7 P4))"

definition gen_hamm24_fwd_2_entry :: "u32 \<Rightarrow> u8" where
  "gen_hamm24_fwd_2_entry i =
     (let D17 = hg_bit 0 i; D18 = hg_bit 1 i;
          P1 = D18; P2 = D17 XOR D18; P3 = D17 XOR D18; P4 = 0
      in ucast (P1 + push_bit 1 P2 + push_bit 3 P3 + push_bit 7 P4))"

definition gen_hamm24_fwd_tables :: "u8 list \<times> u8 list \<times> u8 list" where
  "gen_hamm24_fwd_tables =
     (map (\<lambda>i. gen_hamm24_fwd_0_entry (word_of_int i)) [0..255],
      map (\<lambda>i. gen_hamm24_fwd_1_entry (word_of_int i)) [0..255],
      map (\<lambda>i. gen_hamm24_fwd_2_entry (word_of_int i)) [0..3])"

section \<open>Hamming 24/18 inverse\<close>

definition gen_syndrome :: "u32 \<Rightarrow> u32 \<Rightarrow> u32 \<Rightarrow> u32 \<Rightarrow> u32 \<Rightarrow> u32 \<Rightarrow> u8" where
  "gen_syndrome A B C D E F = ucast
     (A + push_bit 1 B + push_bit 2 C + push_bit 3 D + push_bit 4 E + push_bit 5 F)"

definition gen_hamm24_inv_par_0_entry :: "u32 \<Rightarrow> u8" where
  "gen_hamm24_inv_par_0_entry i =
     (let P1 = hg_bit 0 i; P2 = hg_bit 1 i; D1 = hg_bit 2 i; P3 = hg_bit 3 i;
          D2 = hg_bit 4 i; D3 = hg_bit 5 i; D4 = hg_bit 6 i; P4 = hg_bit 7 i
      in gen_syndrome (P1 XOR D1 XOR D2 XOR D4) (P2 XOR D1 XOR D3 XOR D4)
           (P3 XOR D2 XOR D3 XOR D4) P4 0
           (P1 XOR P2 XOR D1 XOR P3 XOR D2 XOR D3 XOR D4 XOR P4))"

definition gen_hamm24_inv_par_1_entry :: "u32 \<Rightarrow> u8" where
  "gen_hamm24_inv_par_1_entry i =
     (let D5 = hg_bit 0 i; D6 = hg_bit 1 i; D7 = hg_bit 2 i; D8 = hg_bit 3 i;
          D9 = hg_bit 4 i; D10 = hg_bit 5 i; D11 = hg_bit 6 i; P5 = hg_bit 7 i
      in gen_syndrome (D5 XOR D7 XOR D9 XOR D11) (D6 XOR D7 XOR D10 XOR D11)
           (D8 XOR D9 XOR D10 XOR D11)
           (D5 XOR D6 XOR D7 XOR D8 XOR D9 XOR D10 XOR D11) P5
           (D5 XOR D6 XOR D7 XOR D8 XOR D9 XOR D10 XOR D11 XOR P5))"

definition gen_hamm24_inv_par_2_entry :: "u32 \<Rightarrow> u8" where
  "gen_hamm24_inv_par_2_entry i =
     (let D12 = hg_bit 0 i; D13 = hg_bit 1 i; D14 = hg_bit 2 i; D15 = hg_bit 3 i;
          D16 = hg_bit 4 i; D17 = hg_bit 5 i; D18 = hg_bit 6 i; P6 = hg_bit 7 i
      in gen_syndrome (D12 XOR D14 XOR D16 XOR D18) (D13 XOR D14 XOR D17 XOR D18)
           (D15 XOR D16 XOR D17 XOR D18) 0
           (D12 XOR D13 XOR D14 XOR D15 XOR D16 XOR D17 XOR D18)
           (D12 XOR D13 XOR D14 XOR D15 XOR D16 XOR D17 XOR D18 XOR P6) XOR 0x3F)"

definition gen_hamm24_inv_par :: "u8 list list" where
  "gen_hamm24_inv_par =
     [map (\<lambda>i. gen_hamm24_inv_par_0_entry (word_of_int i)) [0..255],
      map (\<lambda>i. gen_hamm24_inv_par_1_entry (word_of_int i)) [0..255],
      map (\<lambda>i. gen_hamm24_inv_par_2_entry (word_of_int i)) [0..255]]"

text \<open>The loop over 256 bytes writes entry \<open>i >> 2\<close>, four times with the same value.\<close>

definition gen_hamm24_inv_d1_d4 :: "u8 list" where
  "gen_hamm24_inv_d1_d4 =
     fold (\<lambda>n t. let i = word_of_int n :: u32 in
             t[unat (drop_bit 2 i) := ucast (hg_bit 2 i + push_bit 1 (hg_bit 4 i)
                                   + push_bit 2 (hg_bit 5 i) + push_bit 3 (hg_bit 6 i))])
          [0..255] (replicate 64 0)"

definition gen_hamm24_inv_err_entry :: "u32 \<Rightarrow> u32" where
  "gen_hamm24_inv_err_entry i =
     (let ii = i XOR 0x3F in
      if ii = 0 then 0
      else if ii AND 0x1F = 0 \<and> ii AND 0x20 = 0x20 then 0
      else if i AND 0x20 = 0x20 then push_bit 31 1
      else let Byte_0_3 = push_bit (unat ((ii AND 0x1F) - 1)) (1 :: u32) in
           if push_bit 23 1 \<le> Byte_0_3 then push_bit 31 1
           else drop_bit 2 (Byte_0_3 AND 0x000004) + drop_bit 3 (Byte_0_3 AND 0x000070)
                + drop_bit 4 (Byte_0_3 AND 0x007F00) + drop_bit 5 (Byte_0_3 AND 0x7F0000))"

definition gen_hamm24_inv_err :: "u32 list" where
  "gen_hamm24_inv_err =
     fold (\<lambda>n t. t[unat ((word_of_int n :: u32) XOR 0x3F) := gen_hamm24_inv_err_entry (word_of_int n)])
          [0..63] (replicate 64 0)"

section \<open>The shipped tables are the generated ones\<close>

lemma gen_hamm24_fwd_0_eq:
  "map (\<lambda>i. gen_hamm24_fwd_0_entry (word_of_int i)) [0..255] = vbi_hamm24_fwd_0"
  by code_simp

lemma gen_hamm24_fwd_1_eq:
  "map (\<lambda>i. gen_hamm24_fwd_1_entry (word_of_int i)) [0..255] = vbi_hamm24_fwd_1"
  by code_simp

lemma gen_hamm24_fwd_2_eq:
  "map (\<lambda>i. gen_hamm24_fwd_2_entry (word_of_int i)) [0..3] = vbi_hamm24_fwd_2"
  by code_simp

lemma gen_hamm24_inv_par_0_eq:
  "map (\<lambda>i. gen_hamm24_inv_par_0_entry (word_of_int i)) [0..255] = vbi_hamm24_inv_par_0"
  by code_simp

lemma gen_hamm24_inv_par_1_eq:
  "map (\<lambda>i. gen_hamm24_inv_par_1_entry (word_of_int i)) [0..255] = vbi_hamm24_inv_par_1"
  by code_simp

lemma gen_hamm24_inv_par_2_eq:
  "map (\<lambda>i. gen_hamm24_inv_par_2_entry (word_of_int i)) [0..255] = vbi_hamm24_inv_par_2"
  by code_simp

lemma gen_bit_reverse_eq: "gen_bit_reverse = vbi_bit_reverse"
  by code_simp

lemma gen_hamm8_fwd_eq: "gen_hamm8_fwd = vbi_hamm8_fwd"
  by code_simp

lemma gen_hamm8_inv_eq: "gen_hamm8_inv = vbi_hamm8_inv"
  by code_simp

lemma gen_hamm24_inv_d1_d4_eq: "gen_hamm24_inv_d1_d4 = vbi_hamm24_inv_d1_d4"
  by code_simp

lemma gen_hamm24_inv_err_eq: "gen_hamm24_inv_err = vbi_hamm24_inv_err"
  by code_simp

lemma gen_hamm24_inv_par_eq: "gen_hamm24_inv_par = vbi_hamm24_inv_par"
  by (simp only: gen_hamm24_inv_par_def vbi_hamm24_inv_par_def
      gen_hamm24_inv_par_0_eq gen_hamm24_inv_par_1_eq gen_hamm24_inv_par_2_eq)

end
