(* ===== verification/Hamm.thy ===== *)
theory Hamm
  imports Hammgen
begin

text \<open>
  The error protection functions of \<^verbatim>\<open>vbi/src/hamm.h\<close> and \<^verbatim>\<open>vbi/src/hamm.c\<close>:
  bit reversal, odd parity, Hamming 8/4 and Hamming 24/18. The interface
  \<open>secded\<close> states what a single error correcting, double error detecting code
  promises, proves the distance of its code words, and is interpreted for both codes.
\<close>

section \<open>Bit reversal\<close>

definition vbi_rev8 :: "u32 \<Rightarrow> u32" where
  "vbi_rev8 c = ucast (vbi_bit_reverse ! unat (ucast c :: u8))"

definition vbi_rev16 :: "u32 \<Rightarrow> u32" where
  "vbi_rev16 c = ucast (vbi_bit_reverse ! unat (ucast c :: u8)) * 256
     + ucast (vbi_bit_reverse ! unat (ucast (drop_bit 8 c) :: u8))"

definition vbi_rev16p :: "u8 list \<Rightarrow> u32" where
  "vbi_rev16p p = ucast (vbi_bit_reverse ! unat (p ! 0)) * 256
     + ucast (vbi_bit_reverse ! unat (p ! 1))"

section \<open>Parity\<close>

definition vbi_par8 :: "u32 \<Rightarrow> u32" where
  "vbi_par8 c = (let c = c AND 255 in
     c XOR (128 AND NOT (push_bit 2 (ucast (vbi_hamm24_inv_par ! 0 ! unat c)))))"

definition vbi_unpar8 :: "u32 \<Rightarrow> int" where
  "vbi_unpar8 c =
     (if vbi_hamm24_inv_par ! 0 ! unat (ucast c :: u8) AND 32 \<noteq> 0
      then uint (c AND 127) else - 1)"

text \<open>The array versions; the loop over \<open>n\<close> bytes is the recursion over the list.\<close>

primrec vbi_par :: "u8 list \<Rightarrow> u8 list" where
  "vbi_par [] = []"
| "vbi_par (c # p) =
     (c XOR (128 AND NOT (push_bit 2 (vbi_hamm24_inv_par ! 0 ! unat c)))) # vbi_par p"

primrec vbi_unpar_loop :: "u32 \<Rightarrow> u8 list \<Rightarrow> u32 \<times> u8 list" where
  "vbi_unpar_loop r [] = (r, [])"
| "vbi_unpar_loop r (c # p) =
     (let r = r OR push_bit 26 (NOT (ucast (vbi_hamm24_inv_par ! 0 ! unat c)));
          (r', p') = vbi_unpar_loop r p
      in (r', (c AND 127) # p'))"

definition vbi_unpar :: "u8 list \<Rightarrow> int \<times> u8 list" where
  "vbi_unpar p = (case vbi_unpar_loop 0 p of (r, p') \<Rightarrow> (sint r, p'))"

section \<open>Hamming 8/4\<close>

definition vbi_ham8 :: "u32 \<Rightarrow> u32" where
  "vbi_ham8 c = ucast (vbi_hamm8_fwd ! unat (c AND 15))"

definition vbi_unham8 :: "u32 \<Rightarrow> int" where
  "vbi_unham8 c = sint (vbi_hamm8_inv ! unat (ucast c :: u8))"

definition vbi_unham16p :: "u8 list \<Rightarrow> int" where
  "vbi_unham16p p =
     sint (vbi_hamm8_inv ! unat (p ! 0)) OR push_bit 4 (sint (vbi_hamm8_inv ! unat (p ! 1)))"

section \<open>Hamming 24/18\<close>

definition vbi_ham24p :: "u32 \<Rightarrow> u8 list" where
  "vbi_ham24p c =
     (let Byte_0 = ucast (vbi_hamm24_fwd_0 ! unat (c AND 0xFF))
                   XOR ucast (vbi_hamm24_fwd_1 ! unat (drop_bit 8 c AND 0xFF))
                   XOR ucast (vbi_hamm24_fwd_2 ! unat (drop_bit 16 c AND 0x03)) :: u32;
          D5_D11 = drop_bit 4 c AND 0x7F;
          D12_D18 = drop_bit 11 c AND 0x7F;
          P5 = 0x80 AND NOT (push_bit 2 (ucast (vbi_hamm24_inv_par ! 0 ! unat D12_D18)));
          P6 = 0x80 AND push_bit 2 (ucast (vbi_hamm24_inv_par ! 0 ! unat Byte_0
                                     XOR vbi_hamm24_inv_par ! 0 ! unat D5_D11))
      in [ucast Byte_0, ucast (D5_D11 OR P5), ucast (D12_D18 OR P6)])"

definition vbi_unham24p :: "u8 list \<Rightarrow> int" where
  "vbi_unham24p p =
     (let D1_D4 = ucast (vbi_hamm24_inv_d1_d4 ! unat (drop_bit 2 (p ! 0))) :: u32;
          D5_D11 = ucast (p ! 1) AND 0x7F;
          D12_D18 = ucast (p ! 2) AND 0x7F;
          d = D1_D4 OR push_bit 4 D5_D11 OR push_bit 11 D12_D18;
          ABCDEF = vbi_hamm24_inv_par ! 0 ! unat (p ! 0)
                   XOR vbi_hamm24_inv_par ! 1 ! unat (p ! 1)
                   XOR vbi_hamm24_inv_par ! 2 ! unat (p ! 2)
      in sint (d XOR vbi_hamm24_inv_err ! unat ABCDEF))"

section \<open>The tables as linear maps\<close>

definition inv_par_0_rows :: "u8 list" where
  "inv_par_0_rows = [0x21, 0x22, 0x23, 0x24, 0x25, 0x26, 0x27, 0x28]"

definition inv_par_1_rows :: "u8 list" where
  "inv_par_1_rows = [0x29, 0x2a, 0x2b, 0x2c, 0x2d, 0x2e, 0x2f, 0x30]"

definition inv_par_2_rows :: "u8 list" where
  "inv_par_2_rows = [0x31, 0x32, 0x33, 0x34, 0x35, 0x36, 0x37, 0x20]"

lemma inv_par_0_table: "vbi_hamm24_inv_par ! 0 = xor_table inv_par_0_rows"
  by (simp add: vbi_hamm24_inv_par_def xor_table_def inv_par_0_rows_def vbi_hamm24_inv_par_0_def)

lemma inv_par_1_table: "vbi_hamm24_inv_par ! 1 = xor_table inv_par_1_rows"
  by (simp add: vbi_hamm24_inv_par_def xor_table_def inv_par_1_rows_def vbi_hamm24_inv_par_1_def)

lemma inv_par_2_table:
  "vbi_hamm24_inv_par ! 2 = map (\<lambda>x. x XOR 0x3F) (xor_table inv_par_2_rows)"
  by (simp add: vbi_hamm24_inv_par_def xor_table_def inv_par_2_rows_def vbi_hamm24_inv_par_2_def)

lemma hamm24_fwd_0_table:
  "vbi_hamm24_fwd_0 = map (\<lambda>x. x XOR 0x8b)
     (xor_table [0x07, 0x19, 0x2a, 0x4b, 0x81, 0x82, 0x83, 0x88])"
  by (simp add: xor_table_def vbi_hamm24_fwd_0_def)

lemma hamm24_fwd_1_table:
  "vbi_hamm24_fwd_1 = xor_table [0x89, 0x8a, 0x8b, 0x01, 0x02, 0x03, 0x08, 0x09]"
  by (simp add: xor_table_def vbi_hamm24_fwd_1_def)

lemma hamm24_fwd_2_table: "vbi_hamm24_fwd_2 = xor_table [0x0a, 0x0b]"
  by (simp add: xor_table_def vbi_hamm24_fwd_2_def)

lemma bit_reverse_table:
  "vbi_bit_reverse = xor_table [0x80, 0x40, 0x20, 0x10, 0x08, 0x04, 0x02, 0x01]"
  by (simp add: xor_table_def vbi_bit_reverse_def)

lemma inv_d1_d4_table: "vbi_hamm24_inv_d1_d4 = xor_table [1, 0, 2, 4, 8, 0]"
  by (simp add: xor_table_def vbi_hamm24_inv_d1_d4_def)

lemma inv_par_nth:
  "vbi_hamm24_inv_par ! 0 ! unat (a :: u8) = xor_rows inv_par_0_rows a"
  "vbi_hamm24_inv_par ! 1 ! unat (a :: u8) = xor_rows inv_par_1_rows a"
  "vbi_hamm24_inv_par ! 2 ! unat (a :: u8) = xor_rows inv_par_2_rows a XOR 0x3F"
  by (simp_all only: inv_par_0_table inv_par_1_table inv_par_2_table)
    (simp_all add: xor_table_nth_u8 inv_par_0_rows_def inv_par_1_rows_def inv_par_2_rows_def)

text \<open>The three bytes of a Hamming 24/18 code word as affine maps of the data bits.\<close>

definition ham24_rows_0 :: "u8 list" where
  "ham24_rows_0 = [0x7, 0x19, 0x2a, 0x4b, 0x81, 0x82, 0x83, 0x88, 0x89, 0x8a, 0x8b, 0x1, 0x2, 0x3, 0x8, 0x9, 0xa, 0xb]"

definition ham24_rows_1 :: "u8 list" where
  "ham24_rows_1 = [0x0, 0x0, 0x0, 0x0, 0x1, 0x2, 0x4, 0x8, 0x10, 0x20, 0x40, 0x80, 0x80, 0x80, 0x80, 0x80, 0x80, 0x80]"

definition ham24_rows_2 :: "u8 list" where
  "ham24_rows_2 = [0x80, 0x80, 0x80, 0x0, 0x80, 0x80, 0x0, 0x80, 0x0, 0x0, 0x80, 0x81, 0x82, 0x4, 0x88, 0x10, 0x20, 0xc0]"

lemma hamm24_fwd_nth:
  "vbi_hamm24_fwd_0 ! unat (c AND 0xFF)
     = xor_rows [0x07, 0x19, 0x2a, 0x4b, 0x81, 0x82, 0x83, 0x88] (c :: u32) XOR 0x8b"
  "vbi_hamm24_fwd_1 ! unat (c AND 0xFF)
     = xor_rows [0x89, 0x8a, 0x8b, 0x01, 0x02, 0x03, 0x08, 0x09] c"
  "vbi_hamm24_fwd_2 ! unat (c AND 0x03) = xor_rows [0x0a, 0x0b] c"
  using xor_table_nth_mask [of "[0x07, 0x19, 0x2a, 0x4b, 0x81, 0x82, 0x83, 0x88 :: u8]" c]
    xor_table_nth_mask [of "[0x89, 0x8a, 0x8b, 0x01, 0x02, 0x03, 0x08, 0x09 :: u8]" c]
    xor_table_nth_mask [of "[0x0a, 0x0b :: u8]" c]
    length_xor_table_mask [of c "[0x07, 0x19, 0x2a, 0x4b, 0x81, 0x82, 0x83, 0x88 :: u8]"]
  by (simp_all add: hamm24_fwd_0_table hamm24_fwd_1_table hamm24_fwd_2_table mask_eq_decr_exp
      del: length_xor_table xor_rows.simps)

lemma ham24_byte_0:
  "vbi_hamm24_fwd_0 ! unat (c AND 0xFF) XOR vbi_hamm24_fwd_1 ! unat (drop_bit 8 c AND 0xFF)
     XOR vbi_hamm24_fwd_2 ! unat (drop_bit 16 c AND 0x03) = xor_rows ham24_rows_0 (c :: u32) XOR 0x8b"
proof -
  have split: "ham24_rows_0 = [0x07, 0x19, 0x2a, 0x4b, 0x81, 0x82, 0x83, 0x88]
      @ [0x89, 0x8a, 0x8b, 0x01, 0x02, 0x03, 0x08, 0x09] @ [0x0a, 0x0b]"
    by (simp add: ham24_rows_0_def)
  show ?thesis
    unfolding split xor_rows_append hamm24_fwd_nth
    by (simp add: ac_simps numeral_eq_Suc del: xor_rows.simps)
qed

lemma inv_par_0_mask7:
  "vbi_hamm24_inv_par ! 0 ! unat (w AND 0x7F :: u32) = xor_rows (take 7 inv_par_0_rows) w"
proof -
  have "xor_table inv_par_0_rows ! unat (w AND 0x7F) = xor_rows inv_par_0_rows (w AND 0x7F)"
    using unat_and_mask_less [of w 7]
    by (intro xor_table_nth) (simp add: mask_eq_decr_exp inv_par_0_rows_def)
  also have "\<dots> = xor_rows (take 7 inv_par_0_rows) w"
    using xor_rows_mask [of inv_par_0_rows w 7] by (simp add: mask_eq_decr_exp)
  finally show ?thesis by (simp only: inv_par_0_table)
qed

lemma inv_par_0_ucast:
  "vbi_hamm24_inv_par ! 0 ! unat (ucast (b :: u8) :: u32) = xor_rows inv_par_0_rows b"
  by (simp add: inv_par_nth)

lemma ham24_byte_1:
  "ucast ((drop_bit 4 c AND 0x7F)
     OR (0x80 AND NOT (push_bit 2 (ucast (xor_rows (take 7 inv_par_0_rows) (drop_bit 11 c)))))) =
   xor_rows ham24_rows_1 (c :: u32) XOR (0x80 :: u8)"
  by (rule u8_eqI)
    (simp_all only: inv_par_0_rows_def ham24_rows_1_def bit_xor_rows bit_unsigned_iff bit_or_iff
      bit_and_iff bit_not_iff bit_push_bit_iff bit_xor_iff bit_drop_bit_eq comp_def take_Cons_numeral take_Cons',
      simp_all add: bit_drop_bit_eq numeral_eq_Suc del: bit_0)

lemma ham24_parity_rows:
  "xor_rows inv_par_0_rows (xor_rows ham24_rows_0 c XOR 0x8b)
     XOR xor_rows (take 7 inv_par_0_rows) (drop_bit 4 c) =
   xor_rows [0x20, 0x20, 0x20, 0x0, 0x28, 0x28, 0x8, 0x28, 0x8, 0x8, 0x28, 0x21, 0x22, 0x3, 0x24, 0x5, 0x6, 0x27] (c :: u32) XOR 0xf"
proof -
  have const: "xor_rows inv_par_0_rows (0x8b :: u8) = 0xf"
    by (simp add: inv_par_0_rows_def)
  let ?A = "map (xor_rows inv_par_0_rows) ham24_rows_0"
  let ?B = "(replicate 4 0 @ take 7 inv_par_0_rows) @ replicate 7 0 :: u8 list"
  have "xor_rows inv_par_0_rows (xor_rows ham24_rows_0 c XOR 0x8b) = xor_rows ?A c XOR 0xf"
    unfolding xor_rows_xor xor_rows_comp const by (rule refl)
  moreover have "xor_rows (take 7 inv_par_0_rows) (drop_bit 4 c) = xor_rows ?B c"
    unfolding xor_rows_drop_bit xor_rows_pad by (rule refl)
  moreover have "xor_rows ?A c XOR xor_rows ?B c = xor_rows (map2 (XOR) ?A ?B) c"
    by (rule xor_rows_add) (simp add: ham24_rows_0_def inv_par_0_rows_def)
  moreover have "map2 (XOR) ?A ?B = [0x20, 0x20, 0x20, 0x0, 0x28, 0x28, 0x8, 0x28, 0x8, 0x8, 0x28, 0x21, 0x22, 0x3, 0x24, 0x5, 0x6, 0x27]"
    by code_simp
  ultimately show ?thesis
    by (simp only: ac_simps)
qed

lemma ham24_byte_2:
  "ucast (drop_bit 11 c AND 0x7F OR 0x80 AND push_bit 2 (ucast
       (xor_rows inv_par_0_rows (xor_rows ham24_rows_0 c XOR 0x8b)
        XOR xor_rows (take 7 inv_par_0_rows) (drop_bit 4 c)) :: u32)) =
   xor_rows ham24_rows_2 (c :: u32)"
  unfolding ham24_parity_rows
  by (rule u8_eqI)
    (simp_all only: ham24_rows_2_def bit_xor_rows bit_unsigned_iff
      bit_or_iff bit_and_iff bit_not_iff bit_push_bit_iff bit_xor_iff bit_drop_bit_eq comp_def,
      simp_all add: bit_drop_bit_eq numeral_eq_Suc del: bit_0)

lemma vbi_ham24p_rows:
  "vbi_ham24p c = [xor_rows ham24_rows_0 c XOR 0x8b, xor_rows ham24_rows_1 c XOR 0x80,
                   xor_rows ham24_rows_2 c]"
proof -
  let ?b = "xor_rows ham24_rows_0 c XOR 0x8b :: u8"
  have B0: "ucast (vbi_hamm24_fwd_0 ! unat (c AND 0xFF)) XOR ucast (vbi_hamm24_fwd_1 ! unat (drop_bit 8 c AND 0xFF))
      XOR ucast (vbi_hamm24_fwd_2 ! unat (drop_bit 16 c AND 0x03)) = (ucast ?b :: u32)"
    by (simp only: ham24_byte_0 [symmetric] unsigned_xor_eq)
  show ?thesis
    unfolding vbi_ham24p_def Let_def B0 inv_par_0_mask7 inv_par_0_ucast ham24_byte_1 ham24_byte_2
    by simp
qed

text \<open>The decoder: data bits and syndrome, both linear in the three bytes.\<close>

definition data_rows_0 :: "u32 list" where
  "data_rows_0 = [0, 0, 1, 0, 2, 4, 8, 0]"

definition data_rows_1 :: "u32 list" where
  "data_rows_1 = [0x10, 0x20, 0x40, 0x80, 0x100, 0x200, 0x400, 0]"

definition data_rows_2 :: "u32 list" where
  "data_rows_2 = [0x800, 0x1000, 0x2000, 0x4000, 0x8000, 0x10000, 0x20000, 0]"

lemmas data_rows_defs = data_rows_0_def data_rows_1_def data_rows_2_def

definition ham24_data :: "u8 list \<Rightarrow> u32" where
  "ham24_data p = xor_rows data_rows_0 (p ! 0) XOR xor_rows data_rows_1 (p ! 1)
     XOR xor_rows data_rows_2 (p ! 2)"

definition ham24_syndrome :: "u8 list \<Rightarrow> u8" where
  "ham24_syndrome p = xor_rows inv_par_0_rows (p ! 0) XOR xor_rows inv_par_1_rows (p ! 1)
     XOR xor_rows inv_par_2_rows (p ! 2) XOR 0x3F"

lemma ham24_d1_d4:
  "ucast (vbi_hamm24_inv_d1_d4 ! unat (drop_bit 2 (b :: u8))) = (xor_rows [0, 0, 1, 0, 2, 4, 8, 0] b :: u32)"
proof -
  have "unat (drop_bit 2 b) < 2 ^ 6"
    by (simp only: unsigned_drop_bit_eq)
      (simp add: drop_bit_eq_div take_bit_nat_eq_self less_mult_imp_div_less)
  then have "vbi_hamm24_inv_d1_d4 ! unat (drop_bit 2 b) = xor_rows [1, 0, 2, 4, 8, 0] (drop_bit 2 b)"
    unfolding inv_d1_d4_table by (intro xor_table_nth) simp
  then have "ucast (vbi_hamm24_inv_d1_d4 ! unat (drop_bit 2 b))
      = (xor_rows (map ucast (replicate 2 0 @ [1, 0, 2, 4, 8, 0 :: u8])) b :: u32)"
    by (simp only: ucast_xor_rows xor_rows_drop_bit)
  moreover have "map ucast (replicate 2 0 @ [1, 0, 2, 4, 8, 0 :: u8]) = [0, 0, 1, 0, 2, 4, 8, 0 :: u32]"
    by code_simp
  ultimately show ?thesis by (simp only:)
qed

lemma ham24_d5_d11:
  "push_bit 4 (ucast b AND 0x7F) = (xor_rows [0x10, 0x20, 0x40, 0x80, 0x100, 0x200, 0x400, 0] (b :: u8) :: u32)"
proof (rule xor_linear_eqI [where w = b])
  fix k assume "k < LENGTH(8)"
  then have "k \<in> set [0..<8]" by auto
  moreover have "\<forall>k \<in> set [0..<8]. push_bit 4 (ucast (push_bit k 1 :: u8) AND 0x7F) =
      (xor_rows [0x10, 0x20, 0x40, 0x80, 0x100, 0x200, 0x400, 0] (push_bit k 1 :: u8) :: u32)"
    by code_simp
  ultimately show "push_bit 4 (ucast (push_bit k 1 :: u8) AND 0x7F) =
      (xor_rows [0x10, 0x20, 0x40, 0x80, 0x100, 0x200, 0x400, 0] (push_bit k 1 :: u8) :: u32)"
    by blast
qed (simp_all add: unsigned_xor_eq push_bit_xor xor_rows_xor and.commute [of _ "0x7F"] bit.conj_xor_distrib
    del: xor_rows.simps)

lemma ham24_d12_d18:
  "push_bit 11 (ucast b AND 0x7F) =
     (xor_rows [0x800, 0x1000, 0x2000, 0x4000, 0x8000, 0x10000, 0x20000, 0] (b :: u8) :: u32)"
proof (rule xor_linear_eqI [where w = b])
  fix k assume "k < LENGTH(8)"
  then have "k \<in> set [0..<8]" by auto
  moreover have "\<forall>k \<in> set [0..<8]. push_bit 11 (ucast (push_bit k 1 :: u8) AND 0x7F) =
      (xor_rows [0x800, 0x1000, 0x2000, 0x4000, 0x8000, 0x10000, 0x20000, 0] (push_bit k 1 :: u8) :: u32)"
    by code_simp
  ultimately show "push_bit 11 (ucast (push_bit k 1 :: u8) AND 0x7F) =
      (xor_rows [0x800, 0x1000, 0x2000, 0x4000, 0x8000, 0x10000, 0x20000, 0] (push_bit k 1 :: u8) :: u32)"
    by blast
qed (simp_all add: unsigned_xor_eq push_bit_xor xor_rows_xor and.commute [of _ "0x7F"] bit.conj_xor_distrib
    del: xor_rows.simps)

text \<open>The three parts of the data word occupy different bits, so OR is XOR.\<close>

lemma ham24_or_xor:
  "ucast (vbi_hamm24_inv_d1_d4 ! unat (drop_bit 2 (a :: u8))) OR push_bit 4 (ucast (b :: u8) AND 0x7F)
     OR push_bit 11 (ucast (d :: u8) AND 0x7F) = ham24_data [a, b, d]"
proof -
  have disj: "x OR y OR z = x XOR y XOR z"
    if "x AND y = 0" "(x OR y) AND z = 0" for x y z :: u32
  proof -
    have "x OR y OR z = (x OR y) OR z" by (simp only: or.assoc)
    also have "\<dots> = (x XOR y) XOR z"
      using that by (simp add: disjunctive_xor_eq_or)
    finally show ?thesis by (simp only: xor.assoc)
  qed
  let ?X = "[0, 0, 1, 0, 2, 4, 8, 0] :: u32 list"
  let ?Y = "[0x10, 0x20, 0x40, 0x80, 0x100, 0x200, 0x400, 0] :: u32 list"
  let ?Z = "[0x800, 0x1000, 0x2000, 0x4000, 0x8000, 0x10000, 0x20000, 0] :: u32 list"
  have xy: "xor_rows ?X a AND xor_rows ?Y b = 0"
    by (rule xor_rows_disjoint [where m = "0xF" and n = "0x7F0"]) (simp_all del: xor_rows.simps)
  have xz: "xor_rows ?X a AND xor_rows ?Z d = 0"
    by (rule xor_rows_disjoint [where m = "0xF" and n = "0x3F800"]) (simp_all del: xor_rows.simps)
  have yz: "xor_rows ?Y b AND xor_rows ?Z d = 0"
    by (rule xor_rows_disjoint [where m = "0x7F0" and n = "0x3F800"]) (simp_all del: xor_rows.simps)
  have data: "ham24_data [a, b, d] = xor_rows ?X a XOR xor_rows ?Y b XOR xor_rows ?Z d"
    by (simp add: ham24_data_def data_rows_defs del: xor_rows.simps)
  show ?thesis
    unfolding ham24_d1_d4 ham24_d5_d11 ham24_d12_d18 data
    by (rule disj) (simp_all only: xy xz yz bit.conj_disj_distrib2 or.right_neutral)
qed

lemma vbi_unham24p_linear:
  "vbi_unham24p [a, b, d] =
     sint (ham24_data [a, b, d] XOR vbi_hamm24_inv_err ! unat (ham24_syndrome [a, b, d]))"
  unfolding vbi_unham24p_def Let_def
  by (simp only: nth_Cons_0 nth_Cons_Suc numeral_2_eq_2 One_nat_def inv_par_nth [unfolded numeral_2_eq_2 One_nat_def]
      ham24_or_xor [unfolded numeral_2_eq_2 One_nat_def] ham24_syndrome_def xor.assoc)

section \<open>Hamming 24/18 corrects one error and detects two\<close>

lemma xor_rows_comp_affine:
  "xor_rows rs (xor_rows ss w XOR k) = xor_rows (map (xor_rows rs) ss) w XOR xor_rows rs k"
  by (simp only: xor_rows_xor xor_rows_comp)

lemma ham24_code_syndrome: "ham24_syndrome (vbi_ham24p c) = 0"
proof -
  let ?A = "map (xor_rows inv_par_0_rows) ham24_rows_0"
  let ?B = "map (xor_rows inv_par_1_rows) ham24_rows_1"
  let ?C = "map (xor_rows inv_par_2_rows) ham24_rows_2"
  have lens: "length ?A = length ?B" "length (map2 (XOR) ?A ?B) = length ?C"
    by (simp_all add: ham24_rows_0_def ham24_rows_1_def ham24_rows_2_def)
  have zero: "map2 (XOR) (map2 (XOR) ?A ?B) ?C = replicate 18 0"
    by code_simp
  have k: "xor_rows inv_par_0_rows (0x8b :: u8) XOR xor_rows inv_par_1_rows (0x80 :: u8) XOR 0x3F = 0"
    by code_simp
  have "ham24_syndrome (vbi_ham24p c) =
      ((xor_rows ?A c XOR xor_rows ?B c) XOR xor_rows ?C c)
      XOR (xor_rows inv_par_0_rows (0x8b :: u8) XOR xor_rows inv_par_1_rows (0x80 :: u8) XOR 0x3F)"
    unfolding ham24_syndrome_def vbi_ham24p_rows
    by (simp only: nth_Cons_0 nth_Cons_Suc numeral_2_eq_2 One_nat_def xor_rows_comp_affine
        xor_rows_comp ac_simps)
  then show ?thesis
    unfolding xor_rows_add [OF lens(1)] xor_rows_add [OF lens(2)] zero k by simp
qed

lemma xor_rows_identity: "xor_rows (map (\<lambda>k. push_bit k 1) [0..<n]) (w :: 'a::len word) = take_bit n w"
proof (induction n)
  case 0
  show ?case by simp
next
  case (Suc n)
  have "take_bit (Suc n) w = take_bit n w XOR (if bit w n then push_bit n 1 else 0)"
    by (rule bit_eqI) (auto simp: bit_simps less_Suc_eq)
  then show ?case by (simp add: xor_rows_snoc Suc del: push_bit_of_1)
qed

lemma ham24_code_data: "ham24_data (vbi_ham24p c) = take_bit 18 c"
proof -
  let ?A = "map (xor_rows data_rows_0) ham24_rows_0"
  let ?B = "map (xor_rows data_rows_1) ham24_rows_1"
  let ?C = "map (xor_rows data_rows_2) ham24_rows_2"
  have lens: "length ?A = length ?B" "length (map2 (XOR) ?A ?B) = length ?C"
    by (simp_all add: ham24_rows_0_def ham24_rows_1_def ham24_rows_2_def)
  have ident: "map2 (XOR) (map2 (XOR) ?A ?B) ?C = map (\<lambda>k. push_bit k 1) [0..<18]"
    by code_simp
  have k: "xor_rows data_rows_0 (0x8b :: u8) XOR xor_rows data_rows_1 (0x80 :: u8) = 0"
    by code_simp
  have "ham24_data (vbi_ham24p c) =
      ((xor_rows ?A c XOR xor_rows ?B c) XOR xor_rows ?C c)
      XOR (xor_rows data_rows_0 (0x8b :: u8) XOR xor_rows data_rows_1 (0x80 :: u8))"
    unfolding ham24_data_def vbi_ham24p_rows
    by (simp only: nth_Cons_0 nth_Cons_Suc numeral_2_eq_2 One_nat_def xor_rows_comp_affine
        xor_rows_comp ac_simps)
  then show ?thesis
    unfolding xor_rows_add [OF lens(1)] xor_rows_add [OF lens(2)] ident k xor_rows_identity by simp
qed

text \<open>Flipping bit \<open>k\<close> of a transmitted byte sequence, first byte and lsb first.\<close>

definition flip_bit_p :: "nat \<Rightarrow> u8 list \<Rightarrow> u8 list" where
  "flip_bit_p k p = p[k div 8 := p ! (k div 8) XOR push_bit (k mod 8) 1]"

definition ham24_syndrome_rows :: "u8 list" where
  "ham24_syndrome_rows = inv_par_0_rows @ inv_par_1_rows @ inv_par_2_rows"

definition ham24_data_rows :: "u32 list" where
  "ham24_data_rows = data_rows_0 @ data_rows_1 @ data_rows_2"

lemma length_flip_bit_p [simp]: "length (flip_bit_p k p) = length p"
  by (simp add: flip_bit_p_def)

lemma three_bytes_cases:
  assumes "length p = 3"
  obtains a b d where "p = [a, b, d]"
  using assms by (auto simp: numeral_3_eq_3 length_Suc_conv)

lemma flip_byte_linear:
  assumes len: "length p = 3" and i: "i < 3" and j: "j < 8"
  shows "ham24_syndrome (p[i := p ! i XOR push_bit j 1]) = ham24_syndrome p XOR ham24_syndrome_rows ! (8 * i + j)"
    and "ham24_data (p[i := p ! i XOR push_bit j 1]) = ham24_data p XOR ham24_data_rows ! (8 * i + j)"
proof -
  obtain a b d where p: "p = [a, b, d]" using len by (rule three_bytes_cases)
  have lens: "length inv_par_0_rows = 8" "length inv_par_1_rows = 8" "length inv_par_2_rows = 8"
    "length data_rows_0 = 8" "length data_rows_1 = 8" "length data_rows_2 = 8"
    by (simp_all add: inv_par_0_rows_def inv_par_1_rows_def inv_par_2_rows_def data_rows_defs)
  have pb: "xor_rows inv_par_0_rows (push_bit j 1 :: u8) = inv_par_0_rows ! j"
    "xor_rows inv_par_1_rows (push_bit j 1 :: u8) = inv_par_1_rows ! j"
    "xor_rows inv_par_2_rows (push_bit j 1 :: u8) = inv_par_2_rows ! j"
    "xor_rows data_rows_0 (push_bit j 1 :: u8) = data_rows_0 ! j"
    "xor_rows data_rows_1 (push_bit j 1 :: u8) = data_rows_1 ! j"
    "xor_rows data_rows_2 (push_bit j 1 :: u8) = data_rows_2 ! j"
    by (rule xor_rows_push_bit; use lens j in simp)+
  have i': "i = 0 \<or> i = 1 \<or> i = 2" using i by auto
  from i' show "ham24_syndrome (p[i := p ! i XOR push_bit j 1]) =
      ham24_syndrome p XOR ham24_syndrome_rows ! (8 * i + j)"
    by (elim disjE) (simp_all add: p ham24_syndrome_def ham24_syndrome_rows_def xor_rows_xor
        pb lens j nth_append ac_simps del: push_bit_of_1)
  from i' show "ham24_data (p[i := p ! i XOR push_bit j 1]) =
      ham24_data p XOR ham24_data_rows ! (8 * i + j)"
    by (elim disjE) (simp_all add: p ham24_data_def ham24_data_rows_def xor_rows_xor
        pb lens j nth_append ac_simps del: push_bit_of_1)
qed

lemma flip_bit_p_linear:
  assumes len: "length p = 3" and k: "k < 24"
  shows "ham24_syndrome (flip_bit_p k p) = ham24_syndrome p XOR ham24_syndrome_rows ! k"
    and "ham24_data (flip_bit_p k p) = ham24_data p XOR ham24_data_rows ! k"
proof -
  have "k div 8 < 3" "k mod 8 < 8" using k by auto
  from flip_byte_linear [OF len this]
  show "ham24_syndrome (flip_bit_p k p) = ham24_syndrome p XOR ham24_syndrome_rows ! k"
    and "ham24_data (flip_bit_p k p) = ham24_data p XOR ham24_data_rows ! k"
    by (simp_all add: flip_bit_p_def del: push_bit_of_1)
qed

lemma syndrome_rows_check:
  "list_all (\<lambda>k. vbi_hamm24_inv_err ! unat (ham24_syndrome_rows ! k) = ham24_data_rows ! k
     \<and> bit (ham24_syndrome_rows ! k) 5
     \<and> \<not> bit (ham24_syndrome_rows ! k) 6 \<and> \<not> bit (ham24_syndrome_rows ! k) 7
     \<and> ham24_data_rows ! k < 2 ^ 18) [0..<24]"
  by code_simp

lemma syndrome_rows_facts:
  assumes "k < 24"
  shows "vbi_hamm24_inv_err ! unat (ham24_syndrome_rows ! k) = ham24_data_rows ! k"
    and "bit (ham24_syndrome_rows ! k) 5"
    and "\<not> bit (ham24_syndrome_rows ! k) 6" "\<not> bit (ham24_syndrome_rows ! k) 7"
    and "ham24_data_rows ! k < 2 ^ 18"
  using assms syndrome_rows_check unfolding list_all_upt by blast+

lemma distinct_syndrome_rows: "distinct ham24_syndrome_rows" "length ham24_syndrome_rows = 24"
  by code_simp+

lemma inv_err_even_check: "list_all (\<lambda>k. k = 0 \<or> vbi_hamm24_inv_err ! k = 0x80000000) [0..<32]"
  by code_simp

text \<open>Two flips leave a non-zero syndrome with an even overall parity: entry 0x80000000.\<close>

lemma inv_err_double:
  assumes "j < 24" "k < 24" "j \<noteq> k"
  shows "vbi_hamm24_inv_err ! unat (ham24_syndrome_rows ! j XOR ham24_syndrome_rows ! k) = 0x80000000"
proof -
  let ?s = "ham24_syndrome_rows ! j XOR ham24_syndrome_rows ! k"
  have ne: "?s \<noteq> 0"
    using assms distinct_syndrome_rows by (simp add: nth_eq_iff_index_eq)
  have "?s = take_bit 5 ?s"
  proof (rule u8_eqI)
    show "bit ?s 5 = bit (take_bit 5 ?s) 5"
      using syndrome_rows_facts(2) assms by (simp add: bit_simps)
    show "bit ?s 6 = bit (take_bit 5 ?s) 6" "bit ?s 7 = bit (take_bit 5 ?s) 7"
      using syndrome_rows_facts(3,4) assms by (simp_all add: bit_simps)
  qed (simp_all add: bit_simps)
  then have "unat ?s = take_bit 5 (unat ?s)"
    by (metis unsigned_take_bit_eq)
  then have "unat ?s < 32"
    using take_bit_nat_less_exp [of 5 "unat ?s"] by simp
  moreover have "unat ?s \<noteq> 0" using ne by (simp add: unat_eq_0)
  ultimately show ?thesis
    using inv_err_even_check by (auto simp only: list_all_upt)
qed

lemma length_vbi_ham24p [simp]: "length (vbi_ham24p c) = 3"
  by (simp add: vbi_ham24p_def Let_def)

lemma vbi_unham24p_linear3:
  "length p = 3 \<Longrightarrow> vbi_unham24p p = sint (ham24_data p XOR vbi_hamm24_inv_err ! unat (ham24_syndrome p))"
  by (erule three_bytes_cases) (simp only: vbi_unham24p_linear)

lemma ham24_ok:
  assumes "c < 2 ^ 18"
  shows "vbi_unham24p (vbi_ham24p c) = uint c"
proof -
  have "take_bit 18 c = c"
    using assms by (intro take_bit_small) simp_all
  moreover have "vbi_hamm24_inv_err ! 0 = 0" by (simp add: vbi_hamm24_inv_err_def)
  ultimately show ?thesis
    using assms by (simp add: vbi_unham24p_linear3 ham24_code_syndrome ham24_code_data sint_small [where n = 18])
qed

lemma ham24_single_error:
  assumes "c < 2 ^ 18" and "k < 24"
  shows "vbi_unham24p (flip_bit_p k (vbi_ham24p c)) = uint c"
proof -
  have "take_bit 18 c = c"
    using assms by (intro take_bit_small) simp_all
  then show ?thesis
    using assms syndrome_rows_facts(1) [of k]
    by (simp add: vbi_unham24p_linear3 flip_bit_p_linear ham24_code_syndrome ham24_code_data
        xor.assoc sint_small [where n = 18])
qed

lemma ham24_double_error:
  assumes "c < 2 ^ 18" and "j < 24" and "k < 24" and "j \<noteq> k"
  shows "vbi_unham24p (flip_bit_p j (flip_bit_p k (vbi_ham24p c))) < 0"
proof -
  let ?d = "(c XOR ham24_data_rows ! k) XOR ham24_data_rows ! j"
  have "\<not> bit c 31" "\<not> bit (ham24_data_rows ! j) 31" "\<not> bit (ham24_data_rows ! k) 31"
    by (rule not_bit_small [where n = 18]; use assms syndrome_rows_facts(5) in simp)+
  then have "bit (?d XOR 0x80000000) 31"
    by (simp add: bit_simps)
  moreover have "take_bit 18 c = c"
    using assms by (intro take_bit_small) simp_all
  ultimately show ?thesis
    using assms inv_err_double [of k j]
    by (simp add: vbi_unham24p_linear3 flip_bit_p_linear ham24_code_syndrome ham24_code_data
        bit_last_iff [symmetric])
qed

section \<open>Hamming 8/4 corrects one error and detects two\<close>

definition ham8_byte :: "u32 \<Rightarrow> u8" where
  "ham8_byte d = ucast (vbi_ham8 d)"

definition unham8_byte :: "u8 \<Rightarrow> int" where
  "unham8_byte b = vbi_unham8 (ucast b)"

definition flip_bit_b :: "nat \<Rightarrow> u8 \<Rightarrow> u8" where
  "flip_bit_b k b = b XOR push_bit k 1"

lemma ham8_single_check:
  "list_all (\<lambda>d. unham8_byte (ham8_byte (word_of_int d)) = d
     \<and> list_all (\<lambda>k. unham8_byte (flip_bit_b k (ham8_byte (word_of_int d))) = d) [0..<8]) [0..15]"
  by code_simp

lemma ham8_double_check:
  "list_all (\<lambda>d. list_all (\<lambda>j. list_all (\<lambda>k.
       unham8_byte (flip_bit_b j (flip_bit_b k (ham8_byte (word_of_int d)))) < 0)
     [0..<j]) [0..<8]) [0..15]"
  by code_simp

lemma nibble_int: "d < 16 \<Longrightarrow> uint (d :: u32) \<in> set [0..15]"
  using word_less_def [of d 16] by simp

lemma flip_bit_b_commute: "flip_bit_b j (flip_bit_b k b) = flip_bit_b k (flip_bit_b j b)"
  by (simp add: flip_bit_b_def ac_simps del: push_bit_of_1)

lemma ham8_facts:
  assumes "d < (16 :: u32)"
  shows "unham8_byte (ham8_byte d) = uint d"
    and "k < 8 \<Longrightarrow> unham8_byte (flip_bit_b k (ham8_byte d)) = uint d"
  using ham8_single_check [unfolded list_all_upt, unfolded list_all_iff, rule_format, OF nibble_int [OF assms]]
  by simp_all

lemma ham8_double:
  assumes "d < (16 :: u32)" "j < 8" "k < 8" "j \<noteq> k"
  shows "unham8_byte (flip_bit_b j (flip_bit_b k (ham8_byte d))) < 0"
proof -
  have lt: "unham8_byte (flip_bit_b j (flip_bit_b k (ham8_byte d))) < 0" if "k < j" "j < 8" for j k
    using that ham8_double_check
      [unfolded list_all_upt, unfolded list_all_iff, rule_format, OF nibble_int [OF assms(1)]]
    by simp
  show ?thesis
    using lt [of k j] lt [of j k] assms by (cases "k < j") (simp_all add: flip_bit_b_commute)
qed

lemma flip_bit_b_twice: "flip_bit_b k (flip_bit_b k b) = b"
  by (simp add: flip_bit_b_def xor.assoc del: push_bit_of_1)

section \<open>What a single error correcting, double error detecting code promises\<close>

text \<open>
  \<open>flip k\<close> inverts transmitted bit \<open>k\<close> of \<open>n\<close>. The lemmas of the interface: no two code words
  of different data are closer than four bit errors, and a sequence of code words
  with at most one error each is decoded exactly.
\<close>

locale secded =
  fixes n :: nat
    and flip :: "nat \<Rightarrow> 'c \<Rightarrow> 'c"
    and word :: "'c \<Rightarrow> bool"
    and enc :: "'d \<Rightarrow> 'c"
    and dec :: "'c \<Rightarrow> int"
    and valid :: "'d \<Rightarrow> bool"
    and val :: "'d \<Rightarrow> int"
  assumes word_enc: "valid d \<Longrightarrow> word (enc d)"
    and word_flip: "word p \<Longrightarrow> k < n \<Longrightarrow> word (flip k p)"
    and flip_flip: "word p \<Longrightarrow> k < n \<Longrightarrow> flip k (flip k p) = p"
    and dec_enc: "valid d \<Longrightarrow> dec (enc d) = val d"
    and dec_single: "valid d \<Longrightarrow> k < n \<Longrightarrow> dec (flip k (enc d)) = val d"
    and dec_double: "valid d \<Longrightarrow> j < n \<Longrightarrow> k < n \<Longrightarrow> j \<noteq> k \<Longrightarrow> dec (flip j (flip k (enc d))) < 0"
    and val_nonneg: "valid d \<Longrightarrow> 0 \<le> val d"
begin

lemma enc_distance:
  assumes d: "valid d" and d': "valid d'" and len: "length es \<le> 3" and dist: "distinct es"
    and es: "set es \<subseteq> {..<n}" and eq: "foldr flip es (enc d) = enc d'"
  shows "val d' = val d"
proof -
  consider "es = []" | k where "es = [k]" | j k where "es = [j, k]" | i j k where "es = [i, j, k]"
    using len by (cases es rule: list.exhaust; cases "tl es"; cases "tl (tl es)"; cases "tl (tl (tl es))") auto
  then show ?thesis
  proof cases
    case 1
    then show ?thesis using eq d d' by (simp add: dec_enc flip: dec_enc)
  next
    case (2 k)
    then have "dec (flip k (enc d)) = dec (enc d')" using eq by simp
    then show ?thesis using 2 es d d' by (simp add: dec_enc dec_single)
  next
    case (3 j k)
    then have "dec (flip j (flip k (enc d))) = dec (enc d')" using eq by simp
    moreover have "dec (flip j (flip k (enc d))) < 0"
      using 3 es dist d by (intro dec_double) auto
    ultimately show ?thesis using d' val_nonneg [OF d'] by (simp add: dec_enc)
  next
    case (4 i j k)
    have "word (flip j (flip k (enc d)))"
      using 4 es d by (auto intro!: word_flip word_enc)
    then have "flip j (flip k (enc d)) = flip i (enc d')"
      using 4 eq es flip_flip [of "flip j (flip k (enc d))" i] by simp
    moreover have "dec (flip j (flip k (enc d))) < 0"
      using 4 es dist d by (intro dec_double) auto
    moreover have "dec (flip i (enc d')) = val d'"
      using 4 es d' by (intro dec_single) auto
    ultimately show ?thesis using val_nonneg [OF d'] by simp
  qed
qed

text \<open>\<open>None\<close>: received as sent; \<open>Some k\<close>: bit \<open>k\<close> was inverted on the way.\<close>

definition receive :: "nat option \<Rightarrow> 'c \<Rightarrow> 'c" where
  "receive e p = (case e of None \<Rightarrow> p | Some k \<Rightarrow> flip k p)"

lemma decode_sequence:
  assumes "list_all valid ds" and "list_all (\<lambda>e. \<forall>k. e = Some k \<longrightarrow> k < n) es"
    and "length es = length ds"
  shows "map dec (map2 receive es (map enc ds)) = map val ds"
  using assms(3,1,2)
  by (induction es ds rule: list_induct2)
    (auto simp: receive_def dec_enc dec_single split: option.split)

end

interpretation h8: secded 8 flip_bit_b "\<lambda>_. True" ham8_byte unham8_byte "\<lambda>d. d < 16" uint
  by unfold_locales (simp_all add: ham8_facts ham8_double flip_bit_b_twice)

interpretation h24: secded 24 flip_bit_p "\<lambda>p. length p = 3" vbi_ham24p vbi_unham24p
    "\<lambda>c. c < 2 ^ 18" uint
proof
  fix p :: "u8 list" and k assume "length p = 3" "k < (24 :: nat)"
  then have "k div 8 < length p" by auto
  then show "flip_bit_p k (flip_bit_p k p) = p"
    by (simp add: flip_bit_p_def xor.assoc)
next
  fix d :: u32 and j k assume "d < 2 ^ 18" "j < (24 :: nat)" "k < (24 :: nat)" "j \<noteq> k"
  then show "vbi_unham24p (flip_bit_p j (flip_bit_p k (vbi_ham24p d))) < 0"
    by (rule ham24_double_error)
qed (simp_all only: length_vbi_ham24p length_flip_bit_p ham24_ok ham24_single_error
      unsigned_greater_eq)

section \<open>Parity\<close>

text \<open>The sum of the eight bits modulo 2 is 1.\<close>

definition odd_parity :: "u8 \<Rightarrow> bool" where
  "odd_parity b = foldr (\<lambda>k p. bit b k \<noteq> p) [0, 1, 2, 3, 4, 5, 6, 7] False"

lemma bit_5_inv_par: "bit (vbi_hamm24_inv_par ! 0 ! unat (b :: u8)) 5 \<longleftrightarrow> odd_parity b"
  by (simp only: inv_par_nth inv_par_0_rows_def bit_xor_rows odd_parity_def)
    (simp add: bit_drop_bit_eq numeral_eq_Suc del: bit_0)

lemma and_32_inv_par:
  "vbi_hamm24_inv_par ! 0 ! unat (b :: u8) AND 32 = 0 \<longleftrightarrow> \<not> odd_parity b"
  using and_exp_eq_0_iff_not_bit [of "vbi_hamm24_inv_par ! 0 ! unat b" 5] bit_5_inv_par by simp

lemma par_byte:
  "b XOR (128 AND NOT (push_bit 2 (vbi_hamm24_inv_par ! 0 ! unat b))) =
     (if odd_parity b then b else b XOR (128 :: u8))"
  by (rule u8_eqI) (simp_all add: bit_simps bit_5_inv_par)

lemma odd_parity_flip_msb: "odd_parity (b XOR 128) \<longleftrightarrow> \<not> odd_parity b"
  by (simp add: odd_parity_def bit_xor_iff)

lemma vbi_par_map: "vbi_par p = map (\<lambda>b. if odd_parity b then b else b XOR 128) p"
  by (induction p) (simp_all add: par_byte)

lemma vbi_unpar8_byte: "vbi_unpar8 (ucast (b :: u8)) = (if odd_parity b then uint (b AND 127) else - 1)"
proof -
  have "ucast b AND (127 :: u32) = ucast (b AND 127)"
    by (rule bit_word_eqI) (auto simp: bit_simps dest: bit_imp_le_length)
  then show ?thesis
    by (simp add: vbi_unpar8_def and_32_inv_par)
qed

lemma vbi_unpar_loop_spec:
  "bit (fst (vbi_unpar_loop r p)) 31 \<longleftrightarrow> bit r 31 \<or> (\<exists>b \<in> set p. \<not> odd_parity b)"
  "snd (vbi_unpar_loop r p) = map (\<lambda>b. b AND 127) p"
  by (induction p arbitrary: r)
    (auto simp: Let_def split_beta bit_simps bit_5_inv_par [simplified])

lemma vbi_unpar_spec:
  "fst (vbi_unpar p) < 0 \<longleftrightarrow> (\<exists>b \<in> set p. \<not> odd_parity b)"
  "snd (vbi_unpar p) = map (\<lambda>b. b AND 127) p"
  using vbi_unpar_loop_spec [of 0 p] by (simp_all add: vbi_unpar_def split_beta flip: bit_last_iff)

section \<open>Bit reversal\<close>

lemma bit_reverse_nth:
  "k < 8 \<Longrightarrow> bit (vbi_bit_reverse ! unat (b :: u8)) k \<longleftrightarrow> bit b (7 - k)"
proof -
  assume "k < 8"
  then have "k \<in> {0, 1, 2, 3, 4, 5, 6, 7}" by auto
  then show ?thesis
    by (elim insertE emptyE)
      (simp_all only: bit_reverse_table xor_table_nth_u8 length_Cons list.size bit_xor_rows,
       simp_all add: xor_table_nth_u8 bit_xor_rows bit_drop_bit_eq numeral_eq_Suc del: bit_0 xor_rows.simps)
qed

lemma bit_vbi_rev8: "k < 8 \<Longrightarrow> bit (vbi_rev8 c) k \<longleftrightarrow> bit c (7 - k)"
  by (auto simp: vbi_rev8_def bit_unsigned_iff bit_reverse_nth)

section \<open>Ranges of the decoded values\<close>

lemma length_vbi_hamm8_inv: "length vbi_hamm8_inv = 256"
  by (simp add: vbi_hamm8_inv_def)

lemma unham8_byte_range: "- 1 \<le> unham8_byte b" "unham8_byte b \<le> 15"
proof -
  have "list_all (\<lambda>x. - 1 \<le> sint x \<and> sint x \<le> 15) vbi_hamm8_inv"
    by (simp add: vbi_hamm8_inv_def)
  moreover have "vbi_hamm8_inv ! unat b \<in> set vbi_hamm8_inv"
    by (rule nth_mem) (simp only: length_vbi_hamm8_inv unat_u8_less)
  ultimately show "- 1 \<le> unham8_byte b" "unham8_byte b \<le> 15"
    by (auto simp: unham8_byte_def vbi_unham8_def list_all_iff)
qed

lemma unham16p_range: "0 \<le> vbi_unham16p p \<Longrightarrow> vbi_unham16p p \<le> 255"
  "0 \<le> vbi_unham16p p \<Longrightarrow> vbi_unham16p p = unham8_byte (p ! 0) + 16 * unham8_byte (p ! 1)"
  "- 16 \<le> vbi_unham16p p"
proof -
  let ?a = "unham8_byte (p ! 0)" and ?b = "unham8_byte (p ! 1)"
  have e: "vbi_unham16p p = ?a OR push_bit 4 ?b"
    by (simp add: vbi_unham16p_def unham8_byte_def vbi_unham8_def)
  note r = unham8_byte_range [of "p ! 0"] unham8_byte_range [of "p ! 1"]
  have sum: "?a OR push_bit 4 ?b = ?a + 16 * ?b" if "0 \<le> ?a"
  proof -
    have "take_bit 4 ?a = ?a" using r that by (simp add: take_bit_int_eq_self)
    then have "\<not> (bit ?a n \<and> bit (push_bit 4 ?b) n)" for n
      by (metis bit_push_bit_iff_int bit_take_bit_iff not_le)
    then have "?a OR push_bit 4 ?b = ?a + push_bit 4 ?b" by (intro disjunctive_add [symmetric]) blast
    then show ?thesis by (simp add: push_bit_eq_mult)
  qed
  have minus1: "- 1 OR n = (- 1 :: int)" for n by simp
  show "- 16 \<le> vbi_unham16p p"
  proof (cases "0 \<le> ?a")
    case True
    then show ?thesis using sum r by (simp add: e)
  next
    case False
    then have "?a = - 1" using r by simp
    then show ?thesis by (simp add: e)
  qed
  assume n: "0 \<le> vbi_unham16p p"
  then have a: "0 \<le> ?a" by (simp add: e)
  show "vbi_unham16p p \<le> 255" using sum [OF a] r by (simp add: e)
  show "vbi_unham16p p = ?a + 16 * ?b" using sum [OF a] by (simp add: e)
qed

section \<open>Properties\<close>

text \<open>
  C6. Hamming 24/18: the decoder returns the 18 data bits of an intact triplet and of a
  triplet with any one of its 24 bits inverted, and reports every double bit error by a
  negative value.
\<close>

theorem hamming24_secded:
  assumes "c < 2 ^ 18"
  shows "vbi_unham24p (vbi_ham24p c) = uint c
    \<and> (\<forall>k < 24. vbi_unham24p (flip_bit_p k (vbi_ham24p c)) = uint c)
    \<and> (\<forall>j < 24. \<forall>k < 24. j \<noteq> k \<longrightarrow>
          vbi_unham24p (flip_bit_p j (flip_bit_p k (vbi_ham24p c))) < 0)"
  using h24.dec_enc [OF assms] h24.dec_single [OF assms] h24.dec_double [OF assms] by blast

theorem hamming24_secded_witness:
  "vbi_unham24p (flip_bit_p 13 (vbi_ham24p 0x2ABCD)) = 0x2ABCD
   \<and> vbi_unham24p (flip_bit_p 3 (flip_bit_p 20 (vbi_ham24p 0x2ABCD))) < 0"
  using hamming24_secded [of "0x2ABCD"] by simp

text \<open>
  Two Hamming 24/18 code words of different data differ in at least four bits: no
  pattern of up to three bit errors turns one into the other.
\<close>

theorem hamming24_distance:
  assumes "c < 2 ^ 18" and "c' < 2 ^ 18" and "c \<noteq> c'"
    and "distinct es" and "set es \<subseteq> {..<24}" and "length es \<le> 3"
  shows "foldr flip_bit_p es (vbi_ham24p c) \<noteq> vbi_ham24p c'"
  using h24.enc_distance [OF assms(1,2) assms(6,4,5)] assms(3)
  by (auto dest: unsigned_word_eqI)

theorem hamming24_distance_witness:
  "foldr flip_bit_p [1, 7, 19] (vbi_ham24p 5) \<noteq> vbi_ham24p 0x3FFFF"
  by (rule hamming24_distance) simp_all

text \<open>
  A sequence of nibbles protected with Hamming 8/4 is decoded exactly when no byte
  of it has more than one inverted bit, and two inverted bits in one byte are reported.
\<close>

theorem hamming8_sequence:
  assumes "list_all (\<lambda>d. d < 16) ds" and "list_all (\<lambda>e. \<forall>k. e = Some k \<longrightarrow> k < 8) es"
    and "length es = length ds"
  shows "map unham8_byte (map2 (\<lambda>e p. case e of None \<Rightarrow> p | Some k \<Rightarrow> flip_bit_b k p) es (map ham8_byte ds))
      = map uint ds
    \<and> (\<forall>d \<in> set ds. \<forall>j < 8. \<forall>k < 8. j \<noteq> k \<longrightarrow>
          unham8_byte (flip_bit_b j (flip_bit_b k (ham8_byte d))) < 0)"
  using h8.decode_sequence [OF assms, unfolded h8.receive_def] assms(1) h8.dec_double
  by (auto simp: list_all_iff)

theorem hamming8_sequence_witness:
  "map unham8_byte [flip_bit_b 6 (ham8_byte 9), ham8_byte 4] = [9, 4]"
  using hamming8_sequence [of "[9, 4]" "[Some 6, None]"] by simp

text \<open>
  C13. The tables shipped in hamm-tables.h are exactly what the generator hammgen.c
  computes.
\<close>

theorem hamm_tables_generated:
  "gen_bit_reverse = vbi_bit_reverse \<and> gen_hamm8_fwd = vbi_hamm8_fwd \<and> gen_hamm8_inv = vbi_hamm8_inv
   \<and> gen_hamm24_fwd_tables = (vbi_hamm24_fwd_0, vbi_hamm24_fwd_1, vbi_hamm24_fwd_2)
   \<and> gen_hamm24_inv_par = vbi_hamm24_inv_par \<and> gen_hamm24_inv_d1_d4 = vbi_hamm24_inv_d1_d4
   \<and> gen_hamm24_inv_err = vbi_hamm24_inv_err"
  by (simp only: gen_bit_reverse_eq gen_hamm8_fwd_eq gen_hamm8_inv_eq gen_hamm24_fwd_tables_def
      gen_hamm24_fwd_0_eq gen_hamm24_fwd_1_eq gen_hamm24_fwd_2_eq gen_hamm24_inv_par_eq
      gen_hamm24_inv_d1_d4_eq gen_hamm24_inv_err_eq)

text \<open>
  vbi_par gives every byte odd parity and touches only the parity bit; vbi_unpar
  then reports no error and returns the seven data bits. On any input vbi_unpar
  returns a negative value exactly when some byte has even parity.
\<close>

theorem parity_round_trip:
  "(\<forall>b \<in> set (vbi_par p). odd_parity b)
   \<and> 0 \<le> fst (vbi_unpar (vbi_par p))
   \<and> snd (vbi_unpar (vbi_par p)) = map (\<lambda>b. b AND 127) p
   \<and> (fst (vbi_unpar p) < 0 \<longleftrightarrow> (\<exists>b \<in> set p. \<not> odd_parity b))"
proof -
  have odd: "\<forall>b \<in> set (vbi_par p). odd_parity b"
    by (auto simp: vbi_par_map odd_parity_flip_msb)
  have data: "(if odd_parity b then b else b XOR 128) AND 127 = b AND (127 :: u8)" for b
    by (simp add: bit.conj_xor_distrib2)
  have "snd (vbi_unpar (vbi_par p)) = map (\<lambda>b. b AND 127) p"
    unfolding vbi_unpar_spec vbi_par_map map_map comp_def data by (rule refl)
  moreover have "0 \<le> fst (vbi_unpar (vbi_par p))"
    using odd vbi_unpar_spec(1) [of "vbi_par p"] by (meson not_less)
  ultimately show ?thesis
    using odd vbi_unpar_spec(1) [of p] by blast
qed

theorem parity_round_trip_witness:
  "vbi_unpar (vbi_par [0x41, 0x43, 0x2E]) = (fst (vbi_unpar (vbi_par [0x41, 0x43, 0x2E])), [0x41, 0x43, 0x2E])"
  using parity_round_trip [of "[0x41, 0x43, 0x2E]"] by (simp add: prod_eq_iff)

end
