(* ===== verification/Bcd.thy ===== *)
theory Bcd
  imports Zvbi_Prelude
begin

text \<open>
  The packed BCD arithmetic of \<^verbatim>\<open>vbi/src/bcd.h\<close>, used for Teletext page numbers and
  times. The C functions work on \<^verbatim>\<open>unsigned int\<close> with bit tricks; the lemmas relate
  them to the decimal digits of their arguments.
\<close>

section \<open>The functions\<close>

definition vbi_dec2bcd :: "u32 \<Rightarrow> u32" where
  "vbi_dec2bcd dec = (dec mod 10) + ((dec div 10) mod 10) * 16 + ((dec div 100) mod 10) * 256"

definition vbi_bcd2dec :: "u32 \<Rightarrow> u32" where
  "vbi_bcd2dec bcd = (bcd AND 15) + (drop_bit 4 bcd AND 15) * 10 + (drop_bit 8 bcd AND 15) * 100"

definition vbi_add_bcd :: "u32 \<Rightarrow> u32 \<Rightarrow> u32" where
  "vbi_add_bcd a b =
     (let a = a + 0x06666666;
          t = a + b;
          b = b XOR (a XOR t);
          b = drop_bit 3 (NOT b AND 0x11111110);
          b = b OR b * 2
      in t - b)"

definition vbi_is_bcd :: "u32 \<Rightarrow> bool" where
  "vbi_is_bcd bcd = (let x = 0x06666666 in ((bcd + x) XOR (bcd XOR x)) AND 0x11111110 = 0)"

definition vbi_bcd_digits_greater :: "u32 \<Rightarrow> u32 \<Rightarrow> bool" where
  "vbi_bcd_digits_greater bcd maximum =
     (let maximum = maximum XOR NOT 0
      in ((bcd + maximum) XOR bcd XOR maximum) AND 0x11111110 \<noteq> 0)"

section \<open>Digits\<close>

definition dig :: "nat \<Rightarrow> nat \<Rightarrow> nat" where
  "dig k x = x div 16 ^ k mod 16"

lemma dig_less [simp]: "dig k x < 16"
  by (simp add: dig_def)

lemma mod_16_Suc: "x mod 16 ^ Suc k = dig k x * 16 ^ k + x mod 16 ^ k"
  by (simp only: dig_def power_Suc mult.commute [of 16] mod_mult2_eq) (simp add: algebra_simps)

text \<open>Carry into bit \<open>m\<close> of an addition, as XOR of sum and operands.\<close>

lemma bit_carry_nat:
  fixes x y :: nat
  shows "bit (x + y) m \<longleftrightarrow> (bit x m \<noteq> bit y m) \<noteq> (2 ^ m \<le> x mod 2 ^ m + y mod 2 ^ m)"
proof -
  have lt: "x mod 2 ^ m + y mod 2 ^ m < 2 * 2 ^ m"
  proof -
    have "x mod 2 ^ m < 2 ^ m" "y mod 2 ^ m < 2 ^ m" by simp_all
    then show ?thesis by linarith
  qed
  have "(x + y) div 2 ^ m = x div 2 ^ m + y div 2 ^ m + (x mod 2 ^ m + y mod 2 ^ m) div 2 ^ m"
    by (rule div_add1_eq)
  moreover have "(x mod 2 ^ m + y mod 2 ^ m) div 2 ^ m = of_bool (2 ^ m \<le> x mod 2 ^ m + y mod 2 ^ m)"
    using lt by (auto intro: div_nat_eqI)
  ultimately show ?thesis by (auto simp: bit_iff_odd)
qed

lemma bit_carry:
  fixes x y :: u32
  assumes "m < 32"
  shows "bit ((x + y) XOR (x XOR y)) m \<longleftrightarrow> 2 ^ m \<le> unat x mod 2 ^ m + unat y mod 2 ^ m"
proof -
  have "unat (x + y) = take_bit 32 (unat x + unat y)"
    by (simp add: unat_word_ariths take_bit_eq_mod)
  moreover have "bit (x + y) m \<longleftrightarrow> bit (unat (x + y)) m" by (simp add: bit_unsigned_iff)
  ultimately have "bit (x + y) m \<longleftrightarrow> bit (unat x + unat y) m"
    using assms by (simp add: bit_take_bit_iff)
  then show ?thesis
    by (auto simp: bit_carry_nat bit_xor_iff bit_unsigned_iff)
qed

lemma and_digit_mask_eq_0:
  "w AND 0x11111110 = (0 :: u32) \<longleftrightarrow>
     \<not> bit w 4 \<and> \<not> bit w 8 \<and> \<not> bit w 12 \<and> \<not> bit w 16 \<and> \<not> bit w 20 \<and> \<not> bit w 24 \<and> \<not> bit w 28"
    (is "?l \<longleftrightarrow> ?r")
proof -
  have m: "(0x11111110 :: u32) = 2^4 OR 2^8 OR 2^12 OR 2^16 OR 2^20 OR 2^24 OR 2^28"
    by simp
  have "w AND (p OR q) = 0 \<longleftrightarrow> w AND p = 0 \<and> w AND q = 0" for p q :: u32
    by (auto simp: bit.conj_disj_distrib or_eq_0_iff)
  then show ?thesis
    unfolding m by (simp only: and_exp_eq_0_iff_not_bit)
qed

lemma seven_digits:
  "(\<forall>k < 7. P k) \<longleftrightarrow> P 0 \<and> P 1 \<and> P 2 \<and> P 3 \<and> P 4 \<and> P 5 \<and> P (6 :: nat)"
  by (simp add: numeral_eq_Suc All_less_Suc) blast

text \<open>No carry out of the low \<open>k\<close> digits of \<open>x + 66...6\<close>: all those digits are decimal.\<close>

primrec sixes :: "nat \<Rightarrow> nat" where
  "sixes 0 = 0"
| "sixes (Suc k) = 6 * 16 ^ k + sixes k"

lemma no_carry_digits:
  "(\<forall>j \<in> {1..k}. x mod 16 ^ j + sixes j < 16 ^ j) \<longleftrightarrow> (\<forall>j < k. dig j x \<le> 9)"
proof (induction k)
  case 0
  show ?case by simp
next
  case (Suc k)
  have "x mod 16 ^ Suc k + sixes (Suc k) < 16 ^ Suc k \<longleftrightarrow> dig k x \<le> 9"
    if "x mod 16 ^ k + sixes k < 16 ^ k"
  proof -
    have "x mod 16 ^ Suc k + sixes (Suc k) = (dig k x + 6) * 16 ^ k + (x mod 16 ^ k + sixes k)"
      by (simp only: mod_16_Suc sixes.simps) (simp add: algebra_simps)
    also have "\<dots> < 16 * 16 ^ k \<longleftrightarrow> dig k x + 6 < 16"
    proof
      assume "(dig k x + 6) * 16 ^ k + (x mod 16 ^ k + sixes k) < 16 * 16 ^ k"
      then have "(dig k x + 6) * 16 ^ k < 16 * 16 ^ k" by linarith
      then show "dig k x + 6 < 16" by simp
    next
      assume "dig k x + 6 < 16"
      then have "(dig k x + 7) * 16 ^ k \<le> 16 * 16 ^ k" by (intro mult_le_mono1) simp
      moreover have "(dig k x + 7) * 16 ^ k = (dig k x + 6) * 16 ^ k + 16 ^ k"
        by (simp add: algebra_simps)
      ultimately show "(dig k x + 6) * 16 ^ k + (x mod 16 ^ k + sixes k) < 16 * 16 ^ k"
        using that by linarith
    qed
    also have "\<dots> \<longleftrightarrow> dig k x \<le> 9" by auto
    finally show ?thesis by (simp only: power_Suc)
  qed
  moreover have "x mod 16 ^ k + sixes k < 16 ^ k" if "\<forall>j \<in> {1..k}. x mod 16 ^ j + sixes j < 16 ^ j"
    using that by (cases "k = 0") auto
  ultimately show ?case
    using Suc by (auto simp: atLeastAtMostSuc_conv less_Suc_eq simp del: sixes.simps power_Suc)
qed

lemma sixes_Suc: "sixes k = n \<Longrightarrow> sixes (Suc k) = 6 * 16 ^ k + n"
  by simp

lemma sixes_eq: "sixes 1 = 0x6" "sixes 2 = 0x66" "sixes 3 = 0x666" "sixes 4 = 0x6666"
  "sixes 5 = 0x66666" "sixes 6 = 0x666666" "sixes 7 = 0x6666666"
proof -
  show 1: "sixes 1 = 0x6" by simp
  show 2: "sixes 2 = 0x66" using sixes_Suc [OF 1] by (simp del: sixes.simps add: Suc_1 flip: numeral_2_eq_2)
  show 3: "sixes 3 = 0x666" using sixes_Suc [OF 2] by (simp del: sixes.simps)
  show 4: "sixes 4 = 0x6666" using sixes_Suc [OF 3] by (simp del: sixes.simps)
  show 5: "sixes 5 = 0x66666" using sixes_Suc [OF 4] by (simp del: sixes.simps)
  show 6: "sixes 6 = 0x666666" using sixes_Suc [OF 5] by (simp del: sixes.simps)
  show "sixes 7 = 0x6666666" using sixes_Suc [OF 6] by (simp del: sixes.simps)
qed

lemma sixes_mod:
  "0x06666666 mod 16 ^ 1 = sixes 1" "0x06666666 mod 16 ^ 2 = sixes 2"
  "0x06666666 mod 16 ^ 3 = sixes 3" "0x06666666 mod 16 ^ 4 = sixes 4"
  "0x06666666 mod 16 ^ 5 = sixes 5" "0x06666666 mod 16 ^ 6 = sixes 6"
  "0x06666666 mod 16 ^ 7 = sixes 7"
  unfolding sixes_eq by simp_all

lemma one_to_seven: "(\<forall>j \<in> {1..7}. P j) \<longleftrightarrow> P 1 \<and> P 2 \<and> P 3 \<and> P 4 \<and> P 5 \<and> P 6 \<and> P (7 :: nat)"
proof -
  have "{1..7} = {1, 2, 3, 4, 5, 6, 7 :: nat}" by auto
  then show ?thesis by simp
qed

lemma pow_16: "(2 :: nat) ^ 4 = 16 ^ 1" "(2 :: nat) ^ 8 = 16 ^ 2" "(2 :: nat) ^ 12 = 16 ^ 3"
  "(2 :: nat) ^ 16 = 16 ^ 4" "(2 :: nat) ^ 20 = 16 ^ 5" "(2 :: nat) ^ 24 = 16 ^ 6"
  "(2 :: nat) ^ 28 = 16 ^ 7"
  by simp_all

lemma vbi_is_bcd_iff: "vbi_is_bcd x \<longleftrightarrow> (\<forall>k < 7. dig k (unat x) \<le> 9)"
proof -
  let ?c = "\<lambda>j. unat x mod 16 ^ j + sixes j < 16 ^ j"
  have u: "unat (0x06666666 :: u32) = 0x06666666" by simp
  have b: "bit ((x + 0x06666666) XOR (x XOR 0x06666666)) (4 * j) \<longleftrightarrow> \<not> ?c j"
    if "4 * j < 32" "unat (0x06666666 :: u32) mod 16 ^ j = sixes j" for j
    using bit_carry [OF that(1), of x "0x06666666"] that(2)
    by (simp add: power_mult not_less)
  have "vbi_is_bcd x \<longleftrightarrow> (\<forall>j \<in> {1..7}. ?c j)"
    unfolding vbi_is_bcd_def Let_def and_digit_mask_eq_0 one_to_seven
    using b [of 1] b [of 2] b [of 3] b [of 4] b [of 5] b [of 6] b [of 7] sixes_mod
    unfolding u by simp
  also have "\<dots> \<longleftrightarrow> (\<forall>k < 7. dig k (unat x) \<le> 9)"
    by (rule no_carry_digits)
  finally show ?thesis .
qed

section \<open>Addition\<close>

text \<open>
  Schoolbook decimal addition of the low \<open>k\<close> digits: the carry, the packed sum, and
  the correction \<open>6\<close> at every position without a carry.
\<close>

primrec dcarry :: "nat \<Rightarrow> nat \<Rightarrow> nat \<Rightarrow> nat" where
  "dcarry a b 0 = 0"
| "dcarry a b (Suc k) = (dig k a + dig k b + dcarry a b k) div 10"

primrec dsum :: "nat \<Rightarrow> nat \<Rightarrow> nat \<Rightarrow> nat" where
  "dsum a b 0 = 0"
| "dsum a b (Suc k) = dsum a b k + (dig k a + dig k b + dcarry a b k) mod 10 * 16 ^ k"

primrec dfix :: "nat \<Rightarrow> nat \<Rightarrow> nat \<Rightarrow> nat" where
  "dfix a b 0 = 0"
| "dfix a b (Suc k) = dfix a b k + (if dcarry a b (Suc k) = 0 then 6 * 16 ^ k else 0)"

definition bcd_upto :: "nat \<Rightarrow> nat \<Rightarrow> bool" where
  "bcd_upto n x \<longleftrightarrow> (\<forall>k < n. dig k x \<le> 9)"

lemma bcd_uptoD: "bcd_upto n x \<Longrightarrow> k < n \<Longrightarrow> dig k x \<le> 9"
  by (simp add: bcd_upto_def)

lemma dcarry_le_1:
  assumes "bcd_upto n a" "bcd_upto n b"
  shows "k \<le> n \<Longrightarrow> dcarry a b k \<le> 1"
proof (induction k)
  case (Suc k)
  then show ?case using bcd_uptoD [OF assms(1), of k] bcd_uptoD [OF assms(2), of k] by simp
qed simp

lemma binary_sum:
  assumes "bcd_upto n a" "bcd_upto n b"
  shows "k \<le> n \<Longrightarrow> a mod 16 ^ k + sixes k + b mod 16 ^ k
           = dsum a b k + dfix a b k + 16 ^ k * dcarry a b k \<and> dsum a b k + dfix a b k < 16 ^ k"
proof (induction k)
  case 0
  show ?case by simp
next
  case (Suc k)
  let ?s = "dig k a + dig k b + dcarry a b k"
  have s: "?s \<le> 19"
    using bcd_uptoD [OF assms(1), of k] bcd_uptoD [OF assms(2), of k]
      dcarry_le_1 [OF assms, of k] Suc.prems by simp
  have "a mod 16 ^ Suc k + sixes (Suc k) + b mod 16 ^ Suc k
      = (dig k a + dig k b + 6) * 16 ^ k + (a mod 16 ^ k + sixes k + b mod 16 ^ k)"
    by (simp only: mod_16_Suc sixes.simps) (simp add: algebra_simps)
  also have "\<dots> = (?s + 6) * 16 ^ k + (dsum a b k + dfix a b k)"
    using Suc by (simp add: algebra_simps)
  finally have eq: "a mod 16 ^ Suc k + sixes (Suc k) + b mod 16 ^ Suc k
    = (?s + 6) * 16 ^ k + (dsum a b k + dfix a b k)" .
  have lt: "dsum a b k + dfix a b k < 16 ^ k" using Suc by simp
  show ?case
  proof (cases "?s < 10")
    case True
    then have "(?s + 7) * 16 ^ k \<le> 16 * 16 ^ k" by (intro mult_le_mono1) simp
    then show ?thesis using True eq lt by (simp add: algebra_simps)
  next
    case False
    with s have d: "?s div 10 = 1" "?s mod 10 + 10 = ?s" "?s mod 10 \<le> 9"
      by (simp_all add: le_div_geq le_mod_geq)
    have "?s mod 10 * 16 ^ k + (dsum a b k + dfix a b k) < 16 * 16 ^ k"
    proof -
      have "?s mod 10 * 16 ^ k \<le> 9 * 16 ^ k" using d(3) by (intro mult_le_mono1)
      then show ?thesis using lt by linarith
    qed
    moreover have "(?s + 6) * 16 ^ k = ?s mod 10 * 16 ^ k + 16 * 16 ^ k"
    proof -
      have "(?s + 6) * 16 ^ k = ((?s mod 10 + 10) + 6) * 16 ^ k" by (simp only: d(2))
      then show ?thesis by (simp add: algebra_simps)
    qed
    ultimately show ?thesis
      using d(1) eq lt by (simp add: algebra_simps)
  qed
qed

lemma carry_iff:
  assumes "bcd_upto n a" "bcd_upto n b" "k \<le> n"
  shows "16 ^ k \<le> a mod 16 ^ k + sixes k + b mod 16 ^ k \<longleftrightarrow> dcarry a b k \<noteq> 0"
  using binary_sum [OF assms] by (cases "dcarry a b k") auto

text \<open>The correction as the source computes it, from the carry word.\<close>

lemma and_or_mask: "w AND (p OR q) = (w AND p) OR (w AND q)" for w :: u32
  by (rule bit.conj_disj_distrib)

lemma and_2p: "w AND 2 ^ n = (if bit w n then 2 ^ n else 0)" for w :: u32
  by (rule bit_word_eqI) (auto simp: bit_simps)

lemma nibble_fix:
  fixes w :: u32
  defines "m \<equiv> drop_bit 3 (NOT w AND 0x11111110)"
  shows "m OR m * 2 = (if bit w 4 then 0 else 6) + (if bit w 8 then 0 else 0x60)
    + (if bit w 12 then 0 else 0x600) + (if bit w 16 then 0 else 0x6000)
    + (if bit w 20 then 0 else 0x60000) + (if bit w 24 then 0 else 0x600000)
    + (if bit w 28 then 0 else 0x6000000)"
proof -
  have "NOT w AND 0x11111110 = (if bit w 4 then 0 else 2^4) OR (if bit w 8 then 0 else 2^8)
    OR (if bit w 12 then 0 else 2^12) OR (if bit w 16 then 0 else 2^16)
    OR (if bit w 20 then 0 else 2^20) OR (if bit w 24 then 0 else 2^24)
    OR (if bit w 28 then 0 else 2^28)"
  proof -
    have m: "(0x11111110 :: u32) = 2^4 OR 2^8 OR 2^12 OR 2^16 OR 2^20 OR 2^24 OR 2^28"
      by simp
    show ?thesis
      unfolding m and_or_mask and_2p by (simp add: bit_not_iff)
  qed
  then show ?thesis
    unfolding m_def by (simp split: if_split)
qed

lemma dfix_7:
  "dfix a b 7 = (if dcarry a b 1 = 0 then 6 else 0) + (if dcarry a b 2 = 0 then 0x60 else 0)
    + (if dcarry a b 3 = 0 then 0x600 else 0) + (if dcarry a b 4 = 0 then 0x6000 else 0)
    + (if dcarry a b 5 = 0 then 0x60000 else 0) + (if dcarry a b 6 = 0 then 0x600000 else 0)
    + (if dcarry a b 7 = 0 then 0x6000000 else 0)"
proof -
  have step: "dfix a b l = dfix a b k + (if dcarry a b l = 0 then 6 * 16 ^ k else 0)"
    if "l = Suc k" for k l
    unfolding that by (rule dfix.simps)
  show ?thesis
    using step [of 1 0] step [of 2 1] step [of 3 2] step [of 4 3] step [of 5 4] step [of 6 5]
      step [of 7 6]
    by (simp del: dfix.simps(2) dcarry.simps(2) split del: if_split cong: if_cong)
qed

lemma mod_add_sixes:
  assumes "bcd_upto n x" "k \<le> n"
  shows "(x mod 16 ^ k + sixes k) mod 16 ^ k = x mod 16 ^ k + sixes k"
proof -
  have "(\<forall>j \<in> {1..k}. x mod 16 ^ j + sixes j < 16 ^ j)"
    unfolding no_carry_digits using assms by (auto simp: bcd_upto_def)
  then have "x mod 16 ^ k + sixes k < 16 ^ k" by (cases "k = 0") auto
  then show ?thesis by simp
qed

lemma split_16_7: "x = x mod 16 ^ 7 + 16 ^ 7 * (x div 16 ^ 7)" for x :: nat
  by (simp only: mod_mult_div_eq)

lemma vbi_add_bcd_eq:
  fixes a b :: u32
  assumes a: "bcd_upto 7 (unat a)" and b: "bcd_upto 7 (unat b)"
  shows "vbi_add_bcd a b = of_nat (dsum (unat a) (unat b) 7
    + 16 ^ 7 * (unat a div 16 ^ 7 + unat b div 16 ^ 7 + dcarry (unat a) (unat b) 7))"
proof -
  let ?A = "unat a" and ?B = "unat b"
  define a' where "a' = a + 0x06666666"
  define t where "t = a' + b"
  let ?w = "b XOR (a' XOR t)"
  have ua: "unat (0x06666666 :: u32) = 0x06666666" by simp
  have a': "unat a' mod 16 ^ j = ?A mod 16 ^ j + sixes j"
    if "4 * j < 32" "0x06666666 mod 16 ^ j = sixes j" "j \<le> 7" for j
  proof -
    have "(16 :: nat) ^ j dvd 2 ^ 32"
    proof -
      have "(16 :: nat) ^ j = 2 ^ (4 * j)" by (simp add: power_mult)
      then show ?thesis using that(1) by (metis le_imp_power_dvd less_imp_le)
    qed
    then have "unat a' mod 16 ^ j = (?A + 0x06666666) mod 16 ^ j"
      unfolding a'_def by (simp add: unat_word_ariths mod_mod_cancel)
    also have "\<dots> = (?A mod 16 ^ j + sixes j) mod 16 ^ j"
      by (simp only: that(2) [symmetric] mod_add_eq)
    finally show ?thesis using mod_add_sixes [OF a that(3)] by simp
  qed
  have w: "bit ?w (4 * j) \<longleftrightarrow> \<not> dcarry ?A ?B j = 0"
    if "4 * j < 32" "0x06666666 mod 16 ^ j = sixes j" "j \<le> 7" for j
  proof -
    have "bit ?w (4 * j) \<longleftrightarrow> 2 ^ (4 * j) \<le> unat a' mod 2 ^ (4 * j) + unat b mod 2 ^ (4 * j)"
      using bit_carry [OF that(1), of a' b] by (simp add: t_def ac_simps)
    then show ?thesis
      using a' [OF that] carry_iff [OF a b that(3)] by (simp add: power_mult)
  qed
  have if_swap: "(if c \<noteq> 0 then x else y) = (if c = 0 then y else x)" for c :: nat and x y :: u32
    by simp
  have fix_eq: "(let m = drop_bit 3 (NOT ?w AND 0x11111110) in m OR m * 2) = of_nat (dfix ?A ?B 7)"
    unfolding Let_def nibble_fix dfix_7
    using w [of 1] w [of 2] w [of 3] w [of 4] w [of 5] w [of 6] w [of 7] sixes_mod
    by (simp split del: if_split cong: if_cong add: if_distrib [of of_nat]
          if_swap del: neq0_conv dcarry.simps)
  have bs: "?A mod 16 ^ 7 + sixes 7 + ?B mod 16 ^ 7
      = dsum ?A ?B 7 + dfix ?A ?B 7 + 16 ^ 7 * dcarry ?A ?B 7"
    using binary_sum [OF a b, of 7] by simp
  have "?A + 0x06666666 + ?B = dsum ?A ?B 7
      + 16 ^ 7 * (?A div 16 ^ 7 + ?B div 16 ^ 7 + dcarry ?A ?B 7) + dfix ?A ?B 7"
    using bs split_16_7 [of ?A] split_16_7 [of ?B] unfolding sixes_eq
    by (simp only: distrib_left)
  then have "of_nat (?A + 0x06666666 + ?B) = (of_nat (dsum ?A ?B 7
      + 16 ^ 7 * (?A div 16 ^ 7 + ?B div 16 ^ 7 + dcarry ?A ?B 7) + dfix ?A ?B 7) :: u32)"
    by (rule arg_cong)
  moreover have "t = of_nat (?A + 0x06666666 + ?B)"
    by (simp add: t_def a'_def)
  moreover have "vbi_add_bcd a b = t - of_nat (dfix ?A ?B 7)"
    using fix_eq by (simp only: vbi_add_bcd_def Let_def t_def a'_def)
  ultimately show ?thesis
    by (simp only: of_nat_add) simp
qed

section \<open>Decimal values\<close>

text \<open>The value of the low \<open>k\<close> digits.\<close>

primrec decval :: "nat \<Rightarrow> nat \<Rightarrow> nat" where
  "decval 0 x = 0"
| "decval (Suc k) x = decval k x + dig k x * 10 ^ k"

lemma decval_7:
  "decval 7 x = dig 0 x + dig 1 x * 10 + dig 2 x * 100 + dig 3 x * 1000 + dig 4 x * 10000
     + dig 5 x * 100000 + dig 6 x * 1000000"
proof -
  have step: "decval l x = decval k x + dig k x * 10 ^ k" if "l = Suc k" for k l
    unfolding that by (rule decval.simps)
  show ?thesis
    using step [of 1 0] step [of 2 1] step [of 3 2] step [of 4 3] step [of 5 4] step [of 6 5]
      step [of 7 6]
    by (simp del: decval.simps(2))
qed

lemma decval_less:
  assumes "bcd_upto n x"
  shows "k \<le> n \<Longrightarrow> decval k x < 10 ^ k"
proof (induction k)
  case (Suc k)
  have "dig k x * 10 ^ k \<le> 9 * 10 ^ k"
    using bcd_uptoD [OF assms, of k] Suc.prems by (intro mult_le_mono1) simp
  moreover have "decval k x < 10 ^ k" using Suc by simp
  ultimately have "decval k x + dig k x * 10 ^ k < 10 * 10 ^ k" by linarith
  then show ?case by simp
qed simp

lemma dig_low: "x < 16 ^ k \<Longrightarrow> dig k (x + d * 16 ^ k + 16 ^ Suc k * h) = d mod 16"
proof -
  assume "x < 16 ^ k"
  then have "(x + d * 16 ^ k + 16 ^ Suc k * h) div 16 ^ k = d + 16 * h"
    using div_mult_self3 [of "16 ^ k" "d + 16 * h" x] by (simp add: algebra_simps)
  then show ?thesis by (simp add: dig_def)
qed

lemma dsum_less: "dsum a b k < 16 ^ k"
proof (induction k)
  case (Suc k)
  have "(dig k a + dig k b + dcarry a b k) mod 10 * 16 ^ k \<le> 9 * 16 ^ k"
    by (intro mult_le_mono1) (simp add: less_Suc_eq_le [symmetric])
  with Suc have "dsum a b k + (dig k a + dig k b + dcarry a b k) mod 10 * 16 ^ k < 16 * 16 ^ k"
    by linarith
  then show ?case by (simp only: dsum.simps power_Suc)
qed simp

lemma dig_dsum:
  "k < n \<Longrightarrow> dig k (dsum a b n + 16 ^ n * h) = (dig k a + dig k b + dcarry a b k) mod 10"
proof (induction n arbitrary: h)
  case (Suc n)
  show ?case
  proof (cases "k = n")
    case True
    have "dig n (dsum a b (Suc n) + 16 ^ Suc n * h) = (dig n a + dig n b + dcarry a b n) mod 10 mod 16"
      unfolding dsum.simps using dig_low [OF dsum_less] .
    also have "\<dots> = (dig n a + dig n b + dcarry a b n) mod 10"
      by (rule mod_less) (rule order.strict_trans [OF mod_less_divisor], simp_all)
    finally show ?thesis using True by simp
  next
    case False
    let ?d = "(dig n a + dig n b + dcarry a b n) mod 10"
    have "dsum a b (Suc n) + 16 ^ Suc n * h = dsum a b n + 16 ^ n * (?d + 16 * h)"
      by (simp add: algebra_simps)
    then show ?thesis
      using Suc.IH [of "?d + 16 * h"] Suc.prems False by (simp only: less_Suc_eq) simp
  qed
qed simp

lemma dig_top: "dig n (dsum a b n + 16 ^ n * h) = h mod 16"
  using dsum_less [of a b n] by (simp add: dig_def)

lemma decval_dsum:
  assumes "k \<le> n"
  shows "decval k (dsum a b n + 16 ^ n * h) + 10 ^ k * dcarry a b k = decval k a + decval k b"
  using assms
proof (induction k)
  case (Suc k)
  let ?s = "dig k a + dig k b + dcarry a b k"
  have IH: "decval k (dsum a b n + 16 ^ n * h) + dcarry a b k * 10 ^ k = decval k a + decval k b"
    using Suc by (simp add: mult.commute)
  have "?s mod 10 * 10 ^ k + 10 * 10 ^ k * (?s div 10) = (?s mod 10 + 10 * (?s div 10)) * 10 ^ k"
    by (simp only: algebra_simps)
  also have "\<dots> = (dig k a + dig k b + dcarry a b k) * 10 ^ k"
    by (simp only: mod_mult_div_eq)
  finally have "?s mod 10 * 10 ^ k + 10 * 10 ^ k * (?s div 10)
    = dig k a * 10 ^ k + dig k b * 10 ^ k + dcarry a b k * 10 ^ k"
    by (simp only: distrib_right)
  moreover have "dig k (dsum a b n + 16 ^ n * h) = ?s mod 10"
    using Suc.prems by (simp add: dig_dsum)
  ultimately show ?case
    using IH by (simp only: decval.simps dcarry.simps power_Suc)
qed simp

lemma mod_2p32_decompose: "unat (of_nat x :: u32) = x mod (16 ^ 7 * 16)"
  by (simp add: unsigned_of_nat take_bit_eq_mod)

lemma dig_take_bit: "dig k x = take_bit 4 (drop_bit (4 * k) x)"
  by (simp add: dig_def take_bit_eq_mod drop_bit_eq_div power_mult)

lemma dig_mod:
  assumes "k < n"
  shows "dig k (x mod 16 ^ n) = dig k x"
proof -
  have "x mod 16 ^ n = take_bit (4 * n) x"
    by (simp add: take_bit_eq_mod power_mult)
  then show ?thesis
    unfolding dig_take_bit using assms by (auto intro!: bit_eqI simp: bit_simps)
qed

lemma decval_cong: "(\<And>j. j < k \<Longrightarrow> dig j x = dig j y) \<Longrightarrow> decval k x = decval k y"
  by (induction k) simp_all

text \<open>
  Addition digit by digit: the low seven digits are the decimal sum, the top nibble takes
  the carry (and wraps around, which makes it the sign of a ten's complement number).
\<close>

lemma vbi_add_bcd_digits:
  assumes a: "vbi_is_bcd a" and b: "vbi_is_bcd b"
  defines "r \<equiv> unat (vbi_add_bcd a b)"
  shows "bcd_upto 7 r"
    and "decval 7 r + 10 ^ 7 * dcarry (unat a) (unat b) 7 = decval 7 (unat a) + decval 7 (unat b)"
    and "dig 7 r = (dig 7 (unat a) + dig 7 (unat b) + dcarry (unat a) (unat b) 7) mod 16"
proof -
  let ?A = "unat a" and ?B = "unat b"
  let ?h = "?A div 16 ^ 7 + ?B div 16 ^ 7 + dcarry ?A ?B 7"
  let ?R = "dsum ?A ?B 7 + 16 ^ 7 * ?h"
  have u: "bcd_upto 7 ?A" "bcd_upto 7 ?B"
    using a b by (simp_all add: vbi_is_bcd_iff bcd_upto_def)
  have r: "r = ?R mod 16 ^ 8"
    unfolding r_def vbi_add_bcd_eq [OF u] mod_2p32_decompose by simp
  have d: "dig k r = dig k ?R" if "k < 8" for k
    unfolding r by (rule dig_mod [OF that])
  show "bcd_upto 7 r"
    unfolding bcd_upto_def
  proof (intro allI impI)
    fix k :: nat assume "k < 7"
    then have "dig k r = (dig k ?A + dig k ?B + dcarry ?A ?B k) mod 10"
      using d [of k] dig_dsum [of k 7 ?A ?B ?h] by simp
    then show "dig k r \<le> 9" by (simp add: less_Suc_eq_le [symmetric])
  qed
  have "decval 7 r = decval 7 ?R" by (rule decval_cong) (simp add: d)
  then show "decval 7 r + 10 ^ 7 * dcarry ?A ?B 7 = decval 7 ?A + decval 7 ?B"
    using decval_dsum [of 7 7 ?A ?B ?h] by simp
  have "dig 7 r = ?h mod 16"
    using d [of 7] dig_top [of 7 ?A ?B ?h] by simp
  also have "\<dots> = (dig 7 ?A + dig 7 ?B + dcarry ?A ?B 7) mod 16"
    unfolding dig_def
    by (rule mod_add_cong [OF mod_add_cong [OF mod_mod_trivial [symmetric] mod_mod_trivial [symmetric]] refl])
  finally show "dig 7 r = (dig 7 ?A + dig 7 ?B + dcarry ?A ?B 7) mod 16" .
qed

text \<open>
  The signed value of a packed number in the documented range
  \<^verbatim>\<open>0xF0000000 ... 0x09999999\<close>.
\<close>

definition bcd_int :: "u32 \<Rightarrow> int" where
  "bcd_int x = int (decval 7 (unat x)) - (if dig 7 (unat x) = 15 then 10 ^ 7 else 0)"

definition bcd_wf :: "u32 \<Rightarrow> bool" where
  "bcd_wf x \<longleftrightarrow> vbi_is_bcd x \<and> (dig 7 (unat x) = 0 \<or> dig 7 (unat x) = 15)"

text \<open>C14. For packed BCD numbers in the documented range \<open>-10^7 .. 10^7 - 1\<close> whose sum is in
  that range, \<open>vbi_add_bcd\<close> returns a packed BCD number in the range, and its value is the
  sum of the values.\<close>

theorem vbi_add_bcd_correct:
  assumes "bcd_wf a" and "bcd_wf b"
    and "- (10 ^ 7) \<le> bcd_int a + bcd_int b" and "bcd_int a + bcd_int b < 10 ^ 7"
  shows "bcd_wf (vbi_add_bcd a b) \<and> bcd_int (vbi_add_bcd a b) = bcd_int a + bcd_int b"
proof -
  let ?r = "unat (vbi_add_bcd a b)" and ?c = "dcarry (unat a) (unat b) 7"
  have ab: "vbi_is_bcd a" "vbi_is_bcd b" using assms by (simp_all add: bcd_wf_def)
  note s = vbi_add_bcd_digits [OF ab]
  have u: "bcd_upto 7 (unat a)" "bcd_upto 7 (unat b)"
    using ab by (simp_all add: vbi_is_bcd_iff bcd_upto_def)
  have "decval 7 (unat a) < 10 ^ 7" "decval 7 (unat b) < 10 ^ 7" "decval 7 ?r < 10 ^ 7"
    using decval_less u s(1) by blast+
  moreover have "?c \<le> 1" by (rule dcarry_le_1 [OF u]) simp
  then have "?c = 0 \<or> ?c = 1" by linarith
  moreover have "int (decval 7 ?r) + 10 ^ 7 * int ?c = int (decval 7 (unat a)) + int (decval 7 (unat b))"
    using arg_cong [OF s(2), of int] by (simp only: of_nat_add of_nat_mult of_nat_power of_nat_numeral)
  moreover have "dig 7 (unat a) = 0 \<or> dig 7 (unat a) = 15" "dig 7 (unat b) = 0 \<or> dig 7 (unat b) = 15"
    using assms by (simp_all add: bcd_wf_def)
  moreover have "vbi_is_bcd (vbi_add_bcd a b)"
    using s(1) by (simp add: vbi_is_bcd_iff bcd_upto_def)
  ultimately show ?thesis
    using s(3) assms(3,4) unfolding bcd_wf_def bcd_int_def
    by (elim disjE) (simp_all del: decval.simps dcarry.simps)
qed

theorem vbi_add_bcd_correct_witness:
  "bcd_wf (vbi_add_bcd 0x07995999 0xF9999999)
   \<and> bcd_int (vbi_add_bcd 0x07995999 0xF9999999) = bcd_int 0x07995999 + bcd_int 0xF9999999"
  by (rule vbi_add_bcd_correct)
    (simp_all add: bcd_wf_def bcd_int_def decval_7 dig_def vbi_is_bcd_def)

section \<open>Conversion and comparison\<close>

lemma unat_of_nat_u32: "n < 2 ^ 32 \<Longrightarrow> unat (of_nat n :: u32) = n"
  by (simp add: unsigned_of_nat take_bit_nat_eq_self)

lemma dec2bcd_nat: "unat (vbi_dec2bcd n) = unat n mod 10 + unat n div 10 mod 10 * 16 + unat n div 100 mod 10 * 256"
proof -
  let ?n = "unat n"
  have o: "of_nat (unat w) = w" for w :: u32 by simp
  have m: "unat (n mod 10) = ?n mod 10" "unat (n div 10 mod 10) = ?n div 10 mod 10"
    "unat (n div 100 mod 10) = ?n div 100 mod 10"
    by (simp_all add: unat_mod unat_div)
  have "vbi_dec2bcd n = of_nat (?n mod 10 + ?n div 10 mod 10 * 16 + ?n div 100 mod 10 * 256)"
    unfolding m [symmetric] vbi_dec2bcd_def
    by (simp only: of_nat_add of_nat_mult of_nat_numeral o)
  moreover have "?n mod 10 + ?n div 10 mod 10 * 16 + ?n div 100 mod 10 * 256 < 2 ^ 32"
  proof -
    have "?n mod 10 < 10" "?n div 10 mod 10 < 10" "?n div 100 mod 10 < 10" by simp_all
    then show ?thesis by simp
  qed
  ultimately show ?thesis
    by (simp only: unat_of_nat_u32)
qed

lemma dig_dec2bcd:
  "dig k (unat (vbi_dec2bcd n)) =
     (if k = 0 then unat n mod 10 else if k = 1 then unat n div 10 mod 10
      else if k = 2 then unat n div 100 mod 10 else 0)"
proof -
  define x y z where "x = unat n mod 10" "y = unat n div 10 mod 10" "z = unat n div 100 mod 10"
  then have lt: "x < 10" "y < 10" "z < 10" by simp_all
  have "unat (vbi_dec2bcd n) = x + y * 16 + z * 256"
    unfolding dec2bcd_nat by (simp add: x_y_z_def)
  moreover have "(x + y * 16 + z * 256) div 16 ^ k = 0" if "k \<ge> 3"
  proof -
    have "x + y * 16 + z * 256 < 16 ^ 3" using lt by simp
    also have "\<dots> \<le> 16 ^ k" using that by (rule power_increasing) simp
    finally show ?thesis by simp
  qed
  moreover have "k = 0 \<or> k = 1 \<or> k = 2 \<or> k \<ge> 3" by auto
  moreover have "(x + y * 16 + z * 256) mod 16 = x" "(x + y * 16 + z * 256) div 16 mod 16 = y"
    "(x + y * 16 + z * 256) div 256 mod 16 = z"
  proof -
    have e: "x + y * 16 + z * 256 = x + 16 * (y + 16 * z)" by simp
    show "(x + y * 16 + z * 256) mod 16 = x" using lt unfolding e by (simp only: mod_mult_self2 mod_less)
    have d: "(x + 16 * (y + 16 * z)) div 16 = y + 16 * z" using lt by simp
    show "(x + y * 16 + z * 256) div 16 mod 16 = y" unfolding e d using lt by simp
    have "(256 :: nat) = 16 * 16" by simp
    then show "(x + y * 16 + z * 256) div 256 mod 16 = z"
      unfolding e using lt by (simp only: div_mult2_eq d) simp
  qed
  ultimately show ?thesis
    unfolding dig_def x_y_z_def [symmetric] by simp
qed

lemma dig_less_exp: "x < 16 ^ k \<Longrightarrow> k \<le> j \<Longrightarrow> dig j x = 0"
proof -
  assume "x < 16 ^ k" "k \<le> j"
  then have "x < 16 ^ j" using power_increasing [of k j "16 :: nat"] by linarith
  then show ?thesis by (simp add: dig_def)
qed

lemma unsigned_drop_bit_eq_u32: "unat (drop_bit n x) = drop_bit n (unat (x :: u32))"
  by (rule bit_eqI) (simp add: bit_simps)

lemma bcd2dec_nat: "unat (vbi_bcd2dec x) = dig 0 (unat x) + dig 1 (unat x) * 10 + dig 2 (unat x) * 100"
proof -
  have o: "of_nat (unat w) = w" for w :: u32 by simp
  have a: "(15 :: u32) = mask 4" by (simp add: mask_eq_exp_minus_1)
  have m: "unat (drop_bit (4 * k) x AND 15) = dig k (unat x)" for k
    unfolding a dig_take_bit by (simp add: unsigned_take_bit_eq unsigned_drop_bit_eq_u32 flip: take_bit_eq_mask)
  have "vbi_bcd2dec x = of_nat (dig 0 (unat x) + dig 1 (unat x) * 10 + dig 2 (unat x) * 100)"
    unfolding vbi_bcd2dec_def m [symmetric]
    by (simp only: of_nat_add of_nat_mult of_nat_numeral o) simp
  moreover have "dig 0 (unat x) + dig 1 (unat x) * 10 + dig 2 (unat x) * 100 < 2 ^ 32"
  proof -
    have "dig 0 (unat x) < 16" "dig 1 (unat x) < 16" "dig 2 (unat x) < 16" by (rule dig_less)+
    then have "dig 0 (unat x) + dig 1 (unat x) * 10 + dig 2 (unat x) * 100 < 10000" by linarith
    then show ?thesis by simp
  qed
  ultimately show ?thesis
    by (simp only: unat_of_nat_u32)
qed

text \<open>Conversion between decimal and packed numbers: \<open>vbi_dec2bcd\<close> yields a packed BCD
  number, \<open>vbi_bcd2dec\<close> recovers its argument modulo 1000, and on packed numbers of three
  digits \<open>vbi_dec2bcd\<close> inverts \<open>vbi_bcd2dec\<close>.\<close>

theorem bcd_round_trip:
  "vbi_is_bcd (vbi_dec2bcd n) \<and> vbi_bcd2dec (vbi_dec2bcd n) = n mod 1000
   \<and> (vbi_is_bcd x \<and> x < 0x1000 \<longrightarrow> vbi_dec2bcd (vbi_bcd2dec x) = x)"
proof (intro conjI impI)
  show "vbi_is_bcd (vbi_dec2bcd n)"
    by (simp add: vbi_is_bcd_iff dig_dec2bcd) (simp add: less_Suc_eq_le [symmetric])
  have "unat n mod 1000 = unat n mod 10 + unat n div 10 mod 10 * 10 + unat n div 100 mod 10 * 100"
    using mod_mult2_eq [of "unat n" 100 10] mod_mult2_eq [of "unat n" 10 10] by simp
  then have "unat (vbi_bcd2dec (vbi_dec2bcd n)) = unat (n mod 1000)"
    by (simp add: bcd2dec_nat dig_dec2bcd unat_mod)
  then show "vbi_bcd2dec (vbi_dec2bcd n) = n mod 1000" by (rule unsigned_word_eqI)
next
  assume x: "vbi_is_bcd x \<and> x < 0x1000"
  let ?X = "unat x"
  have d: "dig 0 ?X \<le> 9" "dig 1 ?X \<le> 9" "dig 2 ?X \<le> 9" using x by (simp_all add: vbi_is_bcd_iff)
  have e: "?X = dig 0 ?X + dig 1 ?X * 16 + dig 2 ?X * 256"
  proof -
    have "?X < 16 ^ 3" using x by (simp add: word_less_nat_alt)
    then have "?X = ?X mod 16 ^ Suc 2" by (simp del: power_Suc)
    then show ?thesis
      using mod_16_Suc [of ?X 2] mod_16_Suc [of ?X 1] mod_16_Suc [of ?X 0]
      by (simp add: numeral_2_eq_2)
  qed
  have "unat (vbi_dec2bcd (vbi_bcd2dec x)) = dig 0 ?X + dig 1 ?X * 16 + dig 2 ?X * 256"
  proof -
    define p q r where "p = dig 0 ?X" "q = dig 1 ?X" "r = dig 2 ?X"
    then have "p \<le> 9" "q \<le> 9" "r \<le> 9" using d by simp_all
    moreover have "(p + q * 10 + r * 100) div 100 = r"
      using \<open>p \<le> 9\<close> \<open>q \<le> 9\<close> by (intro div_nat_eqI) simp_all
    moreover have "(p + q * 10 + r * 100) div 10 = q + r * 10"
      using \<open>p \<le> 9\<close> by (intro div_nat_eqI) simp_all
    moreover have "(p + q * 10 + r * 100) mod 10 = p"
      using \<open>p \<le> 9\<close> mod_mult_self2 [of p 10 "q + r * 10"] by (simp add: algebra_simps)
    ultimately show ?thesis
      unfolding dec2bcd_nat bcd2dec_nat p_q_r_def [symmetric] by simp
  qed
  with e have "unat (vbi_dec2bcd (vbi_bcd2dec x)) = unat x" by simp
  then show "vbi_dec2bcd (vbi_bcd2dec x) = x" by (rule unsigned_word_eqI)
qed

theorem bcd_round_trip_witness:
  "vbi_bcd2dec (vbi_dec2bcd 1745) = 745 \<and> vbi_dec2bcd (vbi_bcd2dec 0x745) = 0x745"
  using bcd_round_trip [of 1745 "0x745"] by (simp add: vbi_is_bcd_def)

lemma mod_16_le: "\<forall>j < k. dig j b \<le> dig j m \<Longrightarrow> b mod 16 ^ k \<le> m mod 16 ^ k"
proof (induction k)
  case (Suc k)
  then show ?case unfolding mod_16_Suc by (auto intro: add_mono mult_le_mono1)
qed simp

lemma mod_16_greater: "dig j m < dig j b \<Longrightarrow> m mod 16 ^ Suc j < b mod 16 ^ Suc j"
proof -
  assume "dig j m < dig j b"
  then have "(dig j m + 1) * 16 ^ j \<le> dig j b * 16 ^ j" by (intro mult_le_mono1) simp
  moreover have "m mod 16 ^ j < 16 ^ j" by simp
  moreover have "(dig j m + 1) * 16 ^ j = dig j m * 16 ^ j + 16 ^ j" by simp
  ultimately show ?thesis unfolding mod_16_Suc by linarith
qed

lemma digits_greater_prefix:
  "(\<exists>k \<in> {1..n}. m mod 16 ^ k < b mod 16 ^ k) \<longleftrightarrow> (\<exists>j < n. dig j m < dig j b)"
proof
  assume "\<exists>k \<in> {1..n}. m mod 16 ^ k < b mod 16 ^ k"
  then show "\<exists>j < n. dig j m < dig j b"
    using mod_16_le [of _ b m] by (meson atLeastAtMost_iff linorder_not_less order_less_le_trans)
next
  assume "\<exists>j < n. dig j m < dig j b"
  then obtain j where "j < n" "dig j m < dig j b" by blast
  then show "\<exists>k \<in> {1..n}. m mod 16 ^ k < b mod 16 ^ k"
    using mod_16_greater [of j m b] by (intro bexI [of _ "Suc j"]) simp_all
qed

lemma unat_not_mod: "unat (NOT m) mod 16 ^ k = 16 ^ k - 1 - unat m mod 16 ^ k" if "k \<le> 8" for m :: u32
proof -
  have p: "(16 :: nat) ^ k = 2 ^ (4 * k)" by (simp add: power_mult)
  have "unat (NOT m) mod 16 ^ k + unat m mod 16 ^ k = 16 ^ k - 1"
  proof -
    have "unat (NOT m) mod 16 ^ k = take_bit (4 * k) (unat (NOT m))"
      "unat m mod 16 ^ k = take_bit (4 * k) (unat m)"
      by (simp_all only: take_bit_eq_mod p)
    moreover have "take_bit (4 * k) (unat (NOT m)) + take_bit (4 * k) (unat m)
        = take_bit (4 * k) (unat (NOT m)) OR take_bit (4 * k) (unat m)"
      by (rule disjunctive_add) (auto simp: bit_simps)
    moreover have "take_bit (4 * k) (unat (NOT m)) OR take_bit (4 * k) (unat m) = mask (4 * k)"
      by (rule bit_eqI) (use that in \<open>auto simp: bit_simps\<close>)
    ultimately show ?thesis unfolding p by (simp only: mask_eq_exp_minus_1)
  qed
  then show ?thesis by simp
qed

text \<open>\<open>vbi_bcd_digits_greater\<close> holds exactly when one of the seven low digits of its
  argument exceeds the digit of the maximum at the same place; with every digit of the
  maximum 9 it is the complement of \<open>vbi_is_bcd\<close>.\<close>

theorem bcd_digits_greater_correct:
  "(vbi_bcd_digits_greater bcd maximum \<longleftrightarrow>
      (\<exists>k \<in> set [0..<7]. dig k (unat maximum) < dig k (unat bcd)))
   \<and> (vbi_bcd_digits_greater bcd 0x09999999 \<longleftrightarrow> \<not> vbi_is_bcd bcd)"
proof -
  have main: "vbi_bcd_digits_greater bcd maximum \<longleftrightarrow> (\<exists>k < 7. dig k (unat maximum) < dig k (unat bcd))"
    for maximum
  proof -
    let ?M = "unat maximum" and ?B = "unat bcd"
    have n: "maximum XOR NOT 0 = NOT maximum" by simp
    have c: "bit ((bcd + NOT maximum) XOR bcd XOR NOT maximum) (4 * k) \<longleftrightarrow> ?M mod 16 ^ k < ?B mod 16 ^ k"
      if "4 * k < 32" for k
    proof -
      have p: "(16 :: nat) ^ k = 2 ^ (4 * k)" by (simp add: power_mult)
      have "bit ((bcd + NOT maximum) XOR bcd XOR NOT maximum) (4 * k) \<longleftrightarrow>
          16 ^ k \<le> ?B mod 16 ^ k + unat (NOT maximum) mod 16 ^ k"
        using bit_carry [OF that, of bcd "NOT maximum"] by (simp only: p xor.assoc)
      moreover have "?M mod 16 ^ k < 16 ^ k" by simp
      ultimately show ?thesis
        using that by (simp only: unat_not_mod) linarith
    qed
    have ex: "(\<exists>k \<in> {1..7}. P k) \<longleftrightarrow> P 1 \<or> P 2 \<or> P 3 \<or> P 4 \<or> P 5 \<or> P 6 \<or> P (7 :: nat)" for P
      using one_to_seven [of "\<lambda>k. \<not> P k"] by blast
    show ?thesis
      unfolding vbi_bcd_digits_greater_def Let_def n and_digit_mask_eq_0
        digits_greater_prefix [symmetric] ex
      using c [of 1] c [of 2] c [of 3] c [of 4] c [of 5] c [of 6] c [of 7] by simp
  qed
  have nines: "dig k 0x09999999 = 9" if "k < 7" for k
  proof -
    have "\<forall>k < 7. dig k 0x09999999 = 9" unfolding seven_digits by (simp add: dig_def)
    then show ?thesis using that by simp
  qed
  show ?thesis
    using main [of maximum] main [of "0x09999999"] nines
    by (auto simp: vbi_is_bcd_iff not_le)
qed

theorem bcd_digits_greater_witness:
  "vbi_bcd_digits_greater 0x235960 0x295959 \<and> \<not> vbi_bcd_digits_greater 0x235959 0x295959"
  using bcd_digits_greater_correct [of "0x235960" "0x295959"]
    bcd_digits_greater_correct [of "0x235959" "0x295959"]
  by (simp add: vbi_bcd_digits_greater_def)

end
