(* ===== verification/Program_Id.thy ===== *)
theory Program_Id
  imports Zvbi_Prelude
begin

text \<open>
  The data of PDC program identification shared by the VPS, Teletext packet 8/30 and PDC
  modules: the types of \<^verbatim>\<open>vbi/src/pdc.h\<close> and \<^verbatim>\<open>vbi/src/network.h\<close>, and lemmas on
  bit fields assembled from bytes.
\<close>

section \<open>Types\<close>

type_synonym vbi_pil = u32

datatype vbi_cni_type =
    VBI_CNI_TYPE_NONE
  | VBI_CNI_TYPE_VPS
  | VBI_CNI_TYPE_8301
  | VBI_CNI_TYPE_8302
  | VBI_CNI_TYPE_PDC_A
  | VBI_CNI_TYPE_PDC_B

datatype vbi_pid_channel =
    VBI_PID_CHANNEL_LCI_0
  | VBI_PID_CHANNEL_LCI_1
  | VBI_PID_CHANNEL_LCI_2
  | VBI_PID_CHANNEL_LCI_3
  | VBI_PID_CHANNEL_VPS
  | VBI_PID_CHANNEL_PDC_DESCRIPTOR
  | VBI_PID_CHANNEL_XDS_CURRENT
  | VBI_PID_CHANNEL_XDS_FUTURE

text \<open>
  The enum \<^verbatim>\<open>vbi_pcs_audio\<close> is kept as the number the code tests and shifts;
  the two reserved arrays at the end of the structure are never used.
\<close>

record vbi_program_id =
  channel :: vbi_pid_channel
  cni_type :: vbi_cni_type
  cni :: u32
  pil :: vbi_pil
  luf :: bool
  mi :: bool
  prf_flag :: bool
  pcs_audio :: u32
  pty :: u32
  tape_delayed :: bool

text \<open>\<^verbatim>\<open>CLEAR (*pid)\<close> fills the structure with zero bytes.\<close>

definition cleared_pid :: vbi_program_id where
  "cleared_pid = \<lparr> channel = VBI_PID_CHANNEL_LCI_0, cni_type = VBI_CNI_TYPE_NONE, cni = 0, pil = 0,
     luf = False, mi = False, prf_flag = False, pcs_audio = 0, pty = 0, tape_delayed = False \<rparr>"

section \<open>Program identification labels\<close>

definition VBI_PIL :: "u32 \<Rightarrow> u32 \<Rightarrow> u32 \<Rightarrow> u32 \<Rightarrow> vbi_pil" where
  "VBI_PIL month day hour minute =
     push_bit 15 day OR push_bit 11 month OR push_bit 6 hour OR minute"

definition VBI_PIL_MONTH :: "vbi_pil \<Rightarrow> u32" where
  "VBI_PIL_MONTH p = drop_bit 11 p AND 15"

definition VBI_PIL_DAY :: "vbi_pil \<Rightarrow> u32" where
  "VBI_PIL_DAY p = drop_bit 15 p AND 31"

definition VBI_PIL_HOUR :: "vbi_pil \<Rightarrow> u32" where
  "VBI_PIL_HOUR p = drop_bit 6 p AND 31"

definition VBI_PIL_MINUTE :: "vbi_pil \<Rightarrow> u32" where
  "VBI_PIL_MINUTE p = p AND 63"

definition VBI_PIL_TIMER_CONTROL :: vbi_pil where
  "VBI_PIL_TIMER_CONTROL = VBI_PIL 15 0 31 63"

definition VBI_PIL_INHIBIT_TERMINATE :: vbi_pil where
  "VBI_PIL_INHIBIT_TERMINATE = VBI_PIL 15 0 30 63"

definition VBI_PIL_INTERRUPTION :: vbi_pil where
  "VBI_PIL_INTERRUPTION = VBI_PIL 15 0 29 63"

definition VBI_PIL_CONTINUE :: vbi_pil where
  "VBI_PIL_CONTINUE = VBI_PIL 15 0 28 63"

definition VBI_PIL_NSPV :: vbi_pil where
  "VBI_PIL_NSPV = VBI_PIL 15 15 31 63"

definition VBI_PIL_END :: vbi_pil where
  "VBI_PIL_END = VBI_PIL 15 15 31 63"

section \<open>Bit fields\<close>

text \<open>Bit masks as blocks of ones, so that the bit of a mask is a comparison of positions.\<close>

lemma u32_masks:
  "(0x03 :: u32) = mask 2" "(0x07 :: u32) = mask 3" "(0x0F :: u32) = mask 4" "(0x1F :: u32) = mask 5"
  "(0x3F :: u32) = mask 6" "(0x7F :: u32) = mask 7" "(0xFF :: u32) = mask 8"
  "(0xC0 :: u32) = push_bit 6 (mask 2)" "(0xF0 :: u32) = push_bit 4 (mask 4)"
  "(0xFC :: u32) = push_bit 2 (mask 6)" "(0xFFF :: u32) = mask 12" "(0xFFFFF :: u32) = mask 20"
  by (simp_all add: mask_eq_exp_minus_1 push_bit_eq_mult)

lemma u8_masks:
  "(0x03 :: u8) = mask 2" "(0x0F :: u8) = mask 4" "(0x3F :: u8) = mask 6" "(0xC0 :: u8) = push_bit 6 (mask 2)"
  "(0xF0 :: u8) = push_bit 4 (mask 4)" "(0xFC :: u8) = push_bit 2 (mask 6)"
  by (simp_all add: mask_eq_exp_minus_1 push_bit_eq_mult)

lemmas bf_simps = bit_simps comp_def

lemma plus_or: "(\<And>n. \<not> (bit a n \<and> bit b n)) \<Longrightarrow> a + b = a OR b" for a b :: "'a::len word"
  by (rule disjunctive_add) blast

lemma unat_less_bit: "unat w < 2 ^ n \<Longrightarrow> n \<le> k \<Longrightarrow> \<not> bit w k" for w :: "'a::len word"
proof -
  assume "unat w < 2 ^ n" "n \<le> k"
  then have "take_bit n (unat w) = unat w" by (simp add: take_bit_nat_eq_self)
  then have "bit (unat w) k \<longleftrightarrow> k < n \<and> bit (unat w) k"
    by (metis bit_take_bit_iff)
  with \<open>n \<le> k\<close> show ?thesis by (simp add: bit_unsigned_iff)
qed

lemma field_bits:
  "w \<le> (0xFFF :: u32) \<Longrightarrow> bit w k \<Longrightarrow> k < 12"
  "w \<le> (0xFFFFF :: u32) \<Longrightarrow> bit w k \<Longrightarrow> k < 20"
  "w \<le> (0xFF :: u32) \<Longrightarrow> bit w k \<Longrightarrow> k < 8"
  "w \<le> (3 :: u32) \<Longrightarrow> bit w k \<Longrightarrow> k < 2"
  using unat_less_bit [of w 12 k] unat_less_bit [of w 20 k] unat_less_bit [of w 8 k]
    unat_less_bit [of w 2 k]
  by (auto simp: word_le_nat_alt not_le [symmetric])

end
