(* ===== verification/Vps.thy ===== *)
theory Vps
  imports Program_Id
begin

text \<open>
  VPS packets and the DVB PDC descriptor, \<^verbatim>\<open>vbi/src/vps.c\<close>. A packet is the list of
  its 13 (descriptor: 5) bytes. A decoder returns \<open>None\<close> where the C function
  returns \<^verbatim>\<open>FALSE\<close>; an encoder writes its buffer in place, so it returns the success flag
  and the buffer after the call.
\<close>

section \<open>The functions\<close>

definition vbi_decode_vps_cni :: "u8 list \<Rightarrow> u32" where
  "vbi_decode_vps_cni buffer =
     (let cni_value = push_bit 10 (ucast (buffer ! 10) AND 0x03)
                    + push_bit 2 (ucast (buffer ! 11) AND 0xC0)
                    + (ucast (buffer ! 8) AND 0xC0)
                    + (ucast (buffer ! 11) AND 0x3F)
      in if cni_value = 0x0DC3
         then (if buffer ! 2 AND 0x10 \<noteq> 0 then 0x0DC1 else 0x0DC2)
         else cni_value)"

definition vbi_decode_vps_pdc :: "u8 list \<Rightarrow> vbi_program_id option" where
  "vbi_decode_vps_pdc buffer =
     (let p = push_bit 14 (ucast (buffer ! 8) AND 0x3F)
            + push_bit 6 (ucast (buffer ! 9))
            + drop_bit 2 (ucast (buffer ! 10))
      in Some (cleared_pid \<lparr> channel := VBI_PID_CHANNEL_VPS,
                            cni_type := VBI_CNI_TYPE_VPS,
                            cni := vbi_decode_vps_cni buffer,
                            pil := p,
                            mi := True,
                            pcs_audio := ucast (drop_bit 6 (buffer ! 2)),
                            pty := ucast (buffer ! 12) \<rparr>))"

definition vbi_decode_dvb_pdc_descriptor :: "u8 list \<Rightarrow> vbi_program_id option" where
  "vbi_decode_dvb_pdc_descriptor buffer =
     (if 0x69 \<noteq> buffer ! 0 \<or> 3 \<noteq> buffer ! 1 then None
      else let p = push_bit 16 (ucast (buffer ! 2) AND 0x0F)
                 + push_bit 8 (ucast (buffer ! 3))
                 + ucast (buffer ! 4)
           in Some (cleared_pid \<lparr> channel := VBI_PID_CHANNEL_PDC_DESCRIPTOR, pil := p, mi := True \<rparr>))"

definition vbi_encode_vps_cni :: "u8 list \<Rightarrow> u32 \<Rightarrow> bool \<times> u8 list" where
  "vbi_encode_vps_cni buffer c =
     (if c > 0x0FFF then (False, buffer)
      else let buffer = buffer [8 := buffer ! 8 AND 0x3F OR ucast (c AND 0xC0)];
               buffer = buffer [10 := buffer ! 10 AND 0xFC OR ucast (drop_bit 10 c)];
               buffer = buffer [11 := ucast (c AND 0x3F OR drop_bit 2 c AND 0xC0)]
           in (True, buffer))"

definition vbi_encode_vps_pdc :: "u8 list \<Rightarrow> vbi_program_id \<Rightarrow> bool \<times> u8 list" where
  "vbi_encode_vps_pdc buffer pid =
     (if pty pid > 0xFF then (False, buffer)
      else if pcs_audio pid > 3 then (False, buffer)
      else if pil pid > 0xFFFFF then (False, buffer)
      else case vbi_encode_vps_cni buffer (cni pid) of
        (False, buffer) \<Rightarrow> (False, buffer)
      | (True, buffer) \<Rightarrow>
          let p = pil pid;
              buffer = buffer [2 := buffer ! 2 AND 0x3F OR ucast (push_bit 6 (pcs_audio pid))];
              buffer = buffer [8 := buffer ! 8 AND 0xC0 OR ucast (drop_bit 14 p AND 0x3F)];
              buffer = buffer [9 := ucast (drop_bit 6 p)];
              buffer = buffer [10 := buffer ! 10 AND 0x03 OR ucast (push_bit 2 p)];
              buffer = buffer [12 := ucast (pty pid)]
          in (True, buffer))"

definition vbi_encode_dvb_pdc_descriptor :: "u8 list \<Rightarrow> vbi_program_id \<Rightarrow> bool \<times> u8 list" where
  "vbi_encode_dvb_pdc_descriptor buffer pid =
     (let p = pil pid in
      if p > 0xFFFFF then (False, buffer)
      else let buffer = buffer [0 := 0x69];
               buffer = buffer [1 := 3];
               buffer = buffer [2 := 0xF0 OR ucast (drop_bit 16 p)];
               buffer = buffer [3 := ucast (drop_bit 8 p)];
               buffer = buffer [4 := ucast p]
           in (True, buffer))"

section \<open>The fields of a packet\<close>

text \<open>The CNI field before the translation of 0xDC3.\<close>

definition vps_cni_field :: "u8 list \<Rightarrow> u32" where
  "vps_cni_field buffer =
     push_bit 10 (ucast (buffer ! 10) AND 0x03) OR push_bit 2 (ucast (buffer ! 11) AND 0xC0)
     OR (ucast (buffer ! 8) AND 0xC0) OR (ucast (buffer ! 11) AND 0x3F)"

definition vps_pil_field :: "u8 list \<Rightarrow> u32" where
  "vps_pil_field buffer =
     push_bit 14 (ucast (buffer ! 8) AND 0x3F) OR push_bit 6 (ucast (buffer ! 9))
     OR drop_bit 2 (ucast (buffer ! 10))"

lemma vps_cni_sum:
  "push_bit 10 (ucast b10 AND 0x03) + push_bit 2 (ucast b11 AND 0xC0) + (ucast b8 AND 0xC0)
     + (ucast b11 AND 0x3F)
   = (push_bit 10 (ucast b10 AND 0x03) OR push_bit 2 (ucast b11 AND 0xC0)
     OR (ucast b8 AND 0xC0) OR (ucast b11 AND 0x3F) :: u32)" for b8 b10 b11 :: u8
  unfolding u32_masks
  by (subst plus_or, force simp: bit_simps)+ (simp add: or.assoc)

lemma vps_pil_sum:
  "push_bit 14 (ucast b8 AND 0x3F) + push_bit 6 (ucast b9) + drop_bit 2 (ucast b10)
   = (push_bit 14 (ucast b8 AND 0x3F) OR push_bit 6 (ucast b9) OR drop_bit 2 (ucast b10) :: u32)"
  for b8 b9 b10 :: u8
  unfolding u32_masks
  by (subst plus_or, (auto simp: bit_simps dest: bit_imp_le_length)[])+ (simp add: or.assoc)

lemma decode_vps_cni_field:
  "vbi_decode_vps_cni buffer =
     (if vps_cni_field buffer = 0xDC3 then (if buffer ! 2 AND 0x10 \<noteq> 0 then 0xDC1 else 0xDC2)
      else vps_cni_field buffer)"
  unfolding vbi_decode_vps_cni_def vps_cni_sum vps_cni_field_def Let_def by (rule refl)

lemma decode_vps_pdc_field:
  "vbi_decode_vps_pdc buffer =
     Some (cleared_pid \<lparr> channel := VBI_PID_CHANNEL_VPS, cni_type := VBI_CNI_TYPE_VPS,
       cni := vbi_decode_vps_cni buffer, pil := vps_pil_field buffer, mi := True,
       pcs_audio := ucast (drop_bit 6 (buffer ! 2)), pty := ucast (buffer ! 12) \<rparr>)"
  unfolding vbi_decode_vps_pdc_def vps_pil_sum vps_pil_field_def Let_def by (rule refl)

section \<open>Encoding\<close>

lemma Suc_Suc_diff: "2 \<le> n \<Longrightarrow> Suc (Suc (n - 2)) = n"
  by simp

lemma encode_cni_field:
  fixes c :: u32 and b8 b10 :: u8
  assumes c: "c \<le> 0xFFF"
  shows "push_bit 10 (ucast (b10 AND 0xFC OR ucast (drop_bit 10 c)) AND 0x03)
     OR push_bit 2 (ucast (ucast (c AND 0x3F OR drop_bit 2 c AND 0xC0) :: u8) AND 0xC0)
     OR (ucast (b8 AND 0x3F OR ucast (c AND 0xC0)) AND 0xC0)
     OR (ucast (ucast (c AND 0x3F OR drop_bit 2 c AND 0xC0) :: u8) AND 0x3F) = c"
proof (rule bit_word_eqI)
  fix n :: nat assume n: "n < LENGTH(32)"
  note hi = field_bits(1) [OF c, of n]
  consider "n < 6" | "6 \<le> n \<and> n < 8" | "8 \<le> n \<and> n < 10" | "10 \<le> n \<and> n < 12" | "12 \<le> n" by linarith
  then show "bit (push_bit 10 (ucast (b10 AND 0xFC OR ucast (drop_bit 10 c)) AND 0x03)
     OR push_bit 2 (ucast (ucast (c AND 0x3F OR drop_bit 2 c AND 0xC0) :: u8) AND 0xC0)
     OR (ucast (b8 AND 0x3F OR ucast (c AND 0xC0)) AND 0xC0)
     OR (ucast (ucast (c AND 0x3F OR drop_bit 2 c AND 0xC0) :: u8) AND 0x3F) :: u32) n = bit c n"
    unfolding u32_masks u8_masks
    by cases (simp only: bf_simps; use n hi in \<open>auto simp: Suc_Suc_diff\<close>)+
qed

lemma encode_pil_field:
  fixes p :: u32 and b8 b10 :: u8
  assumes p: "p \<le> 0xFFFFF"
  shows "push_bit 14 (ucast (b8 AND 0xC0 OR ucast (drop_bit 14 p AND 0x3F)) AND 0x3F)
     OR push_bit 6 (ucast (ucast (drop_bit 6 p) :: u8))
     OR drop_bit 2 (ucast (b10 AND 0x03 OR ucast (push_bit 2 p))) = p"
proof (rule bit_word_eqI)
  fix n :: nat assume n: "n < LENGTH(32)"
  note hi = field_bits(2) [OF p, of n]
  consider "n < 6" | "6 \<le> n \<and> n < 14" | "14 \<le> n \<and> n < 20" | "20 \<le> n" by linarith
  then show "bit (push_bit 14 (ucast (b8 AND 0xC0 OR ucast (drop_bit 14 p AND 0x3F)) AND 0x3F)
     OR push_bit 6 (ucast (ucast (drop_bit 6 p) :: u8))
     OR drop_bit 2 (ucast (b10 AND 0x03 OR ucast (push_bit 2 p))) :: u32) n = bit p n"
    unfolding u32_masks u8_masks
    by cases (simp only: bf_simps; use n hi in \<open>auto simp: Suc_Suc_diff\<close>)+
qed

text \<open>Writing the PIL leaves the CNI bits of the shared bytes 8 and 10 alone.\<close>

lemma pil_keeps_cni_bits:
  fixes p :: u32 and x :: u8
  shows "ucast (x AND 0xC0 OR ucast (drop_bit 14 p AND 0x3F)) AND (0xC0 :: u32) = ucast x AND 0xC0"
    and "ucast (x AND 0x03 OR ucast (push_bit 2 p)) AND (0x03 :: u32) = ucast x AND 0x03"
  unfolding u32_masks u8_masks by (rule bit_word_eqI; auto simp: bit_simps)+

lemma ucast_small_u32: "c \<le> 0xFF \<Longrightarrow> ucast (ucast c :: u8) = (c :: u32)"
  by (rule bit_word_eqI) (auto simp: bit_simps dest: field_bits(3))

lemma audio_bits:
  fixes a :: u32 and b2 :: u8
  assumes "a \<le> 3"
  shows "ucast (drop_bit 6 (b2 AND 0x3F OR ucast (push_bit 6 a))) = a"
proof (rule bit_word_eqI)
  fix n :: nat assume "n < LENGTH(32)"
  then show "bit (ucast (drop_bit 6 (b2 AND 0x3F OR ucast (push_bit 6 a))) :: u32) n = bit a n"
    unfolding u8_masks by (simp only: bf_simps) (use field_bits(4) [OF assms, of n] in auto)
qed

lemma encode_vps_pdc_bytes:
  assumes "length buffer = 13" and "pty pid \<le> 0xFF" and "pcs_audio pid \<le> 3" and "pil pid \<le> 0xFFFFF"
    and "cni pid \<le> 0xFFF"
  shows "vbi_encode_vps_pdc buffer pid = (True,
    buffer [2 := buffer ! 2 AND 0x3F OR ucast (push_bit 6 (pcs_audio pid)),
            8 := (buffer ! 8 AND 0x3F OR ucast (cni pid AND 0xC0)) AND 0xC0
                   OR ucast (drop_bit 14 (pil pid) AND 0x3F),
            9 := ucast (drop_bit 6 (pil pid)),
            10 := (buffer ! 10 AND 0xFC OR ucast (drop_bit 10 (cni pid))) AND 0x03
                   OR ucast (push_bit 2 (pil pid)),
            11 := ucast (cni pid AND 0x3F OR drop_bit 2 (cni pid) AND 0xC0),
            12 := ucast (pty pid)])"
proof -
  have n: "\<not> 0xFF < pty pid" "\<not> 3 < pcs_audio pid" "\<not> 0xFFFFF < pil pid" "\<not> 0xFFF < cni pid"
    using assms by simp_all
  show ?thesis
    unfolding vbi_encode_vps_pdc_def vbi_encode_vps_cni_def Let_def if_not_P [OF n(1)]
      if_not_P [OF n(2)] if_not_P [OF n(3)] if_not_P [OF n(4)]
    by (simp only: prod.case bool.case)
      (rule arg_cong [where f = "Pair True"], rule nth_equalityI,
        simp_all add: nth_list_update assms(1))
qed

text \<open>C15. VPS round trip: for a program id whose fields fit the packet (12 bit CNI other than
  0xDC3, 20 bit PIL, 2 bit PCS, 8 bit PTY), \<open>vbi_encode_vps_pdc\<close> succeeds, leaves
  bytes 0, 1, 3 to 7 and the low six bits of byte 2 alone, and \<open>vbi_decode_vps_pdc\<close> of the
  result returns the encoded CNI, PIL, PCS audio and PTY.\<close>

theorem vps_pdc_round_trip:
  assumes "length buffer = 13" and "pty pid \<le> 0xFF" and "pcs_audio pid \<le> 3" and "pil pid \<le> 0xFFFFF"
    and "cni pid \<le> 0xFFF" and "cni pid \<noteq> 0xDC3"
  shows "\<exists>buffer'. vbi_encode_vps_pdc buffer pid = (True, buffer') \<and> length buffer' = 13
    \<and> list_all (\<lambda>i. buffer' ! i = buffer ! i) [0, 1, 3, 4, 5, 6, 7]
    \<and> buffer' ! 2 AND 0x3F = buffer ! 2 AND 0x3F
    \<and> vbi_decode_vps_pdc buffer' = Some (pid \<lparr> channel := VBI_PID_CHANNEL_VPS,
         cni_type := VBI_CNI_TYPE_VPS, luf := False, mi := True, prf_flag := False,
         tape_delayed := False \<rparr>)"
proof -
  let ?b = "buffer [2 := buffer ! 2 AND 0x3F OR ucast (push_bit 6 (pcs_audio pid)),
            8 := (buffer ! 8 AND 0x3F OR ucast (cni pid AND 0xC0)) AND 0xC0
                   OR ucast (drop_bit 14 (pil pid) AND 0x3F),
            9 := ucast (drop_bit 6 (pil pid)),
            10 := (buffer ! 10 AND 0xFC OR ucast (drop_bit 10 (cni pid))) AND 0x03
                   OR ucast (push_bit 2 (pil pid)),
            11 := ucast (cni pid AND 0x3F OR drop_bit 2 (cni pid) AND 0xC0),
            12 := ucast (pty pid)]"
  have nth: "?b ! 8 = (buffer ! 8 AND 0x3F OR ucast (cni pid AND 0xC0)) AND 0xC0
                   OR ucast (drop_bit 14 (pil pid) AND 0x3F)"
    "?b ! 9 = ucast (drop_bit 6 (pil pid))"
    "?b ! 10 = (buffer ! 10 AND 0xFC OR ucast (drop_bit 10 (cni pid))) AND 0x03
                   OR ucast (push_bit 2 (pil pid))"
    "?b ! 11 = ucast (cni pid AND 0x3F OR drop_bit 2 (cni pid) AND 0xC0)"
    using assms(1) by simp_all
  have c: "vps_cni_field ?b = cni pid"
    unfolding vps_cni_field_def nth pil_keeps_cni_bits by (rule encode_cni_field [OF assms(5)])
  have p: "vps_pil_field ?b = pil pid"
    unfolding vps_pil_field_def nth by (rule encode_pil_field [OF assms(4)])
  have lo: "(x AND 0x3F OR ucast (push_bit 6 a)) AND 0x3F = x AND 0x3F" for x :: u8 and a :: u32
    unfolding u8_masks by (rule bit_word_eqI) (auto simp: bit_simps)
  have "vbi_decode_vps_pdc ?b = Some (pid \<lparr> channel := VBI_PID_CHANNEL_VPS,
         cni_type := VBI_CNI_TYPE_VPS, luf := False, mi := True, prf_flag := False,
         tape_delayed := False \<rparr>)"
    unfolding decode_vps_pdc_field decode_vps_cni_field c p
    using assms(1,6) audio_bits [OF assms(3), of "buffer ! 2"] ucast_small_u32 [OF assms(2)]
    by (cases pid) (simp add: cleared_pid_def del: ucast_u8_u32)
  then show ?thesis
    unfolding encode_vps_pdc_bytes [OF assms(1-5)]
    by (intro exI [of _ ?b]) (simp add: assms(1) lo)
qed

theorem vps_pdc_round_trip_witness:
  "\<exists>buffer'. vbi_encode_vps_pdc (replicate 13 0xFF)
     (cleared_pid \<lparr> cni := 0xDC2, pil := VBI_PIL 10 15 20 15, pcs_audio := 2, pty := 0x4A \<rparr>)
     = (True, buffer')
   \<and> vbi_decode_vps_pdc buffer' = Some (cleared_pid \<lparr> channel := VBI_PID_CHANNEL_VPS,
       cni_type := VBI_CNI_TYPE_VPS, cni := 0xDC2, pil := VBI_PIL 10 15 20 15, mi := True,
       pcs_audio := 2, pty := 0x4A \<rparr>)"
  using vps_pdc_round_trip [of "replicate 13 0xFF"
    "cleared_pid \<lparr> cni := 0xDC2, pil := VBI_PIL 10 15 20 15, pcs_audio := 2, pty := 0x4A \<rparr>"]
  by (simp add: cleared_pid_def VBI_PIL_def) blast

text \<open>Encoder errors: \<open>vbi_encode_vps_pdc\<close> fails exactly when the PTY, PCS audio, PIL or
  CNI does not fit its field, and then leaves the buffer unmodified; \<open>vbi_encode_vps_cni\<close> and
  \<open>vbi_encode_dvb_pdc_descriptor\<close> likewise.\<close>

theorem vps_encode_errors:
  "(fst (vbi_encode_vps_pdc buffer pid) \<longleftrightarrow>
      pty pid \<le> 0xFF \<and> pcs_audio pid \<le> 3 \<and> pil pid \<le> 0xFFFFF \<and> cni pid \<le> 0xFFF)
   \<and> (fst (vbi_encode_vps_pdc buffer pid) \<or> snd (vbi_encode_vps_pdc buffer pid) = buffer)
   \<and> (fst (vbi_encode_vps_cni buffer c) \<longleftrightarrow> c \<le> 0xFFF)
   \<and> (fst (vbi_encode_vps_cni buffer c) \<or> snd (vbi_encode_vps_cni buffer c) = buffer)
   \<and> (fst (vbi_encode_dvb_pdc_descriptor desc pid) \<longleftrightarrow> pil pid \<le> 0xFFFFF)
   \<and> (fst (vbi_encode_dvb_pdc_descriptor desc pid)
      \<or> snd (vbi_encode_dvb_pdc_descriptor desc pid) = desc)"
  by (auto simp: vbi_encode_vps_pdc_def vbi_encode_vps_cni_def vbi_encode_dvb_pdc_descriptor_def Let_def)

section \<open>The DVB descriptor\<close>

definition dvb_pil_field :: "u8 list \<Rightarrow> u32" where
  "dvb_pil_field buffer =
     push_bit 16 (ucast (buffer ! 2) AND 0x0F) OR push_bit 8 (ucast (buffer ! 3)) OR ucast (buffer ! 4)"

lemma dvb_pil_sum:
  "push_bit 16 (ucast b2 AND 0x0F) + push_bit 8 (ucast b3) + ucast b4
   = (push_bit 16 (ucast b2 AND 0x0F) OR push_bit 8 (ucast b3) OR ucast b4 :: u32)" for b2 b3 b4 :: u8
  unfolding u32_masks
  by (subst plus_or, (auto simp: bit_simps dest: bit_imp_le_length)[])+ (simp add: or.assoc)

lemma decode_dvb_field:
  "buffer ! 0 = 0x69 \<Longrightarrow> buffer ! 1 = 3 \<Longrightarrow> vbi_decode_dvb_pdc_descriptor buffer =
     Some (cleared_pid \<lparr> channel := VBI_PID_CHANNEL_PDC_DESCRIPTOR, pil := dvb_pil_field buffer, mi := True \<rparr>)"
  unfolding vbi_decode_dvb_pdc_descriptor_def dvb_pil_sum dvb_pil_field_def Let_def by simp

lemma encode_dvb_field:
  fixes p :: u32
  assumes p: "p \<le> 0xFFFFF"
  shows "push_bit 16 (ucast (0xF0 OR ucast (drop_bit 16 p) :: u8) AND 0x0F)
     OR push_bit 8 (ucast (ucast (drop_bit 8 p) :: u8)) OR ucast (ucast p :: u8) = p"
proof (rule bit_word_eqI)
  fix n :: nat assume n: "n < LENGTH(32)"
  note hi = field_bits(2) [OF p, of n]
  consider "n < 8" | "8 \<le> n \<and> n < 16" | "16 \<le> n \<and> n < 20" | "20 \<le> n" by linarith
  then show "bit (push_bit 16 (ucast (0xF0 OR ucast (drop_bit 16 p) :: u8) AND 0x0F)
     OR push_bit 8 (ucast (ucast (drop_bit 8 p) :: u8)) OR ucast (ucast p :: u8) :: u32) n = bit p n"
    unfolding u32_masks u8_masks
    by cases (simp only: bf_simps; use n hi in auto)+
qed

text \<open>The DVB PDC descriptor carries every 20 bit PIL: decoding the encoded descriptor
  returns the PIL, and the descriptor is accepted only with the tag 0x69 and the length 3.\<close>

theorem dvb_pdc_round_trip:
  assumes "length desc = 5" and "pil pid \<le> 0xFFFFF"
  shows "vbi_decode_dvb_pdc_descriptor (snd (vbi_encode_dvb_pdc_descriptor desc pid))
      = Some (cleared_pid \<lparr> channel := VBI_PID_CHANNEL_PDC_DESCRIPTOR, pil := pil pid, mi := True \<rparr>)
    \<and> (vbi_decode_dvb_pdc_descriptor d \<noteq> None \<longleftrightarrow> d ! 0 = 0x69 \<and> d ! 1 = 3)"
proof (rule conjI)
  let ?e = "snd (vbi_encode_dvb_pdc_descriptor desc pid)"
  have e: "?e = desc [0 := 0x69, 1 := 3, 2 := 0xF0 OR ucast (drop_bit 16 (pil pid)),
    3 := ucast (drop_bit 8 (pil pid)), 4 := ucast (pil pid)]"
    unfolding vbi_encode_dvb_pdc_descriptor_def Let_def if_not_P [OF leD [OF assms(2)]] by simp
  have nth: "?e ! 0 = 0x69" "?e ! 1 = 3" "?e ! 2 = 0xF0 OR ucast (drop_bit 16 (pil pid))"
    "?e ! 3 = ucast (drop_bit 8 (pil pid))" "?e ! 4 = ucast (pil pid)"
    unfolding e using assms(1) by simp_all
  have "dvb_pil_field ?e = pil pid"
    unfolding dvb_pil_field_def nth by (rule encode_dvb_field [OF assms(2)])
  then show "vbi_decode_dvb_pdc_descriptor ?e
      = Some (cleared_pid \<lparr> channel := VBI_PID_CHANNEL_PDC_DESCRIPTOR, pil := pil pid, mi := True \<rparr>)"
    using decode_dvb_field [OF nth(1,2)] by simp
  show "vbi_decode_dvb_pdc_descriptor d \<noteq> None \<longleftrightarrow> d ! 0 = 0x69 \<and> d ! 1 = 3"
    by (simp add: vbi_decode_dvb_pdc_descriptor_def Let_def)
qed

theorem dvb_pdc_round_trip_witness:
  "vbi_decode_dvb_pdc_descriptor (snd (vbi_encode_dvb_pdc_descriptor [0, 0, 0, 0, 0]
     (cleared_pid \<lparr> pil := 0xABCDE \<rparr>)))
   = Some (cleared_pid \<lparr> channel := VBI_PID_CHANNEL_PDC_DESCRIPTOR, pil := 0xABCDE, mi := True \<rparr>)"
  using dvb_pdc_round_trip [of "[0, 0, 0, 0, 0]" "cleared_pid \<lparr> pil := 0xABCDE \<rparr>"] by simp

end
