(* ===== verification/Packet830.thy ===== *)
theory Packet830
  imports Hamm Bcd Vps
begin

text \<open>
  Teletext packet 8/30, \<^verbatim>\<open>vbi/src/packet-830.c\<close>: the network identifier and local time
  of format 1 and the PDC label of format 2. A packet is the list of its 42 bytes;
  \<open>None\<close> is the return value \<^verbatim>\<open>FALSE\<close>, which leaves the output parameters
  unchanged. The C \<^verbatim>\<open>int\<close> values stay far inside their range and are HOL integers.
\<close>

section \<open>Format 1\<close>

definition vbi_decode_teletext_8301_cni :: "u8 list \<Rightarrow> u32" where
  "vbi_decode_teletext_8301_cni buffer = vbi_rev16p (drop 9 buffer)"

text \<open>The loop over the factors 1, 10, ..., 10000.\<close>

definition bcd2bin :: "int \<Rightarrow> int" where
  "bcd2bin bcd = fst (fold (\<lambda>f (bin, bcd). (bin + (bcd AND 15) * f, drop_bit 4 bcd))
                           [1, 10, 100, 1000, 10000] (0, bcd))"

text \<open>
  \<^verbatim>\<open>TIME_MIN\<close> and \<^verbatim>\<open>TIME_MAX\<close> are properties of the platform's \<^verbatim>\<open>time_t\<close> and
  parameters here. The result is the time and the offset of the local time in seconds
  east of UTC.
\<close>

definition vbi_decode_teletext_8301_local_time :: "int \<Rightarrow> int \<Rightarrow> u8 list \<Rightarrow> (int \<times> int) option" where
  "vbi_decode_teletext_8301_local_time TIME_MIN TIME_MAX buffer =
     (let bcd = push_bit 16 (uint (buffer ! 12) AND 15) + push_bit 8 (uint (buffer ! 13))
              + uint (buffer ! 14) - 0x11111
      in if \<not> vbi_is_bcd (word_of_int bcd) then None
      else let mjd = bcd2bin bcd;
               bcd = push_bit 16 (uint (buffer ! 15)) + push_bit 8 (uint (buffer ! 16))
                   + uint (buffer ! 17) - 0x111111
      in if \<not> vbi_is_bcd (word_of_int bcd) then None
      else let utc = (bcd AND 15) + (drop_bit 4 bcd AND 15) * 10
      in if utc > 60 then None
      else let field = (drop_bit 8 bcd AND 15) + (drop_bit 12 bcd AND 15) * 10
      in if field \<ge> 60 then None
      else let utc = utc + field * 60;
               field = (drop_bit 16 bcd AND 15) + drop_bit 20 bcd * 10
      in if field \<ge> 24 then None
      else let utc = utc + field * 3600;
               offset = uint (buffer ! 11 AND 0x3E) * (15 * 60);
               offset = (if buffer ! 11 AND 0x40 \<noteq> 0 then - offset else offset);
               t = (mjd - 40587) * 86400 + utc
      in if t < TIME_MIN \<or> t > TIME_MAX then None
      else Some (t, offset))"

section \<open>Format 2\<close>

definition vbi_decode_teletext_8302_cni :: "u8 list \<Rightarrow> u32 option" where
  "vbi_decode_teletext_8302_cni buffer =
     (let b7 = vbi_unham16p (drop 10 buffer);
          b8 = vbi_unham16p (drop 12 buffer);
          b10 = vbi_unham16p (drop 16 buffer);
          b11 = vbi_unham16p (drop 18 buffer)
      in if b7 OR b8 OR b10 OR b11 < 0 then None
      else let b7 = vbi_rev8 (word_of_int b7);
               b8 = vbi_rev8 (word_of_int b8);
               b10 = vbi_rev8 (word_of_int b10);
               b11 = vbi_rev8 (word_of_int b11)
      in Some (push_bit 12 (b7 AND 0x0F) + push_bit 10 (b10 AND 0x03)
               + push_bit 2 (b11 AND 0xC0) + (b8 AND 0xC0) + (b11 AND 0x3F)))"

definition lci_channel :: "u8 \<Rightarrow> vbi_pid_channel" where
  "lci_channel n = [VBI_PID_CHANNEL_LCI_0, VBI_PID_CHANNEL_LCI_1, VBI_PID_CHANNEL_LCI_2,
     VBI_PID_CHANNEL_LCI_3] ! unat n"

text \<open>
  The loop decodes the bytes 7 to 12 of the label and accumulates the error in the sign
  of \<open>error\<close>; \<open>b ! (i - 7)\<close> is \<^verbatim>\<open>b[i]\<close> of the source.
\<close>

definition vbi_decode_teletext_8302_pdc :: "u8 list \<Rightarrow> vbi_program_id option" where
  "vbi_decode_teletext_8302_pdc buffer =
     (let error = vbi_unham8 (ucast (buffer ! 9));
          b6 = ucast (drop_bit 4 (vbi_rev8 (word_of_int error))) :: u8;
          (error, b) = fold (\<lambda>i (error, b).
             let t = vbi_unham16p (drop (i * 2 - 4) buffer)
             in (error OR t, b @ [ucast (vbi_rev8 (word_of_int t)) :: u8])) [7, 8, 9, 10, 11, 12] (error, [])
      in if error < 0 then None
      else let b7 = ucast (b ! 0); b8 = ucast (b ! 1); b9 = ucast (b ! 2); b10 = ucast (b ! 3);
               b11 = ucast (b ! 4); b12 = ucast (b ! 5)
      in Some (cleared_pid \<lparr>
           channel := lci_channel (drop_bit 2 b6 AND 3),
           cni_type := VBI_CNI_TYPE_8302,
           cni := push_bit 12 (b7 AND 0x0F) + push_bit 10 (b10 AND 0x03)
                + push_bit 2 (b11 AND 0xC0) + (b8 AND 0xC0) + (b11 AND 0x3F),
           pil := push_bit 14 (b8 AND 0x3F) + push_bit 6 b9 + drop_bit 2 b10,
           luf := drop_bit 1 b6 AND 1 \<noteq> 0,
           mi := drop_bit 5 b7 AND 1 \<noteq> 0,
           prf_flag := b6 AND 1 \<noteq> 0,
           pcs_audio := drop_bit 6 b7 AND 3,
           pty := b12 \<rparr>))"

section \<open>Local time: digits\<close>

text \<open>\<open>bcd_int_digits k n\<close>: the low \<open>k\<close> hex digits of \<open>n\<close> are decimal.\<close>

primrec bcd_int_digits :: "nat \<Rightarrow> int \<Rightarrow> bool" where
  "bcd_int_digits 0 n = True"
| "bcd_int_digits (Suc k) n = (n mod 16 \<le> 9 \<and> bcd_int_digits k (n div 16))"

lemma bcd_int_digits_iff: "bcd_int_digits k n \<longleftrightarrow> (\<forall>j < k. n div 16 ^ j mod 16 \<le> 9)"
proof (induction k arbitrary: n)
  case (Suc k)
  have "(\<forall>j < Suc k. n div 16 ^ j mod 16 \<le> 9) \<longleftrightarrow>
      n mod 16 \<le> 9 \<and> (\<forall>j < k. n div 16 ^ Suc j mod 16 \<le> 9)"
    by (auto simp: less_Suc_eq_0_disj)
  then show ?case using Suc [of "n div 16"] by (simp add: zdiv_zmult2_eq)
qed simp

lemma dig_word_of_int:
  assumes "k < 8"
  shows "int (dig k (unat (word_of_int n :: u32))) = n div 16 ^ k mod 16"
proof -
  have "int (dig k (unat (word_of_int n :: u32))) = take_bit 4 (drop_bit (4 * k) (take_bit 32 n))"
    by (simp add: dig_take_bit of_nat_take_bit of_nat_drop_bit unsigned_of_int uint_word_of_int_eq)
  also have "\<dots> = take_bit 4 (drop_bit (4 * k) n)"
    using assms by (auto intro!: bit_eqI simp: bit_simps)
  also have "\<dots> = n div 16 ^ k mod 16"
    by (simp add: take_bit_eq_mod drop_bit_eq_div power_mult)
  finally show ?thesis .
qed

lemma is_bcd_word_of_int: "vbi_is_bcd (word_of_int n) \<longleftrightarrow> bcd_int_digits 7 n"
proof -
  have "dig k (unat (word_of_int n :: u32)) \<le> 9 \<longleftrightarrow> n div 16 ^ k mod 16 \<le> 9" if "k < 7" for k
    using dig_word_of_int [of k n] that by linarith
  then show ?thesis by (auto simp: vbi_is_bcd_iff bcd_int_digits_iff)
qed

lemma bcd_int_digits_step:
  assumes "- 1 \<le> c" "c \<le> 14"
  shows "bcd_int_digits (Suc k) (c + 16 * m) \<longleftrightarrow> 0 \<le> c \<and> c \<le> 9 \<and> bcd_int_digits k m"
proof (cases "0 \<le> c")
  case True
  then show ?thesis using assms(2) by auto
next
  case False
  then have "c = - 1" using assms(1) by simp
  moreover have "(- 1 + 16 * m) mod 16 = 15" using mod_mult_self2 [of "- 1" 16 m] by simp
  ultimately show ?thesis by simp
qed

lemma bcd_int_digits_0 [simp]: "bcd_int_digits k 0"
  by (induction k) simp_all

text \<open>The nibbles of a byte, transmitted as digit plus one.\<close>

definition hi_digit :: "u8 \<Rightarrow> int" where
  "hi_digit b = uint b div 16 - 1"

definition lo_digit :: "u8 \<Rightarrow> int" where
  "lo_digit b = uint b mod 16 - 1"

definition decimal :: "int \<Rightarrow> bool" where
  "decimal d \<longleftrightarrow> 0 \<le> d \<and> d \<le> 9"

lemma digit_bounds: "- 1 \<le> hi_digit b" "hi_digit b \<le> 14" "- 1 \<le> lo_digit b" "lo_digit b \<le> 14"
proof -
  have "uint b = int (unat b)" by simp
  then have "0 \<le> uint b" "uint b < 256" using unat_u8_less [of b] by linarith+
  moreover have "uint b div 16 \<le> 255 div 16"
    using \<open>uint b < 256\<close> by (intro zdiv_mono1) simp_all
  moreover have "0 \<le> uint b div 16"
    using \<open>0 \<le> uint b\<close> by (simp add: pos_imp_zdiv_nonneg_iff)
  moreover have "0 \<le> uint b mod 16" "uint b mod 16 < 16"
    by simp_all
  ultimately show "- 1 \<le> hi_digit b" "hi_digit b \<le> 14" "- 1 \<le> lo_digit b" "lo_digit b \<le> 14"
    unfolding hi_digit_def lo_digit_def by linarith+
qed

lemma byte_digits: "uint b = (lo_digit b + 1) + 16 * (hi_digit b + 1)"
  by (simp add: hi_digit_def lo_digit_def)

lemma mjd_value:
  "push_bit 16 (uint a AND 15) + push_bit 8 (uint b) + uint c - 0x11111 =
     lo_digit c + 16 * (hi_digit c + 16 * (lo_digit b + 16 * (hi_digit b + 16 * lo_digit a)))"
proof -
  have "uint a AND 15 = lo_digit a + 1"
    using take_bit_eq_mask [of 4 "uint a"] by (simp add: lo_digit_def take_bit_eq_mod mask_eq_exp_minus_1)
  then show ?thesis
    by (simp add: push_bit_eq_mult byte_digits [of b] byte_digits [of c])
qed

lemma utc_value:
  "push_bit 16 (uint a) + push_bit 8 (uint b) + uint c - 0x111111 =
     lo_digit c + 16 * (hi_digit c + 16 * (lo_digit b + 16 * (hi_digit b + 16 * (lo_digit a
       + 16 * hi_digit a))))"
  by (simp add: push_bit_eq_mult byte_digits [of a] byte_digits [of b] byte_digits [of c])

text \<open>
  What the packet means, from ETS 300 706 section 9.8.1: all digits are transmitted plus
  one, the date is a Modified Julian Date, the offset counts half hours.
\<close>

definition local_time_meaning :: "int \<Rightarrow> int \<Rightarrow> u8 list \<Rightarrow> (int \<times> int) option" where
  "local_time_meaning TIME_MIN TIME_MAX b =
     (let mjd = lo_digit (b ! 14) + 10 * hi_digit (b ! 14) + 100 * lo_digit (b ! 13)
              + 1000 * hi_digit (b ! 13) + 10000 * lo_digit (b ! 12);
          hour = lo_digit (b ! 15) + 10 * hi_digit (b ! 15);
          minute = lo_digit (b ! 16) + 10 * hi_digit (b ! 16);
          second = lo_digit (b ! 17) + 10 * hi_digit (b ! 17);
          half_hours = uint (drop_bit 1 (b ! 11) AND 0x1F);
          t = (mjd - 40587) * 86400 + hour * 3600 + minute * 60 + second
      in if list_all decimal [lo_digit (b ! 12), lo_digit (b ! 13), hi_digit (b ! 13), lo_digit (b ! 14),
              hi_digit (b ! 14), lo_digit (b ! 15), hi_digit (b ! 15), lo_digit (b ! 16), hi_digit (b ! 16),
              lo_digit (b ! 17), hi_digit (b ! 17)]
            \<and> hour < 24 \<and> minute < 60 \<and> second \<le> 60 \<and> TIME_MIN \<le> t \<and> t \<le> TIME_MAX
         then Some (t, (if bit (b ! 11) 6 then - 1800 else 1800) * half_hours) else None)"

lemma seven_Suc: "(7 :: nat) = Suc (Suc (Suc (Suc (Suc (Suc (Suc 0))))))"
  by simp

lemma mjd_digits:
  "vbi_is_bcd (word_of_int (lo_digit c + 16 * (hi_digit c + 16 * (lo_digit b + 16 * (hi_digit b + 16 * lo_digit a)))))
   \<longleftrightarrow> list_all decimal [lo_digit a, lo_digit b, hi_digit b, lo_digit c, hi_digit c]"
proof -
  have "vbi_is_bcd (word_of_int (lo_digit c + 16 * (hi_digit c + 16 * (lo_digit b + 16 * (hi_digit b
      + 16 * (lo_digit a + 16 * 0))))))
    \<longleftrightarrow> list_all decimal [lo_digit a, lo_digit b, hi_digit b, lo_digit c, hi_digit c]"
    unfolding is_bcd_word_of_int seven_Suc
    by (simp only: bcd_int_digits_step digit_bounds bcd_int_digits_0 list.pred_inject decimal_def) blast
  then show ?thesis by simp
qed

lemma utc_digits:
  "vbi_is_bcd (word_of_int (lo_digit c + 16 * (hi_digit c + 16 * (lo_digit b + 16 * (hi_digit b + 16 * (lo_digit a
       + 16 * hi_digit a))))))
   \<longleftrightarrow> list_all decimal [lo_digit a, hi_digit a, lo_digit b, hi_digit b, lo_digit c, hi_digit c]"
proof -
  have "vbi_is_bcd (word_of_int (lo_digit c + 16 * (hi_digit c + 16 * (lo_digit b + 16 * (hi_digit b
      + 16 * (lo_digit a + 16 * (hi_digit a + 16 * 0)))))))
    \<longleftrightarrow> list_all decimal [lo_digit a, hi_digit a, lo_digit b, hi_digit b, lo_digit c, hi_digit c]"
    unfolding is_bcd_word_of_int seven_Suc
    by (simp only: bcd_int_digits_step digit_bounds bcd_int_digits_0 list.pred_inject decimal_def) blast
  then show ?thesis by simp
qed

lemma and_15_int: "n AND 15 = n mod (16 :: int)"
  using take_bit_eq_mask [of 4 n] by (simp add: take_bit_eq_mod mask_eq_exp_minus_1)

lemma digit_mod_div:
  "decimal c \<Longrightarrow> (c + 16 * m) mod 16 = c" "decimal c \<Longrightarrow> (c + 16 * m) div 16 = m"
  "decimal c \<Longrightarrow> c mod 16 = c" "decimal c \<Longrightarrow> c div 16 = 0"
  by (simp_all add: decimal_def)

lemma bcd2bin_digits:
  assumes "decimal d0" "decimal d1" "decimal d2" "decimal d3" "decimal d4"
  shows "bcd2bin (d0 + 16 * (d1 + 16 * (d2 + 16 * (d3 + 16 * d4))))
    = d0 + 10 * d1 + 100 * d2 + 1000 * d3 + 10000 * d4"
  using assms by (simp add: bcd2bin_def and_15_int drop_bit_eq_div digit_mod_div del: distrib_left_numeral)

lemma drop_nibbles:
  "drop_bit 8 n = n div 16 div (16 :: int)" "drop_bit 12 n = n div 16 div 16 div (16 :: int)"
  "drop_bit 16 n = n div 16 div 16 div 16 div (16 :: int)"
  "drop_bit 20 n = n div 16 div 16 div 16 div 16 div (16 :: int)"
  by (simp_all add: drop_bit_eq_div zdiv_zmult2_eq [symmetric])

lemma utc_fields:
  fixes d5 :: int
  assumes "decimal d0" "decimal d1" "decimal d2" "decimal d3" "decimal d4"
  defines "n \<equiv> d0 + 16 * (d1 + 16 * (d2 + 16 * (d3 + 16 * (d4 + 16 * d5))))"
  shows "n mod 16 = d0" "n div 16 mod 16 = d1" "n div 16 div 16 mod 16 = d2"
    "n div 16 div 16 div 16 mod 16 = d3" "n div 16 div 16 div 16 div 16 mod 16 = d4"
    "n div 16 div 16 div 16 div 16 div 16 = d5"
  unfolding n_def by (simp_all only: digit_mod_div assms)

lemma offset_value:
  "(if b AND 0x40 \<noteq> 0 then - (uint (b AND 0x3E) * (15 * 60)) else uint (b AND 0x3E) * (15 * 60))
   = (if bit b 6 then - 1800 else 1800) * uint (drop_bit 1 b AND 0x1F)" for b :: u8
proof -
  have s: "b AND 0x40 \<noteq> 0 \<longleftrightarrow> bit b 6"
    using and_exp_eq_0_iff_not_bit [of b 6] by simp
  have "uint (b AND 0x3E) = push_bit 1 (uint (drop_bit 1 b AND 0x1F))"
  proof -
    have m: "(0x3E :: u8) = push_bit 1 (mask 5)" "(0x1F :: u8) = mask 5"
      by (simp_all add: mask_eq_exp_minus_1 push_bit_eq_mult)
    show ?thesis
      unfolding m by (rule bit_eqI, simp only: bf_simps) auto
  qed
  then show ?thesis
    unfolding s by (simp add: push_bit_eq_mult)
qed

text \<open>C16. Packet 8/30 format 1: for every packet and every range of \<open>time_t\<close>, the decoder returns
  exactly the time and offset the packet means, and rejects it exactly when a digit is not
  decimal, a field is out of range (second 60, a leap second, is accepted) or the time
  is not representable.\<close>

theorem local_time_8301_correct:
  "vbi_decode_teletext_8301_local_time TIME_MIN TIME_MAX buffer = local_time_meaning TIME_MIN TIME_MAX buffer"
proof (cases "list_all decimal [lo_digit (buffer ! 12), lo_digit (buffer ! 13), hi_digit (buffer ! 13),
    lo_digit (buffer ! 14), hi_digit (buffer ! 14)] \<and> list_all decimal [lo_digit (buffer ! 15),
    hi_digit (buffer ! 15), lo_digit (buffer ! 16), hi_digit (buffer ! 16), lo_digit (buffer ! 17),
    hi_digit (buffer ! 17)]")
  case False
  have b: "\<not> (list_all decimal [lo_digit (buffer ! 12), lo_digit (buffer ! 13), hi_digit (buffer ! 13),
    lo_digit (buffer ! 14), hi_digit (buffer ! 14), lo_digit (buffer ! 15),
    hi_digit (buffer ! 15), lo_digit (buffer ! 16), hi_digit (buffer ! 16), lo_digit (buffer ! 17),
    hi_digit (buffer ! 17)] \<and> C)" for C
    using False by (simp only: list.pred_inject simp_thms) blast
  have a: "(if \<not> M then None else if \<not> U then None else X) = None" if "\<not> (M \<and> U)"
    for M U and X :: "(int \<times> int) option"
    using that by simp
  show ?thesis
    unfolding vbi_decode_teletext_8301_local_time_def local_time_meaning_def Let_def
      mjd_value utc_value mjd_digits utc_digits a [OF False] if_not_P [OF b] by (rule refl)
next
  case True
  then have d: "decimal (lo_digit (buffer ! 12))" "decimal (lo_digit (buffer ! 13))" "decimal (hi_digit (buffer ! 13))"
    "decimal (lo_digit (buffer ! 14))" "decimal (hi_digit (buffer ! 14))" "decimal (lo_digit (buffer ! 15))"
    "decimal (hi_digit (buffer ! 15))" "decimal (lo_digit (buffer ! 16))" "decimal (hi_digit (buffer ! 16))"
    "decimal (lo_digit (buffer ! 17))" "decimal (hi_digit (buffer ! 17))"
    by simp_all
  note f = utc_fields [OF d(10,11,8,9,6), of "hi_digit (buffer ! 15)"]
  have t: "(m - 40587) * 86400 + (s + s' * 10 + (i + i' * 10) * 60 + (h + h' * 10) * 3600)
    = (m - 40587) * 86400 + (h + 10 * h') * 3600 + (i + 10 * i') * 60 + (s + 10 * s')"
    for m s s' i i' h h' :: int
    by simp
  have c: "x + y * 10 = x + 10 * y" for x y :: int by simp
  have p: "drop_bit 4 n = n div 16" for n :: int by (simp add: drop_bit_eq_div)
  have chain: "(if 60 < s then N else if 60 \<le> i then N else if 24 \<le> h then N
      else if t < a \<or> b < t then N else S)
    = (if h < 24 \<and> i < 60 \<and> s \<le> 60 \<and> a \<le> t \<and> t \<le> b then S else N)"
    for s i h t a b :: int and N S :: "(int \<times> int) option"
    by auto
  show ?thesis
    unfolding vbi_decode_teletext_8301_local_time_def local_time_meaning_def Let_def
      mjd_value utc_value mjd_digits utc_digits offset_value
    unfolding and_15_int drop_nibbles p
      bcd2bin_digits [OF d(4,5,2,3,1)] f t
    by (simp only: d c list.pred_inject simp_thms if_True if_False) (rule chain)
qed

section \<open>Format 2\<close>

lemma unham16p_bytes: "vbi_unham16p p = unham8_byte (p ! 0) OR push_bit 4 (unham8_byte (p ! 1))"
  by (simp add: vbi_unham16p_def unham8_byte_def vbi_unham8_def)

lemma unham16p_neg: "vbi_unham16p p < 0 \<longleftrightarrow> unham8_byte (p ! 0) < 0 \<or> unham8_byte (p ! 1) < 0"
  by (simp add: unham16p_bytes)

lemma or_neg: "a OR b < (0 :: int) \<longleftrightarrow> a < 0 \<or> b < 0"
  by simp

text \<open>Byte \<open>i\<close> of the label, \<^verbatim>\<open>b[i]\<close> of the source.\<close>

definition label_byte :: "u8 list \<Rightarrow> nat \<Rightarrow> u8" where
  "label_byte buffer i = ucast (vbi_rev8 (word_of_int (vbi_unham16p (drop (i * 2 - 4) buffer))))"

lemma rev8_byte: "ucast (ucast (vbi_rev8 c) :: u8) = vbi_rev8 c"
  by (simp add: vbi_rev8_def)

text \<open>The same label as a VPS packet, which carries its bytes 7 to 12 at other positions.\<close>

definition label_as_vps :: "u8 list \<Rightarrow> u8 list" where
  "label_as_vps buffer = [0, 0, label_byte buffer 7, 0, 0, 0, 0, 0, label_byte buffer 8, label_byte buffer 9,
     label_byte buffer 10, label_byte buffer 11, label_byte buffer 12]"

definition label_cni :: "u8 list \<Rightarrow> u32" where
  "label_cni buffer = push_bit 12 (ucast (label_byte buffer 7) AND 0x0F) OR vps_cni_field (label_as_vps buffer)"

lemma cni_8302_sum:
  "push_bit 12 (ucast b7 AND 0x0F) + push_bit 10 (ucast b10 AND 0x03) + push_bit 2 (ucast b11 AND 0xC0)
     + (ucast b8 AND 0xC0) + (ucast b11 AND 0x3F)
   = (push_bit 12 (ucast b7 AND 0x0F) OR push_bit 10 (ucast b10 AND 0x03) OR push_bit 2 (ucast b11 AND 0xC0)
     OR (ucast b8 AND 0xC0) OR (ucast b11 AND 0x3F) :: u32)" for b7 b8 b10 b11 :: u8
  unfolding u32_masks
  by (subst plus_or, force simp: bit_simps)+ (simp add: or.assoc)

lemma cni_8302_label:
  "push_bit 12 (ucast (label_byte buffer 7) AND 0x0F) + push_bit 10 (ucast (label_byte buffer 10) AND 0x03)
     + push_bit 2 (ucast (label_byte buffer 11) AND 0xC0) + (ucast (label_byte buffer 8) AND 0xC0)
     + (ucast (label_byte buffer 11) AND 0x3F) = label_cni buffer"
  unfolding cni_8302_sum label_cni_def vps_cni_field_def label_as_vps_def by simp

lemma low_12_label: "label_cni buffer AND 0xFFF = vps_cni_field (label_as_vps buffer)"
  unfolding label_cni_def vps_cni_field_def u32_masks
  by (rule bit_word_eqI, simp only: bf_simps) (auto simp: label_as_vps_def)

lemma pil_8302_label:
  "push_bit 14 (ucast (label_byte buffer 8) AND 0x3F) + push_bit 6 (ucast (label_byte buffer 9))
     + drop_bit 2 (ucast (label_byte buffer 10)) = vps_pil_field (label_as_vps buffer)"
  unfolding vps_pil_sum vps_pil_field_def label_as_vps_def by simp

definition label_ok :: "u8 list \<Rightarrow> bool" where
  "label_ok buffer \<longleftrightarrow> list_all (\<lambda>i. 0 \<le> unham8_byte (buffer ! i)) [9..<22]"

lemma list_9_21: "[9..<22] = [9, 10, 11, 12, 13, 14, 15, 16, 17, 18, 19, 20, 21 :: nat]"
  by (simp add: upt_rec)

lemma decode_8302_cni_eq:
  assumes "length buffer = 42"
  shows "vbi_decode_teletext_8302_cni buffer =
     (if list_all (\<lambda>i. 0 \<le> unham8_byte (buffer ! i)) [10, 11, 12, 13, 16, 17, 18, 19]
      then Some (label_cni buffer) else None)"
proof -
  have b: "vbi_rev8 (word_of_int (vbi_unham16p (drop 10 buffer))) = ucast (label_byte buffer 7)"
    "vbi_rev8 (word_of_int (vbi_unham16p (drop 12 buffer))) = ucast (label_byte buffer 8)"
    "vbi_rev8 (word_of_int (vbi_unham16p (drop 16 buffer))) = ucast (label_byte buffer 10)"
    "vbi_rev8 (word_of_int (vbi_unham16p (drop 18 buffer))) = ucast (label_byte buffer 11)"
    by (simp_all add: label_byte_def rev8_byte)
  show ?thesis
    unfolding vbi_decode_teletext_8302_cni_def Let_def b cni_8302_label or_neg unham16p_neg
    using assms by (simp add: not_less)
qed

lemma decode_8302_pdc_eq:
  assumes "length buffer = 42"
  shows "vbi_decode_teletext_8302_pdc buffer =
     (let n = unham8_byte (buffer ! 9); b6 = ucast (drop_bit 4 (vbi_rev8 (word_of_int n))) :: u8 in
      if label_ok buffer then Some (cleared_pid \<lparr>
           channel := lci_channel (drop_bit 2 b6 AND 3),
           cni_type := VBI_CNI_TYPE_8302,
           cni := label_cni buffer,
           pil := vps_pil_field (label_as_vps buffer),
           luf := drop_bit 1 b6 AND 1 \<noteq> 0,
           mi := drop_bit 5 (ucast (label_byte buffer 7) :: u32) AND 1 \<noteq> 0,
           prf_flag := b6 AND 1 \<noteq> 0,
           pcs_audio := drop_bit 6 (ucast (label_byte buffer 7)) AND 3,
           pty := ucast (label_byte buffer 12) \<rparr>)
      else None)"
proof -
  have e: "unham8_byte (buffer ! 9) OR vbi_unham16p (drop 10 buffer) OR vbi_unham16p (drop 12 buffer)
      OR vbi_unham16p (drop 14 buffer) OR vbi_unham16p (drop 16 buffer) OR vbi_unham16p (drop 18 buffer)
      OR vbi_unham16p (drop 20 buffer) < 0 \<longleftrightarrow> \<not> label_ok buffer"
    unfolding or_neg unham16p_neg label_ok_def list_9_21 using assms by (simp add: not_le)
  show ?thesis
    using e unfolding vbi_decode_teletext_8302_pdc_def unham8_byte_def [symmetric]
      cni_8302_label [symmetric] pil_8302_label [symmetric]
    by (simp add: Let_def or.assoc label_byte_def del: or_negative_int_iff)
qed

text \<open>The label of packet 8/30 format 2 is the label of VPS: the packet is rejected exactly
  when one of its 13 Hamming bytes is uncorrectable; otherwise \<open>vbi_decode_teletext_8302_pdc\<close>
  yields the PIL, PTY, PCS audio and low CNI bits \<open>vbi_decode_vps_pdc\<close> yields for the same
  label bytes, and \<open>vbi_decode_teletext_8302_cni\<close> yields the same CNI.\<close>

theorem label_8302_is_vps_label:
  assumes "length buffer = 42"
  shows "case vbi_decode_teletext_8302_pdc buffer of
      None \<Rightarrow> \<not> label_ok buffer
    | Some pid \<Rightarrow> label_ok buffer
        \<and> vbi_decode_vps_pdc (label_as_vps buffer) = Some (cleared_pid \<lparr>
            channel := VBI_PID_CHANNEL_VPS, cni_type := VBI_CNI_TYPE_VPS,
            cni := vbi_decode_vps_cni (label_as_vps buffer), pil := pil pid, mi := True,
            pcs_audio := pcs_audio pid, pty := pty pid \<rparr>)
        \<and> vps_cni_field (label_as_vps buffer) = cni pid AND 0xFFF
        \<and> vbi_decode_teletext_8302_cni buffer = Some (cni pid)"
proof -
  have pcs: "ucast (drop_bit 6 b) = drop_bit 6 (ucast b) AND (3 :: u32)" for b :: u8
  proof -
    have m: "(3 :: u32) = mask 2" by (simp add: mask_eq_exp_minus_1)
    show ?thesis unfolding m by (rule bit_word_eqI, simp only: bf_simps) (auto dest: bit_imp_le_length)
  qed
  show ?thesis
  proof (cases "label_ok buffer")
    case False
    then show ?thesis by (simp add: decode_8302_pdc_eq [OF assms])
  next
    case True
    then have "list_all (\<lambda>i. 0 \<le> unham8_byte (buffer ! i)) [10, 11, 12, 13, 16, 17, 18, 19]"
      unfolding label_ok_def list_9_21 by simp
    then have "vbi_decode_teletext_8302_cni buffer = Some (label_cni buffer)"
      by (simp only: decode_8302_cni_eq [OF assms] if_True)
    moreover have "label_as_vps buffer ! 2 = label_byte buffer 7" "label_as_vps buffer ! 12 = label_byte buffer 12"
      by (simp_all add: label_as_vps_def)
    ultimately show ?thesis
      using True by (simp add: decode_8302_pdc_eq [OF assms] Let_def low_12_label
        decode_vps_pdc_field pcs cleared_pid_def)
  qed
qed

definition sample_8302 :: "u8 list" where
  "sample_8302 = replicate 9 0x15 @ map ham8_byte [8, 11, 8, 3, 12, 5, 1, 13, 9, 4, 2, 8, 15] @ replicate 20 0x20"

theorem label_8302_is_vps_label_witness:
  "(case vbi_decode_teletext_8302_pdc sample_8302 of None \<Rightarrow> False
    | Some pid \<Rightarrow> vbi_decode_teletext_8302_cni sample_8302 = Some (cni pid))"
proof -
  have "vbi_decode_teletext_8302_pdc sample_8302 \<noteq> None"
    unfolding sample_8302_def by code_simp
  then show ?thesis
    using label_8302_is_vps_label [of sample_8302] by (auto simp: sample_8302_def split: option.splits)
qed

lemma unham8_cong:
  assumes "length b = 42" "length b' = 42"
    and "list_all (\<lambda>i. unham8_byte (b ! i) = unham8_byte (b' ! i)) [9..<22]"
  shows "vbi_decode_teletext_8302_pdc b = vbi_decode_teletext_8302_pdc b'"
proof -
  have "label_byte b i = label_byte b' i" if "i \<in> {7, 8, 9, 10, 11, 12}" for i
    using that assms unfolding label_byte_def unham16p_bytes list_9_21 by auto
  then have "label_as_vps b = label_as_vps b'" "label_cni b = label_cni b'" "label_byte b 7 = label_byte b' 7"
    "label_byte b 12 = label_byte b' 12"
    by (simp_all add: label_as_vps_def label_cni_def)
  moreover have "label_ok b = label_ok b'" "unham8_byte (b ! 9) = unham8_byte (b' ! 9)"
    using assms(3) unfolding label_ok_def list_9_21 by simp_all
  ultimately show ?thesis
    unfolding decode_8302_pdc_eq [OF assms(1)] decode_8302_pdc_eq [OF assms(2)] by (simp only:)
qed

text \<open>C17. The format 2 decoder corrects transmission errors: with at most one inverted bit in
  each of the 13 Hamming bytes of a packet, it returns exactly what it returns for the
  packet as sent, and it returns a label.\<close>

theorem label_8302_corrects_errors:
  assumes "length pre = 9" and "length post = 20" and "length ns = 13" and "length es = 13"
    and "list_all (\<lambda>n. n < 16) ns" and "list_all (\<lambda>e. \<forall>k. e = Some k \<longrightarrow> k < 8) es"
  shows "vbi_decode_teletext_8302_pdc (pre @ map2 (\<lambda>e p. case e of None \<Rightarrow> p | Some k \<Rightarrow> flip_bit_b k p)
           es (map ham8_byte ns) @ post)
       = vbi_decode_teletext_8302_pdc (pre @ map ham8_byte ns @ post)
    \<and> vbi_decode_teletext_8302_pdc (pre @ map ham8_byte ns @ post) \<noteq> None"
proof -
  let ?r = "map2 (\<lambda>e p. case e of None \<Rightarrow> p | Some k \<Rightarrow> flip_bit_b k p) es (map ham8_byte ns)"
  have r: "map unham8_byte ?r = map uint ns"
    using h8.decode_sequence [OF assms(5,6), unfolded h8.receive_def] assms(3,4) by simp
  have s: "map unham8_byte (map ham8_byte ns) = map uint ns"
    using assms(5) h8.dec_enc by (induction ns) auto
  have mid: "unham8_byte ((pre @ xs @ post) ! i) = uint (ns ! (i - 9))"
    if "map unham8_byte xs = map uint ns" "9 \<le> i" "i < 22" for xs i
  proof -
    have "length xs = 13" using arg_cong [OF that(1), of length] assms(3) by simp
    moreover have "i - 9 < 13" using that(2,3) by linarith
    ultimately have "(pre @ xs @ post) ! i = xs ! (i - 9)"
      using that(2,3) assms(1) by (simp add: nth_append)
    moreover have "map unham8_byte xs ! (i - 9) = map uint ns ! (i - 9)" by (simp only: that(1))
    ultimately show ?thesis using that(2,3) \<open>length xs = 13\<close> assms(3) by simp
  qed
  have "vbi_decode_teletext_8302_pdc (pre @ ?r @ post) = vbi_decode_teletext_8302_pdc (pre @ map ham8_byte ns @ post)"
    by (rule unham8_cong) (use assms(1-4) in \<open>auto simp: list_all_iff mid [OF r] mid [OF s] simp del: map_map\<close>)
  moreover have "label_ok (pre @ map ham8_byte ns @ post)"
    by (auto simp: label_ok_def list_all_iff mid [OF s] simp del: map_map)
  then have "vbi_decode_teletext_8302_pdc (pre @ map ham8_byte ns @ post) \<noteq> None"
    using assms(1-3) by (simp add: decode_8302_pdc_eq Let_def)
  ultimately show ?thesis by blast
qed

theorem label_8302_corrects_errors_witness:
  "vbi_decode_teletext_8302_pdc (replicate 9 0 @ flip_bit_b 3 (ham8_byte 8)
      # map ham8_byte [11, 8, 3, 12, 5, 1, 13, 9, 4, 2, 8, 15] @ replicate 20 0)
   = vbi_decode_teletext_8302_pdc (replicate 9 0 @ map ham8_byte [8, 11, 8, 3, 12, 5, 1, 13, 9, 4, 2, 8, 15]
      @ replicate 20 0)"
  using label_8302_corrects_errors [of "replicate 9 0" "replicate 20 0"
    "[8, 11, 8, 3, 12, 5, 1, 13, 9, 4, 2, 8, 15]" "[Some 3, None, None, None, None, None, None, None, None, None, None, None, None]"]
  by simp

end
