(* ===== verification/Sliced.thy ===== *)
theory Sliced
  imports Zvbi_Prelude
begin

text \<open>
  Sliced VBI data, \<^verbatim>\<open>vbi/src/sliced.h\<close>, and the loop over the lines of a frame
  that the PFC, IDL and XDS demultiplexers share: \<^verbatim>\<open>feed_frame\<close> picks the lines of one
  data service, feeds them in order and stops at the first error. The interface
  \<open>line_demux\<close> states what the loop needs from a demultiplexer.
\<close>

section \<open>Lines\<close>

definition VBI_SLICED_TELETEXT_B_L10_625 :: u32 where
  "VBI_SLICED_TELETEXT_B_L10_625 = 0x00000001"

definition VBI_SLICED_TELETEXT_B_L25_625 :: u32 where
  "VBI_SLICED_TELETEXT_B_L25_625 = 0x00000002"

definition VBI_SLICED_TELETEXT_B_625 :: u32 where
  "VBI_SLICED_TELETEXT_B_625 = VBI_SLICED_TELETEXT_B_L10_625 OR VBI_SLICED_TELETEXT_B_L25_625"

definition VBI_SLICED_VPS :: u32 where
  "VBI_SLICED_VPS = 0x00000004"

definition VBI_SLICED_CAPTION_525_F1 :: u32 where
  "VBI_SLICED_CAPTION_525_F1 = 0x00000020"

definition VBI_SLICED_CAPTION_525_F2 :: u32 where
  "VBI_SLICED_CAPTION_525_F2 = 0x00000040"

definition VBI_SLICED_CAPTION_525 :: u32 where
  "VBI_SLICED_CAPTION_525 = VBI_SLICED_CAPTION_525_F1 OR VBI_SLICED_CAPTION_525_F2"

definition VBI_SLICED_WSS_625 :: u32 where
  "VBI_SLICED_WSS_625 = 0x00000400"

definition VBI_SLICED_WSS_CPR1204 :: u32 where
  "VBI_SLICED_WSS_CPR1204 = 0x00000800"

record vbi_sliced =
  sl_id :: u32
  sl_line :: u32
  sl_data :: "u8 list"

text \<open>\<^verbatim>\<open>data\<close> is an array of 56 bytes.\<close>

definition sliced_ok :: "vbi_sliced \<Rightarrow> bool" where
  "sliced_ok l \<longleftrightarrow> length (sl_data l) = 56"

section \<open>The loop over a frame\<close>

primrec feed_lines ::
  "(vbi_sliced \<Rightarrow> bool) \<Rightarrow> ('s \<Rightarrow> u8 list \<Rightarrow> (bool \<times> 's) c_result) \<Rightarrow> 's \<Rightarrow> vbi_sliced list
    \<Rightarrow> (bool \<times> 's) c_result" where
  "feed_lines wanted feed s [] = Ret (True, s)"
| "feed_lines wanted feed s (l # ls) =
     (if wanted l
      then case feed s (sl_data l) of
             Ret (True, s') \<Rightarrow> feed_lines wanted feed s' ls
           | Ret (False, s') \<Rightarrow> Ret (False, s')
           | Undef \<Rightarrow> Undef
      else feed_lines wanted feed s ls)"

text \<open>A result that is defined and whose state satisfies the invariant.\<close>

definition keeps :: "('s \<Rightarrow> bool) \<Rightarrow> (bool \<times> 's) c_result \<Rightarrow> bool" where
  "keeps I r = (case r of Undef \<Rightarrow> False | Ret (ok, s) \<Rightarrow> I s)"

lemma keeps_simps [simp]:
  "keeps I (Ret (ok, s)) = I s"
  "\<not> keeps I Undef"
  by (simp_all add: keeps_def)

lemma keepsE:
  assumes "keeps I r"
  obtains ok s where "r = Ret (ok, s)" "I s"
  using assms by (cases r) (auto simp: keeps_def)

lemma keeps_if [simp]: "keeps I (if b then r else r') = (if b then keeps I r else keeps I r')"
  by simp

text \<open>
  What a demultiplexer promises: on a line of its service the invariant is kept and
  nothing is undefined.
\<close>

locale line_demux =
  fixes wanted :: "vbi_sliced \<Rightarrow> bool"
    and feed :: "'s \<Rightarrow> u8 list \<Rightarrow> (bool \<times> 's) c_result"
    and inv :: "'s \<Rightarrow> bool"
  assumes feed_keeps: "inv s \<Longrightarrow> length d = 56 \<Longrightarrow> keeps inv (feed s d)"
begin

lemma frame_keeps: "inv s \<Longrightarrow> list_all sliced_ok ls \<Longrightarrow> keeps inv (feed_lines wanted feed s ls)"
proof (induction ls arbitrary: s)
  case Nil
  then show ?case by simp
next
  case (Cons l ls)
  show ?case
  proof (cases "wanted l")
    case True
    have "keeps inv (feed s (sl_data l))"
      using feed_keeps [of s "sl_data l"] Cons.prems by (simp add: sliced_ok_def)
    then obtain ok s' where f: "feed s (sl_data l) = Ret (ok, s')" "inv s'" by (rule keepsE)
    then show ?thesis using Cons.IH [of s'] Cons.prems True by (cases ok) simp_all
  next
    case False
    then show ?thesis using Cons by simp
  qed
qed

lemma frame_append:
  "feed_lines wanted feed s (xs @ ys) =
     (case feed_lines wanted feed s xs of
        Ret (True, s') \<Rightarrow> feed_lines wanted feed s' ys
      | Ret (False, s') \<Rightarrow> Ret (False, s')
      | Undef \<Rightarrow> Undef)"
  by (induction xs arbitrary: s) (auto split: c_result.split bool.split)

lemma frame_filter: "feed_lines wanted feed s (filter wanted ls) = feed_lines wanted feed s ls"
  by (induction ls arbitrary: s) (auto split: c_result.split bool.split)

text \<open>A frame that fails fails at a line of the service, and all lines before it passed.\<close>

lemma frame_fails:
  assumes "feed_lines wanted feed s ls = Ret (False, s')"
  obtains xs l ys s0 where "ls = xs @ l # ys" "wanted l" "feed_lines wanted feed s xs = Ret (True, s0)"
    "feed s0 (sl_data l) = Ret (False, s')"
  using assms
proof (induction ls arbitrary: s thesis)
  case Nil
  then show ?case by simp
next
  case (Cons l ls)
  have step: thesis
    if w: "feed_lines wanted feed s [l] = Ret (True, s1)" and f: "feed_lines wanted feed s1 ls = Ret (False, s')" for s1
  proof (rule Cons.IH [OF _ f])
    fix xs k ys s0
    assume "ls = xs @ k # ys" "wanted k" "feed_lines wanted feed s1 xs = Ret (True, s0)"
      "feed s0 (sl_data k) = Ret (False, s')"
    then show thesis
      using frame_append [of s "[l]" xs] w by (intro Cons.prems(1) [of "l # xs" k ys s0]) simp_all
  qed
  show ?case
  proof (cases "wanted l")
    case False
    then show ?thesis using step [of s] Cons.prems(2) by simp
  next
    case True
    show ?thesis
    proof (cases "feed s (sl_data l)")
      case (Ret r)
      obtain ok s1 where r: "r = (ok, s1)" by (cases r)
      show ?thesis
      proof (cases ok)
        case True
        then show ?thesis using step [of s1] Cons.prems(2) \<open>wanted l\<close> Ret r by simp
      next
        case False
        then show ?thesis
          using Cons.prems(2) \<open>wanted l\<close> Ret r by (intro Cons.prems(1) [of "[]" l ls s]) simp_all
      qed
    next
      case Undef
      then show ?thesis using Cons.prems(2) True by simp
    qed
  qed
qed

end

end
