(* ===== verification/Pfc_Demux.thy ===== *)
theory Pfc_Demux
  imports Hamm Sliced
begin

text \<open>
  The Page Function Clear demultiplexer, \<^verbatim>\<open>vbi/src/pfc_demux.c\<close> (EN 300 708 section 4):
  it filters the Teletext packets of one page and stream and reassembles the data blocks
  they carry. \<open>'u\<close> is the state behind the user data pointer, which only the callback
  reads and changes. The members \<^verbatim>\<open>callback\<close> and \<^verbatim>\<open>user_data\<close> never change and are
  parameters. Unsigned members that count or index never wrap around and are natural
  numbers; \<^verbatim>\<open>application_id\<close> is an integer, \<open>-1\<close> for \<^verbatim>\<open>(unsigned int) -1\<close>.
\<close>

section \<open>State\<close>

record vbi_pfc_block =
  pgno :: int
  stream :: int
  application_id :: int
  block_size :: nat
  block :: "u8 list"

record vbi_pfc_demux =
  ci :: int
  packet :: nat
  n_packets :: nat
  bi :: nat
  left :: nat
  dx_block :: vbi_pfc_block

type_synonym 'u pfc_cb = "vbi_pfc_block \<Rightarrow> 'u \<Rightarrow> bool \<times> 'u"

definition vbi_pfc_demux_reset :: "vbi_pfc_demux \<Rightarrow> vbi_pfc_demux" where
  "vbi_pfc_demux_reset dx = dx \<lparr> ci := 256, packet := 256, n_packets := 0, bi := 0, left := 0,
     dx_block := dx_block dx \<lparr> application_id := - 1 \<rparr> \<rparr>"

text \<open>
  \<^verbatim>\<open>_vbi_pfc_demux_init\<close> works on freshly allocated memory: \<open>garbage\<close> is what the memory
  held before.
\<close>

definition vbi_pfc_demux_init :: "vbi_pfc_demux \<Rightarrow> int \<Rightarrow> int \<Rightarrow> vbi_pfc_demux" where
  "vbi_pfc_demux_init garbage page strm =
     (let dx = vbi_pfc_demux_reset garbage
      in dx \<lparr> dx_block := dx_block dx \<lparr> pgno := page, stream := strm \<rparr> \<rparr>)"

section \<open>Decoding a packet\<close>

text \<open>
  The first half of the loop body: append bytes of the packet to the block. The packet is
  done, or the structure header is complete (\<^verbatim>\<open>continue\<close>), or the search for the next
  block separator follows at a column.
\<close>

datatype 'u pfc_copy =
    Copy_Return bool vbi_pfc_demux 'u
  | Copy_Continue nat vbi_pfc_demux 'u
  | Copy_Scan nat vbi_pfc_demux 'u

definition pfc_memcpy :: "vbi_pfc_demux \<Rightarrow> u8 list \<Rightarrow> nat \<Rightarrow> nat \<Rightarrow> vbi_pfc_demux c_result" where
  "pfc_memcpy dx buffer col n =
     (if bi dx + n \<le> length (block (dx_block dx)) \<and> col + n \<le> length buffer
      then Ret (dx \<lparr> dx_block := dx_block dx \<lparr>
             block := c_memcpy (bi dx) (take n (drop col buffer)) (block (dx_block dx)) \<rparr> \<rparr>)
      else Undef)"

definition pfc_copy_phase ::
  "'u pfc_cb \<Rightarrow> u8 list \<Rightarrow> nat \<Rightarrow> vbi_pfc_demux \<Rightarrow> 'u \<Rightarrow> 'u pfc_copy c_result" where
  "pfc_copy_phase callback buffer col dx u =
     (if left dx > 0
      then let n = min (left dx) (42 - col) in
        c_bind (pfc_memcpy dx buffer col n) (\<lambda>dx.
        let dx = dx \<lparr> bi := bi dx + n, left := left dx - n \<rparr> in
        if left dx > 0 then Ret (Copy_Return True dx u)
        else let col = col + n in
          if application_id (dx_block dx) < 0
          then let sh = vbi_unham16p (block (dx_block dx)) + vbi_unham16p (drop 2 (block (dx_block dx))) * 256
            in if sh < 0 then Ret (Copy_Return False (vbi_pfc_demux_reset dx) u)
               else let dx = dx \<lparr> dx_block := dx_block dx \<lparr> application_id := sh AND 0x1F,
                                                         block_size := nat (drop_bit 5 sh) \<rparr> \<rparr>;
                        dx = dx \<lparr> bi := 0, left := block_size (dx_block dx) \<rparr>
                    in Ret (Copy_Continue col dx u)
          else case callback (dx_block dx) u of
              (True, u) \<Rightarrow> Ret (Copy_Scan col dx u)
            | (False, u) \<Rightarrow> Ret (Copy_Return False (vbi_pfc_demux_reset dx) u))
      else Ret (Copy_Scan col dx u))"

text \<open>
  The second half: find the next block separator. At the start of a packet the block
  pointer tells where it is; otherwise filler bytes are skipped. The loop reads first and
  tests the column afterwards.
\<close>

datatype pfc_scan = Scan_End | Scan_Byte int nat

function pfc_skip_filler :: "u8 list \<Rightarrow> nat \<Rightarrow> pfc_scan c_result" where
  "pfc_skip_filler buffer col =
     (if length buffer \<le> col then Undef
      else let bs = vbi_unham8 (ucast (buffer ! col)); col = col + 1
        in if bs = 0x03
           then (if col \<ge> 42 then Ret Scan_End else pfc_skip_filler buffer col)
           else Ret (Scan_Byte bs col))"
  by pat_completeness auto
termination by (relation "measure (\<lambda>(buffer, col). length buffer - col)") auto

declare pfc_skip_filler.simps [simp del]

definition pfc_scan_phase :: "u8 list \<Rightarrow> nat \<Rightarrow> nat \<Rightarrow> pfc_scan c_result" where
  "pfc_scan_phase buffer bp col =
     (if col \<le> 3
      then if bp \<ge> 39 then Ret Scan_End
           else c_bind (c_read buffer (bp + 4 - 1)) (\<lambda>b. Ret (Scan_Byte (vbi_unham8 (ucast b)) (bp + 4)))
      else pfc_skip_filler buffer col)"

lemma memcpy_fields:
  assumes "pfc_memcpy dx buffer col n = Ret dx'"
  shows "dx' = dx \<lparr> dx_block := dx_block dx \<lparr> block := block (dx_block dx') \<rparr> \<rparr>"
    and "length (block (dx_block dx')) = length (block (dx_block dx))"
    and "take (bi dx + n) (block (dx_block dx')) = take (bi dx) (block (dx_block dx)) @ take n (drop col buffer)"
proof -
  have s: "bi dx + n \<le> length (block (dx_block dx))" "col + n \<le> length buffer"
    and d: "dx' = dx \<lparr> dx_block := dx_block dx \<lparr>
             block := c_memcpy (bi dx) (take n (drop col buffer)) (block (dx_block dx)) \<rparr> \<rparr>"
    using assms by (simp_all add: pfc_memcpy_def split: if_splits)
  have l: "length (take n (drop col buffer)) = n" using s by simp
  show "dx' = dx \<lparr> dx_block := dx_block dx \<lparr> block := block (dx_block dx') \<rparr> \<rparr>" by (simp add: d)
  show "length (block (dx_block dx')) = length (block (dx_block dx))"
    using s by (simp add: d)
  show "take (bi dx + n) (block (dx_block dx')) = take (bi dx) (block (dx_block dx)) @ take n (drop col buffer)"
    using take_c_memcpy [of "bi dx" "take n (drop col buffer)" "block (dx_block dx)"] s
    unfolding l by (simp add: d)
qed

lemma copy_continue_col: "pfc_copy_phase callback buffer col dx u = Ret (Copy_Continue col' dx' u') \<Longrightarrow> col < 42 \<Longrightarrow> col < col'"
  by (auto simp: pfc_copy_phase_def Let_def c_bind_eq_Ret dest!: memcpy_fields(1) split: if_splits prod.splits bool.splits)

lemma copy_scan_col: "pfc_copy_phase callback buffer col dx u = Ret (Copy_Scan col' dx' u') \<Longrightarrow> col \<le> col'"
  by (auto simp: pfc_copy_phase_def Let_def c_bind_eq_Ret split: if_splits prod.splits bool.splits)

lemma skip_filler_col: "pfc_skip_filler buffer col = Ret (Scan_Byte bs col') \<Longrightarrow> col < col'"
proof (induction buffer col rule: pfc_skip_filler.induct)
  case (1 buffer col)
  then show ?case
    by (auto simp: pfc_skip_filler.simps [of buffer col] Let_def split: if_splits)
qed

lemma scan_phase_col: "pfc_scan_phase buffer bp col = Ret (Scan_Byte bs col') \<Longrightarrow> col < col'"
  by (auto simp: pfc_scan_phase_def c_bind_eq_Ret dest: skip_filler_col split: if_splits)

function pfc_decode_loop ::
  "'u pfc_cb \<Rightarrow> u8 list \<Rightarrow> nat \<Rightarrow> nat \<Rightarrow> vbi_pfc_demux \<Rightarrow> 'u \<Rightarrow> (bool \<times> vbi_pfc_demux \<times> 'u) c_result" where
  "pfc_decode_loop callback buffer bp col dx u =
     (if col < 42
      then case pfc_copy_phase callback buffer col dx u of
          Undef \<Rightarrow> Undef
        | Ret (Copy_Return ok dx u) \<Rightarrow> Ret (ok, dx, u)
        | Ret (Copy_Continue col dx u) \<Rightarrow> pfc_decode_loop callback buffer bp col dx u
        | Ret (Copy_Scan col dx u) \<Rightarrow>
            (case pfc_scan_phase buffer bp col of
               Undef \<Rightarrow> Undef
             | Ret Scan_End \<Rightarrow> Ret (True, dx, u)
             | Ret (Scan_Byte bs col) \<Rightarrow>
                 if 0x0C \<noteq> bs then Ret (False, vbi_pfc_demux_reset dx, u)
                 else pfc_decode_loop callback buffer bp col
                        (dx \<lparr> bi := 0, left := 4, dx_block := dx_block dx \<lparr> application_id := - 1 \<rparr> \<rparr>) u)
      else Ret (True, dx, u))"
  by pat_completeness auto
termination
  by (relation "measure (\<lambda>(callback, buffer, bp, col, dx, u). 42 - col)")
    (auto dest!: copy_continue_col copy_scan_col scan_phase_col)

declare pfc_decode_loop.simps [simp del]

definition vbi_pfc_demux_decode ::
  "'u pfc_cb \<Rightarrow> vbi_pfc_demux \<times> 'u \<Rightarrow> u8 list \<Rightarrow> (bool \<times> vbi_pfc_demux \<times> 'u) c_result" where
  "vbi_pfc_demux_decode callback = (\<lambda>(dx, u) buffer.
     let bp = vbi_unham8 (ucast (buffer ! 2)) * 3
     in if bp < 0 \<or> bp > 39 then Ret (False, vbi_pfc_demux_reset dx, u)
        else pfc_decode_loop callback buffer (nat bp) 3 dx u)"

section \<open>The packet filter\<close>

text \<open>
  \<^verbatim>\<open>stream\<close> of the source is unsigned, but only compared with a value of four bits.
\<close>

definition vbi_pfc_demux_feed ::
  "'u pfc_cb \<Rightarrow> vbi_pfc_demux \<times> 'u \<Rightarrow> u8 list \<Rightarrow> (bool \<times> vbi_pfc_demux \<times> 'u) c_result" where
  "vbi_pfc_demux_feed callback = (\<lambda>(dx, u) buffer.
     let pmag = vbi_unham16p buffer in
     if pmag < 0 then Ret (False, vbi_pfc_demux_reset dx, u)
     else let pg = pmag AND 7;
              pg = (if pg = 0 then 0x800 else push_bit 8 pg);
              pkt = drop_bit 3 pmag
     in if pkt = 0
        then let pg = pg OR vbi_unham16p (drop 2 buffer) in
          if pg < 0 then Ret (False, vbi_pfc_demux_reset dx, u)
          else if pg \<noteq> pgno (dx_block dx) then Ret (True, dx \<lparr> n_packets := 0 \<rparr>, u)
          else let subno = vbi_unham16p (drop 4 buffer) + vbi_unham16p (drop 6 buffer) * 256 in
          if subno < 0 then Ret (False, vbi_pfc_demux_reset dx, u)
          else let strm = drop_bit 8 subno AND 15 in
          if strm \<noteq> stream (dx_block dx) then Ret (True, dx \<lparr> n_packets := 0 \<rparr>, u)
          else let c = subno AND 15;
                   dx = (if c \<noteq> ci dx then vbi_pfc_demux_reset dx else dx);
                   dx = dx \<lparr> ci := (c + 1) AND 15, packet := 1,
                             n_packets := nat ((drop_bit 4 subno AND 7) + (drop_bit 9 subno AND 0x18)) \<rparr>
               in Ret (True, dx, u)
        else if (pg XOR pgno (dx_block dx)) AND 0xF00 \<noteq> 0 then Ret (True, dx, u)
        else if n_packets dx = 0 then Ret (True, dx, u)
        else if pkt > 25 then Ret (True, dx, u)
        else if nat pkt \<noteq> packet dx \<or> nat pkt > n_packets dx then Ret (True, vbi_pfc_demux_reset dx, u)
        else vbi_pfc_demux_decode callback (dx \<lparr> packet := nat pkt + 1 \<rparr>, u) buffer)"

definition is_teletext_b :: "vbi_sliced \<Rightarrow> bool" where
  "is_teletext_b l \<longleftrightarrow> sl_id l AND VBI_SLICED_TELETEXT_B_625 \<noteq> 0"

definition vbi_pfc_demux_feed_frame ::
  "'u pfc_cb \<Rightarrow> vbi_pfc_demux \<times> 'u \<Rightarrow> vbi_sliced list \<Rightarrow> (bool \<times> vbi_pfc_demux \<times> 'u) c_result" where
  "vbi_pfc_demux_feed_frame callback = feed_lines is_teletext_b (vbi_pfc_demux_feed callback)"

section \<open>Safety\<close>

text \<open>
  Between two packets: a block in progress is a structure header of four bytes, or a data
  block whose announced size fits the buffer.
\<close>

definition pfc_inv :: "vbi_pfc_demux \<Rightarrow> bool" where
  "pfc_inv dx \<longleftrightarrow> length (block (dx_block dx)) = 2048 \<and>
     (left dx > 0 \<longrightarrow>
        (if application_id (dx_block dx) < 0 then bi dx + left dx = 4
         else application_id (dx_block dx) \<le> 31 \<and> block_size (dx_block dx) \<le> 2047
              \<and> bi dx + left dx = block_size (dx_block dx)))"

text \<open>What the callback may rely on.\<close>

definition pfc_block_ok :: "int \<Rightarrow> int \<Rightarrow> vbi_pfc_block \<Rightarrow> bool" where
  "pfc_block_ok page strm b \<longleftrightarrow> pgno b = page \<and> stream b = strm \<and> 0 \<le> application_id b \<and> application_id b \<le> 31
     \<and> 1 \<le> block_size b \<and> block_size b \<le> 2047 \<and> length (block b) = 2048"

lemma reset_inv [simp]:
  "length (block (dx_block dx)) = 2048 \<Longrightarrow> pfc_inv (vbi_pfc_demux_reset dx)"
  by (simp add: pfc_inv_def vbi_pfc_demux_reset_def)

lemma reset_block [simp]: "block (dx_block (vbi_pfc_demux_reset dx)) = block (dx_block dx)"
  "pgno (dx_block (vbi_pfc_demux_reset dx)) = pgno (dx_block dx)"
  "stream (dx_block (vbi_pfc_demux_reset dx)) = stream (dx_block dx)"
  "left (vbi_pfc_demux_reset dx) = 0"
  by (simp_all add: vbi_pfc_demux_reset_def)

definition same_page :: "vbi_pfc_demux \<Rightarrow> vbi_pfc_demux \<Rightarrow> bool" where
  "same_page dx dx' \<longleftrightarrow> pgno (dx_block dx') = pgno (dx_block dx) \<and> stream (dx_block dx') = stream (dx_block dx)"

text \<open>A user state property that the callback keeps whenever it gets a good block.\<close>

definition cb_keeps :: "'u pfc_cb \<Rightarrow> int \<Rightarrow> int \<Rightarrow> ('u \<Rightarrow> bool) \<Rightarrow> bool" where
  "cb_keeps callback page strm I \<longleftrightarrow> (\<forall>b u. pfc_block_ok page strm b \<longrightarrow> I u \<longrightarrow> I (snd (callback b u)))"

lemma header_size:
  assumes "0 \<le> vbi_unham16p p + vbi_unham16p q * 256"
  shows "nat (drop_bit 5 (vbi_unham16p p + vbi_unham16p q * 256)) \<le> 2047"
proof -
  have "0 \<le> vbi_unham16p q"
    using assms unham16p_range(1) [of p] by (cases "0 \<le> vbi_unham16p p") auto
  then have "vbi_unham16p p + vbi_unham16p q * 256 \<le> 65535"
    using unham16p_range(1) [of p] unham16p_range(1) [of q] by (cases "0 \<le> vbi_unham16p p") auto
  then have "(vbi_unham16p p + vbi_unham16p q * 256) div 32 \<le> 65535 div 32"
    by (rule zdiv_mono1) simp
  then show ?thesis by (simp add: drop_bit_eq_div)
qed

lemma copy_phase_safe:
  assumes inv: "pfc_inv dx" and len: "42 \<le> length buffer"
    and cb: "cb_keeps callback (pgno (dx_block dx)) (stream (dx_block dx)) I" and I: "I u" and col: "col < 42"
  shows "\<exists>r. pfc_copy_phase callback buffer col dx u = Ret r \<and>
    (case r of Copy_Return ok dx' u' \<Rightarrow> pfc_inv dx' \<and> same_page dx dx' \<and> I u'
     | Copy_Continue col' dx' u' \<Rightarrow> pfc_inv dx' \<and> same_page dx dx' \<and> I u'
     | Copy_Scan col' dx' u' \<Rightarrow> pfc_inv dx' \<and> same_page dx dx' \<and> I u' \<and> col' \<le> 42)"
proof (cases "left dx > 0")
  case False
  then show ?thesis using inv I col by (simp add: pfc_copy_phase_def same_page_def)
next
  case True
  let ?n = "min (left dx) (42 - col)"
  have fits: "bi dx + ?n \<le> length (block (dx_block dx))" "col + ?n \<le> length buffer"
    using inv True len col by (auto simp: pfc_inv_def split: if_splits)
  then obtain dx1 where m: "pfc_memcpy dx buffer col ?n = Ret dx1" by (simp add: pfc_memcpy_def)
  define blk where "blk = block (dx_block dx1)"
  have dx1: "dx1 = dx \<lparr> dx_block := dx_block dx \<lparr> block := blk \<rparr> \<rparr>" "length blk = 2048"
    using memcpy_fields(1,2) [OF m] inv by (simp_all add: blk_def pfc_inv_def)
  show ?thesis
  proof (cases "left dx \<le> 42 - col")
    case False
    then show ?thesis
      using True m inv I dx1 by (auto simp: pfc_copy_phase_def Let_def pfc_inv_def same_page_def split: if_splits)
  next
    case fin: True
    then have n: "?n = left dx" by simp
    show ?thesis
    proof (cases "application_id (dx_block dx) < 0")
      case True
      then show ?thesis
        using \<open>left dx > 0\<close> m [unfolded n] n I dx1 header_size [of blk "drop 2 blk"]
        by (simp add: pfc_copy_phase_def Let_def same_page_def not_less)
          (auto simp: pfc_inv_def AND_upper2)
    next
      case False
      have "pfc_block_ok (pgno (dx_block dx)) (stream (dx_block dx)) (dx_block dx1)"
        using False inv \<open>left dx > 0\<close> dx1 by (simp add: pfc_block_ok_def pfc_inv_def)
      then have "I (snd (callback (dx_block dx1) u))" using cb I by (simp add: cb_keeps_def)
      then show ?thesis
        using False \<open>left dx > 0\<close> m [unfolded n] n dx1 fin col
        by (cases "callback (dx_block dx1) u")
          (auto simp: pfc_copy_phase_def Let_def same_page_def pfc_inv_def split: bool.split)
    qed
  qed
qed

lemma skip_filler_safe:
  "col < 43 \<Longrightarrow> 43 \<le> length buffer \<Longrightarrow> pfc_skip_filler buffer col \<noteq> Undef"
proof (induction buffer col rule: pfc_skip_filler.induct)
  case (1 buffer col)
  then show ?case
    by (simp add: pfc_skip_filler.simps [of buffer col] Let_def)
qed

lemma scan_phase_safe:
  assumes "col \<le> 42" "bp \<le> 39" "43 \<le> length buffer"
  shows "pfc_scan_phase buffer bp col \<noteq> Undef"
  using assms skip_filler_safe [of col buffer] by (auto simp: pfc_scan_phase_def)

lemma decode_loop_safe:
  assumes "pfc_inv dx" "43 \<le> length buffer" "bp \<le> 39"
    and "cb_keeps callback (pgno (dx_block dx)) (stream (dx_block dx)) I" "I u"
  shows "\<exists>ok dx' u'. pfc_decode_loop callback buffer bp col dx u = Ret (ok, dx', u')
    \<and> pfc_inv dx' \<and> same_page dx dx' \<and> I u'"
  using assms
proof (induction callback buffer bp col dx u rule: pfc_decode_loop.induct)
  case (1 callback buffer bp col dx u)
  note simps = pfc_decode_loop.simps [of callback buffer bp col dx u]
  show ?case
  proof (cases "col < 42")
    case False
    then show ?thesis using 1(3-) by (auto simp: simps same_page_def)
  next
    case True
    obtain r where r: "pfc_copy_phase callback buffer col dx u = Ret r"
      and ok: "case r of Copy_Return ok dx' u' \<Rightarrow> pfc_inv dx' \<and> same_page dx dx' \<and> I u'
       | Copy_Continue col' dx' u' \<Rightarrow> pfc_inv dx' \<and> same_page dx dx' \<and> I u'
       | Copy_Scan col' dx' u' \<Rightarrow> pfc_inv dx' \<and> same_page dx dx' \<and> I u' \<and> col' \<le> 42"
      using copy_phase_safe [of dx buffer callback I u col] 1(3-) True by auto
    show ?thesis
    proof (cases r)
      case (Copy_Return b dx' u')
      then show ?thesis using ok r True by (simp add: simps)
    next
      case (Copy_Continue col' dx' u')
      then have s: "pfc_inv dx'" "same_page dx dx'" "I u'" using ok by simp_all
      then show ?thesis
        using 1(1) [OF True r Copy_Continue] 1(4-) r True Copy_Continue by (auto simp: simps same_page_def)
    next
      case (Copy_Scan col' dx' u')
      then have s: "pfc_inv dx'" "same_page dx dx'" "I u'" "col' \<le> 42" using ok by simp_all
      have b: "length (block (dx_block dx')) = 2048" using s(1) by (simp add: pfc_inv_def)
      obtain sc where sc: "pfc_scan_phase buffer bp col' = Ret sc"
        using scan_phase_safe [OF s(4) 1(5) 1(4)] by (cases "pfc_scan_phase buffer bp col'") auto
      show ?thesis
      proof (cases sc)
        case Scan_End
        then show ?thesis using s r True Copy_Scan sc by (auto simp: simps)
      next
        case (Scan_Byte bs col2)
        let ?dx = "dx' \<lparr> bi := 0, left := 4, dx_block := dx_block dx' \<lparr> application_id := - 1 \<rparr> \<rparr>"
        have "pfc_inv ?dx" "same_page dx ?dx" using b s(2) by (simp_all add: pfc_inv_def same_page_def)
        then show ?thesis
          using 1(2) [OF True r Copy_Scan sc Scan_Byte] 1(4-) s b r True Copy_Scan sc Scan_Byte
          by (cases "12 = bs") (auto simp: simps same_page_def)
      qed
    qed
  qed
qed

text \<open>
  The demultiplexer as a stage of the frame loop: the invariant on its state and a property
  of the user state that the callback keeps.
\<close>

definition pfc_stage_inv :: "int \<Rightarrow> int \<Rightarrow> ('u \<Rightarrow> bool) \<Rightarrow> vbi_pfc_demux \<times> 'u \<Rightarrow> bool" where
  "pfc_stage_inv page strm I = (\<lambda>(dx, u). pfc_inv dx \<and> pgno (dx_block dx) = page \<and> stream (dx_block dx) = strm \<and> I u)"

lemma feed_safe:
  assumes "pfc_stage_inv page strm I s" "43 \<le> length buffer" "cb_keeps callback page strm I"
  shows "keeps (pfc_stage_inv page strm I) (vbi_pfc_demux_feed callback s buffer)"
proof -
  obtain dx u where s: "s = (dx, u)" by (cases s)
  have i: "pfc_inv dx" "pgno (dx_block dx) = page" "stream (dx_block dx) = strm" "I u"
    using assms(1) by (simp_all add: s pfc_stage_inv_def)
  then have b: "length (block (dx_block dx)) = 2048" by (simp add: pfc_inv_def)
  have keep: "pfc_inv (dx \<lparr> n_packets := n \<rparr>)" "pfc_inv (dx \<lparr> ci := c, packet := p, n_packets := n \<rparr>)"
    "pfc_inv ((vbi_pfc_demux_reset dx) \<lparr> ci := c, packet := p, n_packets := n \<rparr>)" for n c p
    using i(1) b by (simp_all add: pfc_inv_def vbi_pfc_demux_reset_def)
  have dec: "keeps (pfc_stage_inv page strm I) (vbi_pfc_demux_decode callback (dx \<lparr> packet := p \<rparr>, u) buffer)" for p
  proof -
    have p: "pfc_inv (dx \<lparr> packet := p \<rparr>)" using i(1) by (simp add: pfc_inv_def)
    show ?thesis
    proof (cases "vbi_unham8 (ucast (buffer ! 2)) * 3 < 0 \<or> 39 < vbi_unham8 (ucast (buffer ! 2)) * 3")
      case True
      then show ?thesis
        using i b by (auto simp: vbi_pfc_demux_decode_def Let_def pfc_stage_inv_def)
    next
      case False
      then have bp: "nat (vbi_unham8 (ucast (buffer ! 2)) * 3) \<le> 39" by linarith
      show ?thesis
        using decode_loop_safe [OF p assms(2) bp, of callback I u 3] assms(3) i False
        by (auto simp: vbi_pfc_demux_decode_def Let_def pfc_stage_inv_def same_page_def)
    qed
  qed
  show ?thesis
    unfolding s vbi_pfc_demux_feed_def Let_def prod.case keeps_if keeps_simps
    using i b keep dec by (simp add: pfc_stage_inv_def)
qed

text \<open>The callback as a recorder: the user state is the list of blocks delivered so far.\<close>

definition record_block :: "vbi_pfc_block \<Rightarrow> vbi_pfc_block list \<Rightarrow> bool \<times> vbi_pfc_block list" where
  "record_block b bs = (True, bs @ [b])"

lemma record_block_keeps: "cb_keeps record_block page strm (list_all (pfc_block_ok page strm))"
  by (simp add: cb_keeps_def record_block_def)

interpretation pfc: line_demux is_teletext_b "vbi_pfc_demux_feed record_block"
    "pfc_stage_inv page strm (list_all (pfc_block_ok page strm))" for page strm
  by unfold_locales (rule feed_safe [OF _ _ record_block_keeps]; simp)



section \<open>Blocks that end with the packet\<close>

text \<open>A data block that ends with the last byte of a packet is delivered, but the search for
  the next separator then reads byte 42 of the 42 byte packet: undefined for an array of 42
  bytes. Where memory follows the packet, its first byte decides whether the demultiplexer
  stays synchronised: unless it happens to be a filler byte or a separator, the packet is
  reported as faulty and the state is reset.\<close>

theorem pfc_block_end_overread:
  assumes "pfc_inv dx" and "left dx = 39" and "0 \<le> application_id (dx_block dx)"
    and "0 \<le> unham8_byte (buffer ! 2)" and "unham8_byte (buffer ! 2) \<le> 13" and "42 \<le> length buffer"
  defines "blk \<equiv> dx_block dx \<lparr> block := c_memcpy (bi dx) (take 39 (drop 3 buffer)) (block (dx_block dx)) \<rparr>"
  shows "vbi_pfc_demux_decode record_block (dx, bs) (take 42 buffer) = Undef
    \<and> (length buffer = 42 \<or> unham8_byte (buffer ! 42) = 0x03 \<or> unham8_byte (buffer ! 42) = 0x0C
       \<or> vbi_pfc_demux_decode record_block (dx, bs) buffer
           = Ret (False, vbi_pfc_demux_reset (dx \<lparr> bi := bi dx + 39, left := 0, dx_block := blk \<rparr>), bs @ [blk]))"
proof -
  have bp: "\<not> (vbi_unham8 (ucast (buffer ! 2)) * 3 < 0 \<or> 39 < vbi_unham8 (ucast (buffer ! 2)) * 3)"
    using assms(4,5) by (simp add: unham8_byte_def)
  have fits: "bi dx + 39 \<le> length (block (dx_block dx))"
    using assms(1-3) by (simp add: pfc_inv_def split: if_splits)
  have m: "pfc_memcpy dx b 3 39 = Ret (dx \<lparr> dx_block := dx_block dx \<lparr>
      block := c_memcpy (bi dx) (take 39 (drop 3 b)) (block (dx_block dx)) \<rparr> \<rparr>)" if "42 \<le> length b" for b
    using fits that by (simp add: pfc_memcpy_def)
  have t: "take 39 (drop 3 (take 42 buffer)) = take 39 (drop 3 buffer)"
    by (simp add: drop_take)
  have c: "pfc_copy_phase record_block b 3 dx bs =
      Ret (Copy_Scan 42 (dx \<lparr> bi := bi dx + 39, left := 0, dx_block := blk \<rparr>) (bs @ [blk]))"
    if "42 \<le> length b" "take 39 (drop 3 b) = take 39 (drop 3 buffer)" for b
    using assms(2,3) m [OF that(1)] that(2)
    by (simp add: pfc_copy_phase_def Let_def record_block_def blk_def)
  have 1: "vbi_pfc_demux_decode record_block (dx, bs) (take 42 buffer) = Undef"
    using bp c [of "take 42 buffer"] t assms(6)
    by (simp add: vbi_pfc_demux_decode_def Let_def pfc_decode_loop.simps pfc_scan_phase_def pfc_skip_filler.simps)
  have 2: "vbi_pfc_demux_decode record_block (dx, bs) buffer
      = Ret (False, vbi_pfc_demux_reset (dx \<lparr> bi := bi dx + 39, left := 0, dx_block := blk \<rparr>), bs @ [blk])"
    if "length buffer \<noteq> 42" "unham8_byte (buffer ! 42) \<noteq> 0x03" "unham8_byte (buffer ! 42) \<noteq> 0x0C"
    using bp c [of buffer] assms(6) that
    by (simp add: vbi_pfc_demux_decode_def Let_def pfc_decode_loop.simps [of record_block buffer _ 3]
        pfc_scan_phase_def pfc_skip_filler.simps unham8_byte_def)
  show ?thesis using 1 2 by blast
qed

definition pfc_sample :: vbi_pfc_demux where
  "pfc_sample = \<lparr> ci = 1, packet = 2, n_packets = 3, bi = 0, left = 39, dx_block = \<lparr> pgno = 0x1DF, stream = 3,
     application_id = 0, block_size = 39, block = replicate 2048 0 \<rparr> \<rparr>"

theorem pfc_block_end_overread_witness:
  "vbi_pfc_demux_decode record_block (pfc_sample, []) (take 42 (replicate 56 (ham8_byte 13))) = Undef"
  using pfc_block_end_overread [of pfc_sample "replicate 56 (ham8_byte 13)" "[]"] h8.dec_enc [of 13]
  by (simp add: pfc_inv_def pfc_sample_def)

text \<open>Errors in the page header go unnoticed: when byte 4 (the low nibble of the sub-page number)
  is uncorrectable and the high pair decodes to a positive number, the sum of the two decoder
  results is not negative, and the packet is processed as if it were intact.\<close>

theorem pfc_header_error_missed:
  assumes "unham8_byte (buffer ! 0) = 0" "unham8_byte (buffer ! 1) = 0" "length buffer = 42"
    and "unham8_byte (buffer ! 2) = 0" "unham8_byte (buffer ! 3) = 0" "pgno (dx_block dx) = 0x800"
    and "unham8_byte (buffer ! 4) < 0" "0 \<le> vbi_unham16p (drop 6 buffer)" "vbi_unham16p (drop 6 buffer) \<noteq> 0"
  shows "\<exists>dx'. vbi_pfc_demux_feed callback (dx, u) buffer = Ret (True, dx', u)"
proof -
  have u: "vbi_unham16p p = unham8_byte (p ! 0) OR push_bit 4 (unham8_byte (p ! 1))" for p
    by (simp add: vbi_unham16p_def unham8_byte_def vbi_unham8_def)
  have "vbi_unham16p buffer = 0" "vbi_unham16p (drop 2 buffer) = 0"
    using assms by (simp_all add: u)
  moreover have "0 \<le> vbi_unham16p (drop 4 buffer) + vbi_unham16p (drop 6 buffer) * 256"
    using unham16p_range(3) [of "drop 4 buffer"] assms(8,9) by linarith
  ultimately show ?thesis
    using assms(6) by (simp add: vbi_pfc_demux_feed_def Let_def not_less)
qed

theorem pfc_header_error_missed_witness:
  "\<exists>dx'. vbi_pfc_demux_feed record_block (pfc_sample \<lparr> dx_block := dx_block pfc_sample \<lparr> pgno := 0x800 \<rparr> \<rparr>, [])
     (map ham8_byte [0, 0, 0, 0] @ [flip_bit_b 0 (flip_bit_b 1 (ham8_byte 0))] @ map ham8_byte [0, 1, 0] @ replicate 34 0x20) = Ret (True, dx', [])"
proof (rule pfc_header_error_missed)
  let ?b = "map ham8_byte [0, 0, 0, 0] @ [flip_bit_b 0 (flip_bit_b 1 (ham8_byte 0))] @ map ham8_byte [0, 1, 0] @ replicate 34 0x20"
  have d: "unham8_byte (ham8_byte 0) = 0" "unham8_byte (ham8_byte 1) = 1"
    using h8.dec_enc [of 0] h8.dec_enc [of 1] by simp_all
  show "unham8_byte (?b ! 0) = 0" "unham8_byte (?b ! 1) = 0" "unham8_byte (?b ! 2) = 0"
    "unham8_byte (?b ! 3) = 0" using d by simp_all
  show "unham8_byte (?b ! 4) < 0" using h8.dec_double [of 0 0 1] by simp
  have "vbi_unham16p (drop 6 ?b) = 1"
    using d by (simp add: vbi_unham16p_def unham8_byte_def vbi_unham8_def)
  then show "0 \<le> vbi_unham16p (drop 6 ?b)" "vbi_unham16p (drop 6 ?b) \<noteq> 0" by simp_all
qed (simp_all add: pfc_sample_def)

end
