(* ===== verification/Idl_Demux.thy ===== *)
theory Idl_Demux
  imports Hamm Sliced
begin

text \<open>
  The Independent Data Line demultiplexer, \<^verbatim>\<open>vbi/src/idl_demux.c\<close> (EN 300 708 section
  6): packets of one channel and address, checked with a CRC, unpacked and handed to a
  callback. As in the PFC demultiplexer \<open>'u\<close> is the state behind the user data pointer, and
  the callback, which never changes, is a parameter.
\<close>

section \<open>The CRC table\<close>

text \<open>One round of the inner loop on \<^verbatim>\<open>(crc, val)\<close>.\<close>

definition crc16_round :: "u32 \<Rightarrow> u32 \<times> u32 \<Rightarrow> u32 \<times> u32" where
  "crc16_round poly = (\<lambda>(crc, val).
     (drop_bit 1 crc XOR (poly AND ((1 AND NOT (val XOR crc)) - 1)), drop_bit 1 val))"

definition init_crc16_entry :: "u32 \<Rightarrow> u32 \<Rightarrow> u16" where
  "init_crc16_entry poly i = ucast (fst ((crc16_round poly ^^ 8) (0, i)))"

definition init_crc16_table :: "u32 \<Rightarrow> u16 list" where
  "init_crc16_table poly = map (\<lambda>i. init_crc16_entry poly (of_nat i)) [0..<256]"

definition idl_a_crc_table :: "u16 list" where
  "idl_a_crc_table = init_crc16_table 0x8940"

text \<open>One round of the loop over the bytes of a packet.\<close>

definition idl_a_crc_step :: "u32 \<Rightarrow> u8 \<Rightarrow> u32" where
  "idl_a_crc_step crc b = drop_bit 8 crc XOR ucast (idl_a_crc_table ! unat ((crc AND 0xFF) XOR ucast b))"

section \<open>State\<close>

definition VBI_IDL_DATA_LOST :: u32 where "VBI_IDL_DATA_LOST = 1"

definition VBI_IDL_DEPENDENT :: u32 where "VBI_IDL_DEPENDENT = 8"

definition FT_HAVE_RI :: int where "FT_HAVE_RI = 2"

definition FT_HAVE_CI :: int where "FT_HAVE_CI = 4"

definition FT_HAVE_DL :: int where "FT_HAVE_DL = 8"

definition RI_PACKET_REPEATS :: int where "RI_PACKET_REPEATS = 128"

datatype vbi_idl_format =
    VBI_IDL_FORMAT_A
  | VBI_IDL_FORMAT_B
  | VBI_IDL_FORMAT_DATAVIDEO
  | VBI_IDL_FORMAT_AUDETEL
  | VBI_IDL_FORMAT_LBRA

record vbi_idl_demux =
  idl_format :: vbi_idl_format
  idl_channel :: int
  idl_address :: int
  idl_ci :: int
  idl_ri :: int
  idl_flags :: u32

type_synonym 'u idl_cb = "u8 list \<Rightarrow> u32 \<Rightarrow> 'u \<Rightarrow> bool \<times> 'u"

definition vbi_idl_demux_reset :: "vbi_idl_demux \<Rightarrow> vbi_idl_demux" where
  "vbi_idl_demux_reset dx = dx \<lparr> idl_ci := - 1, idl_ri := - 1 \<rparr>"

text \<open>\<^verbatim>\<open>_vbi_idl_demux_init\<close>; \<open>garbage\<close> is what the allocated memory held before.\<close>

definition vbi_idl_demux_init :: "vbi_idl_demux \<Rightarrow> vbi_idl_format \<Rightarrow> u32 \<Rightarrow> u32 \<Rightarrow> vbi_idl_demux option" where
  "vbi_idl_demux_init garbage format channel address =
     (if channel \<ge> 2 ^ 4 then None
      else if format = VBI_IDL_FORMAT_A \<and> address \<ge> 2 ^ 24 then None
      else Some (vbi_idl_demux_reset
             (garbage \<lparr> idl_format := format, idl_channel := sint channel, idl_address := sint address \<rparr>)))"

definition vbi_idl_a_demux_new :: "vbi_idl_demux \<Rightarrow> u32 \<Rightarrow> u32 \<Rightarrow> vbi_idl_demux option" where
  "vbi_idl_a_demux_new garbage channel address = vbi_idl_demux_init garbage VBI_IDL_FORMAT_A channel address"

section \<open>Format A\<close>

text \<open>
  The loop that copies \<open>dl\<close> bytes. \<open>hist\<close> is the byte histogram; only the counts of 0x00 and
  0xFF are initialised by the source, the others keep what was on the stack (\<open>hist0\<close>).
\<close>

primrec idl_copy :: "(u8 \<Rightarrow> u8) \<Rightarrow> u8 list \<Rightarrow> u8 list" where
  "idl_copy hist [] = []"
| "idl_copy hist (t # ts) =
     (let hist = hist (t := hist t + 1)
      in if (hist 0x00 OR hist 0xFF) AND 8 \<noteq> 0
         then idl_copy (hist (0x00 := 0, 0xFF := 0)) ts
         else t # idl_copy hist ts)"

text \<open>The service packet address; the sign of a faulty byte survives in the result.\<close>

definition idl_spa :: "u8 list \<Rightarrow> nat \<Rightarrow> int" where
  "idl_spa buffer spa_length =
     fold (\<lambda>i spa. spa OR push_bit (4 * i) (vbi_unham8 (ucast (buffer ! (4 + i))))) [0..<spa_length] 0"

text \<open>The repeat indicator, continuity indicator and CRC remainder, and the bytes read.\<close>

definition idl_a_check :: "u8 list \<Rightarrow> int \<Rightarrow> nat \<Rightarrow> int \<times> u32 \<times> u32 \<times> nat" where
  "idl_a_check buffer ft i =
     (let (ri, i) = (if ft AND FT_HAVE_RI \<noteq> 0 then (uint (buffer ! (4 + i)), i + 1) else (0, i));
          crc = fold (\<lambda>b crc. idl_a_crc_step crc b) (drop (4 + i) (take 42 buffer)) 0
      in if ft AND FT_HAVE_CI \<noteq> 0 then (ri, ucast (buffer ! (4 + i)), crc, i + 1)
         else let c = crc AND 0xFF in (ri, c, crc XOR (c OR push_bit 8 c), i))"

text \<open>
  Repeat and continuity check of an intact packet: whether a repeat packet is discarded,
  and the new state.
\<close>

definition idl_a_sequence :: "vbi_idl_demux \<Rightarrow> int \<Rightarrow> u32 \<Rightarrow> bool \<times> vbi_idl_demux" where
  "idl_a_sequence dx ri c =
     (let lost = idl_ri dx \<ge> 0 \<and> (ri XOR idl_ri dx) AND 0xF \<noteq> 0;
          dx = (if lost then dx \<lparr> idl_ci := - 1, idl_ri := - 1, idl_flags := idl_flags dx OR VBI_IDL_DATA_LOST \<rparr>
                else dx)
      in if ri AND 0xF \<noteq> 0 \<and> (lost \<or> idl_ri dx < 0) then (True, dx)
         else let dx = (if idl_ci dx \<ge> 0 \<and> (uint c XOR idl_ci dx) AND 0xFF \<noteq> 0
                        then dx \<lparr> idl_flags := idl_flags dx OR VBI_IDL_DATA_LOST \<rparr> else dx)
              in (False, dx \<lparr> idl_ci := uint c + 1 \<rparr>))"

text \<open>The user data; a read outside the packet is undefined.\<close>

definition idl_a_data :: "(u8 \<Rightarrow> u8) \<Rightarrow> u8 list \<Rightarrow> int \<Rightarrow> u32 \<Rightarrow> nat \<Rightarrow> u8 list c_result" where
  "idl_a_data hist0 buffer ft c i =
     (let hist = hist0 (0x00 := 0, 0xFF := 0);
          hist = hist (ucast c := 1);
          (dl, i) = (if ft AND FT_HAVE_DL \<noteq> 0
                     then (min (unat (buffer ! (4 + i) AND 0x3F)) (36 - (i + 1)), i + 1)
                     else (36 - i, i))
      in if length buffer < 4 + i + dl then Undef
         else Ret (idl_copy hist (take dl (drop (4 + i) buffer))))"

definition idl_a_demux_feed ::
  "(u8 \<Rightarrow> u8) \<Rightarrow> 'u idl_cb \<Rightarrow> vbi_idl_demux \<times> 'u \<Rightarrow> u8 list \<Rightarrow> int \<Rightarrow> (bool \<times> vbi_idl_demux \<times> 'u) c_result" where
  "idl_a_demux_feed hist0 callback = (\<lambda>(dx, u) buffer ft.
     let ial = vbi_unham8 (ucast (buffer ! 3)) in
     if ial < 0 then Ret (False, dx, u)
     else let spa_length = nat (ial AND 7) in
     if spa_length = 7 then Ret (True, dx, u)
     else let spa = idl_spa buffer spa_length in
     if spa < 0 then Ret (False, dx, u)
     else if spa \<noteq> idl_address dx then Ret (True, dx, u)
     else case idl_a_check buffer ft spa_length of (ri, c, crc, i) \<Rightarrow>
     if crc \<noteq> 0
     then if ri AND RI_PACKET_REPEATS = 0
          then Ret (False, dx \<lparr> idl_ci := - 1, idl_ri := - 1, idl_flags := idl_flags dx OR VBI_IDL_DATA_LOST \<rparr>, u)
          else Ret (False, dx \<lparr> idl_ri := ri + 1 \<rparr>, u)
     else case idl_a_sequence dx ri c of (discard, dx) \<Rightarrow>
     if discard then Ret (True, dx, u)
     else c_bind (idl_a_data hist0 buffer ft c i) (\<lambda>buf.
          let dx = dx \<lparr> idl_flags := idl_flags dx AND NOT VBI_IDL_DATA_LOST \<rparr>
          in case callback buf (idl_flags dx) u of (ok, u) \<Rightarrow> Ret (ok, dx, u)))"

section \<open>The other formats\<close>

definition idl_b_demux_feed :: "vbi_idl_demux \<times> 'u \<Rightarrow> u8 list \<Rightarrow> int \<Rightarrow> (bool \<times> vbi_idl_demux \<times> 'u) c_result" where
  "idl_b_demux_feed s buffer ft = Ret (False, s)"

definition datavideo_demux_feed :: "vbi_idl_demux \<times> 'u \<Rightarrow> u8 list \<Rightarrow> (bool \<times> vbi_idl_demux \<times> 'u) c_result" where
  "datavideo_demux_feed s buffer = Ret (False, s)"

definition audetel_demux_feed :: "vbi_idl_demux \<times> 'u \<Rightarrow> u8 list \<Rightarrow> (bool \<times> vbi_idl_demux \<times> 'u) c_result" where
  "audetel_demux_feed s buffer = Ret (False, s)"

definition lbra_demux_feed :: "vbi_idl_demux \<times> 'u \<Rightarrow> u8 list \<Rightarrow> (bool \<times> vbi_idl_demux \<times> 'u) c_result" where
  "lbra_demux_feed s buffer = Ret (False, s)"

section \<open>The packet filter\<close>

definition vbi_idl_demux_feed ::
  "(u8 \<Rightarrow> u8) \<Rightarrow> 'u idl_cb \<Rightarrow> vbi_idl_demux \<times> 'u \<Rightarrow> u8 list \<Rightarrow> (bool \<times> vbi_idl_demux \<times> 'u) c_result" where
  "vbi_idl_demux_feed hist0 callback = (\<lambda>(dx, u) buffer.
     let channel = vbi_unham8 (ucast (buffer ! 0));
         designation = vbi_unham8 (ucast (buffer ! 1)) in
     if channel OR designation < 0 then Ret (False, dx, u)
     else if 15 \<noteq> designation \<or> channel \<noteq> idl_channel dx then Ret (True, dx, u)
     else let ft = vbi_unham8 (ucast (buffer ! 2)) in
     case idl_format dx of
       VBI_IDL_FORMAT_A \<Rightarrow>
         if ft < 0 then Ret (False, dx, u)
         else if ft AND 1 = 0 then idl_a_demux_feed hist0 callback (dx, u) buffer ft
         else Ret (True, dx, u)
     | VBI_IDL_FORMAT_B \<Rightarrow>
         if ft < 0 then Ret (False, dx, u)
         else if ft AND 3 = 1 then idl_b_demux_feed (dx, u) buffer ft
         else Ret (True, dx, u)
     | VBI_IDL_FORMAT_DATAVIDEO \<Rightarrow> datavideo_demux_feed (dx, u) buffer
     | VBI_IDL_FORMAT_AUDETEL \<Rightarrow> audetel_demux_feed (dx, u) buffer
     | VBI_IDL_FORMAT_LBRA \<Rightarrow> lbra_demux_feed (dx, u) buffer)"

definition idl_wanted :: "vbi_sliced \<Rightarrow> bool" where
  "idl_wanted l \<longleftrightarrow> sl_id l AND VBI_SLICED_TELETEXT_B_625 \<noteq> 0"

definition vbi_idl_demux_feed_frame ::
  "(u8 \<Rightarrow> u8) \<Rightarrow> 'u idl_cb \<Rightarrow> vbi_idl_demux \<times> 'u \<Rightarrow> vbi_sliced list \<Rightarrow> (bool \<times> vbi_idl_demux \<times> 'u) c_result" where
  "vbi_idl_demux_feed_frame hist0 callback = feed_lines idl_wanted (vbi_idl_demux_feed hist0 callback)"

section \<open>Safety\<close>

lemma length_idl_copy: "length (idl_copy hist ts) \<le> length ts"
  by (induction ts arbitrary: hist) (auto simp: Let_def intro: le_SucI)

text \<open>What the callback may rely on, and a user state property that it keeps.\<close>

definition idl_data_ok :: "u8 list \<Rightarrow> u32 \<Rightarrow> bool" where
  "idl_data_ok buf fl \<longleftrightarrow> length buf \<le> 36 \<and> fl AND VBI_IDL_DATA_LOST = 0"

definition idl_cb_keeps :: "'u idl_cb \<Rightarrow> ('u \<Rightarrow> bool) \<Rightarrow> bool" where
  "idl_cb_keeps callback I \<longleftrightarrow> (\<forall>buf fl u. idl_data_ok buf fl \<longrightarrow> I u \<longrightarrow> I (snd (callback buf fl u)))"

lemma idl_callback_keeps:
  assumes "idl_cb_keeps callback I" "I u" "length ts \<le> 36"
  shows "I (snd (callback (idl_copy hist ts) (fl AND NOT VBI_IDL_DATA_LOST) u))"
proof -
  have "fl AND NOT VBI_IDL_DATA_LOST AND VBI_IDL_DATA_LOST = 0"
    by (rule bit_word_eqI) (auto simp: bit_simps)
  then have "idl_data_ok (idl_copy hist ts) (fl AND NOT VBI_IDL_DATA_LOST)"
    using length_idl_copy [of hist ts] assms(3) by (simp add: idl_data_ok_def and.assoc)
  then show ?thesis using assms(1,2) by (simp add: idl_cb_keeps_def)
qed

lemma spa_length_le: "nat (n AND 7) \<le> 7" for n :: int
proof -
  have "n AND 7 \<le> 7" by (rule AND_upper2) simp
  then show ?thesis by linarith
qed

lemma check_index: "idl_a_check buffer ft i = (ri, c, crc, i') \<Longrightarrow> i' \<le> i + 2"
  by (auto simp: idl_a_check_def Let_def split: if_splits prod.splits)

lemma data_defined:
  assumes "i \<le> 9" "42 \<le> length buffer"
  shows "\<exists>ts hist. idl_a_data hist0 buffer ft c i = Ret (idl_copy hist ts) \<and> length ts \<le> 36"
proof -
  define dl where "dl = min (unat (buffer ! (4 + i) AND 0x3F)) (36 - (i + 1))"
  have dl: "4 + (i + 1) + dl \<le> 42" unfolding dl_def using assms(1) by linarith
  have 1: "length (take dl (drop (4 + (i + 1)) buffer)) \<le> 36" using assms(1) by (simp add: dl_def)
  have 2: "length (take (36 - i) (drop (4 + i) buffer)) \<le> 36" "4 + i + (36 - i) \<le> 42" using assms(1) by simp_all
  show ?thesis
  proof (cases "ft AND FT_HAVE_DL \<noteq> 0")
    case True
    then have "idl_a_data hist0 buffer ft c i = Ret (idl_copy ((hist0 (0x00 := 0, 0xFF := 0)) (ucast c := 1))
        (take dl (drop (4 + (i + 1)) buffer)))"
      using dl assms(2) unfolding idl_a_data_def Let_def dl_def by simp
    then show ?thesis using 1 by blast
  next
    case False
    then have "idl_a_data hist0 buffer ft c i = Ret (idl_copy ((hist0 (0x00 := 0, 0xFF := 0)) (ucast c := 1))
        (take (36 - i) (drop (4 + i) buffer)))"
      using 2(2) assms(2) unfolding idl_a_data_def Let_def by simp
    then show ?thesis using 2(1) by blast
  qed
qed

lemma idl_a_feed_keeps:
  assumes cb: "idl_cb_keeps callback I" and I: "I (snd s)" and len: "42 \<le> length buffer"
  shows "keeps (\<lambda>s. I (snd s)) (idl_a_demux_feed hist0 callback s buffer ft)"
proof -
  obtain dx u where s: "s = (dx, u)" by (cases s)
  define n where "n = nat (vbi_unham8 (ucast (buffer ! 3)) AND 7)"
  obtain ri c crc i where ck: "idl_a_check buffer ft n = (ri, c, crc, i)" by (metis prod_cases4)
  have "i \<le> 9" using check_index [OF ck] spa_length_le [of "vbi_unham8 (ucast (buffer ! 3))"]
    unfolding n_def by linarith
  then obtain ts hist where d: "idl_a_data hist0 buffer ft c i = Ret (idl_copy hist ts)" "length ts \<le> 36"
    using data_defined len by blast
  obtain discard dx' where sq: "idl_a_sequence dx ri c = (discard, dx')" by (cases "idl_a_sequence dx ri c")
  let ?fl = "idl_flags dx' AND NOT VBI_IDL_DATA_LOST"
  obtain ok u' where cbr: "callback (idl_copy hist ts) ?fl u = (ok, u')" by (cases "callback (idl_copy hist ts) ?fl u")
  have "I u'" using idl_callback_keeps [OF cb _ d(2), of u hist "idl_flags dx'"] I cbr by (simp add: s)
  then show ?thesis
    using I unfolding s idl_a_demux_feed_def Let_def prod.case n_def [symmetric] ck sq d(1)
    by (simp add: cbr)
qed

lemma idl_feed_keeps:
  assumes cb: "idl_cb_keeps callback I" and I: "I (snd s)" and len: "length buffer = 56"
  shows "keeps (\<lambda>s. I (snd s)) (vbi_idl_demux_feed hist0 callback s buffer)"
proof -
  obtain dx u where s: "s = (dx, u)" by (cases s)
  note a = idl_a_feed_keeps [OF cb I, of buffer hist0 "vbi_unham8 (ucast (buffer ! 2))"]
  show ?thesis
    using a I len unfolding s vbi_idl_demux_feed_def Let_def prod.case
    by (auto simp: idl_b_demux_feed_def datavideo_demux_feed_def audetel_demux_feed_def
        lbra_demux_feed_def split: vbi_idl_format.split)
qed

text \<open>The callback as a recorder of the data and flags of each call.\<close>

definition record_data :: "u8 list \<Rightarrow> u32 \<Rightarrow> (u8 list \<times> u32) list \<Rightarrow> bool \<times> (u8 list \<times> u32) list" where
  "record_data buf fl calls = (True, calls @ [(buf, fl)])"

abbreviation all_data_ok :: "(u8 list \<times> u32) list \<Rightarrow> bool" where
  "all_data_ok \<equiv> list_all (\<lambda>(buf, fl). idl_data_ok buf fl)"

interpretation idl: line_demux idl_wanted "vbi_idl_demux_feed hist0 record_data"
    "\<lambda>s. all_data_ok (snd s)" for hist0
proof
  fix s :: "vbi_idl_demux \<times> (u8 list \<times> u32) list" and d :: "u8 list"
  assume "all_data_ok (snd s)" "length d = 56"
  moreover have "idl_cb_keeps record_data all_data_ok"
    by (simp add: idl_cb_keeps_def record_data_def)
  ultimately show "keeps (\<lambda>s. all_data_ok (snd s)) (vbi_idl_demux_feed hist0 record_data s d)"
    by (intro idl_feed_keeps)
qed

text \<open>C19. Any frame of sliced lines can be fed in any state without a read outside a line, the
  callback never gets more than 36 bytes, and no call ever has the flag DATA_LOST set: the
  flag is cleared before the callback sees it, so lost data is never reported.\<close>

theorem idl_safe:
  assumes "list_all sliced_ok lines"
  shows "\<exists>ok dx' calls. vbi_idl_demux_feed_frame hist0 record_data (dx, []) lines = Ret (ok, dx', calls)
    \<and> list_all (\<lambda>(buf, fl). length buf \<le> 36 \<and> fl AND VBI_IDL_DATA_LOST = 0) calls"
proof -
  have "keeps (\<lambda>s. all_data_ok (snd s)) (feed_lines idl_wanted (vbi_idl_demux_feed hist0 record_data) (dx, []) lines)"
    by (rule idl.frame_keeps [OF _ assms]) simp
  then show ?thesis
    by (elim keepsE) (auto simp: vbi_idl_demux_feed_frame_def idl_data_ok_def)
qed

theorem idl_safe_witness:
  "\<exists>ok dx' calls. vbi_idl_demux_feed_frame (\<lambda>_. 0) record_data
      (\<lparr> idl_format = VBI_IDL_FORMAT_A, idl_channel = 8, idl_address = 0, idl_ci = 5, idl_ri = - 1, idl_flags = 1 \<rparr>, [])
      [\<lparr> sl_id = 3, sl_line = 7, sl_data = replicate 56 0x15 \<rparr>] = Ret (ok, dx', calls)
    \<and> list_all (\<lambda>(buf, fl). length buf \<le> 36 \<and> fl AND VBI_IDL_DATA_LOST = 0) calls"
  by (rule idl_safe) (simp add: sliced_ok_def)

section \<open>The CRC\<close>

lemma crc16_round_if:
  "crc16_round poly (crc, val) =
     (drop_bit 1 crc XOR (if bit crc 0 \<noteq> bit val 0 then poly else 0), drop_bit 1 val)"
proof -
  have "(1 AND NOT (val XOR crc)) - 1 = (if bit crc 0 \<noteq> bit val 0 then - 1 else (0 :: u32))"
  proof -
    have "1 AND NOT (val XOR crc) = of_bool (bit crc 0 = bit val 0)"
      by (rule bit_word_eqI) (auto simp: bit_simps bit_1_iff)
    then show ?thesis by simp
  qed
  then show ?thesis by (simp add: crc16_round_def)
qed

definition xor_pair :: "u32 \<times> u32 \<Rightarrow> u32 \<times> u32 \<Rightarrow> u32 \<times> u32" where
  "xor_pair x y = (fst x XOR fst y, snd x XOR snd y)"

lemma crc16_round_xor: "crc16_round poly (xor_pair x y) = xor_pair (crc16_round poly x) (crc16_round poly y)"
  by (cases x; cases y) (auto simp: xor_pair_def crc16_round_if bit_xor_iff xor.assoc xor.left_commute)

lemma crc16_rounds_xor:
  "(crc16_round poly ^^ n) (xor_pair x y) = xor_pair ((crc16_round poly ^^ n) x) ((crc16_round poly ^^ n) y)"
  by (induction n) (simp_all add: crc16_round_xor)

text \<open>Eight rounds on a register and a byte: the bit-serial CRC.\<close>

definition crc16_serial :: "u32 \<Rightarrow> u8 \<Rightarrow> u32" where
  "crc16_serial crc b = fst ((crc16_round 0x8940 ^^ 8) (crc, ucast b))"

lemma crc16_serial_xor: "crc16_serial (c XOR d) (a XOR b) = crc16_serial c a XOR crc16_serial d b"
  using crc16_rounds_xor [of 8 "0x8940" "(c, ucast a)" "(d, ucast b)"]
  by (simp add: crc16_serial_def xor_pair_def unsigned_xor_eq)

text \<open>A value moved from the second argument to the register is shifted out of it.\<close>

lemma crc16_rounds_move:
  "(crc16_round poly ^^ n) (c XOR x, v) =
     xor_pair ((crc16_round poly ^^ n) (c, v XOR x)) (drop_bit n x, drop_bit n x)"
proof (induction n)
  case 0
  show ?case by (simp add: xor_pair_def xor.assoc)
next
  case (Suc n)
  obtain c' v' where r: "(crc16_round poly ^^ n) (c, v XOR x) = (c', v')"
    by (cases "(crc16_round poly ^^ n) (c, v XOR x)")
  have "drop_bit 1 (drop_bit n x) = drop_bit (Suc n) x" by simp
  then show ?case
    using Suc r by (auto simp: xor_pair_def crc16_round_if bit_xor_iff ac_simps)
qed

lemma crc16_rounds_low:
  "(\<And>k. k < n \<Longrightarrow> bit v k \<longleftrightarrow> bit w k) \<Longrightarrow>
   fst ((crc16_round poly ^^ n) (c, v)) = fst ((crc16_round poly ^^ n) (c, w))"
proof (induction n arbitrary: c v w)
  case (Suc n)
  have 0: "bit v 0 \<longleftrightarrow> bit w 0" using Suc.prems by blast
  have "fst ((crc16_round poly ^^ n) (d, drop_bit 1 v)) = fst ((crc16_round poly ^^ n) (d, drop_bit 1 w))" for d
    by (rule Suc.IH) (use Suc.prems [of "Suc _"] in \<open>simp add: bit_simps\<close>)
  then show ?case using 0 by (simp add: funpow_Suc_right crc16_round_if del: funpow.simps)
qed simp

lemma crc16_serial_register: "crc16_serial c 0 = drop_bit 8 c XOR crc16_serial 0 (ucast c)"
proof -
  have "fst ((crc16_round 0x8940 ^^ 8) (0, c)) = crc16_serial 0 (ucast c)"
    unfolding crc16_serial_def by (rule crc16_rounds_low) (auto simp: bit_simps)
  then show ?thesis
    using crc16_rounds_move [of 8 "0x8940" 0 c 0]
    by (simp add: crc16_serial_def xor_pair_def xor.commute)
qed

text \<open>Registers stay within 16 bits.\<close>

definition reg16 :: "u32 \<Rightarrow> bool" where
  "reg16 c \<longleftrightarrow> (\<forall>n \<ge> 16. \<not> bit c n)"

lemma reg16_simps: "reg16 0" "reg16 c \<Longrightarrow> reg16 d \<Longrightarrow> reg16 (c XOR d)" "reg16 (ucast (b :: u8))"
  by (auto simp: reg16_def bit_simps dest: bit_imp_le_length)

lemma bit_poly: "16 \<le> n \<Longrightarrow> \<not> bit (0x8940 :: u32) n"
  using not_bit_small [of "0x8940 :: u32" 16 n] by simp

lemma reg16_round: "reg16 c \<Longrightarrow> reg16 (fst (crc16_round 0x8940 (c, v)))"
  unfolding reg16_def
proof (intro allI impI)
  fix n :: nat assume "\<forall>n \<ge> 16. \<not> bit c n" "16 \<le> n"
  then have "\<not> bit (drop_bit 1 c) n" "\<not> bit (0x8940 :: u32) n"
    by (simp add: bit_drop_bit_eq) (rule bit_poly, fact)
  then show "\<not> bit (fst (crc16_round 0x8940 (c, v))) n"
    by (cases "bit c 0 \<noteq> bit v 0") (simp_all only: crc16_round_if fst_conv if_True if_False bit_xor_iff bit_0_eq, simp_all)
qed

lemma reg16_rounds: "reg16 c \<Longrightarrow> reg16 (fst ((crc16_round 0x8940 ^^ n) (c, v)))"
proof (induction n)
  case (Suc n)
  obtain d w where "(crc16_round 0x8940 ^^ n) (c, v) = (d, w)" by (cases "(crc16_round 0x8940 ^^ n) (c, v)")
  then show ?case using Suc reg16_round [of d w] by simp
qed simp

lemma reg16_serial: "reg16 c \<Longrightarrow> reg16 (crc16_serial c b)"
  by (simp only: crc16_serial_def reg16_rounds)

lemma crc16_serial_16: "ucast (ucast (crc16_serial 0 b) :: u16) = crc16_serial 0 b"
  using reg16_serial [OF reg16_simps(1), of b]
  by (intro bit_word_eqI) (auto simp: reg16_def bit_simps not_le [symmetric])

lemma crc_step_serial: "idl_a_crc_step crc b = crc16_serial crc b"
proof -
  let ?x = "ucast crc XOR b :: u8"
  have x: "(crc AND 0xFF) XOR ucast b = ucast ?x"
  proof -
    have m: "(0xFF :: u32) = mask 8" by (simp add: mask_eq_exp_minus_1)
    show ?thesis unfolding m by (intro bit_word_eqI) (auto simp: bit_simps dest: bit_imp_le_length)
  qed
  have "idl_a_crc_table ! unat ?x = init_crc16_entry 0x8940 (of_nat (unat ?x))"
    by (simp add: idl_a_crc_table_def init_crc16_table_def)
  also have "\<dots> = ucast (crc16_serial 0 ?x)"
    by (simp add: init_crc16_entry_def crc16_serial_def del: funpow.simps)
  finally have "idl_a_crc_step crc b = drop_bit 8 crc XOR crc16_serial 0 ?x"
    unfolding idl_a_crc_step_def x unat_ucast_u8_u32 by (simp add: crc16_serial_16)
  also have "\<dots> = drop_bit 8 crc XOR (crc16_serial 0 (ucast crc) XOR crc16_serial 0 b)"
    using crc16_serial_xor [of 0 0 "ucast crc" b] by simp
  also have "\<dots> = crc16_serial crc 0 XOR crc16_serial 0 b"
    by (simp only: crc16_serial_register [of crc] xor.assoc)
  also have "\<dots> = crc16_serial crc b"
    using crc16_serial_xor [of crc 0 0 b] by simp
  finally show ?thesis .
qed

text \<open>The rounds are injective on 16 bit registers.\<close>

lemma crc16_round_0:
  assumes "fst (crc16_round 0x8940 (c, 0)) = 0" and "reg16 c"
  shows "c = 0"
proof (cases "bit c 0")
  case True
  then have "drop_bit 1 c = 0x8940" using assms(1) by (simp add: crc16_round_if)
  then have "bit (drop_bit 1 c) 15" by simp
  then have "bit c 16" by (simp add: bit_drop_bit_eq)
  then show ?thesis using assms(2) by (simp add: reg16_def)
next
  case False
  then have z: "drop_bit 1 c = 0" using assms(1) by (simp add: crc16_round_if)
  have "\<not> bit c n" for n
  proof (cases n)
    case (Suc m)
    have "\<not> bit (drop_bit 1 c) m" using z by simp
    then show ?thesis using Suc by (simp add: bit_drop_bit_eq)
  qed (use False in simp)
  then show ?thesis by (intro bit_word_eqI) simp
qed

lemma crc16_rounds_0:
  "fst ((crc16_round 0x8940 ^^ n) (c, 0)) = 0 \<Longrightarrow> reg16 c \<Longrightarrow> c = 0"
proof (induction n arbitrary: c)
  case (Suc n)
  obtain d where d: "crc16_round 0x8940 (c, 0) = (d, 0)" by (simp add: crc16_round_if)
  then have "fst ((crc16_round 0x8940 ^^ n) (d, 0)) = 0" using Suc.prems(1) by (simp add: funpow_swap1)
  moreover have "reg16 d" using reg16_round [OF Suc.prems(2), of 0] d by simp
  ultimately have "d = 0" using Suc.IH by simp
  then show ?case using crc16_round_0 [of c] d Suc.prems(2) by simp
qed simp

text \<open>A byte enters the register before the rounds as well.\<close>

lemma crc16_serial_byte: "crc16_serial c b = crc16_serial (c XOR ucast b) 0"
proof -
  have "crc16_serial (ucast b) 0 = crc16_serial 0 b"
  proof -
    have "drop_bit 8 (ucast b :: u32) = 0" by (rule bit_word_eqI) (auto simp: bit_simps dest: bit_imp_le_length)
    then show ?thesis using crc16_serial_register [of "ucast b"] by simp
  qed
  then show ?thesis
    using crc16_serial_xor [of c 0 0 b] crc16_serial_xor [of c "ucast b" 0 0] by simp
qed

lemma crc16_serial_inj:
  assumes "crc16_serial c b = crc16_serial d b" "reg16 c" "reg16 d"
  shows "c = d"
proof -
  have "crc16_serial (c XOR d) 0 = 0" using assms(1) crc16_serial_xor [of c d b b] by simp
  then have "c XOR d = 0"
    using crc16_rounds_0 [of 8 "c XOR d"] reg16_simps(2) [OF assms(2,3)] by (simp add: crc16_serial_def)
  then show ?thesis by simp
qed

lemma crc16_serial_byte_inj:
  assumes "crc16_serial c a = crc16_serial c b" "reg16 c"
  shows "a = b"
proof -
  have "crc16_serial (c XOR ucast a) 0 = crc16_serial (c XOR ucast b) 0"
    using assms(1) crc16_serial_byte by simp
  then have "c XOR ucast a = c XOR ucast b"
    by (rule crc16_serial_inj) (simp_all add: reg16_simps assms(2))
  from arg_cong [OF this, of "\<lambda>x. c XOR x"] have "ucast a = (ucast b :: u32)"
    by (simp flip: xor.assoc)
  then have "unat (ucast a :: u32) = unat (ucast b :: u32)" by simp
  then show ?thesis by (simp only: unat_ucast_u8_u32) (rule unsigned_word_eqI)
qed

abbreviation idl_a_crc :: "u8 list \<Rightarrow> u32 \<Rightarrow> u32" where
  "idl_a_crc bs crc \<equiv> fold (\<lambda>b crc. idl_a_crc_step crc b) bs crc"

lemma crc_fold_inj: "idl_a_crc bs c = idl_a_crc bs d \<Longrightarrow> reg16 c \<Longrightarrow> reg16 d \<Longrightarrow> c = d"
proof (induction bs arbitrary: c d)
  case (Cons b bs)
  then have "idl_a_crc_step c b = idl_a_crc_step d b"
    by (intro Cons.IH [of "idl_a_crc_step c b" "idl_a_crc_step d b"])
      (simp_all add: crc_step_serial reg16_serial)
  then show ?case using Cons.prems crc16_serial_inj by (simp add: crc_step_serial)
qed simp

lemma reg16_fold: "reg16 c \<Longrightarrow> reg16 (idl_a_crc bs c)"
  by (induction bs arbitrary: c) (simp_all add: crc_step_serial reg16_serial)

lemma crc_one_byte:
  assumes "idl_a_crc (pre @ a # post) c = idl_a_crc (pre @ b # post) c" "reg16 c"
  shows "a = b"
proof -
  let ?c = "idl_a_crc pre c"
  have "idl_a_crc_step ?c a = idl_a_crc_step ?c b"
    using assms reg16_fold [OF assms(2), of pre]
    by (intro crc_fold_inj [of post "idl_a_crc_step ?c a" "idl_a_crc_step ?c b"])
      (simp_all add: crc_step_serial reg16_serial)
  then show ?thesis using crc16_serial_byte_inj reg16_fold [OF assms(2)] by (simp add: crc_step_serial)
qed

text \<open>C20. The table-driven CRC of the IDL format A decoder is the bit-serial CRC with the
  polynomial \<open>x^16 + x^9 + x^7 + x^4 + 1\<close>, least significant bit first: every step over a byte,
  from any register value, is eight rounds of the shift register.\<close>

theorem idl_crc_is_bit_serial:
  "idl_a_crc bs crc = fold (\<lambda>b crc. fst ((crc16_round 0x8940 ^^ 8) (crc, ucast b))) bs crc"
  by (simp only: crc_step_serial crc16_serial_def)

lemma fold_crc_update:
  assumes "k < length bs" "b \<noteq> bs ! k" "idl_a_crc bs 0 = 0"
  shows "idl_a_crc (bs [k := b]) 0 \<noteq> 0"
proof
  assume "idl_a_crc (bs [k := b]) 0 = 0"
  moreover have "bs [k := b] = take k bs @ b # drop (Suc k) bs" using assms(1) by (rule upd_conv_take_nth_drop)
  moreover have "bs = take k bs @ bs ! k # drop (Suc k) bs" using assms(1) by (rule id_take_nth_drop)
  ultimately have "idl_a_crc (take k bs @ b # drop (Suc k) bs) 0 = idl_a_crc (take k bs @ bs ! k # drop (Suc k) bs) 0"
    using assms(3) by simp
  then show False using crc_one_byte reg16_simps(1) assms(2) by blast
qed

definition idl_crc_start :: "int \<Rightarrow> u8 list \<Rightarrow> nat" where
  "idl_crc_start ft buffer = 4 + nat (vbi_unham8 (ucast (buffer ! 3)) AND 7) + (if ft AND FT_HAVE_RI \<noteq> 0 then 1 else 0)"

lemma check_crc:
  assumes "ft AND FT_HAVE_CI \<noteq> 0"
  shows "fst (snd (snd (idl_a_check buffer ft n))) =
    idl_a_crc (drop (4 + n + (if ft AND FT_HAVE_RI \<noteq> 0 then 1 else 0)) (take 42 buffer)) 0"
  using assms by (simp add: idl_a_check_def)

lemma spa_update: "4 + n \<le> k \<Longrightarrow> idl_spa (buffer [k := b]) n = idl_spa buffer n"
  unfolding idl_spa_def by (rule fold_cong) auto

lemma crc_failure:
  assumes "fst (snd (snd (idl_a_check buffer ft (nat (vbi_unham8 (ucast (buffer ! 3)) AND 7))))) \<noteq> 0"
  shows "keeps (\<lambda>s. snd s = u) (idl_a_demux_feed hist0 callback (dx, u) buffer ft)"
proof -
  let ?n = "nat (vbi_unham8 (ucast (buffer ! 3)) AND 7)"
  obtain ri c crc i where ck: "idl_a_check buffer ft ?n = (ri, c, crc, i)" by (metis prod_cases4)
  have "crc \<noteq> 0" using assms ck by simp
  then show ?thesis
    unfolding idl_a_demux_feed_def Let_def prod.case ck by simp
qed

text \<open>A packet with a continuity indicator whose CRC is correct is never delivered after one of
  its protected bytes has been changed in any way: the callback is not called.\<close>

theorem idl_byte_error_detected:
  assumes "length buffer = 42" and "ft AND FT_HAVE_CI \<noteq> 0"
    and "idl_a_crc (drop (idl_crc_start ft buffer) buffer) 0 = 0"
    and "idl_crc_start ft buffer \<le> k" and "k < 42" and "b \<noteq> buffer ! k"
  shows "\<exists>ok dx'. idl_a_demux_feed hist0 callback (dx, u) (buffer [k := b]) ft = Ret (ok, dx', u)"
proof -
  have 3: "buffer [k := b] ! 3 = buffer ! 3" using assms(4) by (simp add: idl_crc_start_def)
  let ?n = "nat (vbi_unham8 (ucast (buffer ! 3)) AND 7)" and ?s = "idl_crc_start ft buffer"
  have "drop ?s (buffer [k := b]) = (drop ?s buffer) [k - ?s := b]"
    using assms(4) by (simp add: drop_update_swap)
  moreover have "idl_a_crc ((drop ?s buffer) [k - ?s := b]) 0 \<noteq> 0"
    by (rule fold_crc_update) (use assms in simp_all)
  ultimately have "idl_a_crc (drop ?s (take 42 (buffer [k := b]))) 0 \<noteq> 0"
    using assms(1) by simp
  then have "fst (snd (snd (idl_a_check (buffer [k := b]) ft
      (nat (vbi_unham8 (ucast (buffer [k := b] ! 3)) AND 7))))) \<noteq> 0"
    unfolding 3 check_crc [OF assms(2)] by (simp add: idl_crc_start_def)
  from crc_failure [OF this, of u hist0 callback dx] show ?thesis
    by (rule keepsE) (auto simp: prod_eq_iff)
qed

theorem idl_byte_error_detected_witness:
  "\<exists>ok dx'. idl_a_demux_feed (\<lambda>_. 0) record_data
      (\<lparr> idl_format = VBI_IDL_FORMAT_A, idl_channel = 8, idl_address = 0, idl_ci = 5, idl_ri = - 1, idl_flags = 0 \<rparr>, [])
      ((map ham8_byte [8, 15, 4, 0] @ replicate 38 0) [20 := 0xA7]) 4 = Ret (ok, dx', [])"
proof (rule idl_byte_error_detected)
  have u: "vbi_unham8 (ucast (ham8_byte 0)) = 0"
    using h8.dec_enc [of 0] by (simp add: unham8_byte_def)
  then have s: "idl_crc_start 4 (map ham8_byte [8, 15, 4, 0] @ replicate 38 0) = 4"
    by (simp add: idl_crc_start_def FT_HAVE_RI_def)
  have z: "idl_a_crc (replicate n 0) 0 = 0" for n
  proof (induction n)
    case (Suc n)
    have "crc16_serial 0 0 = 0" using crc16_serial_xor [of 0 0 0 0] by simp
    with Suc show ?case by (simp add: crc_step_serial)
  qed simp
  show "idl_a_crc (drop (idl_crc_start 4 (map ham8_byte [8, 15, 4, 0] @ replicate 38 0))
      (map ham8_byte [8, 15, 4, 0] @ replicate 38 0)) 0 = 0"
    unfolding s using z by simp
  show "idl_crc_start 4 (map ham8_byte [8, 15, 4, 0] @ replicate 38 0) \<le> 20" unfolding s by simp
qed (simp_all add: FT_HAVE_CI_def nth_append)

section \<open>Dummy bytes\<close>

lemma hist_bit:
  assumes "unat a < 8" "unat b < 8"
  shows "(a OR b) AND 8 = (0 :: u8)"
proof -
  have "\<not> bit a 3" "\<not> bit b 3"
    using not_bit_small [of a 3 3] not_bit_small [of b 3 3] assms by (simp_all add: word_less_nat_alt)
  then show ?thesis using and_exp_eq_0_iff_not_bit [of "a OR b" 3] by (simp add: bit_or_iff)
qed

lemma unat_Suc8: "unat (a :: u8) < 255 \<Longrightarrow> unat (a + 1) = Suc (unat a)"
proof -
  assume "unat a < 255"
  then have "(unat a + 1) mod 2 ^ 8 = unat a + 1" by simp
  then show ?thesis by (simp add: unat_word_ariths)
qed

lemma idl_copy_few:
  "unat (hist 0) + count_list ts 0 < 8 \<Longrightarrow> unat (hist 0xFF) + count_list ts 0xFF < 8 \<Longrightarrow>
   idl_copy hist (ts @ us) = ts @ idl_copy (\<lambda>x. hist x + of_nat (count_list ts x)) us"
proof (induction ts arbitrary: hist)
  case Nil
  then show ?case by simp
next
  case (Cons t ts)
  let ?h = "hist (t := hist t + 1)"
  have lt: "unat (?h 0) + count_list ts 0 < 8" "unat (?h 0xFF) + count_list ts 0xFF < 8"
    using Cons.prems unat_Suc8 [of "hist t"] by (auto split: if_splits)
  then have "(?h 0x00 OR ?h 0xFF) AND 8 = 0" by (intro hist_bit) simp_all
  moreover have "(\<lambda>x. ?h x + of_nat (count_list ts x)) = (\<lambda>x. hist x + of_nat (count_list (t # ts) x))"
    by auto
  ultimately show ?case using Cons.IH [OF lt] by (simp add: Let_def fun_upd_def)
qed

text \<open>Dummy byte removal: data with fewer than eight bytes 0x00 and fewer than eight bytes 0xFF is
  delivered unchanged; but the eighth byte 0x00 of a packet is dropped wherever the other
  seven are: the code counts all such bytes, not consecutive ones.\<close>

theorem idl_dummy_bytes:
  assumes "hist 0x00 = 0" and "hist 0xFF = 0" and "count_list ts 0x00 < 8" and "count_list ts 0xFF < 8"
  shows "idl_copy hist ts = ts \<and> (count_list ts 0x00 \<noteq> 7 \<or> idl_copy hist (ts @ [0x00]) = ts)"
proof -
  have "idl_copy hist (ts @ []) = ts" using idl_copy_few [of hist ts "[]"] assms by simp
  moreover have "idl_copy hist (ts @ [0]) = ts" if "count_list ts 0 = 7"
  proof -
    have "unat (of_nat (count_list ts 0xFF) :: u8) < 8"
      using assms(4) by (simp add: unsigned_of_nat take_bit_nat_eq_self)
    then have "\<not> bit (of_nat (count_list ts 0xFF) :: u8) 3"
      using not_bit_small [of "of_nat (count_list ts 0xFF) :: u8" 3 3] by (simp add: word_less_nat_alt)
    then have "(8 OR of_nat (count_list ts 0xFF)) AND (8 :: u8) \<noteq> 0"
      using and_exp_eq_0_iff_not_bit [of "8 OR of_nat (count_list ts 0xFF) :: u8" 3] by (simp add: bit_or_iff)
    then show ?thesis using idl_copy_few [of hist ts "[0]"] assms that by (simp add: Let_def)
  qed
  ultimately show ?thesis by auto
qed

theorem idl_dummy_bytes_witness:
  "idl_copy (\<lambda>_. 0) ([0, 1, 0, 2, 0, 3, 0, 4, 0, 5, 0, 6, 0, 7] @ [0]) = [0, 1, 0, 2, 0, 3, 0, 4, 0, 5, 0, 6, 0, 7]"
  using idl_dummy_bytes [of "\<lambda>_. 0" "[0, 1, 0, 2, 0, 3, 0, 4, 0, 5, 0, 6, 0, 7]"] by simp

end
