(* ===== verification/Xds_Demux.thy ===== *)
theory Xds_Demux
  imports Hamm Sliced
begin

text \<open>
  The Extended Data Service demultiplexer, \<^verbatim>\<open>vbi/src/xds_demux.c\<close> (EIA 608): packets of
  seven classes interleaved in a stream of byte pairs are collected in one buffer per class
  and subclass and handed to a callback when their checksum is right.
  The buffers form the array \<^verbatim>\<open>subpacket[7][24]\<close>; as the source may index one element past
  a row, the model addresses the array by \<open>24 * row + column\<close>, the memory layout of C.
  The current buffer is an index instead of a pointer. A write past \<^verbatim>\<open>buffer[32]\<close> of
  a buffer is undefined.
\<close>

section \<open>State\<close>

definition VBI_XDS_CLASS_MISC :: nat where "VBI_XDS_CLASS_MISC = 3"

definition VBI_XDS_MAX_CLASSES :: nat where "VBI_XDS_MAX_CLASSES = 7"

definition VBI_XDS_MAX_SUBCLASSES :: nat where "VBI_XDS_MAX_SUBCLASSES = 24"

record xds_subpacket =
  sp_buffer :: "u8 list"
  sp_count :: nat
  sp_checksum :: u32

text \<open>\<^verbatim>\<open>buffer\<close> of a packet is an array of 36 bytes.\<close>

record vbi_xds_packet =
  xds_class :: nat
  xds_subclass :: nat
  buffer_size :: nat
  xp_buffer :: "u8 list"

record vbi_xds_demux =
  subpacket :: "xds_subpacket list"
  curr :: vbi_xds_packet
  curr_sp :: "nat option"

type_synonym 'u xds_cb = "vbi_xds_packet \<Rightarrow> 'u \<Rightarrow> bool \<times> 'u"

definition vbi_xds_demux_reset :: "vbi_xds_demux \<Rightarrow> vbi_xds_demux" where
  "vbi_xds_demux_reset xd = xd \<lparr> subpacket := map (\<lambda>sp. sp \<lparr> sp_count := 0 \<rparr>) (subpacket xd), curr_sp := None \<rparr>"

text \<open>\<^verbatim>\<open>_vbi_xds_demux_init\<close>; the callback and user data are parameters.\<close>

definition vbi_xds_demux_init :: "vbi_xds_demux \<Rightarrow> vbi_xds_demux" where
  "vbi_xds_demux_init garbage = vbi_xds_demux_reset garbage"

section \<open>Feeding a byte pair\<close>

text \<open>\<^verbatim>\<open>discard:\<close> forget the buffer and the current packet.\<close>

definition xds_clear :: "nat option \<Rightarrow> vbi_xds_demux \<Rightarrow> vbi_xds_demux" where
  "xds_clear sp xd = (case sp of None \<Rightarrow> xd
     | Some i \<Rightarrow> xd \<lparr> subpacket := (subpacket xd) [i := (subpacket xd ! i) \<lparr> sp_count := 0, sp_checksum := 0 \<rparr>] \<rparr>)"

definition xds_discard :: "nat option \<Rightarrow> vbi_xds_demux \<Rightarrow> vbi_xds_demux" where
  "xds_discard sp xd = (xds_clear sp xd) \<lparr> curr_sp := None \<rparr>"

text \<open>Packet header, \<open>1 \<le> c1 \<le> 14\<close>.\<close>

definition xds_header :: "vbi_xds_demux \<Rightarrow> int \<Rightarrow> int \<Rightarrow> vbi_xds_demux" where
  "xds_header xd c1 c2 =
     (let cls = nat (drop_bit 1 (c1 - 1));
          subcls = nat c2;
          i = subcls;
          i = (if i \<ge> 0x40 then i + 0x10 - 0x40 else i)
      in if cls > VBI_XDS_CLASS_MISC \<or> i > VBI_XDS_MAX_SUBCLASSES then xds_discard (curr_sp xd) xd
         else let sp = VBI_XDS_MAX_SUBCLASSES * cls + i;
                  xd = xd \<lparr> curr_sp := Some sp,
                            curr := curr xd \<lparr> xds_class := cls, xds_subclass := subcls \<rparr> \<rparr>
              in if c1 AND 1 \<noteq> 0
                 then xd \<lparr> subpacket := (subpacket xd) [sp := (subpacket xd ! sp)
                             \<lparr> sp_checksum := word_of_int (c1 + c2), sp_count := 2 \<rparr>] \<rparr>
                 else if sp_count (subpacket xd ! sp) = 0 then xds_discard (Some sp) xd
                 else xd)"

text \<open>Packet terminator, \<open>c1 = 15\<close>.\<close>

definition xds_finish :: "'u xds_cb \<Rightarrow> vbi_xds_demux \<Rightarrow> 'u \<Rightarrow> nat \<Rightarrow> int \<Rightarrow> int \<Rightarrow> bool \<times> vbi_xds_demux \<times> 'u" where
  "xds_finish callback xd u i c1 c2 =
     (let sp = subpacket xd ! i;
          sp = sp \<lparr> sp_checksum := sp_checksum sp + word_of_int (c1 + c2) \<rparr>;
          xd = xd \<lparr> subpacket := (subpacket xd) [i := sp] \<rparr>
      in if sp_checksum sp AND 0x7F \<noteq> 0 then (True, xds_discard (Some i) xd, u)
         else if sp_count sp \<le> 2 then (True, xds_discard (Some i) xd, u)
         else let buf = c_memcpy 0 (take 32 (sp_buffer sp)) (xp_buffer (curr xd));
                  xd = xd \<lparr> curr := curr xd \<lparr> xp_buffer := buf [sp_count sp - 2 := 0],
                                              buffer_size := sp_count sp - 2 \<rparr> \<rparr>
              in case callback (curr xd) u of (r, u) \<Rightarrow> (r, xds_discard (Some i) xd, u))"

text \<open>Packet contents, \<open>c1 \<ge> 32\<close>.\<close>

definition xds_store :: "vbi_xds_demux \<Rightarrow> nat \<Rightarrow> int \<Rightarrow> int \<Rightarrow> vbi_xds_demux c_result" where
  "xds_store xd i c1 c2 =
     (let sp = subpacket xd ! i
      in if sp_count sp \<ge> 32 + 2 then Ret (xds_discard (Some i) xd)
         else if sp_count sp - 1 \<ge> length (sp_buffer sp) then Undef
         else let sp = sp \<lparr> sp_buffer := (sp_buffer sp) [sp_count sp - 2 := word_of_int c1,
                                                        sp_count sp - 1 := word_of_int c2],
                            sp_checksum := sp_checksum sp + word_of_int (c1 + c2),
                            sp_count := sp_count sp + 1 + (if c2 \<noteq> 0 then 1 else 0) \<rparr>
              in Ret (xd \<lparr> subpacket := (subpacket xd) [i := sp] \<rparr>))"

text \<open>The pair after the parity check.\<close>

definition xds_pair :: "'u xds_cb \<Rightarrow> vbi_xds_demux \<Rightarrow> 'u \<Rightarrow> int \<Rightarrow> int \<Rightarrow> (bool \<times> vbi_xds_demux \<times> 'u) c_result" where
  "xds_pair callback xd u c1 c2 =
     (if c1 = 0 then Ret (True, xd, u)
      else if c1 \<le> 0x0E then Ret (True, xds_header xd c1 c2, u)
      else if c1 = 0x0F then
        (case curr_sp xd of None \<Rightarrow> Ret (True, xd, u)
         | Some i \<Rightarrow> Ret (xds_finish callback xd u i c1 c2))
      else if c1 \<le> 0x1F then Ret (True, xd \<lparr> curr_sp := None \<rparr>, u)
      else case curr_sp xd of None \<Rightarrow> Ret (True, xd, u)
         | Some i \<Rightarrow> c_bind (xds_store xd i c1 c2) (\<lambda>xd. Ret (True, xd, u)))"

definition vbi_xds_demux_feed ::
  "'u xds_cb \<Rightarrow> vbi_xds_demux \<times> 'u \<Rightarrow> u8 list \<Rightarrow> (bool \<times> vbi_xds_demux \<times> 'u) c_result" where
  "vbi_xds_demux_feed callback = (\<lambda>(xd, u) buffer.
     let c1 = vbi_unpar8 (ucast (buffer ! 0));
         c2 = vbi_unpar8 (ucast (buffer ! 1))
     in if c1 OR c2 < 0 then Ret (False, xds_discard (curr_sp xd) xd, u)
        else xds_pair callback xd u c1 c2)"

definition xds_wanted :: "vbi_sliced \<Rightarrow> bool" where
  "xds_wanted l \<longleftrightarrow> (sl_id l = VBI_SLICED_CAPTION_525 \<or> sl_id l = VBI_SLICED_CAPTION_525_F2)
     \<and> (sl_line l = 284 \<or> sl_line l = 0)"

definition vbi_xds_demux_feed_frame ::
  "'u xds_cb \<Rightarrow> vbi_xds_demux \<times> 'u \<Rightarrow> vbi_sliced list \<Rightarrow> (bool \<times> vbi_xds_demux \<times> 'u) c_result" where
  "vbi_xds_demux_feed_frame callback = feed_lines xds_wanted (vbi_xds_demux_feed callback)"

section \<open>The contract\<close>

text \<open>
  What the demultiplexer promises, without buffers, counters and array indices: each slot holds
  the bytes of an unfinished packet and the sum of all characters received for it, and at most
  one slot is current. A step takes the two characters of a pair and may deliver a packet.
\<close>

type_synonym xds_partial = "u8 list \<times> u32"

type_synonym xds_abs = "(nat \<Rightarrow> xds_partial option) \<times> (nat \<times> nat \<times> nat) option"

type_synonym xds_view = "nat \<times> nat \<times> u8 list"

definition xds_slot :: "u8 \<Rightarrow> u8 \<Rightarrow> (nat \<times> nat \<times> nat) option" where
  "xds_slot c1 c2 =
     (let cls = (unat c1 - 1) div 2; sub = unat c2; col = (if 0x40 \<le> sub then sub - 0x30 else sub)
      in if cls \<le> 3 \<and> col \<le> 24 then Some (24 * cls + col, cls, sub) else None)"

definition xds_drop :: "xds_abs \<Rightarrow> xds_abs" where
  "xds_drop = (\<lambda>(pend, cur). (case cur of None \<Rightarrow> pend | Some (i, _) \<Rightarrow> pend (i := None), None))"

definition xds_start :: "xds_abs \<Rightarrow> u8 \<Rightarrow> u8 \<Rightarrow> xds_abs" where
  "xds_start = (\<lambda>(pend, cur) c1 c2.
     case xds_slot c1 c2 of
       None \<Rightarrow> xds_drop (pend, cur)
     | Some (i, k) \<Rightarrow>
         if odd (unat c1) then (pend (i \<mapsto> ([], ucast c1 + ucast c2)), Some (i, k))
         else if pend i = None then (pend, None) else (pend, Some (i, k)))"

definition xds_end :: "xds_abs \<Rightarrow> u8 \<Rightarrow> u8 \<Rightarrow> xds_abs \<times> xds_view option" where
  "xds_end = (\<lambda>(pend, cur) c1 c2.
     case cur of
       Some (i, cls, sub) \<Rightarrow>
         (case pend i of
            Some (data, chk) \<Rightarrow>
              (xds_drop (pend, cur),
               if (chk + ucast c1 + ucast c2) AND 0x7F = 0 \<and> data \<noteq> [] then Some (cls, sub, data) else None)
          | None \<Rightarrow> ((pend, cur), None))
     | None \<Rightarrow> ((pend, cur), None))"

definition xds_add :: "xds_abs \<Rightarrow> u8 \<Rightarrow> u8 \<Rightarrow> xds_abs c_result" where
  "xds_add = (\<lambda>(pend, cur) c1 c2.
     case cur of
       Some (i, k) \<Rightarrow>
         (case pend i of
            Some (data, chk) \<Rightarrow>
              if 32 \<le> length data then Ret (xds_drop (pend, cur))
              else if length data = 31 then Undef
              else Ret (pend (i \<mapsto> (data @ (if c2 = 0 then [c1] else [c1, c2]), chk + ucast c1 + ucast c2)), Some (i, k))
          | None \<Rightarrow> Ret (pend, cur))
     | None \<Rightarrow> Ret (pend, cur))"

definition xds_step :: "xds_abs \<Rightarrow> u8 \<Rightarrow> u8 \<Rightarrow> (xds_abs \<times> xds_view option) c_result" where
  "xds_step st c1 c2 =
     (if c1 = 0 then Ret (st, None)
      else if c1 \<le> 0x0E then Ret (xds_start st c1 c2, None)
      else if c1 = 0x0F then Ret (xds_end st c1 c2)
      else if c1 \<le> 0x1F then Ret ((fst st, None), None)
      else c_bind (xds_add st c1 c2) (\<lambda>st. Ret (st, None)))"

section \<open>The refinement\<close>

definition xds_sp_ok :: "xds_subpacket \<Rightarrow> bool" where
  "xds_sp_ok sp \<longleftrightarrow> length (sp_buffer sp) = 32 \<and> (sp_count sp = 0 \<or> 2 \<le> sp_count sp \<and> sp_count sp \<le> 34)"

definition xds_inv :: "vbi_xds_demux \<Rightarrow> bool" where
  "xds_inv xd \<longleftrightarrow> length (subpacket xd) = VBI_XDS_MAX_CLASSES * VBI_XDS_MAX_SUBCLASSES
     \<and> list_all xds_sp_ok (subpacket xd) \<and> length (xp_buffer (curr xd)) = 36
     \<and> (case curr_sp xd of None \<Rightarrow> True
        | Some i \<Rightarrow> i < VBI_XDS_MAX_CLASSES * VBI_XDS_MAX_SUBCLASSES \<and> sp_count (subpacket xd ! i) \<noteq> 0)"

definition xds_partial_of :: "xds_subpacket \<Rightarrow> xds_partial option" where
  "xds_partial_of sp =
     (if sp_count sp = 0 then None else Some (take (sp_count sp - 2) (sp_buffer sp), sp_checksum sp))"

definition xds_abs :: "vbi_xds_demux \<Rightarrow> xds_abs" where
  "xds_abs xd =
     ((\<lambda>i. if i < length (subpacket xd) then xds_partial_of (subpacket xd ! i) else None),
      map_option (\<lambda>i. (i, xds_class (curr xd), xds_subclass (curr xd))) (curr_sp xd))"

definition xds_view_of :: "vbi_xds_packet \<Rightarrow> xds_view" where
  "xds_view_of p = (xds_class p, xds_subclass p, take (buffer_size p) (xp_buffer p))"

definition xds_packet_ok :: "vbi_xds_packet \<Rightarrow> bool" where
  "xds_packet_ok p \<longleftrightarrow> 1 \<le> buffer_size p \<and> buffer_size p \<le> 32 \<and> length (xp_buffer p) = 36
     \<and> xp_buffer p ! buffer_size p = 0"

text \<open>A result of the code agrees with a step of the contract.\<close>

definition xds_agrees ::
  "'u xds_cb \<Rightarrow> 'u \<Rightarrow> bool \<Rightarrow> (bool \<times> vbi_xds_demux \<times> 'u) c_result \<Rightarrow> (xds_abs \<times> xds_view option) c_result \<Rightarrow> bool" where
  "xds_agrees callback u ok r a =
     (case (r, a) of
        (Undef, Undef) \<Rightarrow> True
      | (Ret (r, xd', u'), Ret (st, None)) \<Rightarrow> xds_inv xd' \<and> xds_abs xd' = st \<and> r = ok \<and> u' = u
      | (Ret (r, xd', u'), Ret (st, Some v)) \<Rightarrow> xds_inv xd' \<and> xds_abs xd' = st
          \<and> (\<exists>p. xds_packet_ok p \<and> xds_view_of p = v \<and> callback p u = (r, u'))
      | _ \<Rightarrow> False)"

lemma xds_agrees_simps [simp]:
  "xds_agrees cb u ok Undef Undef"
  "xds_agrees cb u ok (Ret (r, xd', u')) (Ret (st, None)) \<longleftrightarrow> xds_inv xd' \<and> xds_abs xd' = st \<and> r = ok \<and> u' = u"
  "xds_agrees cb u ok (Ret (r, xd', u')) (Ret (st, Some v)) \<longleftrightarrow> xds_inv xd' \<and> xds_abs xd' = st
     \<and> (\<exists>p. xds_packet_ok p \<and> xds_view_of p = v \<and> cb p u = (r, u'))"
  "\<not> xds_agrees cb u ok (Ret w) Undef"
  "\<not> xds_agrees cb u ok Undef (Ret y)"
  by (simp_all add: xds_agrees_def split: prod.split option.split)

lemma xds_inv_sp:
  assumes "xds_inv xd" "i < 168"
  shows "xds_sp_ok (subpacket xd ! i)" "i < length (subpacket xd)"
  using assms by (simp_all add: xds_inv_def list_all_length VBI_XDS_MAX_CLASSES_def VBI_XDS_MAX_SUBCLASSES_def)

lemma xds_inv_curr: "xds_inv xd \<Longrightarrow> curr_sp xd = Some i \<Longrightarrow> i < 168 \<and> 2 \<le> sp_count (subpacket xd ! i)"
  using xds_inv_sp [of xd i]
  by (auto simp: xds_inv_def xds_sp_ok_def VBI_XDS_MAX_CLASSES_def VBI_XDS_MAX_SUBCLASSES_def)

text \<open>Writing one buffer, and clearing the current one.\<close>

definition xds_write :: "vbi_xds_demux \<Rightarrow> nat \<Rightarrow> xds_subpacket \<Rightarrow> vbi_xds_packet \<Rightarrow> nat option \<Rightarrow> vbi_xds_demux" where
  "xds_write xd i sp k c = xd \<lparr> subpacket := (subpacket xd) [i := sp], curr := k, curr_sp := c \<rparr>"

lemma xds_inv_write:
  assumes "xds_inv xd" "i < 168" "xds_sp_ok sp" "length (xp_buffer k) = 36"
    "case c of None \<Rightarrow> True | Some j \<Rightarrow> j = i \<and> sp_count sp \<noteq> 0"
  shows "xds_inv (xds_write xd i sp k c)"
  using assms
  by (simp add: xds_inv_def xds_write_def list_all_length nth_list_update VBI_XDS_MAX_CLASSES_def
    VBI_XDS_MAX_SUBCLASSES_def split: option.splits)

lemma xds_abs_write:
  assumes "xds_inv xd" "i < 168"
  shows "xds_abs (xds_write xd i sp k c) = ((fst (xds_abs xd)) (i := xds_partial_of sp),
    map_option (\<lambda>i. (i, xds_class k, xds_subclass k)) c)"
  using xds_inv_sp(2) [OF assms] by (auto simp: xds_abs_def xds_write_def nth_list_update fun_eq_iff)

lemma xds_sp_ok_zero [simp]: "xds_sp_ok sp \<Longrightarrow> xds_sp_ok (sp \<lparr> sp_count := 0, sp_checksum := c \<rparr>)"
  by (simp add: xds_sp_ok_def)

lemma xds_discard_write:
  "xds_discard (Some i) xd =
     xds_write xd i ((subpacket xd ! i) \<lparr> sp_count := 0, sp_checksum := 0 \<rparr>) (curr xd) None"
  by (simp add: xds_discard_def xds_clear_def xds_write_def)

lemma xds_abs_snd: "snd (xds_abs xd) = map_option (\<lambda>i. (i, xds_class (curr xd), xds_subclass (curr xd))) (curr_sp xd)"
  by (simp add: xds_abs_def)

lemma xds_abs_fst: "xds_inv xd \<Longrightarrow> i < 168 \<Longrightarrow> fst (xds_abs xd) i = xds_partial_of (subpacket xd ! i)"
  by (simp add: xds_abs_def xds_inv_sp)

lemma xds_inv_length [simp]: "xds_inv xd \<Longrightarrow> length (xp_buffer (curr xd)) = 36"
  by (simp add: xds_inv_def)

lemma xds_discard_ok:
  assumes "xds_inv xd"
  shows "xds_inv (xds_discard (curr_sp xd) xd)" "xds_abs (xds_discard (curr_sp xd) xd) = xds_drop (xds_abs xd)"
proof -
  have "xds_inv (xds_discard (curr_sp xd) xd) \<and> xds_abs (xds_discard (curr_sp xd) xd) = xds_drop (xds_abs xd)"
  proof (cases "curr_sp xd")
    case None
    then show ?thesis
      using assms by (simp add: xds_discard_def xds_clear_def xds_drop_def xds_abs_def xds_inv_def cong: if_cong)
  next
    case (Some i)
    then have "i < 168" using xds_inv_curr [OF assms] by simp
    then show ?thesis
      using assms xds_inv_sp [OF assms] Some
      by (simp add: xds_discard_write xds_inv_write xds_abs_write xds_drop_def split_def xds_abs_snd xds_partial_of_def)
  qed
  then show "xds_inv (xds_discard (curr_sp xd) xd)" "xds_abs (xds_discard (curr_sp xd) xd) = xds_drop (xds_abs xd)"
    by simp_all
qed


lemma xds_chars:
  "nat (uint (c2 :: u8)) = unat c2" "word_of_int (uint c1 + uint c2) = (ucast c1 + ucast c2 :: u32)"
  "c1 \<noteq> 0 \<Longrightarrow> nat (drop_bit (Suc 0) (uint c1 - 1)) = (unat c1 - Suc 0) div 2"
  "uint c1 AND 1 \<noteq> 0 \<longleftrightarrow> odd (unat c1)"
proof -
  show "nat (uint (c2 :: u8)) = unat c2" by simp
  show "word_of_int (uint c1 + uint c2) = (ucast c1 + ucast c2 :: u32)"
    by (simp add: unsigned_ucast_eq wi_hom_add flip: word_of_int_uint)
  have u: "uint c1 = int (unat c1)" by simp
  show "nat (drop_bit (Suc 0) (uint c1 - 1)) = (unat c1 - Suc 0) div 2" if "c1 \<noteq> 0"
  proof -
    have "unat c1 \<noteq> 0" using that by (simp add: unat_eq_0)
    then have "uint c1 - 1 = int (unat c1 - Suc 0)" using u by linarith
    then show ?thesis by (simp add: drop_bit_eq_div nat_div_distrib)
  qed
  show "uint c1 AND 1 \<noteq> 0 \<longleftrightarrow> odd (unat c1)"
    by (simp only: u and_one_eq even_of_nat flip: even_iff_mod_2_eq_zero)
qed

lemma xds_header_ok:
  assumes "xds_inv xd" "c1 \<noteq> 0"
  shows "xds_inv (xds_header xd (uint c1) (uint c2))"
    "xds_abs (xds_header xd (uint c1) (uint c2)) = xds_start (xds_abs xd) c1 c2"
proof -
  have "xds_inv (xds_header xd (uint c1) (uint c2))
    \<and> xds_abs (xds_header xd (uint c1) (uint c2)) = xds_start (xds_abs xd) c1 c2"
  proof (cases "xds_slot c1 c2")
    case None
    then have "xds_header xd (uint c1) (uint c2) = xds_discard (curr_sp xd) xd"
      using assms(2) by (auto simp: xds_header_def xds_slot_def xds_chars Let_def VBI_XDS_CLASS_MISC_def
        VBI_XDS_MAX_SUBCLASSES_def split: if_splits)
    then show ?thesis using None xds_discard_ok [OF assms(1)] by (simp add: xds_start_def split_def)
  next
    case (Some k)
    then obtain i cls sub where k: "xds_slot c1 c2 = Some (i, cls, sub)" by (cases k) auto
    let ?p = "(curr xd) \<lparr> xds_class := cls, xds_subclass := sub \<rparr>"
    let ?new = "(subpacket xd ! i) \<lparr> sp_checksum := ucast c1 + ucast c2, sp_count := 2 \<rparr>"
    have i: "i < 168" using k by (auto simp: xds_slot_def Let_def split: if_splits)
    have h: "xds_header xd (uint c1) (uint c2) =
        (if odd (unat c1) then xds_write xd i ?new ?p (Some i)
         else if sp_count (subpacket xd ! i) = 0
         then xds_write xd i ((subpacket xd ! i) \<lparr> sp_count := 0, sp_checksum := 0 \<rparr>) ?p None
         else xds_write xd i (subpacket xd ! i) ?p (Some i))"
      using k assms(2)
      by (auto simp: xds_header_def xds_slot_def xds_chars Let_def VBI_XDS_CLASS_MISC_def xds_discard_write
        VBI_XDS_MAX_SUBCLASSES_def xds_write_def split: if_splits)
    have ok: "xds_sp_ok (subpacket xd ! i)" "xds_sp_ok ?new"
      using xds_inv_sp [OF assms(1) i] by (simp_all add: xds_sp_ok_def)
    have p: "fst (xds_abs xd) i = xds_partial_of (subpacket xd ! i)" using xds_abs_fst [OF assms(1) i] .
    show ?thesis
      using ok assms(1) i k p
      by (auto simp: h xds_inv_write xds_abs_write xds_start_def split_def xds_partial_of_def fun_upd_idem)
  qed
  then show "xds_inv (xds_header xd (uint c1) (uint c2))"
    "xds_abs (xds_header xd (uint c1) (uint c2)) = xds_start (xds_abs xd) c1 c2" by simp_all
qed


lemma xds_abs_curr:
  assumes "xds_inv xd" "curr_sp xd = Some i"
  shows "xds_abs xd = (fst (xds_abs xd), Some (i, xds_class (curr xd), xds_subclass (curr xd)))"
    "fst (xds_abs xd) i = Some (take (sp_count (subpacket xd ! i) - 2) (sp_buffer (subpacket xd ! i)), sp_checksum (subpacket xd ! i))"
    "i < 168" "length (sp_buffer (subpacket xd ! i)) = 32" "2 \<le> sp_count (subpacket xd ! i)" "sp_count (subpacket xd ! i) \<le> 34"
proof -
  have i: "i < 168" "2 \<le> sp_count (subpacket xd ! i)" using xds_inv_curr [OF assms] by simp_all
  show "xds_abs xd = (fst (xds_abs xd), Some (i, xds_class (curr xd), xds_subclass (curr xd)))"
    using assms(2) by (simp add: prod_eq_iff xds_abs_snd)
  show "fst (xds_abs xd) i = Some (take (sp_count (subpacket xd ! i) - 2) (sp_buffer (subpacket xd ! i)), sp_checksum (subpacket xd ! i))"
    using xds_abs_fst [OF assms(1)] i by (simp add: xds_partial_of_def)
  show "i < 168" "2 \<le> sp_count (subpacket xd ! i)" using i by simp_all
  show "length (sp_buffer (subpacket xd ! i)) = 32" "sp_count (subpacket xd ! i) \<le> 34"
    using xds_inv_sp(1) [OF assms(1) i(1)] i(2) by (auto simp: xds_sp_ok_def)
qed

lemma xds_deliver:
  assumes "length buf = 32" "length pb = 36" "2 \<le> n" "n \<le> 34"
  shows "take (n - 2) ((c_memcpy 0 (take 32 buf) pb) [n - 2 := 0]) = take (n - 2) buf"
    "length ((c_memcpy 0 (take 32 buf) pb) [n - 2 := 0]) = 36"
    "(c_memcpy 0 (take 32 buf) pb) [n - 2 := 0] ! (n - 2) = 0"
  using assms by (simp_all add: c_memcpy_def)

lemma xds_finish_ok:
  assumes "xds_inv xd" "curr_sp xd = Some i"
  shows "xds_agrees callback u True (Ret (xds_finish callback xd u i (uint c1) (uint c2))) (Ret (xds_end (xds_abs xd) c1 c2))"
proof -
  note cur = xds_abs_curr [OF assms]
  let ?sp = "subpacket xd ! i"
  let ?w = "\<lambda>k. xds_write xd i (?sp \<lparr> sp_count := 0, sp_checksum := 0 \<rparr>) k None"
  let ?b = "(c_memcpy 0 (take 32 (sp_buffer ?sp)) (xp_buffer (curr xd))) [sp_count ?sp - 2 := 0]"
  let ?k = "(curr xd) \<lparr> xp_buffer := ?b, buffer_size := sp_count ?sp - 2 \<rparr>"
  have ok: "xds_sp_ok ?sp" using xds_inv_sp [OF assms(1) cur(3)] by simp
  have drop: "xds_drop (xds_abs xd) = ((fst (xds_abs xd)) (i := None), None)"
    by (subst cur(1)) (simp add: xds_drop_def)
  have w: "xds_inv (?w k) \<and> xds_abs (?w k) = xds_drop (xds_abs xd)" if "length (xp_buffer k) = 36" for k
    using that assms(1) cur(3) ok by (simp add: xds_inv_write xds_abs_write drop xds_partial_of_def)
  have e: "xds_end (xds_abs xd) c1 c2 = (((fst (xds_abs xd)) (i := None), None),
      if (sp_checksum ?sp + (ucast c1 + ucast c2)) AND 0x7F = 0 \<and> 2 < sp_count ?sp
      then Some (xds_class (curr xd), xds_subclass (curr xd), take (sp_count ?sp - 2) (sp_buffer ?sp)) else None)"
    using cur(4) by (subst cur(1)) (simp add: xds_end_def cur(2) xds_drop_def add.assoc, auto)
  have f: "xds_finish callback xd u i (uint c1) (uint c2) =
      (if (sp_checksum ?sp + (ucast c1 + ucast c2)) AND 0x7F = 0 \<and> 2 < sp_count ?sp
       then (fst (callback ?k u), ?w ?k, snd (callback ?k u)) else (True, ?w (curr xd), u))"
    using xds_inv_sp(2) [OF assms(1) cur(3)]
    by (simp add: xds_finish_def Let_def xds_chars split_def xds_discard_write xds_write_def)
  have "xds_packet_ok ?k" "xds_view_of ?k = (xds_class (curr xd), xds_subclass (curr xd), take (sp_count ?sp - 2) (sp_buffer ?sp))"
    if "2 < sp_count ?sp"
    using that xds_deliver [OF cur(4) xds_inv_length [OF assms(1)] cur(5,6)] cur(6)
    by (simp_all add: xds_packet_ok_def xds_view_of_def) arith
  then show ?thesis using w [of ?k] w [of "curr xd"] assms(1) by (auto simp: e f drop xds_deliver(2) cur(3-6))
qed


lemma take_update_two:
  "n + 2 \<le> length xs \<Longrightarrow> take (n + 1) (xs [n := a, n + 1 := b]) = take n xs @ [a]"
  "n + 2 \<le> length xs \<Longrightarrow> take (n + 2) (xs [n := a, n + 1 := b]) = take n xs @ [a, b]"
  by (simp_all add: take_Suc_conv_app_nth numeral_2_eq_2)

lemma xds_add_cur:
  "pend i = Some (data, chk) \<Longrightarrow> xds_add (pend, Some (i, k)) c1 c2 =
     (if 32 \<le> length data then Ret (xds_drop (pend, Some (i, k))) else if length data = 31 then Undef
      else Ret (pend (i \<mapsto> (data @ (if c2 = 0 then [c1] else [c1, c2]), chk + ucast c1 + ucast c2)), Some (i, k)))"
  by (simp add: xds_add_def)

lemma xds_write_same:
  "curr_sp xd = Some i \<Longrightarrow> xds_write xd i sp (curr xd) (Some i) = xd \<lparr> subpacket := (subpacket xd) [i := sp] \<rparr>"
  by (simp add: xds_write_def)

lemma xds_uint:
  "uint (c :: u8) = 0 \<longleftrightarrow> c = 0" "uint c \<le> 14 \<longleftrightarrow> c \<le> 14" "uint c = 15 \<longleftrightarrow> c = 15" "uint c \<le> 31 \<longleftrightarrow> c \<le> 31"
  using word_uint_eq_iff [of c 15] by (simp_all add: word_le_def uint_0_iff)

lemma xds_store_fits:
  assumes "sp_count (subpacket xd ! i) = m + 2" "length (sp_buffer (subpacket xd ! i)) = 32" "m < 31"
  shows "xds_store xd i (uint c1) (uint c2) = Ret (xd \<lparr> subpacket := (subpacket xd) [i := (subpacket xd ! i)
    \<lparr> sp_buffer := (sp_buffer (subpacket xd ! i)) [m := c1, m + 1 := c2],
      sp_checksum := sp_checksum (subpacket xd ! i) + ucast c1 + ucast c2,
      sp_count := m + 2 + 1 + (if c2 \<noteq> 0 then 1 else 0) \<rparr>] \<rparr>)"
  using assms by (simp add: xds_store_def Let_def xds_chars add.assoc xds_uint)

lemma xds_store_ok:
  assumes "xds_inv xd" "curr_sp xd = Some i"
  shows "xds_agrees callback u True (c_bind (xds_store xd i (uint c1) (uint c2)) (\<lambda>xd. Ret (True, xd, u)))
    (c_bind (xds_add (xds_abs xd) c1 c2) (\<lambda>st. Ret (st, None)))"
proof -
  note cur = xds_abs_curr [OF assms]
  let ?sp = "subpacket xd ! i" and ?n = "sp_count (subpacket xd ! i) - 2"
  have n: "sp_count ?sp = ?n + 2" using cur(5) by simp
  have data: "length (take ?n (sp_buffer ?sp)) = ?n" using cur(4,6) n by simp
  have add: "xds_add (xds_abs xd) c1 c2 =
     (if 32 \<le> ?n then Ret (xds_drop (xds_abs xd)) else if ?n = 31 then Undef
      else Ret ((fst (xds_abs xd)) (i \<mapsto> (take ?n (sp_buffer ?sp) @ (if c2 = 0 then [c1] else [c1, c2]),
        sp_checksum ?sp + ucast c1 + ucast c2)), Some (i, xds_class (curr xd), xds_subclass (curr xd))))"
    using xds_add_cur [where pend = "fst (xds_abs xd)" and i = i, OF cur(2), of "(xds_class (curr xd), xds_subclass (curr xd))" c1 c2] data
    by (simp del: length_take flip: cur(1))
  show ?thesis
  proof (cases "?n < 31")
    case False
    then have "xds_store xd i (uint c1) (uint c2) = (if 32 \<le> ?n then Ret (xds_discard (Some i) xd) else Undef)"
      using cur(4) n by (simp add: xds_store_def Let_def)
    then show ?thesis using xds_discard_ok [OF assms(1)] False by (simp add: add assms(2))
  next
    case True
    let ?b = "(sp_buffer ?sp) [?n := c1, ?n + 1 := c2]"
    let ?new = "?sp \<lparr> sp_buffer := ?b, sp_checksum := sp_checksum ?sp + ucast c1 + ucast c2,
      sp_count := ?n + 2 + 1 + (if c2 \<noteq> 0 then 1 else 0) \<rparr>"
    have st: "xds_store xd i (uint c1) (uint c2) = Ret (xds_write xd i ?new (curr xd) (Some i))"
      unfolding xds_write_same [OF assms(2)] by (rule xds_store_fits [OF n cur(4) True])
    have "take (sp_count ?new - 2) ?b = take ?n (sp_buffer ?sp) @ (if c2 = 0 then [c1] else [c1, c2])"
      using take_update_two [of ?n "sp_buffer ?sp" c1 c2] cur(4) True by simp
    then have "xds_partial_of ?new = Some (take ?n (sp_buffer ?sp) @ (if c2 = 0 then [c1] else [c1, c2]),
        sp_checksum ?sp + ucast c1 + ucast c2)"
      by (simp add: xds_partial_of_def)
    moreover have "xds_sp_ok ?new" using cur(4) True by (simp add: xds_sp_ok_def)
    ultimately show ?thesis
      using assms(1) cur(3) True by (simp add: add st xds_inv_write xds_abs_write)
  qed
qed


lemma xds_end_none: "curr_sp xd = None \<Longrightarrow> xds_end (xds_abs xd) c1 c2 = (xds_abs xd, None)"
  using xds_abs_snd [of xd] by (cases "xds_abs xd") (simp add: xds_end_def)

lemma xds_add_none: "curr_sp xd = None \<Longrightarrow> xds_add (xds_abs xd) c1 c2 = Ret (xds_abs xd)"
  using xds_abs_snd [of xd] by (cases "xds_abs xd") (simp add: xds_add_def)

lemma xds_text_ok:
  assumes "xds_inv xd"
  shows "xds_inv (xd \<lparr> curr_sp := None \<rparr>)" "xds_abs (xd \<lparr> curr_sp := None \<rparr>) = (fst (xds_abs xd), None)"
  using assms by (simp_all add: xds_inv_def xds_abs_def cong: if_cong)

lemma xds_pair_ok:
  assumes "xds_inv xd"
  shows "xds_agrees callback u True (xds_pair callback xd u (uint c1) (uint c2)) (xds_step (xds_abs xd) c1 c2)"
proof (cases "c1 = 0 \<or> c1 \<le> 14")
  case True
  then show ?thesis
    using assms xds_header_ok [OF assms, of c1 c2] by (auto simp: xds_pair_def xds_step_def xds_uint)
next
  case False
  then show ?thesis
    using xds_finish_ok [OF assms, of _ callback u 15 c2] xds_store_ok [OF assms, of _ callback u c1 c2]
      xds_text_ok [OF assms] assms
    by (cases "curr_sp xd") (simp_all add: xds_pair_def xds_step_def xds_uint xds_end_none xds_add_none)
qed

text \<open>C7. The demultiplexer implements the contract. In every well formed state each pair of bytes either
  overflows the buffer (exactly when 31 bytes are stored and a further pair arrives), or leads to a well
  formed state that represents the next state of the contract. The callback is called exactly when the
  contract delivers a packet, with the class, subclass and bytes of the contract in a
  terminated buffer of 1 to 32 bytes, and its result is returned; otherwise the result says whether
  the parity was right. The initial state represents the contract with no packet.\<close>

theorem xds_refines_contract:
  fixes buffer :: "u8 list"
  assumes "xds_inv xd"
  defines "ok \<equiv> odd_parity (buffer ! 0) \<and> odd_parity (buffer ! 1)"
  shows "xds_agrees callback u ok (vbi_xds_demux_feed callback (xd, u) buffer)
      (if ok then xds_step (xds_abs xd) (buffer ! 0 AND 127) (buffer ! 1 AND 127)
       else Ret (xds_drop (xds_abs xd), None))"
proof (cases ok)
  case True
  then have "odd_parity (buffer ! 0)" "odd_parity (buffer ! 1)" by (simp_all add: ok_def)
  then have "vbi_xds_demux_feed callback (xd, u) buffer
      = xds_pair callback xd u (uint (buffer ! 0 AND 127)) (uint (buffer ! 1 AND 127))"
    by (simp only: vbi_xds_demux_feed_def Let_def prod.case vbi_unpar8_byte if_True or_negative_int_iff)
      (simp only: linorder_not_less [THEN iffD2, OF uint_ge_0] if_False simp_thms)
  then show ?thesis using xds_pair_ok [OF assms(1)] True by simp
next
  case False
  then have "vbi_xds_demux_feed callback (xd, u) buffer = Ret (False, xds_discard (curr_sp xd) xd, u)"
    by (auto simp add: vbi_xds_demux_feed_def Let_def vbi_unpar8_byte ok_def or_negative_int_iff)
  then show ?thesis using xds_discard_ok [OF assms(1)] False by simp
qed

section \<open>Streams\<close>

text \<open>The sending side: the pairs of a packet, and the caption line that carries a pair.\<close>

fun xds_contents :: "u8 list \<Rightarrow> (u8 \<times> u8) list" where
  "xds_contents [] = []"
| "xds_contents [a] = [(a, 0)]"
| "xds_contents (a # b # r) = (a, b) # xds_contents r"

primrec xds_total :: "(u8 \<times> u8) list \<Rightarrow> u32" where
  "xds_total [] = 0"
| "xds_total (p # ps) = ucast (fst p) + ucast (snd p) + xds_total ps"

definition xds_terminator :: "(u8 \<times> u8) list \<Rightarrow> u8 \<times> u8" where
  "xds_terminator ps = (0x0F, ucast (- (xds_total ps + 0x0F)) AND 0x7F)"

definition xds_packet :: "u8 \<Rightarrow> u8 \<Rightarrow> u8 list \<Rightarrow> (u8 \<times> u8) list" where
  "xds_packet c s data =
     (let body = (c, s) # xds_contents data in body @ [xds_terminator body])"

definition xds_line :: "u8 \<times> u8 \<Rightarrow> vbi_sliced" where
  "xds_line = (\<lambda>(a, b). \<lparr> sl_id = VBI_SLICED_CAPTION_525, sl_line = 284, sl_data = vbi_par [a, b] @ replicate 54 0 \<rparr>)"

definition xds_record :: "vbi_xds_packet \<Rightarrow> xds_view list \<Rightarrow> bool \<times> xds_view list" where
  "xds_record p vs = (True, vs @ [xds_view_of p])"

fun xds_run :: "xds_abs \<Rightarrow> (u8 \<times> u8) list \<Rightarrow> (xds_abs \<times> xds_view list) c_result" where
  "xds_run st [] = Ret (st, [])"
| "xds_run st ((a, b) # ps) =
     c_bind (xds_step st a b) (\<lambda>(st, v).
       c_bind (xds_run st ps) (\<lambda>(st, vs). Ret (st, (case v of None \<Rightarrow> vs | Some v \<Rightarrow> v # vs))))"


lemma xds_line_fed:
  assumes "xds_inv xd" "a \<le> 127" "b \<le> 127"
  shows "xds_agrees xds_record vs True (vbi_xds_demux_feed xds_record (xd, vs) (sl_data (xds_line (a, b)))) (xds_step (xds_abs xd) a b)"
proof -
  let ?p = "\<lambda>b. if odd_parity b then b else b XOR (128 :: u8)"
  have o: "odd_parity (?p b)" for b by (simp add: odd_parity_flip_msb)
  have m: "?p b AND 127 = b" if "b \<le> 127" for b
  proof -
    have "b AND 127 = b" using take_bit_small [of b 7] that by (simp add: word_le_nat_alt word_less_nat_alt take_bit_eq_mask mask_eq_exp_minus_1)
    then show ?thesis by (simp add: bit.conj_xor_distrib2)
  qed
  have d: "sl_data (xds_line (a, b)) ! 0 = ?p a" "sl_data (xds_line (a, b)) ! 1 = ?p b"
    by (simp_all add: xds_line_def vbi_par_map)
  show ?thesis
    using xds_refines_contract [OF assms(1), of xds_record vs "sl_data (xds_line (a, b))"]
    unfolding d by (simp only: o m [OF assms(2)] m [OF assms(3)] simp_thms if_True)
qed

lemma xds_run_frame:
  assumes "xds_run (xds_abs xd) ps = r" "xds_inv xd" "\<forall>(a, b) \<in> set ps. a \<le> 127 \<and> b \<le> 127"
  shows "case (r, vbi_xds_demux_feed_frame xds_record (xd, us) (map xds_line ps)) of
      (Ret (st, vs), Ret (ok, xd', us')) \<Rightarrow> ok \<and> us' = us @ vs \<and> xds_inv xd' \<and> xds_abs xd' = st
    | (Undef, Undef) \<Rightarrow> True | _ \<Rightarrow> False"
  using assms
proof (induction ps arbitrary: xd us r)
  case Nil
  then show ?case by (auto simp: vbi_xds_demux_feed_frame_def)
next
  case (Cons p ps)
  obtain a b where p: "p = (a, b)" by (cases p)
  have w: "xds_wanted (xds_line p)" by (simp add: xds_wanted_def xds_line_def p)
  note step = xds_line_fed [OF Cons.prems(2), of a b us]
  show ?case
  proof (cases "xds_step (xds_abs xd) a b")
    case Undef
    then show ?thesis
      using step Cons.prems w p
      by (auto simp: vbi_xds_demux_feed_frame_def xds_agrees_def split: c_result.splits)
  next
    case (Ret x)
    then obtain st v where x: "xds_step (xds_abs xd) a b = Ret (st, v)" by (cases x) simp
    then obtain xd1 us1 where f: "vbi_xds_demux_feed xds_record (xd, us) (sl_data (xds_line p)) = Ret (True, xd1, us1)"
      "xds_inv xd1" "xds_abs xd1 = st" "us1 = us @ (case v of None \<Rightarrow> [] | Some v \<Rightarrow> [v])"
      using step Cons.prems p
      by (auto simp: xds_agrees_def xds_record_def split: c_result.splits option.splits)
    show ?thesis
      using Cons.IH [of xd1 "xds_run st ps" us1] Cons.prems f w x p
      by (auto simp: vbi_xds_demux_feed_frame_def split: c_result.splits option.splits)
  qed
qed


section \<open>Packets in a stream\<close>

lemma xds_run_append:
  "xds_run st ps = Ret (st', vs) \<Longrightarrow>
     xds_run st (ps @ qs) = c_bind (xds_run st' qs) (\<lambda>(st, ws). Ret (st, vs @ ws))"
  by (induction st ps arbitrary: st' vs rule: xds_run.induct)
    (auto simp: c_bind_def split: c_result.splits option.splits)

definition xds_text :: "u8 list \<Rightarrow> bool" where
  "xds_text = list_all (\<lambda>a. 0x20 \<le> a \<and> a \<le> 0x7F)"

lemma xds_text_simps [simp]:
  "xds_text []" "xds_text (a # as) \<longleftrightarrow> 0x20 \<le> a \<and> a \<le> 0x7F \<and> xds_text as"
  "xds_text (as @ bs) \<longleftrightarrow> xds_text as \<and> xds_text bs"
  by (simp_all add: xds_text_def)

lemma xds_text_contents: "xds_text data \<Longrightarrow> \<forall>(a, b) \<in> set (xds_contents data). a \<le> 127 \<and> b \<le> 127"
  by (induction data rule: xds_contents.induct) auto

lemma xds_step_text:
  "0x20 \<le> a \<Longrightarrow> xds_step st a b = c_bind (xds_add st a b) (\<lambda>st. Ret (st, None))"
  by (auto simp: xds_step_def word_le_nat_alt)

lemma xds_text_nonzero: "0x20 \<le> (a :: u8) \<Longrightarrow> a \<noteq> 0"
  by auto

lemma xds_run_contents:
  assumes "pend i = Some (d0, t)" "even (length d0)" "length (d0 @ data) \<le> 32" "xds_text data"
  shows "xds_run (pend, Some (i, k)) (xds_contents data) =
    Ret ((pend (i \<mapsto> (d0 @ data, t + xds_total (xds_contents data))), Some (i, k)), [])"
  using assms
proof (induction data arbitrary: pend d0 t rule: xds_contents.induct)
  case 1
  then show ?case by (simp add: fun_upd_idem)
next
  case (2 a)
  then have "length d0 \<noteq> 31" "length d0 < 32" by auto
  then show ?case using 2 by (simp add: xds_step_text xds_add_cur add.assoc) (simp add: fun_eq_iff)
next
  case (3 a b r)
  then have "length d0 \<noteq> 31" "length d0 < 32" "b \<noteq> 0" by (auto dest: xds_text_nonzero)
  then show ?case
    using 3 by (simp add: xds_step_text xds_add_cur add.assoc) (simp add: fun_eq_iff add.assoc)
qed

lemma xds_terminator_sum:
  "(xds_total ps + ucast (fst (xds_terminator ps)) + ucast (snd (xds_terminator ps))) AND 0x7F = 0"
proof -
  let ?t = "xds_total ps + 0x0F"
  have m: "x AND 0x7F = take_bit 7 (x :: u32)" "y AND 0x7F = take_bit 7 (y :: u8)" for x y
    by (simp_all add: take_bit_eq_mask mask_eq_exp_minus_1)
  have "ucast (take_bit 7 (ucast (- ?t) :: u8)) = take_bit 7 (- ?t)"
    by (rule bit_word_eqI) (auto simp: bit_simps)
  then have "(xds_total ps + ucast (fst (xds_terminator ps)) + ucast (snd (xds_terminator ps))) AND 0x7F
      = take_bit 7 (?t + take_bit 7 (- ?t))"
    by (simp add: xds_terminator_def m)
  also have "\<dots> = take_bit 7 (?t + - ?t)"
    by (simp only: take_bit_eq_mask mask_eqs)
  finally show ?thesis by simp
qed


lemma xds_step_start:
  assumes "xds_slot c s = Some (i, k)" "odd (unat c)" "c \<le> 0x0E"
  shows "xds_step (pend, cur) c s = Ret ((pend (i \<mapsto> ([], ucast c + ucast s)), Some (i, k)), None)"
proof -
  have "c \<noteq> 0" using assms(2) by auto
  then show ?thesis using assms by (simp add: xds_step_def xds_start_def)
qed

lemma xds_step_continue:
  assumes "xds_slot c s = Some (i, k)" "even (unat c)" "c \<noteq> 0" "c \<le> 0x0E" "pend i \<noteq> None"
  shows "xds_step (pend, cur) c s = Ret ((pend, Some (i, k)), None)"
  using assms by (simp add: xds_step_def xds_start_def)

lemma xds_step_terminator:
  assumes "pend i = Some (data, xds_total ps)" "data \<noteq> []"
  shows "xds_step (pend, Some (i, cls, sub)) (fst (xds_terminator ps)) (snd (xds_terminator ps)) =
    Ret ((pend (i := None), None), Some (cls, sub, data))"
  using assms xds_terminator_sum [of ps]
  by (simp add: xds_step_def xds_end_def xds_drop_def) (simp add: xds_terminator_def)

lemma xds_run_start:
  assumes "xds_slot c s = Some (i, k)" "odd (unat c)" "c \<le> 0x0E" "length data \<le> 32" "xds_text data"
  shows "xds_run (pend, cur) ((c, s) # xds_contents data) =
    Ret ((pend (i \<mapsto> (data, xds_total ((c, s) # xds_contents data))), Some (i, k)), [])"
  using xds_run_contents [of "pend (i \<mapsto> ([], ucast c + ucast s))" i "[]" "ucast c + ucast s" data k] assms
  by (simp add: xds_step_start)

lemma xds_run_packet:
  assumes "xds_slot c s = Some (i, cls, sub)" "odd (unat c)" "c \<le> 0x0E" "length data \<le> 32" "xds_text data" "data \<noteq> []"
  shows "xds_run (pend, cur) (xds_packet c s data) = Ret ((pend (i := None), None), [(cls, sub, data)])"
proof -
  let ?b = "(c, s) # xds_contents data"
  show ?thesis
    using xds_run_append [OF xds_run_start [OF assms(1-5)], of pend cur "[xds_terminator ?b]"]
      xds_step_terminator [of "pend (i \<mapsto> (data, xds_total ?b))" i data ?b cls sub] assms(6)
    by (cases "xds_terminator ?b") (simp add: xds_packet_def Let_def)
qed


lemma xds_slot_continue:
  assumes "xds_slot c s = Some k" "odd (unat c)" "c \<le> 0x0E"
  shows "xds_slot (c + 1) s = Some k" "even (unat (c + 1))" "c + 1 \<noteq> 0" "c + 1 \<le> 0x0E" "c \<le> 127" "c + 1 \<le> 127"
proof -
  have c: "unat c < 14" using assms(2,3) by (auto simp: word_le_nat_alt le_less)
  then have u: "unat (c + 1) = unat c + 1" using unat_plus_simple [of c 1] by (simp add: word_le_nat_alt unat_word_ariths)
  moreover have "(unat c - 1) div 2 = unat c div 2" using assms(2) by (elim oddE) simp
  ultimately show "xds_slot (c + 1) s = Some k" using assms(1) by (simp add: xds_slot_def)
  show "even (unat (c + 1))" using u assms(2) by simp
  show "c + 1 \<noteq> 0" using u by (metis Suc_eq_plus1 nat.distinct(1) unat_0)
  show "c + 1 \<le> 0x0E" "c \<le> 127" "c + 1 \<le> 127" using u c by (simp_all add: word_le_nat_alt)
qed

lemma xds_slot_sub: "xds_slot c s = Some k \<Longrightarrow> s \<le> 127"
  by (auto simp: xds_slot_def Let_def word_le_nat_alt split: if_splits)

lemma xds_terminator_chars: "case xds_terminator ps of (a, b) \<Rightarrow> a \<le> 127 \<and> b \<le> 127"
proof -
  have "y AND 0x7F \<le> (0x7F :: u8)" for y by (rule word_and_le1)
  then show ?thesis by (simp add: xds_terminator_def)
qed

lemma xds_stream:
  assumes "xds_run (xds_abs xd) ps = Ret (st, vs)" "xds_inv xd" "\<forall>(a, b) \<in> set ps. a \<le> 127 \<and> b \<le> 127"
  shows "\<exists>xd'. vbi_xds_demux_feed_frame xds_record (xd, us) (map xds_line ps) = Ret (True, xd', us @ vs)
    \<and> xds_inv xd' \<and> xds_abs xd' = st"
  using xds_run_frame [OF assms, of us] by (auto split: c_result.splits)

text \<open>C21. Interleaved packets come out whole: while packet A of one slot is transmitted in two parts, with
  a complete packet B of another slot in between, the callback gets first B and then A, each with
  its class, subclass and bytes, from any well formed state. The bytes are printable characters,
  at most 32 per packet, and the first part of A fills its pairs.\<close>

theorem xds_interleaved_packets:
  assumes "xds_inv xd"
    and "xds_slot ca sa = Some (i, va)" "odd (unat ca)" "ca \<le> 0x0E"
    and "xds_slot cb sb = Some (j, vb)" "odd (unat cb)" "cb \<le> 0x0E" "i \<noteq> j"
    and "xds_text a1" "xds_text a2" "even (length a1)" "a1 \<noteq> []" "length a1 + length a2 \<le> 32"
    and "xds_text b" "b \<noteq> []" "length b \<le> 32"
  shows "\<exists>xd'. vbi_xds_demux_feed_frame xds_record (xd, us)
        (map xds_line ((ca, sa) # xds_contents a1 @ xds_packet cb sb b
           @ (ca + 1, sa) # xds_contents a2 @ [xds_terminator ((ca, sa) # xds_contents (a1 @ a2))]))
      = Ret (True, xd', us @ [(fst vb, snd vb, b), (fst va, snd va, a1 @ a2)])"
proof -
  obtain p cur where st: "xds_abs xd = (p, cur)" by (cases "xds_abs xd")
  let ?A = "(ca, sa) # xds_contents a1" and ?C = "(ca + 1, sa) # xds_contents a2"
  let ?all = "(ca, sa) # xds_contents (a1 @ a2)" and ?t1 = "xds_total ((ca, sa) # xds_contents a1)"
  let ?p1 = "p (i \<mapsto> (a1, ?t1))" and ?p2 = "p (i \<mapsto> (a1, ?t1), j := None)"
  note sl = xds_slot_continue [OF assms(2-4)]
  have split: "xds_contents (a1 @ a2) = xds_contents a1 @ xds_contents a2"
    using assms(11) by (induction a1 rule: xds_contents.induct) simp_all
  have total: "xds_total (ps @ qs) = xds_total ps + xds_total qs" for ps qs
    by (induction ps) (simp_all add: add.assoc)
  have r1: "xds_run (p, cur) ?A = Ret ((?p1, Some (i, va)), [])"
    using xds_run_start [OF assms(2-4), of a1] assms by simp
  have r2: "xds_run (?p1, Some (i, va)) (xds_packet cb sb b) = Ret ((?p2, None), [(fst vb, snd vb, b)])"
    using xds_run_packet [of cb sb j "fst vb" "snd vb" b] assms by simp
  have r3: "xds_run (?p2, None) ?C = Ret ((p (i \<mapsto> (a1 @ a2, xds_total ?all), j := None), Some (i, va)), [])"
    using xds_run_contents [of ?p2 i a1 ?t1 a2 va] assms sl
    by (simp add: xds_step_continue split total add.assoc fun_upd_twist)
  have r4: "xds_run (p (i \<mapsto> (a1 @ a2, xds_total ?all), j := None), Some (i, va)) [xds_terminator ?all]
      = Ret ((p (i := None, j := None), None), [(fst va, snd va, a1 @ a2)])"
    using xds_step_terminator [of "p (i \<mapsto> (a1 @ a2, xds_total ?all), j := None)" i "a1 @ a2" ?all "fst va" "snd va"]
      assms by (cases "xds_terminator ?all") (simp add: fun_upd_twist)
  have run: "xds_run (xds_abs xd) (?A @ xds_packet cb sb b @ ?C @ [xds_terminator ?all])
      = Ret ((p (i := None, j := None), None), [(fst vb, snd vb, b), (fst va, snd va, a1 @ a2)])"
    by (simp only: st xds_run_append [OF r1] xds_run_append [OF r2] xds_run_append [OF r3] r4) simp
  have "\<forall>(a, b) \<in> set (?A @ xds_packet cb sb b @ ?C @ [xds_terminator ?all]). a \<le> 127 \<and> b \<le> 127"
    using xds_text_contents [OF assms(9)] xds_text_contents [OF assms(10)] xds_text_contents [OF assms(14)]
      xds_terminator_chars [of ?all] xds_terminator_chars [of "(cb, sb) # xds_contents b"]
      sl(5,6) xds_slot_sub [OF assms(2)] xds_slot_sub [OF assms(5)] xds_slot_continue(5) [OF assms(5-7)]
    by (simp add: xds_packet_def Let_def ball_Un)
  from xds_stream [OF run assms(1) this, of us] show ?thesis by (auto simp: ball_Un)
qed


lemma xds_init_inv:
  assumes "length (subpacket garbage) = 168" "list_all (\<lambda>sp. length (sp_buffer sp) = 32) (subpacket garbage)"
    "length (xp_buffer (curr garbage)) = 36"
  shows "xds_inv (vbi_xds_demux_init garbage)" "xds_abs (vbi_xds_demux_init garbage) = (Map.empty, None)"
  using assms
  by (auto simp: xds_inv_def vbi_xds_demux_init_def vbi_xds_demux_reset_def list_all_iff xds_sp_ok_def xds_abs_def
    xds_partial_of_def VBI_XDS_MAX_CLASSES_def VBI_XDS_MAX_SUBCLASSES_def)

definition xds_sample :: vbi_xds_demux where
  "xds_sample = vbi_xds_demux_init
     \<lparr> subpacket = replicate 168 \<lparr> sp_buffer = replicate 32 0x55, sp_count = 7, sp_checksum = 9 \<rparr>,
       curr = \<lparr> xds_class = 0, xds_subclass = 0, buffer_size = 0, xp_buffer = replicate 36 0x55 \<rparr>,
       curr_sp = Some 3 \<rparr>"

lemma xds_sample_inv: "xds_inv xds_sample" "xds_abs xds_sample = (Map.empty, None)"
  unfolding xds_sample_def by (rule xds_init_inv; simp add: list_all_iff)+

theorem xds_interleaved_packets_witness:
  "\<exists>xd'. vbi_xds_demux_feed_frame xds_record (xds_sample, [])
        (map xds_line ((1, 3) # xds_contents [0x41, 0x42] @ xds_packet 5 1 [0x58, 0x59, 0x5A]
           @ (1 + 1, 3) # xds_contents [0x43] @ [xds_terminator ((1, 3) # xds_contents ([0x41, 0x42] @ [0x43]))]))
      = Ret (True, xd', [] @ [(fst (2, 1 :: nat), snd (2 :: nat, 1), [0x58, 0x59, 0x5A]), (fst (0, 3 :: nat), snd (0 :: nat, 3), [0x41, 0x42] @ [0x43])])"
  by (rule xds_interleaved_packets [OF xds_sample_inv(1), where i = 3 and j = 49 and va = "(0, 3)" and vb = "(2, 1)"]) (simp_all add: xds_slot_def)

theorem xds_refines_contract_witness:
  "xds_agrees xds_record [] (odd_parity 0x01 \<and> odd_parity 0x83)
     (vbi_xds_demux_feed xds_record (xds_sample, []) [0x01, 0x83])
     (xds_step (Map.empty, None) 1 3)"
  using xds_refines_contract [OF xds_sample_inv(1), where buffer = "[0x01, 0x83]" and callback = xds_record and u = "[]"]
  by (simp add: xds_sample_inv(2) odd_parity_def)

text \<open>C22. The overflow check misses one case: the counter of a packet with 31 bytes is 33, less than the
  limit 34, yet a further pair needs bytes 31 and 32 of the 32 byte buffer. After such a
  packet any pair of contents, with or without a second character, writes past the buffer.\<close>

theorem xds_buffer_overflow:
  assumes "xds_inv xd" and "xds_slot c s = Some k" "odd (unat c)" "c \<le> 0x0E"
    and "xds_text data" "length data = 31" "0x20 \<le> a" "a \<le> 0x7F" "b \<le> 0x7F"
  shows "vbi_xds_demux_feed_frame xds_record (xd, us) (map xds_line ((c, s) # xds_contents data @ [(a, b)])) = Undef"
proof -
  obtain p cur where st: "xds_abs xd = (p, cur)" by (cases "xds_abs xd")
  obtain i cls sub where k: "k = (i, cls, sub)" by (cases k)
  let ?all = "((c, s) # xds_contents data) @ [(a, b)]"
  have "xds_run (p, cur) ((c, s) # xds_contents data) =
      Ret ((p (i \<mapsto> (data, xds_total ((c, s) # xds_contents data))), Some (i, cls, sub)), [])"
    using assms(2-6) k by (intro xds_run_start) simp_all
  from xds_run_append [OF this, of "[(a, b)]"] have run: "xds_run (xds_abs xd) ?all = Undef"
    using assms(6,7) by (simp add: st xds_step_text xds_add_cur)
  have "\<forall>(a, b) \<in> set ?all. a \<le> 127 \<and> b \<le> 127"
    using xds_text_contents [OF assms(5)] xds_slot_sub [OF assms(2)] xds_slot_continue(5) [OF assms(2-4)] assms(8,9)
    by auto
  from xds_run_frame [OF run assms(1) this, of us] show ?thesis by (simp split: c_result.splits)
qed

theorem xds_buffer_overflow_witness:
  "vbi_xds_demux_feed_frame xds_record (xds_sample, []) (map xds_line ((1, 3) # xds_contents (replicate 31 0x41) @ [(0x42, 0)])) = Undef"
  by (rule xds_buffer_overflow [OF xds_sample_inv(1), where k = "(3, 0, 3)"]) (simp_all add: xds_slot_def xds_text_def list_all_iff)

text \<open>The bound on the subclass is one too large: subclass 0x18 of a class (24 columns) is kept in the
  buffer of subclass 0 of the next class. A packet started as the former can be continued as the latter, and is delivered
  under the latter's class and subclass, although no such packet was started.\<close>

theorem xds_subclass_aliases:
  assumes "xds_inv xd" and "c \<in> {1, 3, 5}" and "xds_text data" "data \<noteq> []" "length data \<le> 32"
  shows "\<exists>xd'. vbi_xds_demux_feed_frame xds_record (xd, us)
       (map xds_line ((c, 0x18) # xds_contents data @ [(c + 3, 0), xds_terminator ((c, 0x18) # xds_contents data)]))
    = Ret (True, xd', us @ [((unat c - 1) div 2 + 1, 0, data)])"
proof -
  obtain p cur where st: "xds_abs xd = (p, cur)" by (cases "xds_abs xd")
  let ?cls = "(unat c - 1) div 2" and ?b = "(c, 0x18) # xds_contents data"
  let ?i = "24 * ?cls + 24"
  have c: "odd (unat c)" "c \<le> 0x0E" "xds_slot c 0x18 = Some (?i, ?cls, 24)"
    "xds_slot (c + 3) 0 = Some (?i, ?cls + 1, 0)" "even (unat (c + 3))" "c + 3 \<noteq> 0" "c + 3 \<le> 0x0E" "c \<le> 127" "c + 3 \<le> 127"
    using assms(2) by (auto simp: xds_slot_def)
  have r1: "xds_run (p, cur) ?b = Ret ((p (?i \<mapsto> (data, xds_total ?b)), Some (?i, ?cls, 24)), [])"
    by (rule xds_run_start [OF c(3,1,2) assms(5,3)])
  have run: "xds_run (xds_abs xd) (?b @ [(c + 3, 0), xds_terminator ?b])
      = Ret ((p (?i := None), None), [(?cls + 1, 0, data)])"
    using xds_step_continue [OF c(4-7), of "p (?i \<mapsto> (data, xds_total ?b))" "Some (?i, ?cls, 24)"]
      xds_step_terminator [of "p (?i \<mapsto> (data, xds_total ?b))" ?i data ?b "?cls + 1" 0] assms(4)
    by (simp only: st xds_run_append [OF r1]) (cases "xds_terminator ?b", simp)
  have "\<forall>(a, b) \<in> set (?b @ [(c + 3, 0), xds_terminator ?b]). a \<le> 127 \<and> b \<le> 127"
    using xds_text_contents [OF assms(3)] xds_terminator_chars [of ?b] c(8,9) by simp
  from xds_stream [OF run assms(1) this, of us] show ?thesis by auto
qed

theorem xds_subclass_aliases_witness:
  "\<exists>xd'. vbi_xds_demux_feed_frame xds_record (xds_sample, [])
       (map xds_line ((1, 0x18) # xds_contents [0x41] @ [(1 + 3, 0), xds_terminator ((1, 0x18) # xds_contents [0x41])]))
    = Ret (True, xd', [] @ [((unat (1 :: u8) - 1) div 2 + 1, 0, [0x41])])"
  by (rule xds_subclass_aliases [OF xds_sample_inv(1)]) simp_all

end
