(* ===== verification/Page_Table.thy ===== *)
theory Page_Table
  imports Bcd
begin

text \<open>
  The set of Teletext page numbers, \<^verbatim>\<open>vbi/src/page_table.c\<close>: whole pages in a bit map of
  64 words with a counter of the set bits, subpage ranges in a vector that is resized as needed.
  Page and subpage numbers are C ints that stay in the range of that type.
  The memory of the vector is the list \<open>subpages\<close>, of which the first \<open>subpages_size\<close>
  cells are in use; an access past the memory is undefined. The allocator is
  a parameter \<open>mem\<close>: for a size in bytes it fails or gives the contents of fresh cells.
\<close>

section \<open>State\<close>

definition VBI_ANY_SUBNO :: int where "VBI_ANY_SUBNO = 0x3F7F"

definition MAX_SUBNO :: int where "MAX_SUBNO = 0x3F7E"

record subpage_range =
  sr_pgno :: int
  sr_first :: int
  sr_last :: int

record vbi_page_table =
  pages :: "u32 list"
  pages_popcnt :: u32
  subpages :: "subpage_range list"
  subpages_size :: nat
  subpages_capacity :: nat

definition vbi_page_table_new :: vbi_page_table where
  "vbi_page_table_new = \<lparr> pages = replicate 64 0, pages_popcnt = 0, subpages = [], subpages_size = 0,
     subpages_capacity = 0 \<rparr>"

section \<open>Queries\<close>

definition valid_pgno :: "int \<Rightarrow> bool" where
  "valid_pgno pgno \<longleftrightarrow> (word_of_int pgno :: u32) - 0x100 < 0x800"

definition page_mask :: "int \<Rightarrow> u32" where
  "page_mask pgno = push_bit (nat (pgno AND 31)) 1"

definition page_offset :: "int \<Rightarrow> nat" where
  "page_offset pgno = nat (drop_bit 5 (pgno - 0x100))"

definition contains_all_subpages :: "vbi_page_table \<Rightarrow> int \<Rightarrow> bool" where
  "contains_all_subpages pt pgno \<longleftrightarrow> 0 \<noteq> (pages pt ! page_offset pgno AND page_mask pgno)"

definition vbi_page_table_contains_all_subpages :: "vbi_page_table \<Rightarrow> int \<Rightarrow> bool" where
  "vbi_page_table_contains_all_subpages pt pgno = (if \<not> valid_pgno pgno then False else contains_all_subpages pt pgno)"

definition vbi_page_table_contains_subpage :: "vbi_page_table \<Rightarrow> int \<Rightarrow> int \<Rightarrow> bool" where
  "vbi_page_table_contains_subpage pt pgno subno =
     (if \<not> valid_pgno pgno then False
      else if contains_all_subpages pt pgno then True
      else if VBI_ANY_SUBNO = subno
      then list_ex (\<lambda>r. pgno = sr_pgno r) (take (subpages_size pt) (subpages pt))
      else list_ex (\<lambda>r. pgno = sr_pgno r \<and> subno \<ge> sr_first r \<and> subno \<le> sr_last r)
             (take (subpages_size pt) (subpages pt)))"

definition vbi_page_table_contains_page :: "vbi_page_table \<Rightarrow> int \<Rightarrow> bool" where
  "vbi_page_table_contains_page pt pgno = vbi_page_table_contains_subpage pt pgno VBI_ANY_SUBNO"

text \<open>The search for the next subpage of the same page: a hit ends it, else the lowest start so far.\<close>

primrec next_in_page :: "subpage_range list \<Rightarrow> int \<Rightarrow> int \<Rightarrow> int \<Rightarrow> int + int" where
  "next_in_page [] last_pgno next_subno min_subno = Inr min_subno"
| "next_in_page (r # rs) last_pgno next_subno min_subno =
     (if last_pgno \<noteq> sr_pgno r then next_in_page rs last_pgno next_subno min_subno
      else if next_subno > sr_last r then next_in_page rs last_pgno next_subno min_subno
      else if next_subno \<ge> sr_first r then Inl next_subno
      else next_in_page rs last_pgno next_subno (if sr_first r < min_subno then sr_first r else min_subno))"

text \<open>The search for the next page with subpage ranges.\<close>

primrec next_range :: "subpage_range list \<Rightarrow> int \<Rightarrow> int \<times> int \<Rightarrow> int \<times> int" where
  "next_range [] next_pgno m = m"
| "next_range (r # rs) next_pgno m =
     next_range rs next_pgno (if next_pgno \<le> sr_pgno r \<and> next_pgno < fst m then (sr_pgno r, sr_first r) else m)"

text \<open>The library function: one plus the number of the lowest set bit, or 0.\<close>

definition ffs :: "u32 \<Rightarrow> int" where
  "ffs w = (case List.find (\<lambda>k. bit w k) [0..<32] of None \<Rightarrow> 0 | Some k \<Rightarrow> int k + 1)"

function scan_pages :: "u32 list \<Rightarrow> u32 \<Rightarrow> int \<Rightarrow> nat \<Rightarrow> (u32 \<times> int) option" where
  "scan_pages ps msk next_pgno offset =
     (if 0 \<noteq> msk then Some (msk, next_pgno)
      else if next_pgno + 32 \<ge> 0x900 then None
      else scan_pages ps (ps ! (offset + 1)) (next_pgno + 32) (offset + 1))"
  by pat_completeness auto

termination by (relation "measure (\<lambda>(_, _, next_pgno, _). nat (0x900 - next_pgno))") auto

declare scan_pages.simps [simp del]

text \<open>The second half, from the first candidate page; None stands for FALSE.\<close>

definition next_from :: "vbi_page_table \<Rightarrow> int \<Rightarrow> (int \<times> int) option" where
  "next_from pt next_pgno =
     (let (min_pgno, min_subno) = next_range (take (subpages_size pt) (subpages pt)) next_pgno (0x900, 0);
          offset = page_offset next_pgno;
          msk = push_bit (nat (next_pgno AND 31)) (- 1) AND pages pt ! offset
      in case scan_pages (pages pt) msk (next_pgno AND NOT 31) offset of
           None \<Rightarrow> None
         | Some (msk, next_pgno) \<Rightarrow>
             let next_pgno = next_pgno + (ffs msk - 1)
             in if min_pgno < next_pgno then Some (min_pgno, min_subno) else Some (next_pgno, VBI_ANY_SUBNO))"

definition vbi_page_table_next_subpage :: "vbi_page_table \<Rightarrow> int \<Rightarrow> int \<Rightarrow> (int \<times> int) option" where
  "vbi_page_table_next_subpage pt last_pgno last_subno =
     (if last_pgno \<ge> 0x8FF then None
      else if last_pgno < 0x100 then next_from pt 0x100
      else if last_subno \<le> MAX_SUBNO then
        (case next_in_page (take (subpages_size pt) (subpages pt)) last_pgno (last_subno + 1) (MAX_SUBNO + 1) of
           Inl subno \<Rightarrow> Some (last_pgno, subno)
         | Inr min_subno \<Rightarrow> if min_subno \<le> MAX_SUBNO then Some (last_pgno, min_subno)
                           else next_from pt (last_pgno + 1))
      else next_from pt (last_pgno + 1))"

definition vbi_page_table_next_page :: "vbi_page_table \<Rightarrow> int \<Rightarrow> int option" where
  "vbi_page_table_next_page pt pgno = map_option fst (vbi_page_table_next_subpage pt pgno VBI_ANY_SUBNO)"

definition vbi_page_table_num_pages :: "vbi_page_table \<Rightarrow> u32" where
  "vbi_page_table_num_pages pt = pages_popcnt pt + of_nat (subpages_size pt)"

section \<open>The vector of subpages\<close>

type_synonym allocator = "nat \<Rightarrow> (nat \<Rightarrow> subpage_range) option"

text \<open>\<^verbatim>\<open>sizeof (struct subpage_range)\<close>, three 32 bit integers.\<close>

definition element_size :: nat where "element_size = 12"

text \<open>\<^verbatim>\<open>realloc\<close>: the old cells that fit, then fresh ones.\<close>

definition vbi_realloc :: "allocator \<Rightarrow> subpage_range list \<Rightarrow> nat \<Rightarrow> subpage_range list option" where
  "vbi_realloc mem vec n =
     map_option (\<lambda>fresh. take n vec @ map fresh [length vec..<n]) (mem (n * element_size))"

definition shrink_vector :: "allocator \<Rightarrow> subpage_range list \<Rightarrow> nat \<Rightarrow> nat \<Rightarrow> subpage_range list \<times> nat" where
  "shrink_vector mem vec capacity min_capacity =
     (if min_capacity \<ge> capacity then (vec, capacity)
      else case vbi_realloc mem vec min_capacity of
             None \<Rightarrow> (vec, capacity)
           | Some vec \<Rightarrow> (vec, min_capacity))"

definition extend_vector :: "allocator \<Rightarrow> subpage_range list \<Rightarrow> nat \<Rightarrow> nat \<Rightarrow> (subpage_range list \<times> nat) option" where
  "extend_vector mem vec capacity min_capacity =
     (let max_capacity = 0xFFFFFFFF div element_size
      in if min_capacity > max_capacity then None
         else let new_capacity = (if capacity > max_capacity div 2 then max_capacity
                                  else min min_capacity (capacity * 2))
              in case vbi_realloc mem vec new_capacity of
                   None \<Rightarrow> None
                 | Some vec \<Rightarrow> Some (vec, new_capacity))"

definition shrink_subpages_vector :: "allocator \<Rightarrow> vbi_page_table \<Rightarrow> vbi_page_table" where
  "shrink_subpages_vector mem pt =
     (if subpages_size pt \<ge> subpages_capacity pt div 4 then pt
      else case shrink_vector mem (subpages pt) (subpages_capacity pt) (subpages_capacity pt div 2) of
             (vec, capacity) \<Rightarrow> pt \<lparr> subpages := vec, subpages_capacity := capacity \<rparr>)"

definition extend_subpages_vector :: "allocator \<Rightarrow> vbi_page_table \<Rightarrow> nat \<Rightarrow> vbi_page_table option" where
  "extend_subpages_vector mem pt min_capacity =
     (if min_capacity \<le> subpages_capacity pt then Some pt
      else map_option (\<lambda>(vec, capacity). pt \<lparr> subpages := vec, subpages_capacity := capacity \<rparr>)
             (extend_vector mem (subpages pt) (subpages_capacity pt) min_capacity))"

text \<open>\<^verbatim>\<open>pt->subpages[i] = r\<close>.\<close>

definition put_range :: "vbi_page_table \<Rightarrow> nat \<Rightarrow> subpage_range \<Rightarrow> vbi_page_table c_result" where
  "put_range pt i r =
     (if i < length (subpages pt) then Ret (pt \<lparr> subpages := (subpages pt) [i := r] \<rparr>) else Undef)"

section \<open>Adding and removing pages\<close>

text \<open>The number of set bits, a compiler builtin in the source.\<close>

definition popcnt :: "u32 \<Rightarrow> u32" where
  "popcnt x = of_nat (length (filter (bit x) [0..<32]))"

definition valid_pgno_range :: "int \<Rightarrow> int \<Rightarrow> bool" where
  "valid_pgno_range first_pgno last_pgno \<longleftrightarrow> valid_pgno first_pgno \<and> valid_pgno last_pgno"

text \<open>The loop keeps the ranges outside of the page range, in order; the cells behind them stay.\<close>

definition remove_subpages_in_page_range :: "allocator \<Rightarrow> vbi_page_table \<Rightarrow> int \<Rightarrow> int \<Rightarrow> vbi_page_table" where
  "remove_subpages_in_page_range mem pt first_pgno last_pgno =
     (let kept = filter (\<lambda>r. sr_pgno r < first_pgno \<or> sr_pgno r > last_pgno) (take (subpages_size pt) (subpages pt))
      in shrink_subpages_vector mem
           (pt \<lparr> subpages := kept @ drop (length kept) (subpages pt), subpages_size := length kept \<rparr>))"

text \<open>One word of the bit map.\<close>

definition remove_word :: "u32 \<Rightarrow> nat \<Rightarrow> vbi_page_table \<Rightarrow> vbi_page_table" where
  "remove_word msk offset pt =
     (let old_mask = pages pt ! offset
      in pt \<lparr> pages_popcnt := pages_popcnt pt - popcnt (old_mask AND msk),
              pages := (pages pt) [offset := old_mask AND NOT msk] \<rparr>)"

definition clear_word :: "nat \<Rightarrow> vbi_page_table \<Rightarrow> vbi_page_table" where
  "clear_word offset pt =
     (let old_mask = pages pt ! offset
      in pt \<lparr> pages_popcnt := pages_popcnt pt - popcnt old_mask, pages := (pages pt) [offset := 0] \<rparr>)"

definition add_word :: "u32 \<Rightarrow> nat \<Rightarrow> vbi_page_table \<Rightarrow> vbi_page_table" where
  "add_word msk offset pt =
     (let old_mask = pages pt ! offset
      in pt \<lparr> pages_popcnt := pages_popcnt pt + popcnt (msk AND NOT old_mask),
              pages := (pages pt) [offset := msk OR old_mask] \<rparr>)"

definition fill_word :: "nat \<Rightarrow> vbi_page_table \<Rightarrow> vbi_page_table" where
  "fill_word offset pt =
     (let old_mask = pages pt ! offset
      in pt \<lparr> pages_popcnt := pages_popcnt pt + (32 - popcnt old_mask), pages := (pages pt) [offset := - 1] \<rparr>)"

definition vbi_page_table_remove_pages :: "allocator \<Rightarrow> vbi_page_table \<Rightarrow> int \<Rightarrow> int \<Rightarrow> bool \<times> vbi_page_table" where
  "vbi_page_table_remove_pages mem pt first_pgno last_pgno =
     (if \<not> valid_pgno_range first_pgno last_pgno then (False, pt)
      else
        let (first_pgno, last_pgno) =
              (if first_pgno > last_pgno then (last_pgno, first_pgno) else (first_pgno, last_pgno))
        in if 0x8FF = last_pgno \<and> 0x100 = first_pgno then
             (True, (shrink_subpages_vector mem (pt \<lparr> subpages_size := 0 \<rparr>)) \<lparr> pages := replicate 64 0, pages_popcnt := 0 \<rparr>)
           else
             let pt = remove_subpages_in_page_range mem pt first_pgno last_pgno;
                 first_mask = push_bit (nat (first_pgno AND 31)) (- 1);
                 first_offset = page_offset first_pgno;
                 last_mask = NOT (push_bit (nat (last_pgno AND 31)) (- 2));
                 last_offset = page_offset last_pgno
             in if first_offset \<noteq> last_offset then
                  let pt = remove_word first_mask first_offset pt;
                      pt = fold clear_word [first_offset + 1..<last_offset] pt
                  in (True, remove_word last_mask last_offset pt)
                else (True, remove_word (last_mask AND first_mask) last_offset pt))"

definition vbi_page_table_add_pages :: "allocator \<Rightarrow> vbi_page_table \<Rightarrow> int \<Rightarrow> int \<Rightarrow> bool \<times> vbi_page_table" where
  "vbi_page_table_add_pages mem pt first_pgno last_pgno =
     (if \<not> valid_pgno_range first_pgno last_pgno then (False, pt)
      else
        let (first_pgno, last_pgno) =
              (if first_pgno > last_pgno then (last_pgno, first_pgno) else (first_pgno, last_pgno))
        in if 0x8FF = last_pgno \<and> 0x100 = first_pgno then
             (True, (shrink_subpages_vector mem (pt \<lparr> subpages_size := 0 \<rparr>)) \<lparr> pages := replicate 64 (- 1), pages_popcnt := 0x800 \<rparr>)
           else
             let pt = remove_subpages_in_page_range mem pt first_pgno last_pgno;
                 first_mask = push_bit (nat (first_pgno AND 31)) (- 1);
                 first_offset = page_offset first_pgno;
                 last_mask = NOT (push_bit (nat (last_pgno AND 31)) (- 2));
                 last_offset = page_offset last_pgno
             in if first_offset \<noteq> last_offset then
                  let pt = add_word first_mask first_offset pt;
                      pt = fold fill_word [first_offset + 1..<last_offset] pt
                  in (True, add_word last_mask last_offset pt)
                else (True, add_word (last_mask AND first_mask) last_offset pt))"

definition vbi_page_table_remove_all_pages :: "allocator \<Rightarrow> vbi_page_table \<Rightarrow> vbi_page_table" where
  "vbi_page_table_remove_all_pages mem pt = snd (vbi_page_table_remove_pages mem pt 0x100 0x8FF)"

definition vbi_page_table_add_all_pages :: "allocator \<Rightarrow> vbi_page_table \<Rightarrow> vbi_page_table" where
  "vbi_page_table_add_all_pages mem pt = snd (vbi_page_table_add_pages mem pt 0x100 0x8FF)"

text \<open>The body of the inner loop, for two rows of ten pages, and the two nested loops.\<close>

definition displayable_rows :: "allocator \<Rightarrow> vbi_page_table \<Rightarrow> int \<Rightarrow> vbi_page_table" where
  "displayable_rows mem pt pgno =
     (let pt = remove_subpages_in_page_range mem pt (pgno + 0x00) (pgno + 0x09);
          pt = remove_subpages_in_page_range mem pt (pgno + 0x10) (pgno + 0x19)
      in add_word 0x03FF03FF (page_offset pgno) pt)"

function displayable_magazine :: "allocator \<Rightarrow> vbi_page_table \<Rightarrow> int \<Rightarrow> int \<Rightarrow> vbi_page_table \<times> int" where
  "displayable_magazine mem pt pgno end_pgno =
     (let pt = displayable_rows mem pt pgno; pgno = pgno + 0x20
      in if pgno < end_pgno then displayable_magazine mem pt pgno end_pgno else (pt, pgno))"
  by pat_completeness auto

termination by (relation "measure (\<lambda>(_, _, pgno, end_pgno). nat (end_pgno - pgno))") auto

declare displayable_magazine.simps [simp del]

lemma displayable_magazine_advances: "pgno < snd (displayable_magazine mem pt pgno end_pgno)"
proof (induction mem pt pgno end_pgno rule: displayable_magazine.induct)
  case (1 mem pt pgno end_pgno)
  show ?case
  proof (cases "pgno + 0x20 < end_pgno")
    case True
    then have "pgno + 0x20 < snd (displayable_magazine mem (displayable_rows mem pt pgno) (pgno + 0x20) end_pgno)"
      by (rule 1 [OF refl refl])
    then show ?thesis using True by (subst displayable_magazine.simps) (simp add: Let_def)
  qed (subst displayable_magazine.simps, simp add: Let_def)
qed

function displayable_loop :: "allocator \<Rightarrow> vbi_page_table \<Rightarrow> int \<Rightarrow> vbi_page_table" where
  "displayable_loop mem pt pgno =
     (if pgno < 0x900 then
        let (pt', pgno') = displayable_magazine mem pt pgno (pgno + 0xA0)
        in displayable_loop mem pt' (pgno' + (0x100 - 0xA0))
      else pt)"
  by pat_completeness auto

termination
proof (relation "measure (\<lambda>(_, _, pgno). nat (0x900 - pgno))")
  fix mem pt and pgno :: int and x pt' pgno'
  assume "pgno < 0x900" "x = displayable_magazine mem pt pgno (pgno + 0xA0)" "(pt', pgno') = x"
  then have "pgno' = snd (displayable_magazine mem pt pgno (pgno + 0xA0))" by (metis snd_conv)
  then have "pgno < pgno'" using displayable_magazine_advances by simp
  with \<open>pgno < 0x900\<close>
  show "((mem, pt', pgno' + (0x100 - 0xA0)), mem, pt, pgno) \<in> measure (\<lambda>(_, _, pgno). nat (0x900 - pgno))"
    by simp
qed simp

declare displayable_loop.simps [simp del]

definition vbi_page_table_add_all_displayable_pages :: "allocator \<Rightarrow> vbi_page_table \<Rightarrow> vbi_page_table" where
  "vbi_page_table_add_all_displayable_pages mem pt = displayable_loop mem pt 0x100"

section \<open>Adding and removing subpages\<close>

definition valid_subpage_range :: "int \<Rightarrow> int \<Rightarrow> int \<Rightarrow> bool" where
  "valid_subpage_range pgno first_subno last_subno =
     (if \<not> valid_pgno pgno then False
      else \<not> ((word_of_int first_subno :: u32) > word_of_int MAX_SUBNO
              \<or> (word_of_int last_subno :: u32) > word_of_int MAX_SUBNO))"

text \<open>A page with all subpages becomes at most two ranges at the end of the vector.\<close>

definition split_page :: "allocator \<Rightarrow> vbi_page_table \<Rightarrow> int \<Rightarrow> int \<Rightarrow> int \<Rightarrow> (bool \<times> vbi_page_table) c_result" where
  "split_page mem pt pgno first_subno last_subno =
     (let i = subpages_size pt
      in case extend_subpages_vector mem pt (i + 2) of
           None \<Rightarrow> Ret (False, pt)
         | Some pt \<Rightarrow>
             let pt = pt \<lparr> pages_popcnt := pages_popcnt pt - 1,
                           pages := (pages pt) [page_offset pgno := pages pt ! page_offset pgno AND NOT (page_mask pgno)] \<rparr>
             in c_bind (if first_subno > 0
                        then c_bind (put_range pt i \<lparr> sr_pgno = pgno, sr_first = 0, sr_last = first_subno - 1 \<rparr>) (\<lambda>pt. Ret (pt, i + 1))
                        else Ret (pt, i))
                  (\<lambda>(pt, i). c_bind (if last_subno < MAX_SUBNO
                        then c_bind (put_range pt i \<lparr> sr_pgno = pgno, sr_first = last_subno + 1, sr_last = MAX_SUBNO \<rparr>) (\<lambda>pt. Ret (pt, i + 1))
                        else Ret (pt, i))
                  (\<lambda>(pt, i). Ret (True, pt \<lparr> subpages_size := i \<rparr>))))"

text \<open>\<^verbatim>\<open>memmove\<close> of \<open>n\<close> cells.\<close>

definition move_ranges :: "subpage_range list \<Rightarrow> nat \<Rightarrow> nat \<Rightarrow> nat \<Rightarrow> subpage_range list c_result" where
  "move_ranges vec dst src n =
     (if dst + n \<le> length vec \<and> src + n \<le> length vec then Ret (c_memcpy dst (take n (drop src vec)) vec) else Undef)"

text \<open>
  The loop over the ranges. The first component of the state counts the cells still to visit, so that the
  recursion ends also where an index would run past the vector; a round keeps \<open>todo = size - i\<close>.
\<close>

primrec remove_ranges ::
  "nat \<Rightarrow> allocator \<Rightarrow> vbi_page_table \<Rightarrow> nat \<Rightarrow> int \<Rightarrow> int \<Rightarrow> int \<Rightarrow> (bool \<times> vbi_page_table) c_result" where
  "remove_ranges 0 mem pt i pgno first_subno last_subno = Ret (True, shrink_subpages_vector mem pt)"
| "remove_ranges (Suc todo) mem pt i pgno first_subno last_subno =
     (let r = subpages pt ! i
      in if pgno \<noteq> sr_pgno r then remove_ranges todo mem pt (i + 1) pgno first_subno last_subno
         else if first_subno > sr_last r then remove_ranges todo mem pt (i + 1) pgno first_subno last_subno
         else if last_subno < sr_first r then remove_ranges todo mem pt (i + 1) pgno first_subno last_subno
         else if first_subno > sr_first r \<and> last_subno < sr_last r then
           (case extend_subpages_vector mem pt (subpages_size pt + 1) of
              None \<Rightarrow> Ret (False, pt)
            | Some pt \<Rightarrow>
                c_bind (move_ranges (subpages pt) (i + 1) i (subpages_size pt - i)) (\<lambda>vec.
                  let vec = vec [i := (vec ! i) \<lparr> sr_last := first_subno \<rparr>];
                      vec = vec [i + 1 := (vec ! (i + 1)) \<lparr> sr_first := last_subno + 1 \<rparr>]
                  in remove_ranges todo mem (pt \<lparr> subpages := vec, subpages_size := subpages_size pt + 1 \<rparr>) (i + 2)
                       pgno first_subno last_subno))
         else
           let r = (if first_subno > sr_first r then r \<lparr> sr_first := first_subno \<rparr> else r);
               r = (if last_subno < sr_last r then r \<lparr> sr_last := last_subno \<rparr> else r);
               pt = pt \<lparr> subpages := (subpages pt) [i := r] \<rparr>
           in if sr_first r > sr_last r then
                c_bind (move_ranges (subpages pt) i (i + 1) (subpages_size pt - i)) (\<lambda>vec.
                  remove_ranges todo mem (pt \<lparr> subpages := vec, subpages_size := subpages_size pt - 1 \<rparr>) i
                    pgno first_subno last_subno)
              else remove_ranges todo mem pt (i + 1) pgno first_subno last_subno)"

definition vbi_page_table_remove_subpages ::
  "allocator \<Rightarrow> vbi_page_table \<Rightarrow> int \<Rightarrow> int \<Rightarrow> int \<Rightarrow> (bool \<times> vbi_page_table) c_result" where
  "vbi_page_table_remove_subpages mem pt pgno first_subno last_subno =
     (if VBI_ANY_SUBNO = first_subno \<and> VBI_ANY_SUBNO = last_subno
      then Ret (vbi_page_table_remove_pages mem pt pgno pgno)
      else if \<not> valid_subpage_range pgno first_subno last_subno then Ret (False, pt)
      else
        let (first_subno, last_subno) =
              (if first_subno > last_subno then (last_subno, first_subno) else (first_subno, last_subno))
        in if 0 \<noteq> pages pt ! page_offset pgno AND page_mask pgno
           then split_page mem pt pgno first_subno last_subno
           else remove_ranges (subpages_size pt) mem pt 0 pgno first_subno last_subno)"

text \<open>The loop of \<^verbatim>\<open>add_subpages\<close> widens the first range of the page that overlaps.\<close>

primrec widen_range :: "subpage_range list \<Rightarrow> int \<Rightarrow> int \<Rightarrow> int \<Rightarrow> subpage_range list option" where
  "widen_range [] pgno first_subno last_subno = None"
| "widen_range (r # rs) pgno first_subno last_subno =
     (if pgno = sr_pgno r \<and> last_subno \<ge> sr_first r \<and> first_subno \<le> sr_last r
      then let r = (if first_subno < sr_first r then r \<lparr> sr_first := first_subno \<rparr> else r);
               r = (if last_subno > sr_last r then r \<lparr> sr_last := last_subno \<rparr> else r)
           in Some (r # rs)
      else map_option ((#) r) (widen_range rs pgno first_subno last_subno))"

definition vbi_page_table_add_subpages ::
  "allocator \<Rightarrow> vbi_page_table \<Rightarrow> int \<Rightarrow> int \<Rightarrow> int \<Rightarrow> (bool \<times> vbi_page_table) c_result" where
  "vbi_page_table_add_subpages mem pt pgno first_subno last_subno =
     (if VBI_ANY_SUBNO = first_subno \<and> VBI_ANY_SUBNO = last_subno
      then Ret (vbi_page_table_add_pages mem pt pgno pgno)
      else if \<not> valid_subpage_range pgno first_subno last_subno then Ret (False, pt)
      else if vbi_page_table_contains_page pt pgno then Ret (True, pt)
      else
        let (first_subno, last_subno) =
              (if first_subno > last_subno then (last_subno, first_subno) else (first_subno, last_subno));
            i = subpages_size pt
        in case widen_range (take i (subpages pt)) pgno first_subno last_subno of
             Some used \<Rightarrow> Ret (True, pt \<lparr> subpages := used @ drop i (subpages pt) \<rparr>)
           | None \<Rightarrow>
               (case extend_subpages_vector mem pt (i + 1) of
                  None \<Rightarrow> Ret (False, pt)
                | Some pt \<Rightarrow>
                    c_bind (put_range pt i \<lparr> sr_pgno = pgno, sr_first = first_subno, sr_last = last_subno \<rparr>)
                      (\<lambda>pt. Ret (True, pt \<lparr> subpages_size := i + 1 \<rparr>))))"

section \<open>The set of whole pages\<close>

definition pgno_ok :: "int \<Rightarrow> bool" where
  "pgno_ok p \<longleftrightarrow> 0x100 \<le> p \<and> p < 0x900"

definition page_set :: "vbi_page_table \<Rightarrow> int set" where
  "page_set pt = {p. pgno_ok p \<and> bit (pages pt ! page_offset p) (nat (p mod 32))}"

text \<open>The number of pages in the bit map, and the invariant of the table.\<close>

definition bits :: "u32 \<Rightarrow> nat" where
  "bits w = card {k. k < 32 \<and> bit w k}"

definition pt_inv :: "vbi_page_table \<Rightarrow> bool" where
  "pt_inv pt \<longleftrightarrow> length (pages pt) = 64 \<and> pages_popcnt pt = of_nat (sum_list (map bits (pages pt)))
     \<and> length (subpages pt) = subpages_capacity pt \<and> subpages_size pt \<le> subpages_capacity pt"

lemma valid_pgno_iff: "- 0x80000000 \<le> p \<Longrightarrow> p < 0x80000000 \<Longrightarrow> valid_pgno p \<longleftrightarrow> pgno_ok p"
proof -
  assume p: "- 0x80000000 \<le> p" "p < 0x80000000"
  have "uint ((word_of_int p :: u32) - 0x100) = (p - 0x100) mod 2 ^ 32"
    by (simp add: uint_word_ariths uint_word_of_int mod_diff_left_eq)
  then have "valid_pgno p \<longleftrightarrow> (p - 0x100) mod 2 ^ 32 < 0x800"
    by (simp add: valid_pgno_def word_less_def)
  also have "\<dots> \<longleftrightarrow> pgno_ok p"
  proof (cases "0x100 \<le> p")
    case True
    then have "(p - 0x100) mod 2 ^ 32 = p - 0x100" using p by (intro mod_pos_pos_trivial) simp_all
    then show ?thesis using True by (simp add: pgno_ok_def)
  next
    case False
    then have "(p - 0x100) mod 2 ^ 32 = p - 0x100 + 2 ^ 32"
      using p by (subst mod_add_self2 [symmetric], intro mod_pos_pos_trivial) simp_all
    then show ?thesis using False p by (simp add: pgno_ok_def)
  qed
  finally show ?thesis .
qed

lemma pgno_ok_valid [simp]: "pgno_ok p \<Longrightarrow> valid_pgno p"
  using valid_pgno_iff [of p] by (simp add: pgno_ok_def)

lemma page_and_31: "p AND 31 = p mod (32 :: int)"
  using take_bit_eq_mask [of 5 p] by (simp add: take_bit_eq_mod mask_eq_exp_minus_1)

lemma page_offset_div: "page_offset p = nat ((p - 0x100) div 32)"
  by (simp add: page_offset_def drop_bit_eq_div)

lemma page_offset_less: "pgno_ok p \<Longrightarrow> page_offset p < 64"
  by (auto simp: page_offset_div pgno_ok_def)

lemma page_bit_less: "nat (p mod 32) < 32"
  by simp

text \<open>A page number is its word and its bit.\<close>

lemma page_coords:
  assumes "pgno_ok p"
  shows "p = 0x100 + 32 * int (page_offset p) + int (nat (p mod 32))"
proof -
  have "(p - 0x100) mod 32 = p mod 32" using mod_mult_self1 [of "p - 0x100" 8 32] by simp
  moreover have "0 \<le> (p - 0x100) div 32" using assms by (simp add: pgno_ok_def pos_imp_zdiv_nonneg_iff)
  ultimately show ?thesis
    using div_mult_mod_eq [of "p - 0x100" 32] by (simp add: page_offset_div)
qed

lemma contains_all_iff: "pgno_ok p \<Longrightarrow> contains_all_subpages pt p \<longleftrightarrow> p \<in> page_set pt"
  using and_exp_eq_0_iff_not_bit [of "pages pt ! page_offset p" "nat (p mod 32)"]
  by (auto simp: contains_all_subpages_def page_mask_def page_and_31 page_set_def push_bit_of_1)

lemma contains_all_subpages_iff:
  "- 0x80000000 \<le> p \<Longrightarrow> p < 0x80000000 \<Longrightarrow> vbi_page_table_contains_all_subpages pt p \<longleftrightarrow> p \<in> page_set pt"
  by (auto simp: vbi_page_table_contains_all_subpages_def valid_pgno_iff contains_all_iff page_set_def)

section \<open>Counting bits\<close>

lemma popcnt_bits: "popcnt w = of_nat (bits w)"
proof -
  have "length (filter (bit w) [0..<32]) = card (set (filter (bit w) [0..<32]))"
    by (rule distinct_card [symmetric]) simp
  also have "set (filter (bit w) [0..<32]) = {k. k < 32 \<and> bit w k}" by auto
  finally show ?thesis by (simp add: popcnt_def bits_def)
qed

lemma bits_disjoint:
  assumes "\<And>k. k < 32 \<Longrightarrow> bit w k \<longleftrightarrow> bit a k \<or> bit b k" "\<And>k. k < 32 \<Longrightarrow> \<not> (bit a k \<and> bit b k)"
  shows "bits w = bits a + bits b"
proof -
  have "{k. k < 32 \<and> bit w k} = {k. k < 32 \<and> bit a k} \<union> {k. k < 32 \<and> bit b k}" using assms(1) by auto
  then show ?thesis
    unfolding bits_def using assms(2) by (simp only:) (rule card_Un_disjoint; auto)
qed

lemma bits_0 [simp]: "bits 0 = 0" and bits_minus_1 [simp]: "bits (- 1) = 32"
  by (simp_all add: bits_def)

lemma add_word_count: "popcnt (m OR w) = popcnt w + popcnt (m AND NOT w)"
  by (simp only: popcnt_bits flip: of_nat_add, subst bits_disjoint [of "m OR w" w "m AND NOT w"])
    (auto simp: bit_simps)

lemma remove_word_count: "popcnt (w AND NOT m) = popcnt w - popcnt (w AND m)"
proof -
  have "bits w = bits (w AND NOT m) + bits (w AND m)" by (rule bits_disjoint) (auto simp: bit_simps)
  then show ?thesis by (simp add: popcnt_bits)
qed

section \<open>Steps on the bit map\<close>

text \<open>
  The four word operations set or clear the bits of a mask: \<open>fill_word\<close> is
  \<open>add_word\<close> with all bits, \<open>clear_word\<close> is \<open>remove_word\<close> with all bits.
\<close>

lemma fill_word_add: "fill_word = add_word (- 1)"
proof (intro ext)
  fix offset :: nat and pt :: vbi_page_table
  have "popcnt (NOT (pages pt ! offset)) = 32 - popcnt (pages pt ! offset)"
    using add_word_count [of "- 1" "pages pt ! offset"] by (simp add: popcnt_bits [of "- 1"] algebra_simps)
  then show "fill_word offset pt = add_word (- 1) offset pt"
    by (simp add: fill_word_def add_word_def Let_def)
qed

lemma clear_word_remove: "clear_word = remove_word (- 1)"
  by (simp add: clear_word_def remove_word_def Let_def fun_eq_iff)

definition set_bits :: "bool \<Rightarrow> u32 \<Rightarrow> nat \<Rightarrow> vbi_page_table \<Rightarrow> vbi_page_table" where
  "set_bits b = (if b then add_word else remove_word)"

lemma set_bits_fields [simp]:
  "subpages (set_bits b m i pt) = subpages pt" "subpages_size (set_bits b m i pt) = subpages_size pt"
  "subpages_capacity (set_bits b m i pt) = subpages_capacity pt" "length (pages (set_bits b m i pt)) = length (pages pt)"
  by (simp_all add: set_bits_def add_word_def remove_word_def Let_def)

lemma set_bits_bit:
  "i < length (pages pt) \<Longrightarrow> k < 32 \<Longrightarrow> bit (pages (set_bits b m i pt) ! j) k \<longleftrightarrow>
     (if j = i \<and> bit m k then b else bit (pages pt ! j) k)"
  by (auto simp: set_bits_def add_word_def remove_word_def Let_def nth_list_update bit_simps)

lemma sum_bits_update:
  "i < length ws \<Longrightarrow> of_nat (sum_list (map bits (ws [i := w]))) = of_nat (sum_list (map bits ws)) + popcnt w - popcnt (ws ! i)"
proof -
  assume i: "i < length ws"
  have "sum_list (map bits (ws [i := w])) + bits (ws ! i) = sum_list (map bits ws) + bits w"
    using i elem_le_sum_list [of i "map bits ws"] by (simp add: map_update sum_list_update)
  then show ?thesis by (metis add_diff_cancel_right' of_nat_add popcnt_bits)
qed

lemma set_bits_inv: "pt_inv pt \<Longrightarrow> i < 64 \<Longrightarrow> pt_inv (set_bits b m i pt)"
  by (auto simp: pt_inv_def set_bits_def add_word_def remove_word_def Let_def sum_bits_update
    add_word_count remove_word_count)

text \<open>Setting or clearing masks in several words.\<close>

lemma fold_set_bits:
  assumes "distinct is" "\<forall>i \<in> set is. i < 64" "pt_inv pt"
  shows "pt_inv (fold (\<lambda>i. set_bits b (m i) i) is pt) \<and>
    subpages (fold (\<lambda>i. set_bits b (m i) i) is pt) = subpages pt \<and>
    subpages_size (fold (\<lambda>i. set_bits b (m i) i) is pt) = subpages_size pt \<and>
    subpages_capacity (fold (\<lambda>i. set_bits b (m i) i) is pt) = subpages_capacity pt \<and>
    (\<forall>j k. k < 32 \<longrightarrow> bit (pages (fold (\<lambda>i. set_bits b (m i) i) is pt) ! j) k =
      (if j \<in> set is \<and> bit (m j) k then b else bit (pages pt ! j) k))"
  using assms
proof (induction "is" arbitrary: pt)
  case Nil
  then show ?case by simp
next
  case (Cons i "is")
  have "length (pages pt) = 64" using Cons.prems by (simp add: pt_inv_def)
  then show ?case
    using Cons.IH [of "set_bits b (m i) i pt"] Cons.prems set_bits_inv [of pt i b "m i"]
    by (auto simp: set_bits_bit)
qed

text \<open>The masks of a page range.\<close>

definition range_mask :: "int \<Rightarrow> int \<Rightarrow> nat \<Rightarrow> u32" where
  "range_mask first_pgno last_pgno i =
     (if i = page_offset first_pgno then push_bit (nat (first_pgno AND 31)) (- 1) else - 1)
     AND (if i = page_offset last_pgno then NOT (push_bit (nat (last_pgno AND 31)) (- 2)) else - 1)"

lemma bit_range_mask:
  assumes "pgno_ok f" "pgno_ok l" "f \<le> l" "page_offset f \<le> i" "i \<le> page_offset l" "k < 32"
  shows "bit (range_mask f l i) k \<longleftrightarrow> f \<le> 0x100 + 32 * int i + int k \<and> 0x100 + 32 * int i + int k \<le> l"
proof -
  have two: "bit (- 2 :: u32) n \<longleftrightarrow> 0 < n \<and> n < 32" for n
    using bit_not_iff [of "1 :: u32" n] by (auto simp: bit_1_iff)
  obtain x y where xy: "nat (f mod 32) = x" "nat (l mod 32) = y" by blast
  have m: "bit (range_mask f l i) k \<longleftrightarrow> (i = page_offset f \<longrightarrow> x \<le> k) \<and> (i = page_offset l \<longrightarrow> k \<le> y)"
    unfolding range_mask_def page_and_31 xy using assms(6) by (auto simp: bit_simps two)
  have "f = 0x100 + 32 * int (page_offset f) + int x" "l = 0x100 + 32 * int (page_offset l) + int y"
    using page_coords [OF assms(1)] page_coords [OF assms(2)] unfolding xy .
  moreover have "x < 32" "y < 32" using xy page_bit_less by metis+
  ultimately show ?thesis unfolding m using assms(4-6) by linarith
qed

section \<open>The used part of the vector\<close>

definition used :: "vbi_page_table \<Rightarrow> subpage_range list" where
  "used pt = take (subpages_size pt) (subpages pt)"

lemma length_used: "pt_inv pt \<Longrightarrow> length (used pt) = subpages_size pt"
  by (simp add: used_def pt_inv_def)

lemma length_vbi_realloc: "vbi_realloc mem vec n = Some vec' \<Longrightarrow> length vec' = n"
  by (auto simp: vbi_realloc_def)

lemma take_vbi_realloc: "vbi_realloc mem vec n = Some vec' \<Longrightarrow> m \<le> n \<Longrightarrow> m \<le> length vec \<Longrightarrow> take m vec' = take m vec"
  by (auto simp: vbi_realloc_def min_def)

lemma shrink_keeps:
  assumes "pt_inv pt"
  shows "pt_inv (shrink_subpages_vector mem pt)" "used (shrink_subpages_vector mem pt) = used pt"
    "pages (shrink_subpages_vector mem pt) = pages pt" "pages_popcnt (shrink_subpages_vector mem pt) = pages_popcnt pt"
    "subpages_size (shrink_subpages_vector mem pt) = subpages_size pt"
  using assms
  by (auto simp: shrink_subpages_vector_def shrink_vector_def pt_inv_def used_def length_vbi_realloc
    take_vbi_realloc split: option.split)

lemma extend_keeps:
  assumes "pt_inv pt" "extend_subpages_vector mem pt n = Some pt'"
  shows "length (subpages pt') = subpages_capacity pt'" "subpages_size pt' = subpages_size pt"
    "pages pt' = pages pt" "pages_popcnt pt' = pages_popcnt pt"
  using assms
  by (auto simp: extend_subpages_vector_def extend_vector_def pt_inv_def Let_def length_vbi_realloc
    split: if_splits option.splits)

lemma remove_range_keeps:
  fixes mem pt f l
  assumes "pt_inv pt"
  defines "pt' \<equiv> remove_subpages_in_page_range mem pt f l"
  shows "pt_inv pt'" "used pt' = filter (\<lambda>r. sr_pgno r < f \<or> sr_pgno r > l) (used pt)"
    "pages pt' = pages pt" "pages_popcnt pt' = pages_popcnt pt"
proof -
  let ?kept = "filter (\<lambda>r. sr_pgno r < f \<or> sr_pgno r > l) (take (subpages_size pt) (subpages pt))"
  let ?pt = "pt \<lparr> subpages := ?kept @ drop (length ?kept) (subpages pt), subpages_size := length ?kept \<rparr>"
  have "length ?kept \<le> subpages_capacity pt"
    using assms(1) length_filter_le [of "\<lambda>r. sr_pgno r < f \<or> sr_pgno r > l" "take (subpages_size pt) (subpages pt)"]
    by (simp add: pt_inv_def)
  then have i: "pt_inv ?pt" using assms(1) by (simp add: pt_inv_def)
  have e: "pt' = shrink_subpages_vector mem ?pt" by (simp add: pt'_def remove_subpages_in_page_range_def Let_def)
  show "pt_inv pt'" "used pt' = filter (\<lambda>r. sr_pgno r < f \<or> sr_pgno r > l) (used pt)"
    "pages pt' = pages pt" "pages_popcnt pt' = pages_popcnt pt"
    unfolding e using shrink_keeps [OF i] by (simp_all add: used_def)
qed

text \<open>A table without memory for subpages stays as it is.\<close>

lemma empty_vector: "pt_inv pt \<Longrightarrow> subpages_capacity pt = 0 \<Longrightarrow> subpages pt = [] \<and> subpages_size pt = 0"
  by (simp add: pt_inv_def)

lemma shrink_empty: "subpages_capacity pt = 0 \<Longrightarrow> shrink_subpages_vector mem pt = pt"
  by (simp add: shrink_subpages_vector_def)

lemma remove_range_empty:
  "pt_inv pt \<Longrightarrow> subpages_capacity pt = 0 \<Longrightarrow> remove_subpages_in_page_range mem pt f l = pt"
  using empty_vector [of pt] by (simp add: remove_subpages_in_page_range_def shrink_empty)

section \<open>Page ranges\<close>

lemma page_offset_mono: "f \<le> l \<Longrightarrow> page_offset f \<le> page_offset l"
  by (simp add: page_offset_div zdiv_mono1 nat_mono)

lemma upt_ends: "m < n \<Longrightarrow> [m..<Suc n] = m # [m + 1..<n] @ [n]"
  by (simp add: upt_conv_Cons)

text \<open>Both range operations set the range mask in every word from the first to the last.\<close>

definition update_range :: "bool \<Rightarrow> allocator \<Rightarrow> vbi_page_table \<Rightarrow> int \<Rightarrow> int \<Rightarrow> vbi_page_table" where
  "update_range b mem pt f l =
     fold (\<lambda>i. set_bits b (range_mask f l i) i) [page_offset f..<Suc (page_offset l)]
       (remove_subpages_in_page_range mem pt f l)"

lemma update_range_words:
  assumes "f \<le> l"
  shows "update_range b mem pt f l =
    (let pt = remove_subpages_in_page_range mem pt f l;
         first_mask = push_bit (nat (f AND 31)) (- 1); last_mask = NOT (push_bit (nat (l AND 31)) (- 2))
     in if page_offset f \<noteq> page_offset l
        then set_bits b last_mask (page_offset l) (fold (set_bits b (- 1)) [page_offset f + 1..<page_offset l]
               (set_bits b first_mask (page_offset f) pt))
        else set_bits b (last_mask AND first_mask) (page_offset l) pt)"
proof (cases "page_offset f = page_offset l")
  case True
  then show ?thesis by (simp add: update_range_def range_mask_def Let_def and.commute)
next
  case False
  then have lt: "page_offset f < page_offset l" using page_offset_mono [OF assms] by simp
  have "fold (\<lambda>i. set_bits b (range_mask f l i) i) [page_offset f + 1..<page_offset l] =
      fold (set_bits b (- 1)) [page_offset f + 1..<page_offset l]"
    by (intro ext fold_cong) (auto simp: range_mask_def)
  moreover have "range_mask f l (page_offset f) = push_bit (nat (f AND 31)) (- 1)"
    "range_mask f l (page_offset l) = NOT (push_bit (nat (l AND 31)) (- 2))"
    using False by (simp_all add: range_mask_def)
  ultimately show ?thesis
    using False by (simp only: update_range_def upt_ends [OF lt] fold_simps fold_append comp_apply Let_def if_True not_False_eq_True simp_thms)
qed

lemma add_pages_range:
  assumes "pgno_ok f" "pgno_ok l"
  shows "vbi_page_table_add_pages mem pt f l =
    (True, if min f l = 0x100 \<and> max f l = 0x8FF
           then (shrink_subpages_vector mem (pt \<lparr> subpages_size := 0 \<rparr>)) \<lparr> pages := replicate 64 (- 1), pages_popcnt := 0x800 \<rparr>
           else update_range True mem pt (min f l) (max f l))"
  using assms
  by (auto simp: vbi_page_table_add_pages_def valid_pgno_range_def Let_def update_range_words set_bits_def
    fill_word_add min_def max_def)

lemma remove_pages_range:
  assumes "pgno_ok f" "pgno_ok l"
  shows "vbi_page_table_remove_pages mem pt f l =
    (True, if min f l = 0x100 \<and> max f l = 0x8FF
           then (shrink_subpages_vector mem (pt \<lparr> subpages_size := 0 \<rparr>)) \<lparr> pages := replicate 64 0, pages_popcnt := 0 \<rparr>
           else update_range False mem pt (min f l) (max f l))"
  using assms
  by (auto simp: vbi_page_table_remove_pages_def valid_pgno_range_def Let_def update_range_words set_bits_def
    clear_word_remove min_def max_def)

lemma page_offset_between: "f \<le> p \<Longrightarrow> p \<le> l \<Longrightarrow> page_offset p \<in> set [page_offset f..<Suc (page_offset l)]"
  using page_offset_mono [of f p] page_offset_mono [of p l] by (simp only: set_upt atLeastLessThan_iff less_Suc_eq_le simp_thms)

lemma update_range_ok:
  assumes "pt_inv pt" "pgno_ok f" "pgno_ok l" "f \<le> l"
  shows "pt_inv (update_range b mem pt f l)"
    "used (update_range b mem pt f l) = filter (\<lambda>r. sr_pgno r < f \<or> sr_pgno r > l) (used pt)"
    "page_set (update_range b mem pt f l) = (if b then page_set pt \<union> {f..l} else page_set pt - {f..l})"
proof -
  let ?pt = "remove_subpages_in_page_range mem pt f l" and ?is = "[page_offset f..<Suc (page_offset l)]"
  let ?r = "update_range b mem pt f l"
  have "\<forall>i \<in> set ?is. i < 64" using page_offset_less [OF assms(3)] by (auto simp del: upt_Suc)
  from fold_set_bits [OF _ this remove_range_keeps(1) [OF assms(1)], of b "range_mask f l" mem f l]
  have F: "pt_inv ?r" "subpages ?r = subpages ?pt" "subpages_size ?r = subpages_size ?pt"
    "k < 32 \<Longrightarrow> bit (pages ?r ! j) k = (if j \<in> set ?is \<and> bit (range_mask f l j) k then b else bit (pages pt ! j) k)" for j k
    by (simp_all add: update_range_def remove_range_keeps(3) [OF assms(1)] del: upt_Suc set_upt)
  show "pt_inv ?r" by (rule F)
  show "used ?r = filter (\<lambda>r. sr_pgno r < f \<or> sr_pgno r > l) (used pt)"
    using remove_range_keeps(2) [OF assms(1), of mem f l] F(2,3) by (simp add: used_def)
  have "bit (pages ?r ! page_offset p) (nat (p mod 32)) = (if f \<le> p \<and> p \<le> l then b else bit (pages pt ! page_offset p) (nat (p mod 32)))"
    if p: "pgno_ok p" for p
  proof -
    have "page_offset p \<in> set ?is \<and> bit (range_mask f l (page_offset p)) (nat (p mod 32)) \<longleftrightarrow> f \<le> p \<and> p \<le> l"
    proof (cases "page_offset p \<in> set ?is")
      case True
      then have "bit (range_mask f l (page_offset p)) (nat (p mod 32)) \<longleftrightarrow> f \<le> p \<and> p \<le> l"
        using bit_range_mask [OF assms(2-4), of "page_offset p" "nat (p mod 32)"] page_coords [OF p] page_bit_less [of p]
        by (simp only: set_upt atLeastLessThan_iff less_Suc_eq_le simp_thms)
      then show ?thesis using True by simp
    next
      case False
      then show ?thesis using page_offset_between by blast
    qed
    then show ?thesis using F(4) [OF page_bit_less, of "page_offset p" p] by simp
  qed
  then show "page_set ?r = (if b then page_set pt \<union> {f..l} else page_set pt - {f..l})"
    using assms(2,3) by (auto simp: page_set_def pgno_ok_def split: if_splits)
qed

lemma all_pages_ok:
  fixes mem pt
  assumes "pt_inv pt"
  defines "pt' \<equiv> shrink_subpages_vector mem (pt \<lparr> subpages_size := 0 \<rparr>)"
  shows "pt_inv (pt' \<lparr> pages := replicate 64 (- 1), pages_popcnt := 0x800 \<rparr>)" "page_set (pt' \<lparr> pages := replicate 64 (- 1), pages_popcnt := 0x800 \<rparr>) = {0x100..0x8FF}"
    "pt_inv (pt' \<lparr> pages := replicate 64 0, pages_popcnt := 0 \<rparr>)" "page_set (pt' \<lparr> pages := replicate 64 0, pages_popcnt := 0 \<rparr>) = {}"
    "used pt' = []"
proof -
  have "pt_inv (pt \<lparr> subpages_size := 0 \<rparr>)" using assms(1) by (simp add: pt_inv_def)
  note k = shrink_keeps [OF this, of mem, folded pt'_def]
  have "(0xFFFFFFFF :: u32) = - 1" by simp
  then have b: "bits 0xFFFFFFFF = 32" by (simp only: bits_minus_1)
  show "pt_inv (pt' \<lparr> pages := replicate 64 (- 1), pages_popcnt := 0x800 \<rparr>)" "pt_inv (pt' \<lparr> pages := replicate 64 0, pages_popcnt := 0 \<rparr>)"
    using k(1,5) b by (simp_all add: pt_inv_def sum_list_replicate)
  show "page_set (pt' \<lparr> pages := replicate 64 (- 1), pages_popcnt := 0x800 \<rparr>) = {0x100..0x8FF}"
    using page_offset_less page_bit_less by (auto simp: page_set_def pgno_ok_def)
  show "page_set (pt' \<lparr> pages := replicate 64 0, pages_popcnt := 0 \<rparr>) = {}"
    using page_offset_less by (auto simp: page_set_def)
  show "used pt' = []" using k(2) by (simp add: used_def)
qed

lemma add_pages_ok:
  assumes "pt_inv pt" "pgno_ok f" "pgno_ok l"
  shows "fst (vbi_page_table_add_pages mem pt f l)" "pt_inv (snd (vbi_page_table_add_pages mem pt f l))"
    "page_set (snd (vbi_page_table_add_pages mem pt f l)) = page_set pt \<union> {min f l..max f l}"
proof -
  have ok: "pgno_ok (min f l)" "pgno_ok (max f l)" "min f l \<le> max f l" using assms(2,3) by (simp_all add: min_def max_def)
  show "fst (vbi_page_table_add_pages mem pt f l)" by (simp add: add_pages_range [OF assms(2,3)])
  show "pt_inv (snd (vbi_page_table_add_pages mem pt f l))"
    using all_pages_ok(1) [OF assms(1)] update_range_ok(1) [OF assms(1) ok]
    by (simp add: add_pages_range [OF assms(2,3)])
  have "page_set pt \<subseteq> {0x100..0x8FF}" by (auto simp: page_set_def pgno_ok_def)
  then show "page_set (snd (vbi_page_table_add_pages mem pt f l)) = page_set pt \<union> {min f l..max f l}"
    using all_pages_ok(2) [OF assms(1), of mem] update_range_ok(3) [OF assms(1) ok, of True mem]
    by (auto simp add: add_pages_range [OF assms(2,3)])
qed

lemma remove_pages_ok:
  assumes "pt_inv pt" "pgno_ok f" "pgno_ok l"
  shows "fst (vbi_page_table_remove_pages mem pt f l)" "pt_inv (snd (vbi_page_table_remove_pages mem pt f l))"
    "page_set (snd (vbi_page_table_remove_pages mem pt f l)) = page_set pt - {min f l..max f l}"
proof -
  have ok: "pgno_ok (min f l)" "pgno_ok (max f l)" "min f l \<le> max f l" using assms(2,3) by (simp_all add: min_def max_def)
  show "fst (vbi_page_table_remove_pages mem pt f l)" by (simp add: remove_pages_range [OF assms(2,3)])
  show "pt_inv (snd (vbi_page_table_remove_pages mem pt f l))"
    using all_pages_ok(3) [OF assms(1)] update_range_ok(1) [OF assms(1) ok]
    by (simp add: remove_pages_range [OF assms(2,3)])
  have "page_set pt \<subseteq> {0x100..0x8FF}" by (auto simp: page_set_def pgno_ok_def)
  then show "page_set (snd (vbi_page_table_remove_pages mem pt f l)) = page_set pt - {min f l..max f l}"
    using all_pages_ok(4) [OF assms(1), of mem] update_range_ok(3) [OF assms(1) ok, of False mem]
    by (auto simp add: remove_pages_range [OF assms(2,3)])
qed

section \<open>The number of pages\<close>

lemma page_set_words: "page_set pt = (\<Union>i < 64. (\<lambda>k. 0x100 + 32 * int i + int k) ` {k. k < 32 \<and> bit (pages pt ! i) k})"
proof (intro equalityI subsetI)
  fix p
  assume "p \<in> page_set pt"
  then have p: "pgno_ok p" "bit (pages pt ! page_offset p) (nat (p mod 32))" by (simp_all add: page_set_def)
  show "p \<in> (\<Union>i < 64. (\<lambda>k. 0x100 + 32 * int i + int k) ` {k. k < 32 \<and> bit (pages pt ! i) k})"
    using page_offset_less [OF p(1)] page_coords [OF p(1)] p(2) page_bit_less [of p] by blast
next
  fix p
  assume "p \<in> (\<Union>i < 64. (\<lambda>k. 0x100 + 32 * int i + int k) ` {k. k < 32 \<and> bit (pages pt ! i) k})"
  then obtain i k where p: "i < 64" "k < 32" "bit (pages pt ! i) k" "p = 0x100 + 32 * int i + int k" by auto
  have "(p - 0x100) div 32 = int i" using p(2,4) by simp
  moreover have "p mod 32 = int k"
    using p(2) mod_mult_self1 [of "int k" "8 + int i" 32] by (simp add: p(4) algebra_simps)
  ultimately show "p \<in> page_set pt" using p by (simp add: page_set_def pgno_ok_def page_offset_div)
qed

lemma card_page_set:
  assumes "length (pages pt) = 64"
  shows "card (page_set pt) = sum_list (map bits (pages pt))"
proof -
  let ?f = "\<lambda>i k. 0x100 + 32 * int i + int k"
  have "card (page_set pt) = (\<Sum>i < 64. card (?f i ` {k. k < 32 \<and> bit (pages pt ! i) k}))"
    unfolding page_set_words by (rule card_UN_disjoint) auto
  also have "\<dots> = (\<Sum>i < 64. bits (pages pt ! i))"
    by (intro sum.cong refl) (auto simp: bits_def intro!: card_image inj_onI)
  also have "\<dots> = sum_list (map bits (pages pt))"
    using assms by (simp add: sum_list_sum_nth atLeast0LessThan)
  finally show ?thesis .
qed

lemma page_set_range: "page_set pt \<subseteq> {0x100..<0x900}"
  by (auto simp: page_set_def pgno_ok_def)

lemma popcnt_card:
  assumes "pt_inv pt"
  shows "unat (pages_popcnt pt) = card (page_set pt)"
proof -
  have "card (page_set pt) \<le> 0x800" using card_mono [OF _ page_set_range, of pt] by simp
  then show ?thesis
    using assms card_page_set [of pt] by (simp add: pt_inv_def unsigned_of_nat take_bit_nat_eq_self)
qed

section \<open>The displayable pages\<close>

lemma add_word_page_set:
  assumes "length (pages pt) = 64" "pgno_ok p" "p mod 32 = 0"
  shows "page_set (add_word m (page_offset p) pt) = page_set pt \<union> {q. p \<le> q \<and> q < p + 32 \<and> bit m (nat (q mod 32))}"
proof -
  have i: "page_offset p < length (pages pt)" using assms(1) page_offset_less [OF assms(2)] by simp
  have "page_offset q = page_offset p \<longleftrightarrow> p \<le> q \<and> q < p + 32" if q: "pgno_ok q" for q
  proof -
    have "p = 0x100 + 32 * int (page_offset p)" using page_coords [OF assms(2)] assms(3) by simp
    moreover obtain k where "nat (q mod 32) = k" "k < 32" using page_bit_less by blast
    ultimately show ?thesis using page_coords [OF q] by linarith
  qed
  moreover have "pgno_ok q" if "p \<le> q" "q < p + 32" for q
  proof -
    have "p \<noteq> 0x900 - k" if "0 < k" "k < 32" for k
    proof
      assume "p = 0x900 - k"
      then have "(0x900 - k) mod 32 = 0" using assms(3) by simp
      then have "32 dvd 0x900 - k" by presburger
      then have "32 dvd k" by presburger
      then show False using \<open>0 < k\<close> \<open>k < 32\<close> zdvd_imp_le by fastforce
    qed
    from this [of "0x900 - p"] have "p \<le> 0x900 - 32" using assms(2) by (force simp: pgno_ok_def)
    then show ?thesis using that assms(2) by (simp add: pgno_ok_def)
  qed
  ultimately show ?thesis
    using set_bits_bit [OF i page_bit_less, of True m] by (auto simp: page_set_def set_bits_def)
qed

lemma bit_rows: "k < 32 \<Longrightarrow> bit (0x03FF03FF :: u32) k \<longleftrightarrow> k mod 16 \<le> 9"
proof -
  have "list_all (\<lambda>k. bit (0x03FF03FF :: u32) k \<longleftrightarrow> k mod 16 \<le> 9) [0..<32]" by code_simp
  then show "k < 32 \<Longrightarrow> bit (0x03FF03FF :: u32) k \<longleftrightarrow> k mod 16 \<le> 9" by (simp only: list_all_upt)
qed

lemma displayable_rows_ok:
  assumes "pt_inv pt" "pgno_ok p" "p mod 32 = 0"
  shows "pt_inv (displayable_rows mem pt p)"
    "page_set (displayable_rows mem pt p) = page_set pt \<union> {q. p \<le> q \<and> q < p + 32 \<and> q mod 16 \<le> 9}"
    "subpages_capacity pt = 0 \<Longrightarrow> subpages_capacity (displayable_rows mem pt p) = 0"
proof -
  let ?a = "remove_subpages_in_page_range mem pt (p + 0x00) (p + 0x09)"
  let ?b = "remove_subpages_in_page_range mem ?a (p + 0x10) (p + 0x19)"
  note a = remove_range_keeps [OF assms(1), of mem "p + 0x00" "p + 0x09"]
  note b = remove_range_keeps [OF a(1), of mem "p + 0x10" "p + 0x19"]
  have e: "displayable_rows mem pt p = add_word 0x03FF03FF (page_offset p) ?b"
    by (simp add: displayable_rows_def Let_def)
  show "pt_inv (displayable_rows mem pt p)"
    unfolding e using set_bits_inv [OF b(1) page_offset_less [OF assms(2)], of True] by (simp add: set_bits_def)
  have "bit (0x03FF03FF :: u32) (nat (q mod 32)) \<longleftrightarrow> q mod 16 \<le> 9" for q
  proof -
    have "nat (q mod 32) mod 16 = nat (q mod 32 mod 16)" by (simp add: nat_mod_distrib)
    also have "q mod 32 mod 16 = q mod 16" by (rule mod_mod_cancel) simp
    finally show ?thesis unfolding bit_rows [OF page_bit_less] by (simp add: nat_le_iff)
  qed
  moreover have "page_set ?b = page_set pt" using a(3) b(3) by (simp add: page_set_def)
  moreover have "length (pages ?b) = 64" using b(1) by (simp add: pt_inv_def)
  ultimately show "page_set (displayable_rows mem pt p) = page_set pt \<union> {q. p \<le> q \<and> q < p + 32 \<and> q mod 16 \<le> 9}"
    unfolding e using add_word_page_set [OF _ assms(2,3), of ?b "0x03FF03FF"] by simp
  show "subpages_capacity (displayable_rows mem pt p) = 0" if "subpages_capacity pt = 0"
    using that remove_range_empty [OF assms(1) that] by (simp add: e add_word_def Let_def)
qed

lemma displayable_magazine_ok:
  assumes "pt_inv pt" "pgno_ok p" "p mod 32 = 0" "p < e" "e mod 32 = 0" "e \<le> 0x900"
  shows "pt_inv (fst (displayable_magazine mem pt p e)) \<and> snd (displayable_magazine mem pt p e) = e
    \<and> page_set (fst (displayable_magazine mem pt p e)) = page_set pt \<union> {q. p \<le> q \<and> q < e \<and> q mod 16 \<le> 9}
    \<and> (subpages_capacity pt = 0 \<longrightarrow> subpages_capacity (fst (displayable_magazine mem pt p e)) = 0)"
  using assms
proof (induction mem pt p e rule: displayable_magazine.induct)
  case (1 mem pt p e)
  note r = displayable_rows_ok [OF 1(2-4), of mem]
  show ?case
  proof (cases "p + 0x20 < e")
    case True
    then have "pgno_ok (p + 0x20)" "(p + 0x20) mod 32 = 0" using 1(3-7) by (simp_all add: pgno_ok_def)
    note ih = 1(1) [OF refl refl True r(1) this True 1(6,7)]
    have "{q. p \<le> q \<and> q < p + 32 \<and> q mod 16 \<le> 9} \<union> {q. p + 32 \<le> q \<and> q < e \<and> q mod 16 \<le> 9} = {q. p \<le> q \<and> q < e \<and> q mod 16 \<le> 9}"
      using True by auto
    then show ?thesis
      using ih r True by (subst (1 2 3 4) displayable_magazine.simps) (auto simp: Let_def)
  next
    case False
    have "32 dvd e - p" using 1(4,6) by presburger
    then have "p + 0x20 = e" using False 1(5) zdvd_imp_le [of 32 "e - p"] by simp
    then show ?thesis using r by (subst (1 2 3 4) displayable_magazine.simps) (simp add: Let_def)
  qed
qed

lemma second_digit:
  fixes r k :: int
  assumes "0 \<le> r" "r < 256"
  shows "(256 * k + r) div 16 mod 16 = r div 16"
proof -
  have "(r + 16 * k * 16) div 16 = 16 * k + r div 16" by (rule div_mult_self1) simp
  then have "(256 * k + r) div 16 = r div 16 + k * 16" by (simp add: ac_simps)
  moreover have "(r div 16 + k * 16) mod 16 = r div 16" using assms by simp
  ultimately show ?thesis by simp
qed

lemma rows_join:
  assumes "p \<le> q \<Longrightarrow> q < p + 0x100 \<Longrightarrow> B \<longleftrightarrow> q < p + 0xA0" "p + 0x100 \<le> (n :: int)"
  shows "(p \<le> q \<and> q < p + 0xA0 \<and> A) \<or> (p + 0x100 \<le> q \<and> q < n \<and> A \<and> B) \<longleftrightarrow> p \<le> q \<and> q < n \<and> A \<and> B"
  using assms by (cases "q < p + 0x100") auto

lemma displayable_loop_ok:
  assumes "pt_inv pt" "p mod 256 = 0" "0x100 \<le> p" "p \<le> 0x900"
  shows "pt_inv (displayable_loop mem pt p)
    \<and> page_set (displayable_loop mem pt p) = page_set pt \<union> {q. p \<le> q \<and> q < 0x900 \<and> q mod 16 \<le> 9 \<and> q div 16 mod 16 \<le> 9}
    \<and> (subpages_capacity pt = 0 \<longrightarrow> subpages_capacity (displayable_loop mem pt p) = 0)"
  using assms
proof (induction mem pt p rule: displayable_loop.induct)
  case (1 mem pt p)
  show ?case
  proof (cases "p < 0x900")
    case False
    then show ?thesis using 1(2) by (subst (1 2 3) displayable_loop.simps) auto
  next
    case True
    obtain pt' p' where m: "displayable_magazine mem pt p (p + 0xA0) = (pt', p')" by fastforce
    have d: "256 dvd p" using 1(3) by (simp add: dvd_eq_mod_eq_0)
    then have "32 dvd p" by (rule dvd_trans [rotated]) simp
    then have "p mod 32 = 0" "(p + 0xA0) mod 32 = 0" by (simp_all flip: dvd_eq_mod_eq_0 add: dvd_add_left_iff)
    moreover have "(p + 0x100) mod 256 = 0" using 1(3) by simp
    moreover have "p + 0x100 \<le> 0x900" using d True by (elim dvdE) simp
    ultimately have side: "p mod 32 = 0" "(p + 0xA0) mod 32 = 0" "(p + 0x100) mod 256 = 0" "p + 0x100 \<le> 0x900"
      by simp_all
    with displayable_magazine_ok [of pt p "p + 0xA0" mem] m 1(2,4) True
    have r: "pt_inv pt'" "p' = p + 0xA0" "page_set pt' = page_set pt \<union> {q. p \<le> q \<and> q < p + 0xA0 \<and> q mod 16 \<le> 9}"
      "subpages_capacity pt = 0 \<longrightarrow> subpages_capacity pt' = 0"
      by (simp_all add: pgno_ok_def)
    have ih: "pt_inv (displayable_loop mem pt' (p + 0x100))
        \<and> page_set (displayable_loop mem pt' (p + 0x100)) = page_set pt' \<union> {q. p + 0x100 \<le> q \<and> q < 0x900 \<and> q mod 16 \<le> 9 \<and> q div 16 mod 16 \<le> 9}
        \<and> (subpages_capacity pt' = 0 \<longrightarrow> subpages_capacity (displayable_loop mem pt' (p + 0x100)) = 0)"
      using 1(1) [OF True refl, of pt' p'] r m 1(4) side(3,4)
      by (simp add: add.commute [of 256])
    have row: "q div 16 mod 16 \<le> 9 \<longleftrightarrow> q < p + 0xA0" if "p \<le> q" "q < p + 0x100" for q
    proof -
      obtain k where k: "p = 256 * k" using d by blast
      have "q div 16 mod 16 = (q - p) div 16" using second_digit [of "q - p" k] that k by simp
      then show ?thesis using that by auto
    qed
    have "{q. p \<le> q \<and> q < p + 0xA0 \<and> q mod 16 \<le> 9} \<union> {q. p + 0x100 \<le> q \<and> q < 0x900 \<and> q mod 16 \<le> 9 \<and> q div 16 mod 16 \<le> 9}
        = {q. p \<le> q \<and> q < 0x900 \<and> q mod 16 \<le> 9 \<and> q div 16 mod 16 \<le> 9}"
    proof (intro set_eqI)
      fix q
      show "q \<in> {q. p \<le> q \<and> q < p + 0xA0 \<and> q mod 16 \<le> 9} \<union> {q. p + 0x100 \<le> q \<and> q < 0x900 \<and> q mod 16 \<le> 9 \<and> q div 16 mod 16 \<le> 9}
        \<longleftrightarrow> q \<in> {q. p \<le> q \<and> q < 0x900 \<and> q mod 16 \<le> 9 \<and> q div 16 mod 16 \<le> 9}"
        unfolding Un_iff mem_Collect_eq by (rule rows_join [OF row side(4)])
    qed
    then show ?thesis
      using ih r True by (subst (1 2 3) displayable_loop.simps) (simp add: m Un_assoc add.commute [of 256])
  qed
qed

section \<open>Iteration\<close>

lemma ffs_lowest:
  assumes "m \<noteq> 0"
  obtains k where "ffs m = int k + 1" "k < 32" "bit m k" "\<forall>j < k. \<not> bit m j"
proof -
  obtain n where n: "bit m n" "n < 32"
    using assms bit_imp_le_length by (fastforce simp: bit_eq_iff)
  obtain k where k: "List.find (bit m) [0..<32] = Some k"
    using n by (cases "List.find (bit m) [0..<32]") (auto simp: find_None_iff)
  then obtain i where "i < 32" "k = i" "bit m i" "\<forall>j < i. \<not> bit m j"
    by (auto simp: find_Some_iff)
  then show thesis using k that by (auto simp: ffs_def)
qed

lemma scan_pages_result:
  assumes "length ps = 64" "off < 64" "np = 0x100 + 32 * int off"
  shows "case scan_pages ps msk np off of
      None \<Rightarrow> msk = 0 \<and> (\<forall>j. off < j \<and> j < 64 \<longrightarrow> ps ! j = 0)
    | Some (m, np') \<Rightarrow> m \<noteq> 0 \<and> (\<exists>j. off \<le> j \<and> j < 64 \<and> np' = 0x100 + 32 * int j
        \<and> m = (if j = off then msk else ps ! j) \<and> (off < j \<longrightarrow> msk = 0)
        \<and> (\<forall>i. off < i \<and> i < j \<longrightarrow> ps ! i = 0))"
  using assms
proof (induction ps msk np off rule: scan_pages.induct)
  case (1 ps msk np off)
  show ?case
  proof (cases "msk = 0")
    case False
    then show ?thesis using 1(3,4) by (subst scan_pages.simps) auto
  next
    case True
    show ?thesis
    proof (cases "np + 32 \<ge> 0x900")
      case last: True
      then have "off = 63" using 1(3,4) by simp
      then show ?thesis using True last by (subst scan_pages.simps) auto
    next
      case False
      then have "off + 1 < 64" using 1(4) by simp
      from 1(1) [OF _ False 1(2) this] True 1(4)
      have ih: "case scan_pages ps (ps ! (off + 1)) (np + 32) (off + 1) of
          None \<Rightarrow> ps ! (off + 1) = 0 \<and> (\<forall>j. off + 1 < j \<and> j < 64 \<longrightarrow> ps ! j = 0)
        | Some (m, np') \<Rightarrow> m \<noteq> 0 \<and> (\<exists>j. off + 1 \<le> j \<and> j < 64 \<and> np' = 0x100 + 32 * int j
            \<and> m = (if j = off + 1 then ps ! (off + 1) else ps ! j) \<and> (off + 1 < j \<longrightarrow> ps ! (off + 1) = 0)
            \<and> (\<forall>i. off + 1 < i \<and> i < j \<longrightarrow> ps ! i = 0))"
        by simp
      have e: "scan_pages ps msk np off = scan_pages ps (ps ! (off + 1)) (np + 32) (off + 1)"
        using True False by (subst scan_pages.simps) simp
      show ?thesis
      proof (cases "scan_pages ps (ps ! (off + 1)) (np + 32) (off + 1)")
        case None
        have "ps ! j = 0" if "off < j" "j < 64" for j
          using ih that None by (cases "j = off + 1") auto
        then show ?thesis using None True unfolding e by simp
      next
        case (Some r)
        obtain m np' where m: "r = (m, np')" by (cases r)
        have "m \<noteq> 0 \<and> (\<exists>j. off + 1 \<le> j \<and> j < 64 \<and> np' = 0x100 + 32 * int j
            \<and> m = (if j = off + 1 then ps ! (off + 1) else ps ! j) \<and> (off + 1 < j \<longrightarrow> ps ! (off + 1) = 0)
            \<and> (\<forall>i. off + 1 < i \<and> i < j \<longrightarrow> ps ! i = 0))"
          using ih unfolding Some m by simp
        then obtain j where r: "r = (m, np')" "m \<noteq> 0" "off + 1 \<le> j" "j < 64" "np' = 0x100 + 32 * int j" "m = ps ! j"
          "off + 1 < j \<longrightarrow> ps ! (off + 1) = 0" "\<forall>i. off + 1 < i \<and> i < j \<longrightarrow> ps ! i = 0"
          using m by metis
        have "ps ! i = 0" if "off < i" "i < j" for i using r(7,8) that by (cases "i = off + 1") auto
        then show ?thesis using Some True r unfolding e by auto
      qed
    qed
  qed
qed

lemma page_set_coords:
  "i < 64 \<Longrightarrow> k < 32 \<Longrightarrow> 0x100 + 32 * int i + int k \<in> page_set pt \<longleftrightarrow> bit (pages pt ! i) k"
proof -
  assume ik: "i < 64" "k < 32"
  have "(0x100 + 32 * int i + int k) mod 32 = int k"
    using ik(2) mod_mult_self1 [of "int k" "8 + int i" 32] by (simp add: algebra_simps)
  moreover have "page_offset (0x100 + 32 * int i + int k) = i" using ik(2) by (simp add: page_offset_div)
  ultimately show ?thesis using ik by (simp add: page_set_def pgno_ok_def)
qed

lemma next_from_least:
  assumes "length (pages pt) = 64" "used pt = []" "pgno_ok n"
  shows "case next_from pt n of
      None \<Rightarrow> \<forall>q \<in> page_set pt. q < n
    | Some (p, sub) \<Rightarrow> p \<in> page_set pt \<and> n \<le> p \<and> sub = VBI_ANY_SUBNO \<and> (\<forall>q \<in> page_set pt. n \<le> q \<longrightarrow> p \<le> q)"
proof -
  let ?o = "page_offset n"
  obtain b where b: "nat (n mod 32) = b" "b < 32" using page_bit_less by blast
  have n: "n = 0x100 + 32 * int ?o + int b" using page_coords [OF assms(3)] b by simp
  have o: "?o < 64" by (rule page_offset_less [OF assms(3)])
  define msk where "msk = push_bit b (- 1) AND pages pt ! ?o"
  have msk: "bit msk k \<longleftrightarrow> b \<le> k \<and> bit (pages pt ! ?o) k" if "k < 32" for k
    using that by (auto simp: msk_def bit_simps)
  have "n AND NOT (mask 5) = push_bit 5 (drop_bit 5 n)"
    by (rule bit_eqI) (auto simp: bit_simps)
  moreover have "n div 32 = 8 + int ?o" using b(2) n by linarith
  ultimately have base: "n AND NOT 31 = 0x100 + 32 * int ?o"
    by (simp add: mask_eq_exp_minus_1 push_bit_eq_mult drop_bit_eq_div)
  have u: "take (subpages_size pt) (subpages pt) = []" using assms(2) by (simp only: used_def)
  have e: "next_from pt n = (case scan_pages (pages pt) msk (0x100 + 32 * int ?o) ?o of None \<Rightarrow> None
      | Some (m, np) \<Rightarrow> if 0x900 < np + (ffs m - 1) then Some (0x900, 0) else Some (np + (ffs m - 1), VBI_ANY_SUBNO))"
    unfolding next_from_def u base page_and_31 b(1) msk_def by (simp add: Let_def split: option.split)
  have coords: "\<exists>i < 64. \<exists>k < 32. q = 0x100 + 32 * int i + int k \<and> bit (pages pt ! i) k" if "q \<in> page_set pt" for q
    using that unfolding page_set_words by auto
  note scan = scan_pages_result [OF assms(1) o refl, of msk]
  show ?thesis
  proof (cases "scan_pages (pages pt) msk (0x100 + 32 * int ?o) ?o")
    case None
    have "q < n" if q: "q \<in> page_set pt" for q
    proof (rule ccontr)
      assume "\<not> q < n"
      obtain i k where ik: "i < 64" "k < 32" "q = 0x100 + 32 * int i + int k" "bit (pages pt ! i) k" using coords [OF q] by blast
      then have "?o < i \<or> i = ?o \<and> b \<le> k" using \<open>\<not> q < n\<close> n b(2) by linarith
      then show False using scan None ik msk [of k] by auto
    qed
    then show ?thesis by (simp add: e None)
  next
    case (Some r)
    obtain m np where r: "r = (m, np)" by (cases r)
    then obtain j where j: "m \<noteq> 0" "?o \<le> j" "j < 64" "np = 0x100 + 32 * int j" "m = (if j = ?o then msk else pages pt ! j)"
      "?o < j \<longrightarrow> msk = 0" "\<forall>i. ?o < i \<and> i < j \<longrightarrow> pages pt ! i = 0"
      using scan Some by auto
    obtain k where k: "ffs m = int k + 1" "k < 32" "bit m k" "\<forall>j < k. \<not> bit m j" using ffs_lowest [OF j(1)] by blast
    have bk: "bit (pages pt ! j) k \<and> (j = ?o \<longrightarrow> b \<le> k)" using k(2,3) j(5) msk [of k] by (auto split: if_splits)
    let ?p = "0x100 + 32 * int j + int k"
    have "?p \<in> page_set pt" using page_set_coords [OF j(3) k(2)] bk by simp
    moreover have "n \<le> ?p" using bk j(2) n b(2) by linarith
    moreover have "?p \<le> q" if q: "q \<in> page_set pt" "n \<le> q" for q
    proof (rule ccontr)
      assume "\<not> ?p \<le> q"
      obtain i l where il: "i < 64" "l < 32" "q = 0x100 + 32 * int i + int l" "bit (pages pt ! i) l" using coords [OF q(1)] by blast
      have "i < j \<or> i = j \<and> l < k" using \<open>\<not> ?p \<le> q\<close> il(2,3) k(2) by linarith
      moreover have "?o < i \<or> i = ?o \<and> b \<le> l" using q(2) n b(2) il(2,3) by linarith
      ultimately show False using il(4) k(4) j(5-7) msk [of l] il(2) by (auto split: if_splits)
    qed
    moreover have "?p < 0x900" using j(3) k(2) by linarith
    ultimately show ?thesis by (auto simp: e Some r j(4) k(1))
  qed
qed

lemma next_page_least:
  assumes "length (pages pt) = 64" "used pt = []"
  shows "case vbi_page_table_next_page pt n of
      None \<Rightarrow> \<forall>q \<in> page_set pt. q \<le> n
    | Some p \<Rightarrow> p \<in> page_set pt \<and> n < p \<and> (\<forall>q \<in> page_set pt. n < q \<longrightarrow> p \<le> q)"
proof -
  have r: "q \<in> page_set pt \<Longrightarrow> 0x100 \<le> q \<and> q \<le> 0x8FF" for q by (auto simp: page_set_def pgno_ok_def)
  consider "0x8FF \<le> n" | "n < 0x100" | "0x100 \<le> n" "n < 0x8FF" by linarith
  then show ?thesis
  proof cases
    case 1
    then show ?thesis using r by (fastforce simp: vbi_page_table_next_page_def vbi_page_table_next_subpage_def)
  next
    case 2
    then have "vbi_page_table_next_page pt n = map_option fst (next_from pt 0x100)"
      by (simp add: vbi_page_table_next_page_def vbi_page_table_next_subpage_def)
    then show ?thesis
      using next_from_least [OF assms, of "0x100"] 2 r by (fastforce simp: pgno_ok_def split: option.splits)
  next
    case 3
    then have "vbi_page_table_next_page pt n = map_option fst (next_from pt (n + 1))"
      by (simp add: vbi_page_table_next_page_def vbi_page_table_next_subpage_def VBI_ANY_SUBNO_def MAX_SUBNO_def)
    then show ?thesis
      using next_from_least [OF assms, of "n + 1"] 3 by (auto simp: pgno_ok_def split: option.splits)
  qed
qed

section \<open>A set of page numbers\<close>

text \<open>What the clients of a page table rely on.\<close>

locale page_numbers =
  fixes inv :: "'t \<Rightarrow> bool"
    and pset :: "'t \<Rightarrow> int set"
    and add_range :: "'t \<Rightarrow> int \<Rightarrow> int \<Rightarrow> bool \<times> 't"
    and remove_range :: "'t \<Rightarrow> int \<Rightarrow> int \<Rightarrow> bool \<times> 't"
  assumes pset_ok: "p \<in> pset t \<Longrightarrow> pgno_ok p"
    and add_ok: "inv t \<Longrightarrow> pgno_ok f \<Longrightarrow> pgno_ok l \<Longrightarrow>
      fst (add_range t f l) \<and> inv (snd (add_range t f l)) \<and> pset (snd (add_range t f l)) = pset t \<union> {min f l..max f l}"
    and remove_ok: "inv t \<Longrightarrow> pgno_ok f \<Longrightarrow> pgno_ok l \<Longrightarrow>
      fst (remove_range t f l) \<and> inv (snd (remove_range t f l)) \<and> pset (snd (remove_range t f l)) = pset t - {min f l..max f l}"
begin

lemma add_all: "inv t \<Longrightarrow> inv (snd (add_range t 0x100 0x8FF)) \<and> pset (snd (add_range t 0x100 0x8FF)) = {0x100..0x8FF}"
proof -
  assume "inv t"
  moreover have "pset t \<subseteq> {0x100..0x8FF}" using pset_ok by (force simp: pgno_ok_def)
  ultimately show ?thesis using add_ok [of t "0x100" "0x8FF"] by (auto simp: pgno_ok_def)
qed

lemma remove_all: "inv t \<Longrightarrow> inv (snd (remove_range t 0x100 0x8FF)) \<and> pset (snd (remove_range t 0x100 0x8FF)) = {}"
  using remove_ok [of t "0x100" "0x8FF"] pset_ok [of _ t] by (fastforce simp: pgno_ok_def)

text \<open>After a sequence of calls a page is in the set when the last call that covered it was an addition.\<close>

lemma history:
  assumes "inv t" "list_all (\<lambda>(b, f, l). pgno_ok f \<and> pgno_ok l) ops"
  shows "inv (fold (\<lambda>(b, f, l) t. snd (if b then add_range t f l else remove_range t f l)) ops t)
    \<and> (p \<in> pset (fold (\<lambda>(b, f, l) t. snd (if b then add_range t f l else remove_range t f l)) ops t) \<longleftrightarrow>
        (case List.find (\<lambda>(b, f, l). min f l \<le> p \<and> p \<le> max f l) (rev ops) of None \<Rightarrow> p \<in> pset t | Some (b, _) \<Rightarrow> b))"
  using assms(2)
proof (induction ops rule: rev_induct)
  case Nil
  then show ?case using assms(1) by simp
next
  case (snoc c ops)
  obtain b f l where c: "c = (b, f, l)" by (cases c)
  let ?t = "fold (\<lambda>(b, f, l) t. snd (if b then add_range t f l else remove_range t f l)) ops t"
  have "pgno_ok f" "pgno_ok l" "inv ?t" using snoc c by simp_all
  then show ?case using snoc add_ok [of ?t f l] remove_ok [of ?t f l] by (auto simp: c)
qed

end

interpretation pt: page_numbers pt_inv page_set "vbi_page_table_add_pages mem" "vbi_page_table_remove_pages mem" for mem
  by unfold_locales (simp_all add: add_pages_ok remove_pages_ok, simp add: page_set_def)

section \<open>Reachable tables\<close>

text \<open>The calls a client can make, and the tables it can get from a new one.\<close>

datatype pt_call =
    Add_Pages int int
  | Remove_Pages int int
  | Add_Subpages int int int
  | Remove_Subpages int int int
  | Add_Displayable

definition pt_exec :: "allocator \<Rightarrow> pt_call \<Rightarrow> vbi_page_table \<Rightarrow> (bool \<times> vbi_page_table) c_result" where
  "pt_exec mem c pt =
     (case c of
        Add_Pages f l \<Rightarrow> Ret (vbi_page_table_add_pages mem pt f l)
      | Remove_Pages f l \<Rightarrow> Ret (vbi_page_table_remove_pages mem pt f l)
      | Add_Subpages p f l \<Rightarrow> vbi_page_table_add_subpages mem pt p f l
      | Remove_Subpages p f l \<Rightarrow> vbi_page_table_remove_subpages mem pt p f l
      | Add_Displayable \<Rightarrow> Ret (True, vbi_page_table_add_all_displayable_pages mem pt))"

text \<open>\<^verbatim>\<open>int\<close> arguments.\<close>

definition c_int :: "int \<Rightarrow> bool" where
  "c_int i \<longleftrightarrow> - 0x80000000 \<le> i \<and> i < 0x80000000"

primrec pt_call_ok :: "pt_call \<Rightarrow> bool" where
  "pt_call_ok (Add_Pages f l) \<longleftrightarrow> c_int f \<and> c_int l"
| "pt_call_ok (Remove_Pages f l) \<longleftrightarrow> c_int f \<and> c_int l"
| "pt_call_ok (Add_Subpages p f l) \<longleftrightarrow> c_int p \<and> c_int f \<and> c_int l"
| "pt_call_ok (Remove_Subpages p f l) \<longleftrightarrow> c_int p \<and> c_int f \<and> c_int l"
| "pt_call_ok Add_Displayable \<longleftrightarrow> True"

inductive pt_reachable :: "allocator \<Rightarrow> vbi_page_table \<Rightarrow> bool" for mem where
  new: "pt_reachable mem vbi_page_table_new"
| call: "pt_reachable mem pt \<Longrightarrow> pt_call_ok c \<Longrightarrow> pt_exec mem c pt = Ret (ok, pt') \<Longrightarrow> pt_reachable mem pt'"

text \<open>Without memory the vector never grows: twice nothing is nothing.\<close>

lemma extend_empty:
  assumes "pt_inv pt" "subpages_capacity pt = 0" "0 < n" "n \<le> 2"
  shows "extend_subpages_vector mem pt n = (if mem 0 = None then None else Some pt)"
  using assms(3,4) empty_vector [OF assms(1,2)] assms(2)
  by (auto simp: extend_subpages_vector_def extend_vector_def vbi_realloc_def element_size_def split: option.split)

lemma put_range_empty: "subpages pt = [] \<Longrightarrow> put_range pt i r = Undef"
  by (simp add: put_range_def)

lemma page_bit_removed:
  assumes "pt_inv pt" "pgno_ok p" "p \<in> page_set pt"
  shows "pt \<lparr> pages_popcnt := pages_popcnt pt - 1,
      pages := (pages pt) [page_offset p := pages pt ! page_offset p AND NOT (page_mask p)] \<rparr>
    = set_bits False (page_mask p) (page_offset p) pt"
proof -
  let ?w = "pages pt ! page_offset p"
  obtain k where k: "nat (p mod 32) = k" "k < 32" using page_bit_less by blast
  have m: "page_mask p = push_bit k 1" by (simp add: page_mask_def page_and_31 k(1))
  have "{j. j < 32 \<and> bit (?w AND push_bit k 1) j} = {k}"
    using assms(3) k by (auto simp: page_set_def bit_simps bit_push_bit_iff)
  then have "popcnt (?w AND page_mask p) = 1" by (simp add: popcnt_bits bits_def m)
  then show ?thesis by (simp add: set_bits_def remove_word_def Let_def)
qed

definition pt_closed :: "vbi_page_table \<Rightarrow> bool" where
  "pt_closed pt \<longleftrightarrow> pt_inv pt \<and> subpages_capacity pt = 0"

lemma pt_closed_ranges:
  assumes "pt_closed pt" "c_int f" "c_int l"
  shows "pt_closed (snd (vbi_page_table_add_pages mem pt f l))" "pt_closed (snd (vbi_page_table_remove_pages mem pt f l))"
proof -
  have cap: "subpages_capacity (update_range b mem pt (min f l) (max f l)) = 0" if "pgno_ok f" "pgno_ok l" for b
  proof -
    let ?is = "[page_offset (min f l)..<Suc (page_offset (max f l))]"
    have "page_offset (max f l) < 64" using that page_offset_less [of "max f l"] by (simp add: max_def)
    then have "\<forall>i \<in> set ?is. i < 64" by (auto simp del: upt_Suc)
    from fold_set_bits [OF _ this, of pt b "range_mask (min f l) (max f l)"] show ?thesis
      using assms(1) by (simp add: update_range_def pt_closed_def remove_range_empty del: upt_Suc set_upt)
  qed
  have all: "shrink_subpages_vector mem (pt \<lparr> subpages_size := 0 \<rparr>) = pt"
    using assms(1) empty_vector [of pt] by (simp add: pt_closed_def shrink_empty)
  have "pt_closed (snd (vbi_page_table_add_pages mem pt f l)) \<and> pt_closed (snd (vbi_page_table_remove_pages mem pt f l))"
  proof (cases "pgno_ok f \<and> pgno_ok l")
    case False
    then have "\<not> valid_pgno_range f l" using assms(2,3) by (auto simp: valid_pgno_range_def c_int_def valid_pgno_iff)
    then have "snd (vbi_page_table_add_pages mem pt f l) = pt" "snd (vbi_page_table_remove_pages mem pt f l) = pt"
      by (simp_all add: vbi_page_table_add_pages_def vbi_page_table_remove_pages_def)
    then show ?thesis using assms(1) by simp
  next
    case True
    have inv: "pt_inv pt" "subpages_capacity pt = 0" using assms(1) by (simp_all add: pt_closed_def)
    have "subpages_capacity (snd (vbi_page_table_add_pages mem pt f l)) = 0"
      "subpages_capacity (snd (vbi_page_table_remove_pages mem pt f l)) = 0"
      using True cap inv(2) by (simp_all add: add_pages_range remove_pages_range all)
    then show ?thesis
      using True add_pages_ok(2) [OF inv(1)] remove_pages_ok(2) [OF inv(1)] by (simp add: pt_closed_def)
  qed
  then show "pt_closed (snd (vbi_page_table_add_pages mem pt f l))" "pt_closed (snd (vbi_page_table_remove_pages mem pt f l))"
    by simp_all
qed

lemma c_int_pgno: "c_int p \<Longrightarrow> valid_pgno p \<longleftrightarrow> pgno_ok p"
  by (simp add: c_int_def valid_pgno_iff)

lemma pt_closed_add_subpages:
  assumes "pt_closed pt" "c_int p" "c_int f" "c_int l" "vbi_page_table_add_subpages mem pt p f l = Ret (ok, pt')"
  shows "pt_closed pt'"
proof -
  have inv: "pt_inv pt" "subpages_capacity pt = 0" using assms(1) by (simp_all add: pt_closed_def)
  note e = empty_vector [OF inv] extend_empty [OF inv, of "Suc 0" mem]
  show ?thesis
    using assms(5) pt_closed_ranges(1) [OF assms(1,2,2), of mem] assms(1) e
    by (auto simp: vbi_page_table_add_subpages_def put_range_empty split: if_splits option.splits prod.splits)
qed

lemma pt_closed_remove_subpages:
  assumes "pt_closed pt" "c_int p" "c_int f" "c_int l" "vbi_page_table_remove_subpages mem pt p f l = Ret (ok, pt')"
  shows "pt_closed pt'"
proof -
  have inv: "pt_inv pt" "subpages_capacity pt = 0" using assms(1) by (simp_all add: pt_closed_def)
  note e = empty_vector [OF inv] extend_empty [OF inv, of "Suc (Suc 0)" mem]
  have split: "pt_closed pt'" if "split_page mem pt p a b = Ret (ok, pt')" "pgno_ok p" "p \<in> page_set pt" for a b
  proof -
    let ?pt = "set_bits False (page_mask p) (page_offset p) pt"
    have "pt_inv ?pt" "subpages_capacity ?pt = 0" "subpages ?pt = []" "subpages_size ?pt = 0"
      using inv e(1) set_bits_inv [OF inv(1) page_offset_less [OF that(2)]] by simp_all
    moreover have "pt_inv (?pt \<lparr> subpages_size := 0 \<rparr>)" using calculation by (simp add: pt_inv_def)
    ultimately show ?thesis
      using that(1) e assms(1)
      by (auto simp: split_page_def Let_def page_bit_removed [OF inv(1) that(2,3)] put_range_empty pt_closed_def
        split: if_splits option.splits)
  qed
  have set: "0 \<noteq> pages pt ! page_offset p AND page_mask p \<longleftrightarrow> p \<in> page_set pt" if "pgno_ok p"
    using contains_all_iff [OF that, of pt] by (simp add: contains_all_subpages_def)
  show ?thesis
  proof (cases "VBI_ANY_SUBNO = f \<and> VBI_ANY_SUBNO = l")
    case True
    then show ?thesis
      using assms(5) pt_closed_ranges(2) [OF assms(1,2,2), of mem] by (auto simp: vbi_page_table_remove_subpages_def)
  next
    case False
    show ?thesis
    proof (cases "valid_subpage_range p f l")
      case no: False
      then show ?thesis using False assms(1,5) by (auto simp: vbi_page_table_remove_subpages_def)
    next
      case True
      then have "pgno_ok p" using c_int_pgno [OF assms(2)] by (simp add: valid_subpage_range_def split: if_splits)
      then show ?thesis
        using assms(1,5) True False split set e(1) shrink_empty [OF inv(2)]
        by (auto simp: vbi_page_table_remove_subpages_def split: if_splits prod.splits)
    qed
  qed
qed

lemma pt_closed_displayable: "pt_closed pt \<Longrightarrow> pt_closed (vbi_page_table_add_all_displayable_pages mem pt)"
  using displayable_loop_ok [of pt "0x100" mem] by (simp add: vbi_page_table_add_all_displayable_pages_def pt_closed_def)

lemma pt_reachable_closed: "pt_reachable mem pt \<Longrightarrow> pt_closed pt"
proof (induction rule: pt_reachable.induct)
  case new
  then show ?case by (simp add: pt_closed_def pt_inv_def vbi_page_table_new_def sum_list_replicate)
next
  case (call pt c ok pt')
  note closed = pt_closed_ranges [OF call.IH, of _ _ mem] pt_closed_add_subpages [OF call.IH, of _ _ _ mem ok pt']
    pt_closed_remove_subpages [OF call.IH, of _ _ _ mem ok pt'] pt_closed_displayable [OF call.IH, of mem]
  show ?case
  proof (cases c)
    case (Add_Pages f l)
    then show ?thesis using call(2,3) closed(1) [of f l] by (cases "vbi_page_table_add_pages mem pt f l") (simp add: pt_exec_def)
  next
    case (Remove_Pages f l)
    then show ?thesis using call(2,3) closed(2) [of f l] by (cases "vbi_page_table_remove_pages mem pt f l") (simp add: pt_exec_def)
  next
    case (Add_Subpages p f l)
    then show ?thesis using call(2,3) closed(3) [of p f l] by (simp add: pt_exec_def)
  next
    case (Remove_Subpages p f l)
    then show ?thesis using call(2,3) closed(4) [of p f l] by (simp add: pt_exec_def)
  next
    case Add_Displayable
    then show ?thesis using call(3) closed(5) by (simp add: pt_exec_def)
  qed
qed

lemma pt_reachable_inv:
  assumes "pt_reachable mem pt"
  shows "pt_inv pt" "length (pages pt) = 64" "used pt = []" "subpages_size pt = 0" "subpages_capacity pt = 0"
proof -
  show i: "pt_inv pt" "subpages_capacity pt = 0" using pt_reachable_closed [OF assms] by (simp_all add: pt_closed_def)
  show "length (pages pt) = 64" using i(1) by (simp add: pt_inv_def)
  show "used pt = []" "subpages_size pt = 0" using empty_vector [OF i] by (simp_all add: used_def)
qed

section \<open>Properties\<close>

text \<open>C9. Whole pages work as a set. From a new table, after any sequence of calls that add or
  remove page ranges (in either order of the bounds), a page number is reported as contained exactly
  when the last call that covered it added it; invalid page numbers are never contained.\<close>

theorem page_table_history:
  fixes mem
  assumes "list_all (\<lambda>(b, f, l). pgno_ok f \<and> pgno_ok l) ops" and "c_int p"
  defines "t \<equiv> fold (\<lambda>(b, f, l) t. snd (if b then vbi_page_table_add_pages mem t f l
      else vbi_page_table_remove_pages mem t f l)) ops vbi_page_table_new"
  shows "vbi_page_table_contains_all_subpages t p \<longleftrightarrow>
    pgno_ok p \<and> (case List.find (\<lambda>(b, f, l). min f l \<le> p \<and> p \<le> max f l) (rev ops) of None \<Rightarrow> False | Some (b, _) \<Rightarrow> b)"
proof -
  have "pt_inv vbi_page_table_new" using pt_reachable_inv(1) [OF pt_reachable.new] .
  from pt.history [OF this assms(1), of mem p]
  have "p \<in> page_set t \<longleftrightarrow> (case List.find (\<lambda>(b, f, l). min f l \<le> p \<and> p \<le> max f l) (rev ops) of
      None \<Rightarrow> p \<in> page_set vbi_page_table_new | Some (b, _) \<Rightarrow> b)"
    by (simp add: t_def)
  moreover have "p \<notin> page_set vbi_page_table_new"
    using page_offset_less [of p] by (auto simp: page_set_def vbi_page_table_new_def)
  ultimately show ?thesis
    using contains_all_subpages_iff [of p t] assms(2) by (auto simp: c_int_def page_set_def split: option.splits)
qed

theorem page_table_history_witness:
  "\<not> vbi_page_table_contains_all_subpages (fold (\<lambda>(b, f, l) t. snd (if b then vbi_page_table_add_pages (\<lambda>_. None) t f l
      else vbi_page_table_remove_pages (\<lambda>_. None) t f l)) [(True, 0x100, 0x8FF), (False, 0x888, 0x200)] vbi_page_table_new) 0x777"
  using page_table_history [of "[(True, 0x100, 0x8FF), (False, 0x888, 0x200)]" "0x777" "\<lambda>_. None"]
  by (simp add: pgno_ok_def c_int_def)

text \<open>The page counter is kept up to date by every call: in every reachable table the number of pages
  reported is the number of pages contained.\<close>

theorem page_table_counts:
  assumes "pt_reachable mem pt"
  shows "unat (vbi_page_table_num_pages pt) = card {p. c_int p \<and> vbi_page_table_contains_page pt p}"
proof -
  note inv = pt_reachable_inv [OF assms]
  have "vbi_page_table_contains_page pt p \<longleftrightarrow> p \<in> page_set pt" if "c_int p" for p
    using that inv(4) c_int_pgno [OF that] contains_all_iff [of p pt]
    by (auto simp: vbi_page_table_contains_page_def vbi_page_table_contains_subpage_def page_set_def)
  moreover have "page_set pt \<subseteq> {p. c_int p}" by (auto simp: page_set_def pgno_ok_def c_int_def)
  ultimately have "{p. c_int p \<and> vbi_page_table_contains_page pt p} = page_set pt" by blast
  then show ?thesis using popcnt_card [OF inv(1)] by (simp add: vbi_page_table_num_pages_def inv(4))
qed

theorem page_table_counts_witness:
  "unat (vbi_page_table_num_pages (snd (vbi_page_table_add_pages (\<lambda>_. None) vbi_page_table_new 0x100 0x8FF))) =
    card {p. c_int p \<and> vbi_page_table_contains_page (snd (vbi_page_table_add_pages (\<lambda>_. None) vbi_page_table_new 0x100 0x8FF)) p}"
  by (rule page_table_counts, rule pt_reachable.call [OF pt_reachable.new, of "Add_Pages 0x100 0x8FF" _ True])
    (simp_all add: pt_exec_def c_int_def prod_eq_iff vbi_page_table_add_pages_def valid_pgno_range_def pgno_ok_def)

text \<open>The loop shown in the documentation of \<^verbatim>\<open>vbi_page_table_next_page\<close>, with a bound on the rounds.\<close>

primrec iterate_pages :: "nat \<Rightarrow> vbi_page_table \<Rightarrow> int \<Rightarrow> int list" where
  "iterate_pages 0 pt pgno = []"
| "iterate_pages (Suc n) pt pgno =
     (case vbi_page_table_next_page pt pgno of None \<Rightarrow> [] | Some pgno \<Rightarrow> pgno # iterate_pages n pt pgno)"

lemma sorted_list_of_set_least:
  "finite A \<Longrightarrow> \<forall>a \<in> A. (q :: int) < a \<Longrightarrow> sorted_list_of_set (insert q A) = q # sorted_list_of_set A"
  by (subst sorted_list_of_set_insert) (auto intro!: insort_is_Cons simp: less_imp_le)

lemma iterate_pages_take:
  assumes "length (pages pt) = 64" "used pt = []"
  shows "iterate_pages n pt p = take n (sorted_list_of_set {q \<in> page_set pt. p < q})"
proof (induction n arbitrary: p)
  case 0
  then show ?case by simp
next
  case (Suc n)
  have fin: "finite {q \<in> page_set pt. r < q}" for r using finite_subset [OF page_set_range, of pt] by simp
  show ?case
  proof (cases "vbi_page_table_next_page pt p")
    case None
    then have "{q \<in> page_set pt. p < q} = {}" using next_page_least [OF assms, of p] by (auto simp: not_less)
    then show ?thesis
      by (simp only: iterate_pages.simps None option.case sorted_list_of_set_empty take_Nil)
  next
    case (Some q)
    then have q: "q \<in> page_set pt" "p < q" "\<forall>r \<in> page_set pt. p < r \<longrightarrow> q \<le> r"
      using next_page_least [OF assms, of p] by simp_all
    then have "{r \<in> page_set pt. p < r} = insert q {r \<in> page_set pt. q < r}" by force
    then show ?thesis using Some Suc.IH [of q] sorted_list_of_set_least [OF fin, of q q] by simp
  qed
qed

text \<open>C23. Iteration is complete and ends: calling \<^verbatim>\<open>vbi_page_table_next_page\<close> until it fails, starting
  from 0, yields every contained page of a reachable table once and in ascending order, in at most
  2048 calls plus the failing one.\<close>

theorem next_page_enumerates:
  assumes "pt_reachable mem pt" and "0x801 \<le> n"
  shows "iterate_pages n pt 0 = sorted_list_of_set {p. c_int p \<and> vbi_page_table_contains_all_subpages pt p}"
proof -
  note inv = pt_reachable_inv [OF assms(1)]
  have c: "card (page_set pt) \<le> 0x800" using card_mono [OF _ page_set_range, of pt] by simp
  have "{q \<in> page_set pt. 0 < q} = page_set pt" by (auto simp: page_set_def pgno_ok_def)
  moreover have "{p. c_int p \<and> vbi_page_table_contains_all_subpages pt p} = page_set pt"
    using contains_all_subpages_iff [of _ pt] by (auto simp: c_int_def page_set_def pgno_ok_def)
  ultimately show ?thesis using iterate_pages_take [OF inv(2,3), of n 0] c assms(2) by simp
qed

theorem next_page_enumerates_witness:
  "iterate_pages 0x801 vbi_page_table_new 0 = sorted_list_of_set {p. c_int p \<and> vbi_page_table_contains_all_subpages vbi_page_table_new p}"
  using next_page_enumerates [OF pt_reachable.new] by blast

text \<open>The nested loops that add all displayable pages add exactly the page numbers that are packed
  decimals, 0x100 to 0x899, to the contained pages.\<close>

theorem displayable_pages_are_bcd:
  assumes "pt_reachable mem pt"
  shows "page_set (vbi_page_table_add_all_displayable_pages mem pt) =
    page_set pt \<union> {p. 0x100 \<le> p \<and> p \<le> 0x8FF \<and> vbi_is_bcd (word_of_int p)}"
proof -
  have "vbi_is_bcd (word_of_int q) \<longleftrightarrow> q mod 16 \<le> 9 \<and> q div 16 mod 16 \<le> 9" if q: "0x100 \<le> q" "q < 0x900" for q
  proof -
    define n where "n = nat q"
    have n: "q = int n" "0x100 \<le> n" "n < 0x900" using q by (simp_all add: n_def)
    have u: "unat (word_of_int q :: u32) = n" using n by (simp add: unsigned_of_nat take_bit_nat_eq_self)
    have d: "dig k n \<le> 9" if "2 \<le> k" for k
    proof (cases "k = 2")
      case True
      then show ?thesis using n(3) by (simp add: dig_def)
    next
      case False
      then have "(16 :: nat) ^ 3 \<le> 16 ^ k" using that by (intro power_increasing) simp_all
      then show ?thesis using n(3) by (simp add: dig_def)
    qed
    have "vbi_is_bcd (word_of_int q) \<longleftrightarrow> dig 0 n \<le> 9 \<and> dig 1 n \<le> 9"
      unfolding vbi_is_bcd_iff u using d by (auto simp: less_Suc_eq numeral_eq_Suc elim: less_SucE)
    moreover have "q mod 16 = int (dig 0 n)" "q div 16 mod 16 = int (dig 1 n)"
      by (simp_all add: dig_def n(1) zmod_int zdiv_int)
    ultimately show ?thesis by simp
  qed
  then have "{q. 0x100 \<le> q \<and> q < 0x900 \<and> q mod 16 \<le> 9 \<and> q div 16 mod 16 \<le> 9} = {p. 0x100 \<le> p \<and> p \<le> 0x8FF \<and> vbi_is_bcd (word_of_int p)}"
    by force
  then show ?thesis
    using displayable_loop_ok [OF pt_reachable_inv(1) [OF assms], of "0x100" mem]
    by (simp add: vbi_page_table_add_all_displayable_pages_def)
qed

theorem displayable_pages_are_bcd_witness:
  "page_set (vbi_page_table_add_all_displayable_pages (\<lambda>_. None) vbi_page_table_new) =
    page_set vbi_page_table_new \<union> {p. 0x100 \<le> p \<and> p \<le> 0x8FF \<and> vbi_is_bcd (word_of_int p)}"
  using displayable_pages_are_bcd [OF pt_reachable.new] by blast

lemma valid_subpage_rangeI:
  assumes "pgno_ok p" "0 \<le> f" "f \<le> MAX_SUBNO" "0 \<le> l" "l \<le> MAX_SUBNO"
  shows "valid_subpage_range p f l"
proof -
  have "uint (word_of_int i :: u32) = i" if "0 \<le> i" "i \<le> MAX_SUBNO" for i
    using that by (simp add: uint_word_of_int MAX_SUBNO_def mod_pos_pos_trivial)
  then show ?thesis using assms by (simp add: valid_subpage_range_def word_less_def MAX_SUBNO_def)
qed

text \<open>Subpages are never stored. The vector starts with capacity 0 and is extended to the smaller of the
  wanted and the doubled capacity, which is 0 again; so adding subpages of a page that is not contained, to any table a client can reach, fails when the
  allocator refuses 0 bytes, and otherwise writes to a vector of no elements.\<close>

theorem subpages_never_stored:
  assumes "pt_reachable mem pt" and "pgno_ok p" "\<not> vbi_page_table_contains_page pt p"
    and "0 \<le> f" "f \<le> MAX_SUBNO" "0 \<le> l" "l \<le> MAX_SUBNO"
  shows "vbi_page_table_add_subpages mem pt p f l = (if mem 0 = None then Ret (False, pt) else Undef)"
proof -
  note inv = pt_reachable_inv [OF assms(1)]
  note e = empty_vector [OF inv(1,5)] extend_empty [OF inv(1,5), of "Suc 0" mem]
  have "f \<noteq> VBI_ANY_SUBNO" using assms(5) by (simp add: VBI_ANY_SUBNO_def MAX_SUBNO_def)
  then show ?thesis
    using valid_subpage_rangeI [OF assms(2,4-7)] assms(3) e
    by (auto simp: vbi_page_table_add_subpages_def put_range_empty)
qed

theorem subpages_never_stored_witness:
  "vbi_page_table_add_subpages (\<lambda>_. Some (\<lambda>_. undefined)) vbi_page_table_new 0x100 1 3 = Undef"
  using subpages_never_stored [OF pt_reachable.new [of "\<lambda>_. Some (\<lambda>_. undefined)"], of "0x100" 1 3]
  by (simp add: pgno_ok_def MAX_SUBNO_def vbi_page_table_contains_page_def vbi_page_table_contains_subpage_def
    contains_all_subpages_def vbi_page_table_new_def page_offset_def)

lemma remove_ranges_inside:
  assumes "\<forall>r \<in> set (drop i (used pt)). sr_pgno r = p \<longrightarrow> f \<le> sr_first r \<and> sr_first r \<le> sr_last r \<and> sr_last r \<le> l"
    "pt_inv pt" "i + n = subpages_size pt"
  shows "remove_ranges n mem pt i p f l = Ret (True, shrink_subpages_vector mem pt)"
  using assms
proof (induction n arbitrary: i)
  case 0
  then show ?case by simp
next
  case (Suc n)
  have i: "i < length (used pt)" "used pt ! i = subpages pt ! i"
    using Suc.prems length_used [of pt] by (simp_all add: used_def)
  have d: "drop i (used pt) = used pt ! i # drop (i + 1) (used pt)" using Cons_nth_drop_Suc [OF i(1)] by simp
  have ih: "remove_ranges n mem pt (i + 1) p f l = Ret (True, shrink_subpages_vector mem pt)"
    by (rule Suc.IH) (use Suc.prems d in simp_all)
  have same: "pt \<lparr> subpages := (subpages pt) [i := subpages pt ! i] \<rparr> = pt" by simp
  have "sr_pgno (subpages pt ! i) = p \<longrightarrow> f \<le> sr_first (subpages pt ! i) \<and> sr_first (subpages pt ! i) \<le> sr_last (subpages pt ! i)
      \<and> sr_last (subpages pt ! i) \<le> l"
    using Suc.prems(1) d i(2) by simp
  then show ?case using ih same by (auto simp: Let_def)
qed

text \<open>Removing subpages keeps what it should remove: when every stored range of the page lies inside the
  range to be removed, the call reports success and all those subpages are still contained.\<close>

theorem remove_subpages_keeps_ranges:
  assumes "pt_inv pt" "pgno_ok p" "\<not> vbi_page_table_contains_all_subpages pt p"
    and "0 \<le> f" "f \<le> l" "l \<le> MAX_SUBNO"
    and "\<forall>r \<in> set (used pt). sr_pgno r = p \<longrightarrow> f \<le> sr_first r \<and> sr_first r \<le> sr_last r \<and> sr_last r \<le> l"
  shows "\<exists>pt'. vbi_page_table_remove_subpages mem pt p f l = Ret (True, pt')
    \<and> (\<forall>s. vbi_page_table_contains_subpage pt' p s = vbi_page_table_contains_subpage pt p s)"
proof (intro exI conjI allI)
  note k = shrink_keeps [OF assms(1), of mem]
  have "f \<noteq> VBI_ANY_SUBNO" using assms(5,6) by (simp add: VBI_ANY_SUBNO_def MAX_SUBNO_def)
  then show "vbi_page_table_remove_subpages mem pt p f l = Ret (True, shrink_subpages_vector mem pt)"
    using valid_subpage_rangeI [OF assms(2,4) _ _ assms(6)] assms(2-6)
      remove_ranges_inside [of 0 pt p f l "subpages_size pt" mem] assms(1,7)
    by (simp add: vbi_page_table_remove_subpages_def vbi_page_table_contains_all_subpages_def contains_all_subpages_def)
  fix s
  show "vbi_page_table_contains_subpage (shrink_subpages_vector mem pt) p s = vbi_page_table_contains_subpage pt p s"
    using k(2,3) by (simp add: vbi_page_table_contains_subpage_def contains_all_subpages_def flip: used_def)
qed

definition pt_sample :: vbi_page_table where
  "pt_sample = vbi_page_table_new \<lparr> subpages := [\<lparr> sr_pgno = 0x100, sr_first = 5, sr_last = 10 \<rparr>],
     subpages_size := 1, subpages_capacity := 1 \<rparr>"

theorem remove_subpages_keeps_ranges_witness:
  "\<exists>pt'. vbi_page_table_remove_subpages (\<lambda>_. None) pt_sample 0x100 0 0x20 = Ret (True, pt')
    \<and> (\<forall>s. vbi_page_table_contains_subpage pt' 0x100 s = vbi_page_table_contains_subpage pt_sample 0x100 s)"
  by (rule remove_subpages_keeps_ranges)
    (simp_all add: pt_sample_def vbi_page_table_new_def pt_inv_def used_def pgno_ok_def MAX_SUBNO_def sum_list_replicate
      vbi_page_table_contains_all_subpages_def contains_all_subpages_def page_offset_def)

end
