(* ===== verification/Sliced_Filter.thy ===== *)
theory Sliced_Filter
  imports Hamm Sliced Page_Table "HOL-Library.Sublist"
begin

text \<open>
  The sliced data filter, \<^verbatim>\<open>vbi/src/sliced_filter.c\<close>: of each frame it passes on the lines
  of the selected data services and the Teletext packets of the selected pages.
  The error text is kept as a value of \<open>sf_error\<close> instead of a formatted string. The allocator for the output
  buffer, which succeeds or not for a number of bytes, and the callback are
  parameters. The lines stored in the output buffer are returned as a list.
\<close>

section \<open>State\<close>

datatype sf_error =
    Out_Of_Memory
  | Invalid_Page int
  | Invalid_Page_Range int int
  | Invalid_Subpage int
  | Invalid_Subpage_Range int int
  | Hamming_Page
  | Hamming_Flags
  | Hamming_Packet
  | Output_Overflow

record vbi_sliced_filter =
  keep_ttx_pages :: vbi_page_table
  keep_ttx_system_pages :: bool
  output_max_lines :: nat
  keep_mag_set_next :: u32
  sf_start :: bool
  keep_services :: u32
  errstr :: "sf_error option"

type_synonym 'u sf_cb = "vbi_sliced list \<Rightarrow> 'u \<Rightarrow> bool \<times> 'u"

definition set_errstr :: "vbi_sliced_filter \<Rightarrow> sf_error \<Rightarrow> vbi_sliced_filter" where
  "set_errstr sf e = sf \<lparr> errstr := Some e \<rparr>"

definition no_mem_error :: "vbi_sliced_filter \<Rightarrow> vbi_sliced_filter" where
  "no_mem_error sf = sf \<lparr> errstr := Some Out_Of_Memory \<rparr>"

definition vbi_sliced_filter_reset :: "vbi_sliced_filter \<Rightarrow> vbi_sliced_filter" where
  "vbi_sliced_filter_reset sf = sf \<lparr> keep_mag_set_next := 0, sf_start := True \<rparr>"

definition vbi_sliced_filter_new :: vbi_sliced_filter where
  "vbi_sliced_filter_new = vbi_sliced_filter_reset
     \<lparr> keep_ttx_pages = vbi_page_table_new, keep_ttx_system_pages = False, output_max_lines = 0,
       keep_mag_set_next = 0, sf_start = False, keep_services = 0, errstr = None \<rparr>"

section \<open>Selection\<close>

definition vbi_sliced_filter_keep_ttx_system_pages :: "vbi_sliced_filter \<Rightarrow> bool \<Rightarrow> vbi_sliced_filter" where
  "vbi_sliced_filter_keep_ttx_system_pages sf keep = sf \<lparr> keep_ttx_system_pages := keep \<rparr>"

definition valid_ttx_page :: "int \<Rightarrow> bool" where
  "valid_ttx_page pgno \<longleftrightarrow> (word_of_int pgno :: u32) - 0x100 < 0x800"

definition valid_ttx_subpage_range :: "vbi_sliced_filter \<Rightarrow> int \<Rightarrow> int \<Rightarrow> int \<Rightarrow> bool \<times> vbi_sliced_filter" where
  "valid_ttx_subpage_range sf pgno first_subno last_subno =
     (if \<not> valid_ttx_page pgno then (False, set_errstr sf (Invalid_Page pgno))
      else if (word_of_int first_subno :: u32) \<le> word_of_int MAX_SUBNO \<and> (word_of_int last_subno :: u32) \<le> word_of_int MAX_SUBNO
      then (True, sf)
      else if first_subno = last_subno then (False, set_errstr sf (Invalid_Subpage first_subno))
      else (False, set_errstr sf (Invalid_Subpage_Range first_subno last_subno)))"

definition valid_ttx_page_range :: "vbi_sliced_filter \<Rightarrow> int \<Rightarrow> int \<Rightarrow> bool \<times> vbi_sliced_filter" where
  "valid_ttx_page_range sf first_pgno last_pgno =
     (if valid_ttx_page first_pgno \<and> valid_ttx_page last_pgno then (True, sf)
      else if first_pgno = last_pgno then (False, set_errstr sf (Invalid_Page first_pgno))
      else (False, set_errstr sf (Invalid_Page_Range first_pgno last_pgno)))"

text \<open>Dropping a page of a service that is kept as a whole: keep all its pages one by one instead.\<close>

definition select_single_pages :: "allocator \<Rightarrow> vbi_sliced_filter \<Rightarrow> vbi_sliced_filter" where
  "select_single_pages mem sf =
     (if keep_services sf AND VBI_SLICED_TELETEXT_B_625 \<noteq> 0
      then sf \<lparr> keep_ttx_pages := vbi_page_table_add_all_pages mem (keep_ttx_pages sf),
                keep_services := keep_services sf AND NOT VBI_SLICED_TELETEXT_B_625 \<rparr>
      else sf)"

definition vbi_sliced_filter_drop_ttx_pages :: "allocator \<Rightarrow> vbi_sliced_filter \<Rightarrow> int \<Rightarrow> int \<Rightarrow> bool \<times> vbi_sliced_filter" where
  "vbi_sliced_filter_drop_ttx_pages mem sf first_pgno last_pgno =
     (case valid_ttx_page_range sf first_pgno last_pgno of (ok, sf) \<Rightarrow>
        if \<not> ok then (False, sf)
        else let sf = select_single_pages mem sf;
                 (r, pt) = vbi_page_table_remove_pages mem (keep_ttx_pages sf) first_pgno last_pgno
             in (r, sf \<lparr> keep_ttx_pages := pt \<rparr>))"

definition vbi_sliced_filter_keep_ttx_pages :: "allocator \<Rightarrow> vbi_sliced_filter \<Rightarrow> int \<Rightarrow> int \<Rightarrow> bool \<times> vbi_sliced_filter" where
  "vbi_sliced_filter_keep_ttx_pages mem sf first_pgno last_pgno =
     (case valid_ttx_page_range sf first_pgno last_pgno of (ok, sf) \<Rightarrow>
        if \<not> ok then (False, sf)
        else if keep_services sf AND VBI_SLICED_TELETEXT_B_625 \<noteq> 0 then (True, sf)
        else let (r, pt) = vbi_page_table_add_pages mem (keep_ttx_pages sf) first_pgno last_pgno
             in (r, sf \<lparr> keep_ttx_pages := pt \<rparr>))"

definition vbi_sliced_filter_drop_ttx_subpages ::
  "allocator \<Rightarrow> vbi_sliced_filter \<Rightarrow> int \<Rightarrow> int \<Rightarrow> int \<Rightarrow> (bool \<times> vbi_sliced_filter) c_result" where
  "vbi_sliced_filter_drop_ttx_subpages mem sf pgno first_subno last_subno =
     (if VBI_ANY_SUBNO = first_subno \<and> VBI_ANY_SUBNO = last_subno
      then Ret (vbi_sliced_filter_drop_ttx_pages mem sf pgno pgno)
      else case valid_ttx_subpage_range sf pgno first_subno last_subno of (ok, sf) \<Rightarrow>
        if \<not> ok then Ret (False, sf)
        else let sf = select_single_pages mem sf
             in c_bind (vbi_page_table_remove_subpages mem (keep_ttx_pages sf) pgno first_subno last_subno)
                  (\<lambda>(r, pt). Ret (r, sf \<lparr> keep_ttx_pages := pt \<rparr>)))"

definition vbi_sliced_filter_keep_ttx_subpages ::
  "allocator \<Rightarrow> vbi_sliced_filter \<Rightarrow> int \<Rightarrow> int \<Rightarrow> int \<Rightarrow> (bool \<times> vbi_sliced_filter) c_result" where
  "vbi_sliced_filter_keep_ttx_subpages mem sf pgno first_subno last_subno =
     (if VBI_ANY_SUBNO = first_subno \<and> VBI_ANY_SUBNO = last_subno
      then Ret (vbi_sliced_filter_keep_ttx_pages mem sf pgno pgno)
      else case valid_ttx_subpage_range sf pgno first_subno last_subno of (ok, sf) \<Rightarrow>
        if \<not> ok then Ret (False, sf)
        else if keep_services sf AND VBI_SLICED_TELETEXT_B_625 \<noteq> 0 then Ret (True, sf)
        else c_bind (vbi_page_table_add_subpages mem (keep_ttx_pages sf) pgno first_subno last_subno)
               (\<lambda>(r, pt). Ret (r, sf \<lparr> keep_ttx_pages := pt \<rparr>)))"

definition vbi_sliced_filter_drop_services :: "allocator \<Rightarrow> vbi_sliced_filter \<Rightarrow> u32 \<Rightarrow> u32 \<times> vbi_sliced_filter" where
  "vbi_sliced_filter_drop_services mem sf services =
     (let sf = (if services AND VBI_SLICED_TELETEXT_B_625 \<noteq> 0
                then sf \<lparr> keep_ttx_pages := vbi_page_table_remove_all_pages mem (keep_ttx_pages sf) \<rparr> else sf);
          sf = sf \<lparr> keep_services := keep_services sf AND NOT services \<rparr>
      in (keep_services sf, sf))"

definition vbi_sliced_filter_keep_services :: "allocator \<Rightarrow> vbi_sliced_filter \<Rightarrow> u32 \<Rightarrow> u32 \<times> vbi_sliced_filter" where
  "vbi_sliced_filter_keep_services mem sf services =
     (let sf = (if services AND VBI_SLICED_TELETEXT_B_625 \<noteq> 0
                then sf \<lparr> keep_ttx_pages := vbi_page_table_remove_all_pages mem (keep_ttx_pages sf) \<rparr> else sf);
          sf = sf \<lparr> keep_services := keep_services sf OR services \<rparr>
      in (keep_services sf, sf))"

section \<open>Filtering\<close>

definition VBI_SERIAL :: int where "VBI_SERIAL = 0x100000"

text \<open>
  A page header. The local set \<open>keep_mag_set\<close> of magazines to keep is passed through.
  \<open>match_page\<close> is the code behind the label \<^verbatim>\<open>match\<close>.
\<close>

definition match_page :: "vbi_sliced_filter \<Rightarrow> u32 \<Rightarrow> u32 \<Rightarrow> bool \<times> vbi_sliced_filter \<times> u32" where
  "match_page sf keep_mag_set mag_set =
     (let keep_mag_set = keep_mag_set OR mag_set
      in (True, sf \<lparr> keep_mag_set_next := keep_mag_set, sf_start := False \<rparr>, keep_mag_set))"

definition other_page :: "vbi_sliced_filter \<Rightarrow> u32 \<Rightarrow> u32 \<Rightarrow> bool \<times> vbi_sliced_filter \<times> u32" where
  "other_page sf keep_mag_set mag_set =
     (if keep_mag_set AND mag_set \<noteq> 0 then
        (True, sf \<lparr> keep_mag_set_next := keep_mag_set AND NOT mag_set, sf_start := False \<rparr>, keep_mag_set)
      else if sf_start sf then (True, sf \<lparr> keep_mag_set_next := 0, sf_start := False \<rparr>, mag_set)
      else let keep_mag_set = keep_mag_set AND NOT mag_set
           in (True, sf \<lparr> keep_mag_set_next := keep_mag_set, sf_start := False \<rparr>, keep_mag_set))"

definition decode_teletext_packet_0 ::
  "vbi_sliced_filter \<Rightarrow> u32 \<Rightarrow> u8 list \<Rightarrow> int \<Rightarrow> bool \<times> vbi_sliced_filter \<times> u32" where
  "decode_teletext_packet_0 sf keep_mag_set buffer magazine =
     (let page = vbi_unham16p (drop 2 buffer)
      in if page < 0 then (False, set_errstr sf Hamming_Page, keep_mag_set)
         else if 0xFF = page then (True, sf, 0)
         else
           let pgno = magazine * 0x100 + page;
               flags = vbi_unham16p (drop 4 buffer) OR push_bit 8 (vbi_unham16p (drop 6 buffer))
                       OR push_bit 16 (vbi_unham16p (drop 8 buffer))
           in if flags < 0 then (False, set_errstr sf Hamming_Flags, keep_mag_set)
              else
                let mag_set = (if flags AND VBI_SERIAL \<noteq> 0 then - 1 else push_bit (nat magazine) 1)
                in if \<not> vbi_is_bcd (word_of_int pgno) then
                     (if keep_ttx_system_pages sf then match_page sf keep_mag_set mag_set
                      else other_page sf keep_mag_set mag_set)
                   else if vbi_page_table_contains_subpage (keep_ttx_pages sf) pgno (flags AND 0x3F7F)
                   then match_page sf keep_mag_set mag_set
                   else other_page sf keep_mag_set mag_set)"

text \<open>The result, the filter and the flag \<^verbatim>\<open>*keep\<close>; the failing assertion is undefined.\<close>

definition decode_teletext :: "vbi_sliced_filter \<Rightarrow> bool \<Rightarrow> u8 list \<Rightarrow> (bool \<times> vbi_sliced_filter \<times> bool) c_result" where
  "decode_teletext sf keep buffer =
     (let keep_mag_set = keep_mag_set_next sf;
          pmag = vbi_unham16p buffer
      in if pmag < 0 then Ret (False, set_errstr sf Hamming_Packet, keep)
         else
           let magazine = (if pmag AND 7 = 0 then 8 else pmag AND 7);
               packet = drop_bit 3 pmag;
               kept = (\<lambda>keep_mag_set. keep_mag_set AND push_bit (nat magazine) 1 \<noteq> (0 :: u32))
           in if packet = 0 then
                (case decode_teletext_packet_0 sf keep_mag_set buffer magazine of (ok, sf, keep_mag_set) \<Rightarrow>
                   if \<not> ok then Ret (False, sf, keep) else Ret (True, sf, kept keep_mag_set))
              else if 1 \<le> packet \<and> packet \<le> 25 then Ret (True, sf, kept keep_mag_set)
              else if packet = 26 \<or> packet = 27 \<or> packet = 28 \<or> packet = 29 then Ret (True, sf, kept keep_mag_set)
              else if packet = 30 \<or> packet = 31 then Ret (True, sf, False)
              else Undef)"

definition is_teletext_line :: "vbi_sliced \<Rightarrow> bool" where
  "is_teletext_line l \<longleftrightarrow> sl_id l = VBI_SLICED_TELETEXT_B_L10_625 \<or> sl_id l = VBI_SLICED_TELETEXT_B_L25_625
     \<or> sl_id l = VBI_SLICED_TELETEXT_B_625"

text \<open>One round of the loop: the decision for one line.\<close>

definition pass_line :: "vbi_sliced_filter \<Rightarrow> vbi_sliced \<Rightarrow> (bool \<times> vbi_sliced_filter \<times> bool) c_result" where
  "pass_line sf l =
     (if sl_id l AND keep_services sf \<noteq> 0 then Ret (True, sf, True)
      else if is_teletext_line l then decode_teletext sf False (sl_data l)
      else Ret (True, sf, False))"

text \<open>The loop, with the lines stored so far and the number of lines read.\<close>

primrec sf_cor_loop ::
  "vbi_sliced_filter \<Rightarrow> nat \<Rightarrow> vbi_sliced list \<Rightarrow> nat \<Rightarrow> vbi_sliced list
    \<Rightarrow> (bool \<times> vbi_sliced_filter \<times> vbi_sliced list \<times> nat) c_result" where
  "sf_cor_loop sf max_lines_out out inp [] = Ret (True, sf, out, inp)"
| "sf_cor_loop sf max_lines_out out inp (l # ls) =
     c_bind (pass_line sf l) (\<lambda>(ok, sf, pass_through).
       if \<not> ok then Ret (False, sf, out, inp)
       else if pass_through then
         (if length out \<ge> max_lines_out then Ret (False, set_errstr sf Output_Overflow, out, inp)
          else sf_cor_loop sf max_lines_out (out @ [l]) (inp + 1) ls)
       else sf_cor_loop sf max_lines_out out (inp + 1) ls)"

text \<open>The result, the filter, the lines in \<^verbatim>\<open>sliced_out\<close>, and \<^verbatim>\<open>*n_lines_in\<close>.\<close>

definition vbi_sliced_filter_cor ::
  "vbi_sliced_filter \<Rightarrow> nat \<Rightarrow> vbi_sliced list \<Rightarrow> (bool \<times> vbi_sliced_filter \<times> vbi_sliced list \<times> nat) c_result" where
  "vbi_sliced_filter_cor sf max_lines_out sliced_in = sf_cor_loop sf max_lines_out [] 0 sliced_in"

text \<open>\<^verbatim>\<open>sizeof (vbi_sliced)\<close>, two words and 56 bytes.\<close>

definition sizeof_sliced :: nat where "sizeof_sliced = 64"

definition vbi_sliced_filter_feed ::
  "(nat \<Rightarrow> bool) \<Rightarrow> 'u sf_cb option \<Rightarrow> vbi_sliced_filter \<times> 'u \<Rightarrow> vbi_sliced list
    \<Rightarrow> (bool \<times> (vbi_sliced_filter \<times> 'u) \<times> nat) c_result" where
  "vbi_sliced_filter_feed alloc callback = (\<lambda>(sf, u) sliced.
     let n_lines = length sliced
     in if n_lines > 0xFFFFFFFF div sizeof_sliced then Undef
        else
          let enlarge = output_max_lines sf < n_lines;
              n = min n_lines 50
          in if enlarge \<and> \<not> alloc (n * sizeof_sliced) then Ret (False, (no_mem_error sf, u), n_lines)
             else
               let sf = (if enlarge then sf \<lparr> output_max_lines := n \<rparr> else sf)
               in c_bind (vbi_sliced_filter_cor sf (output_max_lines sf) sliced) (\<lambda>(ok, sf, out, n_lines).
                    if \<not> ok then Ret (False, (sf, u), n_lines)
                    else case callback of
                      None \<Rightarrow> Ret (True, (sf, u), n_lines)
                    | Some cb \<Rightarrow> (case cb out u of (r, u) \<Rightarrow> Ret (r, (sf, u), n_lines))))"

definition vbi_sliced_filter_errstr :: "vbi_sliced_filter \<Rightarrow> sf_error option" where
  "vbi_sliced_filter_errstr sf = errstr sf"

section \<open>Packets and magazines\<close>

text \<open>
  The contract of the packet filter. A packet is damaged, a filler header, the header of a page
  (transmitted in serial or parallel mode, of a magazine, selected or not), a packet of the page
  in transmission, or independent data.
\<close>

datatype ttx_packet =
    Damaged
  | Filler
  | Header bool nat bool
  | Body nat
  | Independent

definition ttx_magazine :: "int \<Rightarrow> nat" where
  "ttx_magazine pmag = (if pmag AND 7 = 0 then 8 else nat (pmag AND 7))"

definition ttx_page :: "vbi_sliced_filter \<Rightarrow> nat \<Rightarrow> int \<Rightarrow> int \<Rightarrow> bool" where
  "ttx_page sf m page flags =
     (let pgno = int m * 0x100 + page
      in if vbi_is_bcd (word_of_int pgno) then vbi_page_table_contains_subpage (keep_ttx_pages sf) pgno (flags AND 0x3F7F)
         else keep_ttx_system_pages sf)"

definition ttx_flags :: "u8 list \<Rightarrow> int" where
  "ttx_flags buffer = vbi_unham16p (drop 4 buffer) OR push_bit 8 (vbi_unham16p (drop 6 buffer))
     OR push_bit 16 (vbi_unham16p (drop 8 buffer))"

definition ttx_parse :: "vbi_sliced_filter \<Rightarrow> u8 list \<Rightarrow> ttx_packet" where
  "ttx_parse sf buffer =
     (let pmag = vbi_unham16p buffer; page = vbi_unham16p (drop 2 buffer); flags = ttx_flags buffer; m = ttx_magazine pmag
      in if pmag < 0 then Damaged
         else if pmag < 8 then
           (if page < 0 then Damaged else if page = 0xFF then Filler else if flags < 0 then Damaged
            else Header (flags AND VBI_SERIAL \<noteq> 0) m (ttx_page sf m page flags))
         else if pmag < 240 then Body m else Independent)"

text \<open>The state: the magazines whose packets are kept, and whether no header has been seen yet.\<close>

type_synonym mag_state = "nat set \<times> bool"

definition header_mags :: "bool \<Rightarrow> nat \<Rightarrow> nat set" where
  "header_mags serial m = (if serial then {1..8} else {m})"

fun mag_next :: "ttx_packet \<Rightarrow> mag_state \<Rightarrow> mag_state" where
  "mag_next (Header serial m sel) (A, first) =
     (if sel then (A \<union> header_mags serial m, False)
      else if first then ({}, False)
      else (A - header_mags serial m, False))"
| "mag_next _ st = st"

fun mag_keep :: "ttx_packet \<Rightarrow> mag_state \<Rightarrow> bool" where
  "mag_keep (Header serial m sel) (A, first) \<longleftrightarrow> sel \<or> first \<or> m \<in> A"
| "mag_keep (Body m) (A, first) \<longleftrightarrow> m \<in> A"
| "mag_keep _ st \<longleftrightarrow> False"

definition mags :: "u32 \<Rightarrow> nat set" where
  "mags w = {m. 1 \<le> m \<and> m \<le> 8 \<and> bit w m}"

definition mag_abs :: "vbi_sliced_filter \<Rightarrow> mag_state" where
  "mag_abs sf = (mags (keep_mag_set_next sf), sf_start sf)"

text \<open>Before the first header no magazine is kept.\<close>

definition sf_inv :: "vbi_sliced_filter \<Rightarrow> bool" where
  "sf_inv sf \<longleftrightarrow> (sf_start sf \<longrightarrow> keep_mag_set_next sf = 0)"

lemma mag_bit: "1 \<le> m \<Longrightarrow> m \<le> 8 \<Longrightarrow> (w AND push_bit m 1 \<noteq> (0 :: u32)) \<longleftrightarrow> m \<in> mags w"
  using and_exp_eq_0_iff_not_bit [of w m] by (simp add: mags_def push_bit_of_1)

lemma ttx_magazine_range:
  shows "1 \<le> ttx_magazine pmag" "ttx_magazine pmag \<le> 8"
    "(if pmag AND 7 = 0 then 8 else pmag AND 7) = int (ttx_magazine pmag)"
proof -
  obtain x where x: "pmag AND 7 = x" "0 \<le> x" "x \<le> 7" by (simp add: AND_upper2)
  then show "1 \<le> ttx_magazine pmag" "ttx_magazine pmag \<le> 8"
    "(if pmag AND 7 = 0 then 8 else pmag AND 7) = int (ttx_magazine pmag)"
    unfolding ttx_magazine_def x(1) by auto
qed

lemma mags_simps [simp]: "mags 0 = {}" "mags (- 1) = {1..8}" "mags (a OR b) = mags a \<union> mags b"
  "mags (a AND NOT b) = mags a - mags b"
  by (auto simp: mags_def bit_simps)

lemma mags_single: "1 \<le> m \<Longrightarrow> m \<le> 8 \<Longrightarrow> mags (2 ^ m) = {m}"
  by (auto simp: mags_def bit_simps)

text \<open>The two ways out of a header, on the magazine set \<open>w\<close> of the filter.\<close>

lemma match_page_ok:
  assumes "mags ms = header_mags serial m" "1 \<le> m" "m \<le> 8"
  shows "match_page sf (keep_mag_set_next sf) ms = (True, sf', w) \<Longrightarrow>
    sf_inv sf' \<and> mag_abs sf' = mag_next (Header serial m True) (mag_abs sf) \<and> m \<in> mags w"
proof -
  assume "match_page sf (keep_mag_set_next sf) ms = (True, sf', w)"
  then have r: "sf' = sf \<lparr> keep_mag_set_next := keep_mag_set_next sf OR ms, sf_start := False \<rparr>"
    "w = keep_mag_set_next sf OR ms" by (auto simp: match_page_def Let_def)
  have "m \<in> header_mags serial m" using assms(2,3) by (simp add: header_mags_def)
  then show ?thesis using assms(1) by (simp add: r mag_abs_def sf_inv_def)
qed

lemma other_page_ok:
  assumes "mags ms = header_mags serial m" "1 \<le> m" "m \<le> 8" "sf_inv sf"
    and ms: "ms = (if serial then - 1 else push_bit m 1)"
  shows "other_page sf (keep_mag_set_next sf) ms = (True, sf', w) \<Longrightarrow>
    sf_inv sf' \<and> mag_abs sf' = mag_next (Header serial m False) (mag_abs sf)
    \<and> (m \<in> mags w \<longleftrightarrow> mag_keep (Header serial m False) (mag_abs sf))"
proof -
  assume r: "other_page sf (keep_mag_set_next sf) ms = (True, sf', w)"
  let ?k = "keep_mag_set_next sf"
  show ?thesis
  proof (cases "?k AND ms = 0")
    case False
    then have "\<not> sf_start sf" using assms(4) by (auto simp: sf_inv_def)
    moreover have "sf' = sf \<lparr> keep_mag_set_next := ?k AND NOT ms, sf_start := False \<rparr>" "w = ?k"
      using r False by (auto simp: other_page_def)
    ultimately show ?thesis using assms(1) by (simp add: mag_abs_def sf_inv_def)
  next
    case True
    have "m \<notin> mags ?k"
    proof (cases serial)
      case True
      then show ?thesis using \<open>?k AND ms = 0\<close> ms by (simp add: mags_def)
    next
      case False
      then show ?thesis using mag_bit [OF assms(2,3), of ?k] \<open>?k AND ms = 0\<close> ms by simp
    qed
    then show ?thesis
      using r True assms(1-4) by (auto simp: other_page_def Let_def mag_abs_def sf_inv_def header_mags_def split: if_splits)
  qed
qed

lemma unham_ham_bound: "0 \<le> vbi_unham16p p \<Longrightarrow> drop_bit 3 (vbi_unham16p p) \<le> 31"
  using unham16p_range(1) [of p] by (simp add: drop_bit_eq_div)

lemma nested_if: "(if \<not> b then if y then a else c else if x then a else c) = (if if b then x else y then a else c)"
  by simp

lemma decode_header_ok:
  assumes "sf_inv sf" "0 \<le> vbi_unham16p buffer" "vbi_unham16p buffer < 8"
  defines "m \<equiv> ttx_magazine (vbi_unham16p buffer)"
  shows "case decode_teletext_packet_0 sf (keep_mag_set_next sf) buffer (int m) of (ok, sf', w) \<Rightarrow>
     sf_inv sf' \<and> mag_abs sf' = mag_next (ttx_parse sf buffer) (mag_abs sf) \<and> ok = (ttx_parse sf buffer \<noteq> Damaged)
     \<and> (ok \<longrightarrow> (m \<in> mags w \<longleftrightarrow> mag_keep (ttx_parse sf buffer) (mag_abs sf)))"
proof -
  let ?page = "vbi_unham16p (drop 2 buffer)" and ?flags = "ttx_flags buffer"
  let ?serial = "?flags AND VBI_SERIAL \<noteq> 0"
  define ms where "ms = (if ?serial then - 1 else push_bit m (1 :: u32))"
  have m: "1 \<le> m" "m \<le> 8" using ttx_magazine_range by (simp_all add: m_def)
  have ms: "mags ms = header_mags ?serial m" using m by (simp add: header_mags_def mags_single ms_def)
  note match = match_page_ok [OF ms m] and other = other_page_ok [OF ms m assms(1) ms_def]
  have err: "sf_inv (set_errstr sf e)" "mag_abs (set_errstr sf e) = mag_abs sf" for e
    using assms(1) by (simp_all add: set_errstr_def sf_inv_def mag_abs_def)
  have ok1: "fst (match_page sf k s)" "fst (other_page sf k s)" for k s
    by (simp_all add: match_page_def other_page_def Let_def)
  consider "?page < 0" | "?page = 0xFF" | "0 \<le> ?page" "?page \<noteq> 0xFF" "?flags < 0" | "0 \<le> ?page" "?page \<noteq> 0xFF" "0 \<le> ?flags"
    by linarith
  then show ?thesis
  proof cases
    case 1
    then show ?thesis using err assms(2,3) by (simp add: decode_teletext_packet_0_def ttx_parse_def)
  next
    case 2
    then show ?thesis using assms(1-3) by (simp add: decode_teletext_packet_0_def ttx_parse_def)
  next
    case 3
    then show ?thesis
      using err assms(2,3) by (simp add: decode_teletext_packet_0_def ttx_parse_def Let_def ttx_flags_def)
  next
    case 4
    have p: "ttx_parse sf buffer = Header ?serial m (ttx_page sf m ?page ?flags)"
      using 4 assms(2,3) by (simp add: ttx_parse_def Let_def m_def)
    have d: "decode_teletext_packet_0 sf (keep_mag_set_next sf) buffer (int m) =
        (if ttx_page sf m ?page ?flags then match_page sf (keep_mag_set_next sf) ms else other_page sf (keep_mag_set_next sf) ms)"
    proof -
      have ne: "(?page < 0) = False" "(0xFF = ?page) = False" "(?flags < 0) = False" using 4 by simp_all
      show ?thesis
        unfolding decode_teletext_packet_0_def Let_def ttx_page_def ttx_flags_def [symmetric] nat_int ne if_False ms_def
        by (rule nested_if)
    qed
    show ?thesis
    proof (cases "ttx_page sf m ?page ?flags")
      case True
      obtain sf' w where "match_page sf (keep_mag_set_next sf) ms = (True, sf', w)"
        using ok1(1) [of "keep_mag_set_next sf" ms] by (cases "match_page sf (keep_mag_set_next sf) ms") simp
      with match [OF this] show ?thesis by (simp add: p d True mag_abs_def)
    next
      case False
      obtain sf' w where "other_page sf (keep_mag_set_next sf) ms = (True, sf', w)"
        using ok1(2) [of "keep_mag_set_next sf" ms] by (cases "other_page sf (keep_mag_set_next sf) ms") simp
      with other [OF this] show ?thesis by (simp add: p d False)
    qed
  qed
qed

lemma decode_teletext_ok:
  assumes "sf_inv sf"
  shows "\<exists>ok sf' k. decode_teletext sf False buffer = Ret (ok, sf', k) \<and> sf_inv sf'
     \<and> mag_abs sf' = mag_next (ttx_parse sf buffer) (mag_abs sf) \<and> ok = (ttx_parse sf buffer \<noteq> Damaged)
     \<and> (ok \<longrightarrow> k = mag_keep (ttx_parse sf buffer) (mag_abs sf))"
proof -
  let ?p = "vbi_unham16p buffer"
  define m where "m = ttx_magazine ?p"
  have m: "1 \<le> m" "m \<le> 8" "(if ?p AND 7 = 0 then 8 else ?p AND 7) = int m"
    using ttx_magazine_range by (simp_all add: m_def)
  obtain q where q: "?p div 8 = q" "8 * q \<le> ?p" "?p < 8 * q + 8"
    using div_mult_mod_eq [of ?p 8] pos_mod_bound [of 8 ?p] pos_mod_sign [of 8 ?p] by fastforce
  have packet: "drop_bit 3 ?p = q" using q(1) by (simp add: drop_bit_eq_div)
  have kept: "(w AND push_bit m 1 \<noteq> (0 :: u32)) \<longleftrightarrow> m \<in> mags w" for w by (rule mag_bit [OF m(1,2)])
  have d: "decode_teletext sf False buffer =
     (if ?p < 0 then Ret (False, set_errstr sf Hamming_Packet, False)
      else if q = 0 then
        (case decode_teletext_packet_0 sf (keep_mag_set_next sf) buffer (int m) of (ok, sf, w) \<Rightarrow>
           if \<not> ok then Ret (False, sf, False) else Ret (True, sf, m \<in> mags w))
      else if 1 \<le> q \<and> q \<le> 25 then Ret (True, sf, m \<in> mags (keep_mag_set_next sf))
      else if q = 26 \<or> q = 27 \<or> q = 28 \<or> q = 29 then Ret (True, sf, m \<in> mags (keep_mag_set_next sf))
      else if q = 30 \<or> q = 31 then Ret (True, sf, False) else Undef)"
    unfolding decode_teletext_def Let_def m(3) packet nat_int kept by (rule refl)
  consider "?p < 0" | "0 \<le> ?p" "?p < 8" | "8 \<le> ?p" "?p < 240" | "240 \<le> ?p" "?p \<le> 255"
    using unham16p_range(1) [of buffer] by linarith
  then show ?thesis
  proof cases
    case 1
    then show ?thesis using assms by (auto simp: d ttx_parse_def set_errstr_def sf_inv_def mag_abs_def)
  next
    case 2
    then have "q = 0" using q(2,3) by linarith
    with decode_header_ok [OF assms 2] 2 show ?thesis
      by (cases "decode_teletext_packet_0 sf (keep_mag_set_next sf) buffer (int m)") (auto simp: d m_def)
  next
    case 3
    then have "q \<noteq> 0" "1 \<le> q" "q \<le> 29" using q(2,3) by linarith+
    moreover have "ttx_parse sf buffer = Body m" using 3 by (simp add: ttx_parse_def Let_def m_def)
    moreover have "q \<le> 25 \<or> q = 26 \<or> q = 27 \<or> q = 28 \<or> q = 29"
      using calculation(3) by linarith
    moreover have "decode_teletext sf False buffer = Ret (True, sf, m \<in> mags (keep_mag_set_next sf))"
      unfolding d using 3 calculation(1,2,5) by (elim disjE) simp_all
    ultimately show ?thesis using assms by (auto simp: mag_abs_def)
  next
    case 4
    have "ttx_parse sf buffer = Independent" using 4 by (simp add: ttx_parse_def Let_def)
    moreover have "q = 30 \<or> q = 31" using 4 q(2,3) by linarith
    then have "decode_teletext sf False buffer = Ret (True, sf, False)"
      unfolding d using 4 by (elim disjE) simp_all
    ultimately show ?thesis using assms by auto
  qed
qed

text \<open>What the loop never changes.\<close>

definition same_selection :: "vbi_sliced_filter \<Rightarrow> vbi_sliced_filter \<Rightarrow> bool" where
  "same_selection sf sf' \<longleftrightarrow> keep_ttx_pages sf' = keep_ttx_pages sf \<and> keep_ttx_system_pages sf' = keep_ttx_system_pages sf
     \<and> keep_services sf' = keep_services sf"

lemma same_selection_refl [simp]: "same_selection sf sf"
  by (simp add: same_selection_def)

lemma same_selection_trans: "same_selection a b \<Longrightarrow> same_selection b c \<Longrightarrow> same_selection a c"
  by (simp add: same_selection_def)

lemma same_selection_parse:
  assumes "same_selection sf sf'"
  shows "ttx_parse sf' = ttx_parse sf"
proof -
  have "ttx_page sf' = ttx_page sf"
    using assms by (simp add: same_selection_def ttx_page_def fun_eq_iff cong: if_cong)
  then show ?thesis by (simp only: ttx_parse_def fun_eq_iff simp_thms)
qed

lemma header_selection:
  "fst (snd (match_page sf k ms)) = sf' \<Longrightarrow> same_selection sf sf'"
  "fst (snd (other_page sf k ms)) = sf' \<Longrightarrow> same_selection sf sf'"
  "fst (snd (decode_teletext_packet_0 sf k buffer m)) = sf' \<Longrightarrow> same_selection sf sf'"
proof -
  show m: "fst (snd (match_page sf k ms)) = sf' \<Longrightarrow> same_selection sf sf'" for ms
    by (auto simp: match_page_def same_selection_def Let_def)
  show o: "fst (snd (other_page sf k ms)) = sf' \<Longrightarrow> same_selection sf sf'" for ms
    by (auto simp: other_page_def same_selection_def Let_def split: if_splits)
  have e: "same_selection sf (set_errstr sf e)" for e by (simp add: set_errstr_def same_selection_def)
  show "fst (snd (decode_teletext_packet_0 sf k buffer m)) = sf' \<Longrightarrow> same_selection sf sf'"
    unfolding decode_teletext_packet_0_def Let_def using m o e by (auto split: if_splits)
qed

lemma decode_teletext_selection:
  assumes "decode_teletext sf k buffer = Ret (ok, sf', k')"
  shows "same_selection sf sf'"
proof -
  have e: "same_selection sf (set_errstr sf e)" for e by (simp add: set_errstr_def same_selection_def)
  show ?thesis
    using assms header_selection(3) [OF refl, of sf] e same_selection_refl [of sf]
    unfolding decode_teletext_def Let_def
    by (auto split: if_splits prod.splits simp: split_def simp del: same_selection_refl)
qed

definition is_kept_service :: "vbi_sliced_filter \<Rightarrow> vbi_sliced \<Rightarrow> bool" where
  "is_kept_service sf l \<longleftrightarrow> sl_id l AND keep_services sf \<noteq> 0"

lemma pass_line_ok:
  assumes "sf_inv sf"
  shows "\<exists>ok sf' k. pass_line sf l = Ret (ok, sf', k) \<and> sf_inv sf' \<and> same_selection sf sf' \<and>
    (if is_kept_service sf l \<or> \<not> is_teletext_line l then ok \<and> sf' = sf \<and> k = is_kept_service sf l
     else mag_abs sf' = mag_next (ttx_parse sf (sl_data l)) (mag_abs sf) \<and> ok = (ttx_parse sf (sl_data l) \<noteq> Damaged)
       \<and> (ok \<longrightarrow> k = mag_keep (ttx_parse sf (sl_data l)) (mag_abs sf)))"
proof -
  obtain ok sf' k where "decode_teletext sf False (sl_data l) = Ret (ok, sf', k)" "sf_inv sf'"
    "mag_abs sf' = mag_next (ttx_parse sf (sl_data l)) (mag_abs sf)" "ok = (ttx_parse sf (sl_data l) \<noteq> Damaged)"
    "ok \<longrightarrow> k = mag_keep (ttx_parse sf (sl_data l)) (mag_abs sf)"
    using decode_teletext_ok [OF assms, of "sl_data l"] by blast
  moreover from this(1) have "same_selection sf sf'" by (rule decode_teletext_selection)
  ultimately show ?thesis using assms by (auto simp: pass_line_def is_kept_service_def)
qed

section \<open>Frames\<close>

text \<open>What the loop adds to the output and the count, from any point on.\<close>

lemma sf_cor_loop_ok:
  assumes "sf_inv sf" "length out \<le> n"
  shows "\<exists>ok sf' new k. sf_cor_loop sf n out i ls = Ret (ok, sf', out @ new, i + k) \<and> sf_inv sf' \<and> same_selection sf sf'
    \<and> subseq new (take k ls) \<and> length (out @ new) \<le> n \<and> (if ok then k = length ls else k < length ls)"
  using assms
proof (induction ls arbitrary: sf out i)
  case Nil
  then show ?case by auto
next
  case (Cons l ls)
  obtain ok sf1 k where p: "pass_line sf l = Ret (ok, sf1, k)" "sf_inv sf1" "same_selection sf sf1"
    using pass_line_ok [OF Cons.prems(1), of l] by blast
  have go: "\<exists>ok sf' new j. sf_cor_loop sf1 n (out @ more) (i + 1) ls = Ret (ok, sf', out @ new, i + j) \<and> sf_inv sf' \<and> same_selection sf sf'
    \<and> subseq new (take j (l # ls)) \<and> length (out @ new) \<le> n \<and> (if ok then j = length (l # ls) else j < length (l # ls))"
    if more: "more = [] \<or> more = [l]" "length (out @ more) \<le> n" for more
  proof -
    obtain ok' sf' new j where r: "sf_cor_loop sf1 n (out @ more) (i + 1) ls = Ret (ok', sf', (out @ more) @ new, i + 1 + j)"
      "sf_inv sf'" "same_selection sf1 sf'" "subseq new (take j ls)" "length ((out @ more) @ new) \<le> n"
      "if ok' then j = length ls else j < length ls"
      using Cons.IH [OF p(2) more(2), of "i + 1"] by blast
    have "subseq (more @ new) (take (Suc j) (l # ls))" using more(1) r(4) by auto
    moreover have "same_selection sf sf'" using same_selection_trans [OF p(3) r(3)] .
    ultimately show ?thesis
      using r by (intro exI [of _ ok'] exI [of _ sf'] exI [of _ "more @ new"] exI [of _ "Suc j"]) (auto split: if_splits)
  qed
  show ?case
  proof (cases "ok \<and> (k \<longrightarrow> length out < n)")
    case True
    then show ?thesis
      using go [of "if k then [l] else []"] p(1) Cons.prems(2) by (cases k) (simp_all add: not_le)
  next
    case False
    have "sf_cor_loop sf n out i (l # ls) = Ret (False, if ok then set_errstr sf1 Output_Overflow else sf1, out, i)"
      using False p(1) Cons.prems(2) by auto
    moreover have "sf_inv (set_errstr sf1 e) \<and> same_selection sf (set_errstr sf1 e)" for e
      using p(2,3) by (simp add: set_errstr_def sf_inv_def same_selection_def)
    ultimately show ?thesis
      using p(2,3) Cons.prems(2)
      by (intro exI [of _ False] exI [of _ "if ok then set_errstr sf1 Output_Overflow else sf1"] exI [of _ "[]"] exI [of _ 0]) simp
  qed
qed

text \<open>A line of a page in transmission.\<close>

definition is_body :: "vbi_sliced_filter \<Rightarrow> nat \<Rightarrow> vbi_sliced \<Rightarrow> bool" where
  "is_body sf m l \<longleftrightarrow> is_teletext_line l \<and> ttx_parse sf (sl_data l) = Body m"

text \<open>A line that neither ends the page of magazine \<open>m\<close> nor is damaged.\<close>

definition leaves_page :: "vbi_sliced_filter \<Rightarrow> nat \<Rightarrow> vbi_sliced \<Rightarrow> bool" where
  "leaves_page sf m l \<longleftrightarrow> is_kept_service sf l \<or> \<not> is_teletext_line l
     \<or> (case ttx_parse sf (sl_data l) of Damaged \<Rightarrow> False | Header serial m' sel \<Rightarrow> \<not> serial \<and> m' \<noteq> m | _ \<Rightarrow> True)"

lemma is_kept_same: "same_selection sf sf' \<Longrightarrow> is_kept_service sf' l = is_kept_service sf l"
  by (simp add: same_selection_def is_kept_service_def)

lemma body_passes:
  assumes "sf_inv sf" "\<not> sf_start sf" "m \<in> fst (mag_abs sf)" "list_all (leaves_page sf m) ls" "length out + length ls \<le> n"
  shows "\<exists>sf' new. sf_cor_loop sf n out i ls = Ret (True, sf', out @ new, i + length ls) \<and> subseq (filter (is_body sf m) ls) new"
  using assms
proof (induction ls arbitrary: sf out i)
  case Nil
  then show ?case by auto
next
  case (Cons l ls)
  obtain ok sf1 k where p: "pass_line sf l = Ret (ok, sf1, k)" "sf_inv sf1" "same_selection sf sf1"
    "if is_kept_service sf l \<or> \<not> is_teletext_line l then ok \<and> sf1 = sf \<and> k = is_kept_service sf l
     else mag_abs sf1 = mag_next (ttx_parse sf (sl_data l)) (mag_abs sf) \<and> ok = (ttx_parse sf (sl_data l) \<noteq> Damaged)
       \<and> (ok \<longrightarrow> k = mag_keep (ttx_parse sf (sl_data l)) (mag_abs sf))"
    using pass_line_ok [OF Cons.prems(1), of l] by blast
  have st: "mag_abs sf = (fst (mag_abs sf), False)" using Cons.prems(2) by (simp add: mag_abs_def)
  have step: "ok \<and> m \<in> fst (mag_abs sf1) \<and> \<not> snd (mag_abs sf1) \<and> (is_body sf m l \<longrightarrow> k)"
    using p(4) Cons.prems(3,4) st
    by (cases "ttx_parse sf (sl_data l)"; cases "mag_abs sf")
      (auto simp: leaves_page_def is_body_def header_mags_def split: if_splits)
  have same: "is_body sf1 m = is_body sf m" "leaves_page sf1 m = leaves_page sf m"
    using same_selection_parse [OF p(3)] is_kept_same [OF p(3)]
    by (simp_all add: is_body_def leaves_page_def fun_eq_iff)
  have ih: "\<exists>sf' new. sf_cor_loop sf1 n out' (i + 1) ls = Ret (True, sf', out' @ new, i + 1 + length ls)
      \<and> subseq (filter (is_body sf m) ls) new" if "length out' + length ls \<le> n" for out'
    using Cons.IH [of sf1 out' "i + 1"] p(2) step Cons.prems(4) that by (simp add: same mag_abs_def)
  show ?case
  proof (cases k)
    case True
    then show ?thesis using ih [of "out @ [l]"] p(1) step Cons.prems(5) by auto
  next
    case False
    then show ?thesis using ih [of out] p(1) step Cons.prems(5) by auto
  qed
qed

section \<open>The selected pages\<close>

text \<open>The page numbers whose packets the filter passes, as a set.\<close>

definition selected :: "vbi_sliced_filter \<Rightarrow> int set" where
  "selected sf = (if keep_services sf AND VBI_SLICED_TELETEXT_B_625 \<noteq> 0 then {0x100..0x8FF} else page_set (keep_ttx_pages sf))"

lemma valid_range_ok: "pgno_ok f \<Longrightarrow> pgno_ok l \<Longrightarrow> valid_ttx_page_range sf f l = (True, sf)"
  using pgno_ok_valid by (simp add: valid_ttx_page_range_def valid_ttx_page_def valid_pgno_def)

lemma keep_pages_ok:
  assumes "pt_inv (keep_ttx_pages sf)" "pgno_ok f" "pgno_ok l"
  shows "fst (vbi_sliced_filter_keep_ttx_pages mem sf f l) \<and> pt_inv (keep_ttx_pages (snd (vbi_sliced_filter_keep_ttx_pages mem sf f l)))
    \<and> selected (snd (vbi_sliced_filter_keep_ttx_pages mem sf f l)) = selected sf \<union> {min f l..max f l}"
proof (cases "keep_services sf AND VBI_SLICED_TELETEXT_B_625 = 0")
  case True
  then show ?thesis
    using pt.add_ok [OF assms, of mem] valid_range_ok [OF assms(2,3), of sf]
    by (simp add: vbi_sliced_filter_keep_ttx_pages_def selected_def split_def)
next
  case False
  moreover have "{min f l..max f l} \<subseteq> {0x100..0x8FF}" using assms(2,3) by (auto simp: pgno_ok_def min_def max_def)
  ultimately show ?thesis
    using valid_range_ok [OF assms(2,3), of sf] assms(1)
    by (auto simp: vbi_sliced_filter_keep_ttx_pages_def selected_def)
qed

lemma select_single_ok:
  assumes "pt_inv (keep_ttx_pages sf)"
  shows "pt_inv (keep_ttx_pages (select_single_pages mem sf))" "page_set (keep_ttx_pages (select_single_pages mem sf)) = selected sf"
    "keep_services (select_single_pages mem sf) AND VBI_SLICED_TELETEXT_B_625 = 0"
proof -
  have "(w AND NOT v) AND v = 0" for w v :: u32 by (rule bit_word_eqI) (simp add: bit_simps)
  then show "pt_inv (keep_ttx_pages (select_single_pages mem sf))" "page_set (keep_ttx_pages (select_single_pages mem sf)) = selected sf"
    "keep_services (select_single_pages mem sf) AND VBI_SLICED_TELETEXT_B_625 = 0"
    using pt.add_all [OF assms, of mem] assms
    by (simp_all add: select_single_pages_def selected_def vbi_page_table_add_all_pages_def)
qed

lemma drop_pages_ok:
  assumes "pt_inv (keep_ttx_pages sf)" "pgno_ok f" "pgno_ok l"
  shows "fst (vbi_sliced_filter_drop_ttx_pages mem sf f l) \<and> pt_inv (keep_ttx_pages (snd (vbi_sliced_filter_drop_ttx_pages mem sf f l)))
    \<and> selected (snd (vbi_sliced_filter_drop_ttx_pages mem sf f l)) = selected sf - {min f l..max f l}"
  using select_single_ok [OF assms(1), of mem] pt.remove_ok [OF select_single_ok(1) [OF assms(1)] assms(2,3), of mem mem]
    valid_range_ok [OF assms(2,3), of sf]
  by (simp add: vbi_sliced_filter_drop_ttx_pages_def selected_def Let_def split_def)

interpretation sf: page_numbers "\<lambda>sf. pt_inv (keep_ttx_pages sf)" selected
  "vbi_sliced_filter_keep_ttx_pages mem" "vbi_sliced_filter_drop_ttx_pages mem" for mem
  by unfold_locales
    (simp_all only: keep_pages_ok drop_pages_ok, auto simp: selected_def page_set_def pgno_ok_def split: if_splits)

section \<open>Properties\<close>


definition sf_sample :: vbi_sliced_filter where
  "sf_sample = snd (vbi_sliced_filter_keep_ttx_pages (\<lambda>_. None) vbi_sliced_filter_new 0x100 0x100)"

lemma sf_new_inv: "sf_inv vbi_sliced_filter_new" "pt_inv (keep_ttx_pages vbi_sliced_filter_new)" "selected vbi_sliced_filter_new = {}"
proof -
  show "sf_inv vbi_sliced_filter_new" by (simp add: sf_inv_def vbi_sliced_filter_new_def vbi_sliced_filter_reset_def)
  show "pt_inv (keep_ttx_pages vbi_sliced_filter_new)"
    using pt_reachable_inv(1) [OF pt_reachable.new] by (simp add: vbi_sliced_filter_new_def vbi_sliced_filter_reset_def)
  show "selected vbi_sliced_filter_new = {}"
    using page_offset_less
    by (auto simp: selected_def vbi_sliced_filter_new_def vbi_sliced_filter_reset_def page_set_def vbi_page_table_new_def)
qed


text \<open>A frame is filtered safely: the stored lines are a subsequence of the lines read, never more than
  the output has room for; on success all lines were read, on failure the reported number of lines is that of a line
  of the frame; the selection of services and pages stays as it was.\<close>

theorem filter_frame_subsequence:
  assumes "sf_inv sf"
  shows "\<exists>ok sf' out k. vbi_sliced_filter_cor sf max_lines lines = Ret (ok, sf', out, k) \<and> sf_inv sf' \<and> same_selection sf sf'
    \<and> subseq out (take k lines) \<and> length out \<le> max_lines \<and> (if ok then k = length lines else k < length lines)"
  using sf_cor_loop_ok [OF assms, of "[]" max_lines 0 lines] by (simp add: vbi_sliced_filter_cor_def)

definition sf_line :: "u8 \<Rightarrow> vbi_sliced" where
  "sf_line b = \<lparr> sl_id = VBI_SLICED_TELETEXT_B_625, sl_line = 7, sl_data = replicate 56 b \<rparr>"

theorem filter_frame_subsequence_witness:
  "\<exists>ok sf' out k. vbi_sliced_filter_cor vbi_sliced_filter_new 3 [sf_line 0x15, sf_line 0] = Ret (ok, sf', out, k)
    \<and> sf_inv sf' \<and> same_selection vbi_sliced_filter_new sf' \<and> subseq out (take k [sf_line 0x15, sf_line 0]) \<and> length out \<le> 3
    \<and> (if ok then k = length [sf_line 0x15, sf_line 0] else k < length [sf_line 0x15, sf_line 0])"
  by (rule filter_frame_subsequence) (rule sf_new_inv)

text \<open>A selected page is passed on whole: when a frame begins with the header of a selected page of magazine
  \<open>m\<close>, and no other header of that magazine, no serial header and no damaged packet follows, all packets of the
  page reach the output in order, whatever other lines are interleaved, if the
  output has room for the frame.\<close>

theorem filter_passes_selected_page:
  assumes "sf_inv sf" and "is_teletext_line h" "\<not> is_kept_service sf h" "ttx_parse sf (sl_data h) = Header serial m True"
    and "list_all (leaves_page sf m) lines" "length lines < max_lines"
  shows "\<exists>sf' out. vbi_sliced_filter_cor sf max_lines (h # lines) = Ret (True, sf', h # out, Suc (length lines))
    \<and> subseq (filter (is_body sf m) lines) out"
proof -
  obtain sf1 where p: "pass_line sf h = Ret (True, sf1, True)" "sf_inv sf1" "same_selection sf sf1"
    "mag_abs sf1 = mag_next (Header serial m True) (mag_abs sf)"
    using pass_line_ok [OF assms(1), of h] assms(2-4) by (cases "mag_abs sf") auto
  have "m = ttx_magazine (vbi_unham16p (sl_data h))"
    using assms(4) by (auto simp: ttx_parse_def Let_def split: if_splits)
  then have "m \<in> header_mags serial m" using ttx_magazine_range(1,2) by (simp add: header_mags_def)
  then have "\<not> sf_start sf1" "m \<in> fst (mag_abs sf1)"
    using p(4) by (cases "mag_abs sf"; auto simp: mag_abs_def)+
  moreover have same: "is_body sf1 m = is_body sf m" "leaves_page sf1 m = leaves_page sf m"
    using same_selection_parse [OF p(3)] is_kept_same [OF p(3)]
    by (simp_all add: is_body_def leaves_page_def fun_eq_iff)
  ultimately have "\<exists>sf' new. sf_cor_loop sf1 max_lines [h] 1 lines = Ret (True, sf', [h] @ new, 1 + length lines)
      \<and> subseq (filter (is_body sf m) lines) new"
    using body_passes [OF p(2), of m lines "[h]" max_lines 1] assms(5,6) by simp
  then show ?thesis using p(1) assms(6) by (auto simp: vbi_sliced_filter_cor_def)
qed

definition sf_packet :: "u32 list \<Rightarrow> vbi_sliced" where
  "sf_packet ds = \<lparr> sl_id = VBI_SLICED_TELETEXT_B_625, sl_line = 7, sl_data = map ham8_byte ds @ replicate 46 0x20 \<rparr>"

lemma unham16p_ham:
  assumes "i + 1 < length ds" "ds ! i < 16" "ds ! (i + 1) < 16"
  shows "vbi_unham16p (drop i (map ham8_byte ds @ r)) = uint (ds ! i) OR push_bit 4 (uint (ds ! (i + 1)))"
proof -
  have "drop i (map ham8_byte ds @ r) ! 0 = ham8_byte (ds ! i)" "drop i (map ham8_byte ds @ r) ! 1 = ham8_byte (ds ! (i + 1))"
    using assms(1) by (simp_all add: nth_append) arith
  moreover have "unham8_byte (ham8_byte (ds ! i)) = uint (ds ! i)" "unham8_byte (ham8_byte (ds ! (i + 1))) = uint (ds ! (i + 1))"
    using h8.dec_enc [of "ds ! i"] h8.dec_enc [of "ds ! (i + 1)"] assms(2,3) by simp_all
  ultimately show ?thesis by (simp add: vbi_unham16p_def unham8_byte_def vbi_unham8_def)
qed

theorem filter_passes_selected_page_witness:
  "\<exists>sf' out. vbi_sliced_filter_cor sf_sample 9 (sf_packet [1, 0, 0, 0, 0, 0, 0, 0, 0, 0] # [sf_packet [9, 0, 0, 0, 0, 0, 0, 0, 0, 0]])
      = Ret (True, sf', sf_packet [1, 0, 0, 0, 0, 0, 0, 0, 0, 0] # out, Suc (length [sf_packet [9, 0, 0, 0, 0, 0, 0, 0, 0, 0]]))
    \<and> subseq (filter (is_body sf_sample 1) [sf_packet [9, 0, 0, 0, 0, 0, 0, 0, 0, 0]]) out"
proof (rule filter_passes_selected_page [where serial = False])
  have ok: "pgno_ok 0x100" by (simp add: pgno_ok_def)
  have sel: "keep_services sf_sample = 0" "keep_ttx_pages sf_sample = snd (vbi_page_table_add_pages (\<lambda>_. None) vbi_page_table_new 0x100 0x100)"
    "keep_mag_set_next sf_sample = 0"
    using valid_range_ok [OF ok ok]
    by (simp_all add: sf_sample_def vbi_sliced_filter_keep_ttx_pages_def vbi_sliced_filter_new_def vbi_sliced_filter_reset_def split_def Let_def)
  have "0x100 \<in> page_set (keep_ttx_pages sf_sample)"
    using add_pages_ok(3) [OF pt_reachable_inv(1) [OF pt_reachable.new] ok ok] by (simp add: sel(2))
  then have c: "vbi_page_table_contains_subpage (keep_ttx_pages sf_sample) 0x100 0"
    using contains_all_iff [OF ok, of "keep_ttx_pages sf_sample"] ok by (simp add: vbi_page_table_contains_subpage_def)
  have b: "vbi_is_bcd 0x100" by (simp add: vbi_is_bcd_def)
  have h: "vbi_unham16p (drop i (map ham8_byte [n, 0, 0, 0, 0, 0, 0, 0, 0, 0] @ r)) = (if i = 0 then uint n else 0)"
    if "n < 16" "i \<in> {0, 2, 4, 6, 8}" for i n r
    using that unham16p_ham [of i "[n, 0, 0, 0, 0, 0, 0, 0, 0, 0]" r] by auto
  show "ttx_parse sf_sample (sl_data (sf_packet [1, 0, 0, 0, 0, 0, 0, 0, 0, 0])) = Header False 1 True"
    using h [of 1 0] h [of 1 2] h [of 1 4] h [of 1 6] h [of 1 8] c b
    by (simp add: ttx_parse_def sf_packet_def ttx_magazine_def ttx_flags_def ttx_page_def)
  show "sf_inv sf_sample" by (simp add: sf_inv_def sel)
  show "is_teletext_line (sf_packet [1, 0, 0, 0, 0, 0, 0, 0, 0, 0])" "\<not> is_kept_service sf_sample (sf_packet [1, 0, 0, 0, 0, 0, 0, 0, 0, 0])"
    by (simp_all add: is_teletext_line_def sf_packet_def is_kept_service_def sel)
  show "list_all (leaves_page sf_sample 1) [sf_packet [9, 0, 0, 0, 0, 0, 0, 0, 0, 0]]"
    using h [of 9 0] by (simp add: leaves_page_def ttx_parse_def sf_packet_def ttx_magazine_def Let_def)
qed simp

text \<open>Selecting pages works as on a set, also when the whole Teletext service is kept at first:
  after any sequence of calls that keep or drop page ranges, a page is selected exactly when the last call that
  covered it kept it, or, when no call covered it, it was selected before.\<close>

theorem filter_selection_history:
  fixes mem
  assumes "pt_inv (keep_ttx_pages sf)" and "list_all (\<lambda>(b, f, l). pgno_ok f \<and> pgno_ok l) calls"
  shows "p \<in> selected (fold (\<lambda>(b, f, l) sf. snd (if b then vbi_sliced_filter_keep_ttx_pages mem sf f l
        else vbi_sliced_filter_drop_ttx_pages mem sf f l)) calls sf) \<longleftrightarrow>
    (case List.find (\<lambda>(b, f, l). min f l \<le> p \<and> p \<le> max f l) (rev calls) of None \<Rightarrow> p \<in> selected sf | Some (b, _) \<Rightarrow> b)"
  using sf.history [OF assms, of mem p] by simp

theorem filter_selection_history_witness:
  "0x123 \<in> selected (fold (\<lambda>(b, f, l) sf. snd (if b then vbi_sliced_filter_keep_ttx_pages (\<lambda>_. None) sf f l
        else vbi_sliced_filter_drop_ttx_pages (\<lambda>_. None) sf f l))
      [(True, 0x100, 0x899), (False, 0x200, 0x8FF)] vbi_sliced_filter_new)"
  using filter_selection_history [OF sf_new_inv(2), of "[(True, 0x100, 0x899), (False, 0x200, 0x8FF)]" "0x123" "\<lambda>_. None"]
  by (simp add: pgno_ok_def)

lemma sf_cor_loop_kept:
  assumes "list_all (is_kept_service sf) ls" "length out \<le> n"
  shows "sf_cor_loop sf n out i ls =
    (if length out + length ls \<le> n then Ret (True, sf, out @ ls, i + length ls)
     else Ret (False, set_errstr sf Output_Overflow, out @ take (n - length out) ls, i + (n - length out)))"
  using assms
proof (induction ls arbitrary: out i)
  case Nil
  then show ?case by simp
next
  case (Cons l ls)
  have "pass_line sf l = Ret (True, sf, True)" using Cons.prems(1) by (simp add: pass_line_def is_kept_service_def)
  moreover have "sf_cor_loop sf n (out @ [l]) (i + 1) ls =
    (if length out + length (l # ls) \<le> n then Ret (True, sf, out @ l # ls, i + length (l # ls))
     else Ret (False, set_errstr sf Output_Overflow, out @ take (n - length out) (l # ls), i + (n - length out)))"
    if "length out < n"
    using Cons.IH [of "out @ [l]" "i + 1"] Cons.prems that by (auto simp: take_Cons' Suc_diff_Suc)
  ultimately show ?case using Cons.prems(2) by auto
qed

text \<open>The internal buffer holds at most 50 lines, because it is enlarged to the smaller of the frame
  size and 50. Frames of at most 50 lines of kept services are passed to the callback completely; any longer frame is refused
  with an overflow error although memory is available, after 50 lines.\<close>

theorem filter_feed_limit:
  assumes "list_all (is_kept_service sf) lines" "length lines \<le> 0x3FFFFFF" "output_max_lines sf \<le> 50"
    and "\<And>n. alloc n"
  shows "\<exists>sf'. vbi_sliced_filter_feed alloc (Some callback) (sf, u) lines =
    (if length lines \<le> 50 then Ret (fst (callback lines u), (sf', snd (callback lines u)), length lines)
     else Ret (False, (sf' \<lparr> errstr := Some Output_Overflow \<rparr>, u), 50))"
proof -
  let ?sf = "if output_max_lines sf < length lines then sf \<lparr> output_max_lines := min (length lines) 50 \<rparr> else sf"
  have k: "list_all (is_kept_service ?sf) lines" using assms(1) by (simp add: is_kept_service_def list_all_iff)
  have c: "vbi_sliced_filter_cor ?sf (output_max_lines ?sf) lines =
      (if length lines \<le> 50 then Ret (True, ?sf, lines, length lines)
       else Ret (False, set_errstr ?sf Output_Overflow, take 50 lines, 50))"
    using sf_cor_loop_kept [OF k, of "[]" "output_max_lines ?sf" 0] assms(3)
    by (auto simp: vbi_sliced_filter_cor_def min_def)
  show ?thesis
    using assms(2,4) c by (intro exI [of _ ?sf]) (auto simp: vbi_sliced_filter_feed_def Let_def sizeof_sliced_def split_def set_errstr_def)
qed

theorem filter_feed_limit_witness:
  "\<exists>sf'. vbi_sliced_filter_feed (\<lambda>_. True) (Some (\<lambda>out u. (True, u + length out)))
      (vbi_sliced_filter_new \<lparr> keep_services := VBI_SLICED_TELETEXT_B_625 \<rparr>, 0 :: nat) (replicate 51 (sf_line 0)) =
     Ret (False, (sf' \<lparr> errstr := Some Output_Overflow \<rparr>, 0), 50)"
  using filter_feed_limit [of "vbi_sliced_filter_new \<lparr> keep_services := VBI_SLICED_TELETEXT_B_625 \<rparr>" "replicate 51 (sf_line 0)"
      "\<lambda>_. True" "\<lambda>out u. (True, u + length out)" "0 :: nat"]
  by (simp add: list_all_iff is_kept_service_def sf_line_def VBI_SLICED_TELETEXT_B_625_def VBI_SLICED_TELETEXT_B_L10_625_def
    VBI_SLICED_TELETEXT_B_L25_625_def vbi_sliced_filter_new_def vbi_sliced_filter_reset_def)

end
