(* ===== verification/C_Time.thy ===== *)
theory C_Time
  imports Zvbi_Prelude
begin

text \<open>
  The calendar functions of the C library that the PDC module calls: broken-down time,
  \<^verbatim>\<open>gmtime_r\<close> and \<^verbatim>\<open>timegm\<close> on the proleptic Gregorian calendar as POSIX defines them, without
  leap seconds. The time is a mathematical integer; the range of \<^verbatim>\<open>time_t\<close> and of the year
  is checked by the callers' side of the interface.
\<close>

section \<open>Broken-down time\<close>

record tm =
  tm_sec :: int
  tm_min :: int
  tm_hour :: int
  tm_mday :: int
  tm_mon :: int
  tm_year :: int
  tm_isdst :: int

definition leap :: "int \<Rightarrow> bool" where
  "leap y \<longleftrightarrow> y mod 4 = 0 \<and> (y mod 100 \<noteq> 0 \<or> y mod 400 = 0)"

text \<open>Days from 1970-01-01 to January 1 of a year.\<close>

definition year_start :: "int \<Rightarrow> int" where
  "year_start y = 365 * (y - 1970) + (y - 1969) div 4 - (y - 1901) div 100 + (y - 1601) div 400"

definition year_days :: "int \<Rightarrow> int" where
  "year_days y = (if leap y then 366 else 365)"

definition month_start :: "bool \<Rightarrow> nat \<Rightarrow> int" where
  "month_start lp m = (if lp then [0, 31, 60, 91, 121, 152, 182, 213, 244, 274, 305, 335, 366]
                      else [0, 31, 59, 90, 120, 151, 181, 212, 243, 273, 304, 334, 365]) ! m"

definition days_in_month :: "bool \<Rightarrow> nat \<Rightarrow> int" where
  "days_in_month lp m = month_start lp (Suc m) - month_start lp m"

definition timegm_days :: "tm \<Rightarrow> int" where
  "timegm_days tm =
     (let y = tm_year tm + 1900 + tm_mon tm div 12
      in year_start y + month_start (leap y) (nat (tm_mon tm mod 12)) + tm_mday tm - 1)"

definition timegm :: "tm \<Rightarrow> int" where
  "timegm tm = ((timegm_days tm * 24 + tm_hour tm) * 60 + tm_min tm) * 60 + tm_sec tm"

lemma div_step: "(x + 1) div n = x div n + (if n dvd x + 1 then 1 else 0)" if "0 < n" for x n :: int
proof (cases "n dvd x + 1")
  case True
  then obtain k where "x + 1 = n * k" by (rule dvdE)
  then have "x = n * (k - 1) + (n - 1)" by (simp add: algebra_simps)
  then have "x div n = k - 1" using that by (intro int_div_pos_eq [of _ _ _ "n - 1"]) simp_all
  moreover have "(x + 1) div n = k" using \<open>x + 1 = n * k\<close> that by simp
  ultimately show ?thesis using True by simp
next
  case False
  have "x mod n \<noteq> n - 1"
    using False by (metis diff_add_cancel dvd_eq_mod_eq_0 mod_add_left_eq mod_self)
  then have "x mod n + 1 < n" using pos_mod_bound [OF that, of x] by linarith
  then have "(x + 1) div n = x div n"
    using pos_mod_sign [OF that, of x] by (intro int_div_pos_eq [of _ _ _ "x mod n + 1"]) (simp_all add: algebra_simps)
  then show ?thesis using False by simp
qed

lemma leap_sum:
  assumes "P400 \<longrightarrow> P100" "P100 \<longrightarrow> P4"
  shows "(365 :: int) + (if P4 then 1 else 0) - (if P100 then 1 else 0) + (if P400 then 1 else 0) =
    (if P4 \<and> (\<not> P100 \<or> P400) then 366 else 365)"
  using assms by (cases P4; cases P100; cases P400) simp_all

lemma sum_step: "365 * (y + 1) + (a + p) - (b + q) + (c + r) = 365 * y + a - b + c + (365 + p - q + r)"
  for y a b c p q r :: int
  by (simp add: algebra_simps)

lemma year_start_Suc: "year_start (y + 1) = year_start y + year_days y"
proof -
  have e: "y - 1969 + 1 = y - 1968" "y - 1901 + 1 = y - 1900" "y - 1601 + 1 = y - 1600" by simp_all
  have d: "(y - 1968) div 4 = (y - 1969) div 4 + (if 4 dvd y - 1968 then 1 else 0)"
    "(y - 1900) div 100 = (y - 1901) div 100 + (if 100 dvd y - 1900 then 1 else 0)"
    "(y - 1600) div 400 = (y - 1601) div 400 + (if 400 dvd y - 1600 then 1 else 0)"
    using div_step [of 4 "y - 1969"] div_step [of 100 "y - 1901"] div_step [of 400 "y - 1601"]
    by (simp_all only: e zero_less_numeral simp_thms)
  have m: "4 dvd y - 1968 \<longleftrightarrow> y mod 4 = 0" "100 dvd y - 1900 \<longleftrightarrow> y mod 100 = 0" "400 dvd y - 1600 \<longleftrightarrow> y mod 400 = 0"
    using dvd_add_left_iff [of 4 "- 1968" y] dvd_add_left_iff [of 100 "- 1900" y] dvd_add_left_iff [of 400 "- 1600" y]
    by (simp_all add: dvd_eq_mod_eq_0)
  have imp: "y mod 400 = 0 \<longrightarrow> y mod 100 = 0" "y mod 100 = 0 \<longrightarrow> y mod 4 = 0"
    using dvd_trans [of 100 400 y] dvd_trans [of 4 100 y] by (simp_all add: dvd_eq_mod_eq_0 del: mod_mod_trivial)
  have "y + 1 - 1970 = y - 1970 + 1" "y + 1 - 1969 = y - 1968" "y + 1 - 1901 = y - 1900" "y + 1 - 1601 = y - 1600" by simp_all
  then have "year_start (y + 1) = 365 * (y - 1970 + 1) + (y - 1968) div 4 - (y - 1900) div 100 + (y - 1600) div 400"
    by (simp only: year_start_def)
  also have "\<dots> = year_start y + (365 + (if y mod 4 = 0 then 1 else 0) - (if y mod 100 = 0 then 1 else 0)
      + (if y mod 400 = 0 then 1 else 0))"
    unfolding d m year_start_def by (rule sum_step)
  also have "\<dots> = year_start y + year_days y"
    unfolding leap_sum [OF imp] by (simp only: year_days_def leap_def)
  finally show ?thesis .
qed

lemma year_days_pos: "0 < year_days y"
  by (simp add: year_days_def)

lemma year_start_mono: "x \<le> y \<Longrightarrow> year_start x \<le> year_start y"
proof (induction y rule: int_ge_induct)
  case base
  then show ?case by simp
next
  case (step i)
  then show ?case using year_start_Suc [of i] year_days_pos [of i] by linarith
qed

section \<open>The inverse\<close>

text \<open>The year of a day, searched upwards from a lower bound, and the month of a day of the year.\<close>

function year_search :: "int \<Rightarrow> int \<Rightarrow> int" where
  "year_search d y = (if d < year_start (y + 1) then y else year_search d (y + 1))"
  by pat_completeness auto

termination
proof (relation "measure (\<lambda>(d, y). nat (d + 1 - year_start y))")
  fix d y :: int
  assume "\<not> d < year_start (y + 1)"
  moreover have "year_start y < year_start (y + 1)" using year_start_Suc [of y] year_days_pos [of y] by simp
  ultimately show "((d, y + 1), d, y) \<in> measure (\<lambda>(d, y). nat (d + 1 - year_start y))" by simp
qed simp

declare year_search.simps [simp del]

definition year_of_day :: "int \<Rightarrow> int" where
  "year_of_day d = year_search d (if 0 \<le> d then 1970 + d div 366 else 1970 + d div 365)"

definition month_of_day :: "bool \<Rightarrow> int \<Rightarrow> nat" where
  "month_of_day lp yd = length (filter (\<lambda>m. month_start lp m \<le> yd) [1..<12])"

definition gmtime :: "int \<Rightarrow> tm" where
  "gmtime t =
     (let d = t div 86400; s = t mod 86400; y = year_of_day d; yd = d - year_start y; m = month_of_day (leap y) yd
      in \<lparr> tm_sec = s mod 60, tm_min = s div 60 mod 60, tm_hour = s div 3600, tm_mday = yd - month_start (leap y) m + 1,
          tm_mon = int m, tm_year = y - 1900, tm_isdst = 0 \<rparr>)"

lemma year_search_unique:
  "year_start y \<le> d \<Longrightarrow> d < year_start (y + 1) \<Longrightarrow> x \<le> y \<Longrightarrow> year_search d x = y"
proof (induction d x rule: year_search.induct)
  case (1 d x)
  show ?case
  proof (cases "d < year_start (x + 1)")
    case True
    have "\<not> x + 1 \<le> y" using year_start_mono [of "x + 1" y] 1(2) True by auto
    then show ?thesis using 1(4) True by (subst year_search.simps) simp
  next
    case False
    then have "x \<noteq> y" using 1(3) by auto
    then have "x + 1 \<le> y" using 1(4) by simp
    then show ?thesis using 1(1) [OF False 1(2,3)] False by (subst year_search.simps) simp
  qed
qed

lemma year_start_bounds: "1970 \<le> y \<Longrightarrow> year_start y \<le> 366 * (y - 1970)" "y \<le> 1970 \<Longrightarrow> year_start y \<le> 365 * (y - 1970)"
proof -
  have y1970: "year_start 1970 = 0" by (simp add: year_start_def)
  show "1970 \<le> y \<Longrightarrow> year_start y \<le> 366 * (y - 1970)"
  proof (induction y rule: int_ge_induct)
    case base
    then show ?case by (simp add: y1970)
  next
    case (step i)
    then show ?case using year_start_Suc [of i] by (simp add: year_days_def split: if_splits)
  qed
  show "y \<le> 1970 \<Longrightarrow> year_start y \<le> 365 * (y - 1970)"
  proof (induction y rule: int_le_induct)
    case base
    then show ?case by (simp add: y1970)
  next
    case (step i)
    then show ?case using year_start_Suc [of "i - 1"] by (simp add: year_days_def split: if_splits)
  qed
qed

lemma year_of_day_unique:
  assumes "year_start y \<le> d" "d < year_start (y + 1)"
  shows "year_of_day d = y"
proof -
  let ?x = "if 0 \<le> d then 1970 + d div 366 else 1970 + d div 365"
  have "year_start ?x \<le> d"
  proof (cases "0 \<le> d")
    case True
    then have "year_start (1970 + d div 366) \<le> 366 * (d div 366)"
      using year_start_bounds(1) [of "1970 + d div 366"] by (simp add: pos_imp_zdiv_nonneg_iff)
    also have "\<dots> \<le> d" using div_mult_mod_eq [of d 366] pos_mod_sign [of 366 d] by linarith
    finally show ?thesis using True by simp
  next
    case False
    then have "d div 365 < 0" by (simp add: neg_imp_zdiv_neg_iff)
    then have "year_start (1970 + d div 365) \<le> 365 * (d div 365)" using year_start_bounds(2) [of "1970 + d div 365"] by simp
    also have "\<dots> \<le> d" using div_mult_mod_eq [of d 365] pos_mod_sign [of 365 d] by linarith
    finally show ?thesis using False by simp
  qed
  then have "\<not> y + 1 \<le> ?x" using year_start_mono [of "y + 1" ?x] assms(2) by linarith
  then show ?thesis using year_search_unique [OF assms, of ?x] by (simp add: year_of_day_def)
qed

lemma month_cases: "m < 12 \<Longrightarrow> m \<in> {0, 1, 2, 3, 4, 5, 6, 7, 8, 9, 10, 11 :: nat}"
  by (simp add: less_Suc_eq numeral_eq_Suc)

lemma month_of_day_unique:
  assumes "m < 12" "0 \<le> k" "k < days_in_month lp m"
  shows "month_of_day lp (month_start lp m + k) = m"
proof -
  have u: "[1..<12] = [1, 2, 3, 4, 5, 6, 7, 8, 9, 10, 11 :: nat]" by (simp add: upt_rec)
  show ?thesis
    using month_cases [OF assms(1)] assms(2,3) unfolding month_of_day_def u
    by (elim insertE emptyE; cases lp) (simp_all add: month_start_def days_in_month_def)
qed

lemma month_end:
  assumes "m < 12"
  shows "0 \<le> month_start (leap y) m" "month_start (leap y) m + days_in_month (leap y) m \<le> year_days y"
  using month_cases [OF assms]
  by (elim insertE emptyE; cases "leap y"; simp add: month_start_def days_in_month_def year_days_def)+

definition valid_tm :: "tm \<Rightarrow> bool" where
  "valid_tm tm \<longleftrightarrow> 0 \<le> tm_sec tm \<and> tm_sec tm < 60 \<and> 0 \<le> tm_min tm \<and> tm_min tm < 60 \<and> 0 \<le> tm_hour tm \<and> tm_hour tm < 24
     \<and> 0 \<le> tm_mon tm \<and> tm_mon tm < 12 \<and> 1 \<le> tm_mday tm
     \<and> tm_mday tm \<le> days_in_month (leap (tm_year tm + 1900)) (nat (tm_mon tm)) \<and> tm_isdst tm = 0"

lemma clock_fields:
  assumes "0 \<le> s" "s < 60" "0 \<le> m" "m < (60 :: int)"
  shows "((h * 60 + m) * 60 + s) mod 60 = s" "((h * 60 + m) * 60 + s) div 60 = h * 60 + m"
    "((h * 60 + m) * 60 + s) div 3600 = h"
  using assms int_mod_pos_eq [of "(h * 60 + m) * 60 + s" 60 "h * 60 + m" s]
    int_div_pos_eq [of "(h * 60 + m) * 60 + s" 60 "h * 60 + m" s]
    int_div_pos_eq [of "(h * 60 + m) * 60 + s" 3600 h "m * 60 + s"] by simp_all

text \<open>\<^verbatim>\<open>gmtime_r\<close> undoes \<^verbatim>\<open>timegm\<close> on every valid broken-down time.\<close>

lemma gmtime_timegm:
  assumes "valid_tm tm"
  shows "gmtime (timegm tm) = tm"
proof -
  let ?y = "tm_year tm + 1900" and ?m = "nat (tm_mon tm)"
  let ?s = "(tm_hour tm * 60 + tm_min tm) * 60 + tm_sec tm"
  have v: "0 \<le> tm_sec tm" "tm_sec tm < 60" "0 \<le> tm_min tm" "tm_min tm < 60" "0 \<le> tm_hour tm" "tm_hour tm < 24"
    "0 \<le> tm_mon tm" "tm_mon tm < 12" "1 \<le> tm_mday tm" "tm_mday tm \<le> days_in_month (leap ?y) ?m"
    using assms by (simp_all add: valid_tm_def)
  then have m: "?m < 12" "int ?m = tm_mon tm" by simp_all
  have d: "timegm_days tm = year_start ?y + (month_start (leap ?y) ?m + (tm_mday tm - 1))"
    using v(7,8) by (simp add: timegm_days_def Let_def)
  have "year_start ?y \<le> timegm_days tm" "timegm_days tm < year_start (?y + 1)"
    using d month_end [OF m(1), of ?y] v(9,10) year_start_Suc [of ?y] by linarith+
  then have y: "year_of_day (timegm_days tm) = ?y" by (rule year_of_day_unique)
  have mon: "month_of_day (leap ?y) (timegm_days tm - year_start ?y) = ?m"
    using month_of_day_unique [OF m(1), of "tm_mday tm - 1" "leap ?y"] v(9,10) d by simp
  have t: "timegm tm = 86400 * timegm_days tm + ?s" by (simp add: timegm_def)
  have s0: "0 \<le> ?s" using v(1,3,5) by simp
  have s: "?s < 86400" using v(2,4,6) by simp
  have dm: "timegm tm div 86400 = timegm_days tm" "timegm tm mod 86400 = ?s"
    using s0 s unfolding t by simp_all
  note f = clock_fields [OF v(1-4)]
  have h: "(tm_hour tm * 60 + tm_min tm) mod 60 = tm_min tm" using v(3,4) by simp
  have md: "timegm_days tm - year_start ?y - month_start (leap ?y) ?m + 1 = tm_mday tm" using d by simp
  have yr: "?y - 1900 = tm_year tm" by simp
  have dst: "tm_isdst tm = 0" using assms by (simp add: valid_tm_def)
  show ?thesis unfolding gmtime_def Let_def dm f h y mon m(2) md yr by (simp add: dst)
qed

lemma gmtime_mon: "0 \<le> tm_mon (gmtime t)" "tm_mon (gmtime t) < 12"
proof -
  have "month_of_day lp d \<le> length [1..<12]" for lp d unfolding month_of_day_def by (rule length_filter_le)
  then have "month_of_day lp d < 12" for lp d using le_less_trans [of "month_of_day lp d" 11 12] by simp
  then show "0 \<le> tm_mon (gmtime t)" "tm_mon (gmtime t) < 12" by (simp_all add: gmtime_def Let_def)
qed

section \<open>The year of a time\<close>

lemma year_search_bounds:
  "year_start x \<le> d \<Longrightarrow> year_start (year_search d x) \<le> d \<and> d < year_start (year_search d x + 1)"
proof (induction d x rule: year_search.induct)
  case (1 d x)
  show ?case
  proof (cases "d < year_start (x + 1)")
    case True
    then show ?thesis using 1(2) by (subst (1 2) year_search.simps) simp
  next
    case False
    then show ?thesis using 1(1) [OF False] by (subst (1 2) year_search.simps) simp
  qed
qed

lemma year_start_lower: "1970 \<le> y \<Longrightarrow> 365 * (y - 1970) \<le> year_start y"
proof (induction y rule: int_ge_induct)
  case base
  then show ?case by (simp add: year_start_def)
next
  case (step i)
  then show ?case using year_start_Suc [of i] by (simp add: year_days_def split: if_splits)
qed

lemma year_of_day_bounds:
  assumes "0 \<le> d"
  shows "year_start (year_of_day d) \<le> d" "d < year_start (year_of_day d + 1)"
proof -
  have "year_start (1970 + d div 366) \<le> 366 * (d div 366)"
    using year_start_bounds(1) [of "1970 + d div 366"] assms by (simp add: pos_imp_zdiv_nonneg_iff)
  also have "\<dots> \<le> d" using div_mult_mod_eq [of d 366] pos_mod_sign [of 366 d] by linarith
  finally show "year_start (year_of_day d) \<le> d" "d < year_start (year_of_day d + 1)"
    using year_search_bounds [of "1970 + d div 366" d] assms by (simp_all add: year_of_day_def)
qed

lemma year_of_day_ge: "0 \<le> d \<Longrightarrow> year_start y \<le> d \<Longrightarrow> y \<le> year_of_day d"
  using year_of_day_bounds [of d] year_start_mono [of "year_of_day d + 1" y] by linarith

lemma year_of_day_le: "0 \<le> d \<Longrightarrow> year_of_day d \<le> 1970 + d div 365"
proof -
  assume d: "0 \<le> d"
  have "1970 \<le> year_of_day d" using year_of_day_ge [OF d, of 1970] d by (simp add: year_start_def)
  then have "365 * (year_of_day d - 1970) \<le> d"
    using year_start_lower [of "year_of_day d"] year_of_day_bounds(1) [OF d] by linarith
  then have "(365 * (year_of_day d - 1970)) div 365 \<le> d div 365" by (rule zdiv_mono1) simp
  then show ?thesis by simp
qed

lemma gmtime_year: "tm_year (gmtime t) = year_of_day (t div 86400) - 1900"
  by (simp add: gmtime_def Let_def)

lemma timegm_bounds:
  assumes "valid_tm tm"
  shows "86400 * year_start (tm_year tm + 1900) \<le> timegm tm"
    "timegm tm < 86400 * year_start (tm_year tm + 1901)"
proof -
  let ?y = "tm_year tm + 1900" and ?m = "nat (tm_mon tm)"
  have v: "0 \<le> tm_sec tm" "tm_sec tm < 60" "0 \<le> tm_min tm" "tm_min tm < 60" "0 \<le> tm_hour tm" "tm_hour tm < 24"
    "0 \<le> tm_mon tm" "tm_mon tm < 12" "1 \<le> tm_mday tm" "tm_mday tm \<le> days_in_month (leap ?y) ?m"
    using assms by (simp_all add: valid_tm_def)
  have m: "?m < 12" using v(8) by simp
  have d: "timegm_days tm = year_start ?y + (month_start (leap ?y) ?m + (tm_mday tm - 1))"
    using v(7,8) by (simp add: timegm_days_def Let_def)
  have e: "?y + 1 = tm_year tm + 1901" by simp
  have "year_start ?y \<le> timegm_days tm" using d month_end [OF m, of ?y] v(9,10) by linarith
  moreover have "timegm_days tm + 1 \<le> year_start (?y + 1)"
    using d month_end [OF m, of ?y] v(9,10) year_start_Suc [of ?y] by linarith
  ultimately show "86400 * year_start ?y \<le> timegm tm" "timegm tm < 86400 * year_start (tm_year tm + 1901)"
    using v(1-6) unfolding timegm_def e by simp_all
qed

end
