(* ===== verification/Pdc.thy ===== *)
theory Pdc
  imports Program_Id C_Time
begin

text \<open>
  Conversion of Program Identification Labels to times and validity windows
  (\<^verbatim>\<open>vbi/src/pdc.c\<close>), in the configuration \<^verbatim>\<open>VBI_VERSION_MINOR == 2\<close> with \<^verbatim>\<open>timegm\<close> and a signed 64 bit
  \<^verbatim>\<open>time_t\<close>. The process environment (the value of TZ and \<^verbatim>\<open>errno\<close>) is the state; the
  clock, the time zone database and the outcomes of memory allocation are parameters.
\<close>

section \<open>The process and its library\<close>

datatype errno = NO_ERROR | EOVERFLOW | ENOMEM | EFAULT | VBI_ERR_NO_TIME | VBI_ERR_INVALID_PIL

text \<open>\<open>env_allocs\<close> counts the calls that allocate memory, so that each can have an outcome of its own.\<close>

record env =
  env_TZ :: "string option"
  env_errno :: errno
  env_allocs :: nat

text \<open>
  \<open>lib_time\<close> is the current time, \<^verbatim>\<open>(time_t) -1\<close> on failure, with the error code set then
  (\<open>NO_ERROR\<close> leaves \<^verbatim>\<open>errno\<close> alone); \<open>lib_localtime\<close> and \<open>lib_mktime\<close> get the value of TZ.
\<close>

record clib =
  lib_alloc :: "nat \<Rightarrow> bool"
  lib_time :: int
  lib_time_errno :: errno
  lib_localtime :: "string option \<Rightarrow> int \<Rightarrow> tm option"
  lib_mktime :: "string option \<Rightarrow> tm \<Rightarrow> int \<times> errno"

definition set_errno :: "errno \<Rightarrow> env \<Rightarrow> env" where
  "set_errno err e = e \<lparr> env_errno := err \<rparr>"

definition lib_errno :: "errno \<Rightarrow> env \<Rightarrow> env" where
  "lib_errno err e = (if err = NO_ERROR then e else set_errno err e)"

definition INT_MIN :: int where "INT_MIN = - (2 ^ 31)"
definition INT_MAX :: int where "INT_MAX = 2 ^ 31 - 1"
definition TIME_MIN :: int where "TIME_MIN = - (2 ^ 63)"
definition TIME_MAX :: int where "TIME_MAX = 2 ^ 63 - 1"

text \<open>\<^verbatim>\<open>strdup\<close> and \<^verbatim>\<open>setenv\<close> fail only for want of memory: the name TZ is not empty and has no '='.\<close>

definition strdup :: "clib \<Rightarrow> string \<Rightarrow> env \<Rightarrow> string option \<times> env" where
  "strdup L s e = (if lib_alloc L (env_allocs e) then Some s else None, e \<lparr> env_allocs := Suc (env_allocs e) \<rparr>)"

definition setenv_TZ :: "clib \<Rightarrow> string \<Rightarrow> env \<Rightarrow> bool \<times> env" where
  "setenv_TZ L s e =
     (if lib_alloc L (env_allocs e)
      then (True, e \<lparr> env_TZ := Some s, env_allocs := Suc (env_allocs e) \<rparr>)
      else (False, set_errno ENOMEM (e \<lparr> env_allocs := Suc (env_allocs e) \<rparr>)))"

definition gmtime_r :: "int \<Rightarrow> env \<Rightarrow> tm option \<times> env" where
  "gmtime_r t e =
     (if INT_MIN \<le> tm_year (gmtime t) \<and> tm_year (gmtime t) \<le> INT_MAX then (Some (gmtime t), e)
      else (None, set_errno EOVERFLOW e))"

definition localtime_r :: "clib \<Rightarrow> int \<Rightarrow> env \<Rightarrow> tm option \<times> env" where
  "localtime_r L t e =
     (case lib_localtime L (env_TZ e) t of Some tm \<Rightarrow> (Some tm, e) | None \<Rightarrow> (None, set_errno EOVERFLOW e))"

section \<open>Dates\<close>

definition month_days :: "nat list" where
  "month_days = [31, 29, 31, 30, 31, 30, 31, 31, 30, 31, 30, 31]"

definition vbi_pil_is_valid_date :: "vbi_pil \<Rightarrow> bool" where
  "vbi_pil_is_valid_date pl =
     (let month = VBI_PIL_MONTH pl; day = VBI_PIL_DAY pl
      in month - 1 < 12 \<and> day - 1 < of_nat (month_days ! unat (month - 1))
         \<and> VBI_PIL_HOUR pl < 24 \<and> VBI_PIL_MINUTE pl < 60)"

text \<open>\<open>None\<close> is the result \<^verbatim>\<open>FALSE\<close>: the year would leave the range of \<^verbatim>\<open>int\<close>.\<close>

definition tm_mon_mday_from_pil :: "tm \<Rightarrow> vbi_pil \<Rightarrow> tm option" where
  "tm_mon_mday_from_pil tm pl =
     (let month0 = VBI_PIL_MONTH pl - 1; mon = word_of_int (tm_mon tm) :: u32;
          year = (if mon + 6 \<le> month0
                  then if tm_year tm \<le> INT_MIN then None else Some (tm_year tm - 1)
                  else if month0 + 6 < mon
                  then if INT_MAX \<le> tm_year tm then None else Some (tm_year tm + 1)
                  else Some (tm_year tm))
      in case year of None \<Rightarrow> None
         | Some y \<Rightarrow> Some (tm \<lparr> tm_year := y, tm_mon := sint month0, tm_mday := uint (VBI_PIL_DAY pl) \<rparr>))"

definition is_leap_year :: "u32 \<Rightarrow> bool" where
  "is_leap_year year =
     (if year mod 4 \<noteq> 0 then False else if year mod 400 = 0 then True else year mod 100 \<noteq> 0)"

text \<open>The sum \<^verbatim>\<open>tm->tm_year + 1900\<close> is evaluated in \<^verbatim>\<open>int\<close>.\<close>

definition tm_leap_day_check :: "tm \<Rightarrow> bool c_result" where
  "tm_leap_day_check tm =
     (if tm_mon tm \<noteq> 1 \<or> tm_mday tm \<le> 28 then Ret True
      else if INT_MAX < tm_year tm + 1900 then Undef
      else Ret (is_leap_year (word_of_int (tm_year tm + 1900))))"

section \<open>Changing the time zone\<close>

text \<open>
  A C string pointer that may be \<^verbatim>\<open>NULL\<close> is a \<open>string option\<close>; \<open>old_tz\<close> is the saved value,
  \<open>None\<close> when TZ was not set.
\<close>

definition restore_tz :: "clib \<Rightarrow> string option \<Rightarrow> string option \<Rightarrow> env \<Rightarrow> bool \<times> env" where
  "restore_tz L old_tz tz e =
     (case tz of None \<Rightarrow> (True, e)
      | Some _ \<Rightarrow>
        (case old_tz of None \<Rightarrow> (True, e \<lparr> env_TZ := None \<rparr>)
         | Some s \<Rightarrow> setenv_TZ L s e))"

definition change_tz :: "clib \<Rightarrow> string \<Rightarrow> env \<Rightarrow> (bool \<times> string option) \<times> env" where
  "change_tz L tz e =
     (let (ok, old, e) = (case env_TZ e of None \<Rightarrow> (True, None, e)
                          | Some s \<Rightarrow> (case strdup L s e of
                              (Some d, e) \<Rightarrow> (True, Some d, e)
                            | (None, e) \<Rightarrow> (False, None, set_errno ENOMEM e)))
      in if \<not> ok then ((False, None), e)
         else (case setenv_TZ L tz e of (True, e) \<Rightarrow> ((True, old), e) | (False, e) \<Rightarrow> ((False, None), e)))"

text \<open>
  \<^verbatim>\<open>localtime_tz\<close> as a computation: the broken-down time, the saved TZ and the state, or failure.
  \<open>restore_failing\<close> is the error path all its failures share: TZ is restored, and the error code
  is that of the failure unless restoring fails too.
\<close>

definition restore_failing :: "clib \<Rightarrow> string option \<Rightarrow> string option \<Rightarrow> errno \<Rightarrow> env \<Rightarrow> env" where
  "restore_failing L old_tz tz err e =
     (case restore_tz L old_tz tz e of (False, e) \<Rightarrow> e | (True, e) \<Rightarrow> set_errno err e)"

definition localtime_tz :: "clib \<Rightarrow> int \<Rightarrow> string option \<Rightarrow> env \<Rightarrow> (tm \<times> string option) option \<times> env" where
  "localtime_tz L t tz e =
     (let e = set_errno NO_ERROR e;
          ((ok, old_tz), e) = (case tz of None \<Rightarrow> ((True, None), e) | Some s \<Rightarrow> change_tz L s e)
      in if \<not> ok then (None, e)
         else if t = - 1 \<and> lib_time L = - 1
         then let e = lib_errno (lib_time_errno L) e;
                  err = (if env_errno e = NO_ERROR then VBI_ERR_NO_TIME else env_errno e)
              in (None, restore_failing L old_tz tz err e)
         else let t = (if t = - 1 then lib_time L else t)
              in case localtime_r L t e of
                   (None, e) \<Rightarrow> (None, restore_failing L old_tz tz (env_errno e) e)
                 | (Some tm, e) \<Rightarrow> (Some (tm, old_tz), e))"

definition vbi_mktime :: "clib \<Rightarrow> tm \<Rightarrow> env \<Rightarrow> int \<times> env" where
  "vbi_mktime L tm e =
     (let (result, err) = lib_mktime L (env_TZ e) tm; e = lib_errno err e
      in if result \<le> TIME_MIN \<or> TIME_MAX \<le> result then (- 1, set_errno EOVERFLOW e) else (result, e))"

definition vbi_timegm :: "tm \<Rightarrow> env \<Rightarrow> int \<times> env" where
  "vbi_timegm tm e =
     (let e = set_errno NO_ERROR e; result = timegm tm
      in if result = - 1 then (- 1, if env_errno e = NO_ERROR then set_errno EOVERFLOW e else e)
         else if result \<le> TIME_MIN \<or> TIME_MAX \<le> result then (- 1, set_errno EOVERFLOW e)
         else (result, e))"

section \<open>Labels to times\<close>

text \<open>The error return of the two functions below: \<^verbatim>\<open>errno = err; return (time_t) -1\<close>.\<close>

definition time_error :: "errno \<Rightarrow> env \<Rightarrow> (int \<times> env) c_result" where
  "time_error err e = Ret (- 1, set_errno err e)"

definition valid_pil_lto_to_time :: "clib \<Rightarrow> vbi_pil \<Rightarrow> int \<Rightarrow> int \<Rightarrow> env \<Rightarrow> (int \<times> env) c_result" where
  "valid_pil_lto_to_time L pl start seconds_east e =
     (let e = set_errno NO_ERROR e
      in if start = - 1 \<and> lib_time L = - 1
         then let e = lib_errno (lib_time_errno L) e
              in Ret (- 1, if env_errno e = NO_ERROR then set_errno VBI_ERR_NO_TIME e else e)
         else
           let start = (if start = - 1 then lib_time L else start)
           in if seconds_east = INT_MIN then Undef
              else if seconds_east < 0 \<and> start < - seconds_east then time_error EOVERFLOW e
              else if 0 \<le> seconds_east \<and> TIME_MAX - seconds_east < start then time_error EOVERFLOW e
              else case gmtime_r (start + seconds_east) e of
                (None, e) \<Rightarrow> Ret (- 1, e)
              | (Some tm, e) \<Rightarrow>
                 (case tm_mon_mday_from_pil tm pl of
                    None \<Rightarrow> time_error EOVERFLOW e
                  | Some tm \<Rightarrow>
                     c_bind (tm_leap_day_check tm) (\<lambda>ok.
                       if \<not> ok then time_error VBI_ERR_INVALID_PIL e
                       else
                         let tm = tm \<lparr> tm_hour := uint (VBI_PIL_HOUR pl), tm_min := uint (VBI_PIL_MINUTE pl), tm_sec := 0 \<rparr>
                         in case vbi_timegm tm e of (start, e) \<Rightarrow>
                           if start = - 1 then Ret (- 1, e)
                           else if 0 < seconds_east \<and> start < seconds_east then time_error EOVERFLOW e
                           else if seconds_east \<le> 0 \<and> TIME_MAX + seconds_east < start then time_error EOVERFLOW e
                           else Ret (start - seconds_east, e))))"

definition vbi_pil_lto_to_time :: "clib \<Rightarrow> vbi_pil \<Rightarrow> int \<Rightarrow> int \<Rightarrow> env \<Rightarrow> (int \<times> env) c_result" where
  "vbi_pil_lto_to_time L pl start seconds_east e =
     (if \<not> vbi_pil_is_valid_date pl then time_error NO_ERROR e
      else c_bind (valid_pil_lto_to_time L pl start seconds_east e) (\<lambda>(t, e). Ret (t, set_errno NO_ERROR e)))"

text \<open>
  After \<^verbatim>\<open>failed:\<close> TZ is restored, and \<^verbatim>\<open>errno\<close> is zero whether or not that succeeds.
\<close>

definition vbi_pil_to_time :: "clib \<Rightarrow> vbi_pil \<Rightarrow> int \<Rightarrow> string option \<Rightarrow> env \<Rightarrow> (int \<times> env) c_result" where
  "vbi_pil_to_time L pl start tz e =
     (let failed = (\<lambda>old_tz e. Ret (- 1, set_errno NO_ERROR (snd (restore_tz L old_tz tz e))))
      in if \<not> vbi_pil_is_valid_date pl then time_error NO_ERROR e
         else if tz = Some ''UTC''
         then c_bind (valid_pil_lto_to_time L pl start 0 e) (\<lambda>(t, e). Ret (t, set_errno NO_ERROR e))
         else case localtime_tz L start tz e of
           (None, e) \<Rightarrow> time_error NO_ERROR e
         | (Some (tm, old_tz), e) \<Rightarrow>
            (case tm_mon_mday_from_pil tm pl of
               None \<Rightarrow> failed old_tz e
             | Some tm \<Rightarrow>
                c_bind (tm_leap_day_check tm) (\<lambda>ok.
                  if \<not> ok then failed old_tz e
                  else
                    let tm = tm \<lparr> tm_hour := uint (VBI_PIL_HOUR pl), tm_min := uint (VBI_PIL_MINUTE pl), tm_sec := 0,
                                  tm_isdst := - 1 \<rparr>
                    in case vbi_mktime L tm e of (result, e) \<Rightarrow>
                      if result = - 1 then failed old_tz e
                      else case restore_tz L old_tz tz e of
                        (False, e) \<Rightarrow> time_error NO_ERROR e
                      | (True, e) \<Rightarrow> Ret (result, e))))"

section \<open>Validity windows\<close>

text \<open>\<open>Some (begin, end)\<close> is the result \<^verbatim>\<open>TRUE\<close> with the two times stored, \<open>None\<close> is \<^verbatim>\<open>FALSE\<close>.\<close>

definition pty_utc_validity_window :: "int \<Rightarrow> env \<Rightarrow> (int \<times> int) option \<times> env" where
  "pty_utc_validity_window time e =
     (let e = set_errno NO_ERROR e
      in case gmtime_r time e of
           (None, e) \<Rightarrow> (None, e)
         | (Some tm, e) \<Rightarrow>
            let seconds_since_midnight = tm_hour tm * 3600 + tm_min tm * 60 + tm_sec tm;
                duration = 4 * 7 * 24 * 60 * 60 + (24 + 4) * 60 * 60 - seconds_since_midnight
            in if TIME_MAX - duration < time then (None, set_errno EOVERFLOW e)
               else (Some (time, time + duration), e))"

definition vbi_pty_validity_window :: "clib \<Rightarrow> int \<Rightarrow> string option \<Rightarrow> env \<Rightarrow> (int \<times> int) option \<times> env" where
  "vbi_pty_validity_window L last_transm tz e =
     (if tz = Some ''UTC''
      then case pty_utc_validity_window last_transm e of (success, e) \<Rightarrow> (success, set_errno NO_ERROR e)
      else case localtime_tz L last_transm tz e of
        (None, e) \<Rightarrow> (None, set_errno NO_ERROR e)
      | (Some (tm, old_tz), e) \<Rightarrow>
         (let tm = tm \<lparr> tm_mday := tm_mday tm + (4 * 7 + 1), tm_hour := 4, tm_min := 0, tm_sec := 0, tm_isdst := - 1 \<rparr>
          in case vbi_mktime L tm e of (stop, e) \<Rightarrow>
             if stop = - 1
             then case restore_tz L old_tz tz e of
                (False, e) \<Rightarrow> (None, e)
              | (True, e) \<Rightarrow> (None, set_errno NO_ERROR e)
             else case restore_tz L old_tz tz e of
                (False, e) \<Rightarrow> (None, set_errno NO_ERROR e)
              | (True, e) \<Rightarrow> (Some (last_transm, stop), e)))"

definition valid_pil_lto_validity_window ::
  "clib \<Rightarrow> vbi_pil \<Rightarrow> int \<Rightarrow> int \<Rightarrow> env \<Rightarrow> ((int \<times> int) option \<times> env) c_result" where
  "valid_pil_lto_validity_window L pl start seconds_east e =
     c_bind (valid_pil_lto_to_time L (pl AND VBI_PIL 15 31 0 0) start seconds_east e) (\<lambda>(t, e).
       if t = - 1
       then if env_errno e = VBI_ERR_INVALID_PIL then Ret (Some (TIME_MIN, TIME_MAX), e) else Ret (None, e)
       else if TIME_MAX - 28 * 60 * 60 < t then Ret (None, set_errno EOVERFLOW e)
       else if VBI_PIL_HOUR pl < 4
       then if t < 4 * 60 * 60 then Ret (None, set_errno EOVERFLOW e)
            else Ret (Some (t - 4 * 60 * 60, t + 28 * 60 * 60), e)
       else Ret (Some (t, t + 28 * 60 * 60), e))"

text \<open>
  The services without a time window: TC, RI/T, INT and CONT. The two window functions share
  their dispatch; \<open>window\<close> stands for the call made for a calendar date and \<open>nspv\<close> for the call
  made for NSPV, and both calls are followed by \<^verbatim>\<open>errno = 0\<close>.
\<close>

definition indefinite_window :: "(int \<times> int) option" where
  "indefinite_window = Some (TIME_MIN, TIME_MAX)"

definition pil_window_dispatch ::
  "(env \<Rightarrow> ((int \<times> int) option \<times> env) c_result) \<Rightarrow> (env \<Rightarrow> (int \<times> int) option \<times> env) \<Rightarrow> vbi_pil \<Rightarrow> env
   \<Rightarrow> ((int \<times> int) option \<times> env) c_result" where
  "pil_window_dispatch window nspv pl e =
     (let month = VBI_PIL_MONTH pl
      in if month = 0 then Ret (None, set_errno NO_ERROR e)
         else if month \<le> 12
         then let day = VBI_PIL_DAY pl
              in if of_nat (month_days ! unat (month - 1)) \<le> day - 1 then Ret (indefinite_window, e)
                 else c_bind (window e) (\<lambda>(success, e). Ret (success, set_errno NO_ERROR e))
         else if month \<le> 14 then Ret (indefinite_window, e)
         else if pl = VBI_PIL_TIMER_CONTROL \<or> pl = VBI_PIL_INHIBIT_TERMINATE
                 \<or> pl = VBI_PIL_INTERRUPTION \<or> pl = VBI_PIL_CONTINUE
         then Ret (indefinite_window, e)
         else if pl = VBI_PIL_NSPV
         then (case nspv e of (success, e) \<Rightarrow> Ret (success, set_errno NO_ERROR e))
         else Ret (None, set_errno NO_ERROR e))"

definition vbi_pil_lto_validity_window ::
  "clib \<Rightarrow> vbi_pil \<Rightarrow> int \<Rightarrow> int \<Rightarrow> env \<Rightarrow> ((int \<times> int) option \<times> env) c_result" where
  "vbi_pil_lto_validity_window L pl start seconds_east =
     pil_window_dispatch (valid_pil_lto_validity_window L pl start seconds_east) (pty_utc_validity_window start) pl"

text \<open>
  \<open>saved_errno\<close> is a local variable without initialiser: \<open>None\<close> until it is assigned, and reading it
  then is undefined.
\<close>

definition valid_pil_validity_window ::
  "clib \<Rightarrow> vbi_pil \<Rightarrow> int \<Rightarrow> string option \<Rightarrow> env \<Rightarrow> ((int \<times> int) option \<times> env) c_result" where
  "valid_pil_validity_window L pl start tz e =
     (let failed = (\<lambda>saved_errno old_tz e. case restore_tz L old_tz tz e of
            (False, e) \<Rightarrow> Ret (None, e)
          | (True, e) \<Rightarrow> (case saved_errno of None \<Rightarrow> Undef | Some err \<Rightarrow> Ret (None, set_errno err e)))
      in if tz = Some ''UTC'' then valid_pil_lto_validity_window L pl start 0 e
         else case localtime_tz L start tz e of
           (None, e) \<Rightarrow> Ret (None, e)
         | (Some (tm, old_tz), e) \<Rightarrow>
            (case tm_mon_mday_from_pil tm pl of
               None \<Rightarrow> failed (Some EOVERFLOW) old_tz e
             | Some tm \<Rightarrow>
                c_bind (tm_leap_day_check tm) (\<lambda>ok.
                  if \<not> ok
                  then case restore_tz L old_tz tz e of
                    (False, e) \<Rightarrow> Ret (None, e)
                  | (True, e) \<Rightarrow> Ret (indefinite_window, e)
                  else
                    let tm = tm \<lparr> tm_hour := 0, tm_min := 0, tm_sec := 0, tm_isdst := - 1 \<rparr>;
                        tm2 = tm;
                        tm = (if VBI_PIL_HOUR pl < 4 then tm \<lparr> tm_mday := tm_mday tm - 1, tm_hour := 20 \<rparr> else tm)
                    in case vbi_mktime L tm e of (start, e) \<Rightarrow>
                      if start = - 1 then failed None old_tz e
                      else
                        let tm2 = tm2 \<lparr> tm_mday := tm_mday tm2 + 1, tm_hour := 4 \<rparr>
                        in case vbi_mktime L tm2 e of (stop, e) \<Rightarrow>
                          if stop = - 1 then failed None old_tz e
                          else case restore_tz L old_tz tz e of
                            (False, e) \<Rightarrow> Ret (None, e)
                          | (True, e) \<Rightarrow> Ret (Some (start, stop), e))))"

definition vbi_pil_validity_window ::
  "clib \<Rightarrow> vbi_pil \<Rightarrow> int \<Rightarrow> string option \<Rightarrow> env \<Rightarrow> ((int \<times> int) option \<times> env) c_result" where
  "vbi_pil_validity_window L pl start tz =
     pil_window_dispatch (valid_pil_validity_window L pl start tz) (vbi_pty_validity_window L start tz) pl"

section \<open>Label fields\<close>

lemma pil_fields_less:
  "unat (VBI_PIL_MONTH pl) < 16" "unat (VBI_PIL_DAY pl) < 32" "unat (VBI_PIL_HOUR pl) < 32" "unat (VBI_PIL_MINUTE pl) < 64"
proof -
  have m: "(15 :: u32) = mask 4" "(31 :: u32) = mask 5" "(63 :: u32) = mask 6" by (simp_all add: mask_eq_exp_minus_1)
  show "unat (VBI_PIL_MONTH pl) < 16" "unat (VBI_PIL_DAY pl) < 32" "unat (VBI_PIL_HOUR pl) < 32"
    "unat (VBI_PIL_MINUTE pl) < 64"
    using take_bit_nat_less_exp [of 4 "unat (drop_bit 11 pl)"] take_bit_nat_less_exp [of 5 "unat (drop_bit 15 pl)"]
      take_bit_nat_less_exp [of 5 "unat (drop_bit 6 pl)"] take_bit_nat_less_exp [of 6 "unat pl"]
    by (simp_all add: VBI_PIL_MONTH_def VBI_PIL_DAY_def VBI_PIL_HOUR_def VBI_PIL_MINUTE_def m
        unsigned_take_bit_eq flip: take_bit_eq_mask)
qed

text \<open>The label with its time of day cleared, which the window functions convert.\<close>

definition pil_midnight :: "vbi_pil \<Rightarrow> vbi_pil" where
  "pil_midnight pl = pl AND VBI_PIL 15 31 0 0"

lemma pil_midnight_fields [simp]:
  "VBI_PIL_MONTH (pil_midnight pl) = VBI_PIL_MONTH pl" "VBI_PIL_DAY (pil_midnight pl) = VBI_PIL_DAY pl"
  "VBI_PIL_HOUR (pil_midnight pl) = 0" "VBI_PIL_MINUTE (pil_midnight pl) = 0"
proof -
  have p: "VBI_PIL 15 31 0 0 = push_bit 11 (mask 9)" by (simp add: VBI_PIL_def push_bit_eq_mult mask_eq_exp_minus_1)
  have m: "(15 :: u32) = mask 4" "(31 :: u32) = mask 5" "(63 :: u32) = mask 6"
    by (simp_all add: mask_eq_exp_minus_1)
  show "VBI_PIL_MONTH (pil_midnight pl) = VBI_PIL_MONTH pl" "VBI_PIL_DAY (pil_midnight pl) = VBI_PIL_DAY pl"
    "VBI_PIL_HOUR (pil_midnight pl) = 0" "VBI_PIL_MINUTE (pil_midnight pl) = 0"
    unfolding pil_midnight_def VBI_PIL_MONTH_def VBI_PIL_DAY_def VBI_PIL_HOUR_def VBI_PIL_MINUTE_def p unfolding m
    by (simp_all add: bit_eq_iff bf_simps) auto
qed

text \<open>What \<^verbatim>\<open>vbi_pil_is_valid_date\<close> tests, on integers: a month, and a day of that month in a leap year.\<close>

definition pil_calendar_day :: "vbi_pil \<Rightarrow> bool" where
  "pil_calendar_day pl \<longleftrightarrow> 1 \<le> uint (VBI_PIL_MONTH pl) \<and> uint (VBI_PIL_MONTH pl) \<le> 12 \<and> 1 \<le> uint (VBI_PIL_DAY pl)
     \<and> uint (VBI_PIL_DAY pl) \<le> days_in_month True (nat (uint (VBI_PIL_MONTH pl) - 1))"

lemma month_days_eq: "m < 12 \<Longrightarrow> int (month_days ! m) = days_in_month True m"
proof -
  assume "m < 12"
  from month_cases [OF this] show ?thesis
    by (elim insertE emptyE) (simp_all add: month_days_def days_in_month_def month_start_def)
qed

lemma days_in_month_leap: "m < 12 \<Longrightarrow> days_in_month lp m = days_in_month True m - (if m = 1 \<and> \<not> lp then 1 else 0)"
proof -
  assume "m < 12"
  from month_cases [OF this] show ?thesis
    by (elim insertE emptyE) (cases lp; simp add: days_in_month_def month_start_def)+
qed

lemma unat_le_iff: "unat w \<le> k \<longleftrightarrow> uint w \<le> int k" for w :: u32
  by (metis of_nat_le_iff uint_nat)

lemma unat_minus_1: "w \<noteq> 0 \<Longrightarrow> unat (w - 1) = unat w - 1" for w :: u32
  by (rule unat_minus_one)

lemma u32_pred_less: "k < 2 ^ 32 - 1 \<Longrightarrow> w - 1 < of_nat k \<longleftrightarrow> w \<noteq> 0 \<and> unat w \<le> k" for w :: u32
proof (cases "w = 0")
  case True
  assume "k < 2 ^ 32 - 1"
  then have "unat (of_nat k :: u32) = k" by (simp add: unsigned_of_nat take_bit_nat_eq_self)
  then show ?thesis using True \<open>k < 2 ^ 32 - 1\<close> by (simp add: word_less_nat_alt unsigned_minus_1_eq_mask mask_eq_exp_minus_1)
next
  case False
  assume "k < 2 ^ 32 - 1"
  then have "unat (of_nat k :: u32) = k" by (simp add: unsigned_of_nat take_bit_nat_eq_self)
  moreover have "unat w \<noteq> 0" using False by (simp add: unsigned_eq_0_iff)
  ultimately show ?thesis using False unat_minus_1 [OF False] by (auto simp: word_less_nat_alt)
qed

lemma month0_cases:
  assumes "VBI_PIL_MONTH pl \<noteq> 0" "uint (VBI_PIL_MONTH pl) \<le> 12"
  obtains m where "m < 12" "unat (VBI_PIL_MONTH pl - 1) = m" "uint (VBI_PIL_MONTH pl) = int m + 1"
proof
  have "unat (VBI_PIL_MONTH pl) \<noteq> 0" using assms(1) by (simp add: unsigned_eq_0_iff)
  then show "unat (VBI_PIL_MONTH pl) - 1 < 12" "unat (VBI_PIL_MONTH pl - 1) = unat (VBI_PIL_MONTH pl) - 1"
    "uint (VBI_PIL_MONTH pl) = int (unat (VBI_PIL_MONTH pl) - 1) + 1"
    using assms(2) unat_le_iff [of "VBI_PIL_MONTH pl" 12] by (simp_all add: unat_minus_1 [OF assms(1)] of_nat_diff)
qed

lemma pil_valid_date_iff:
  "vbi_pil_is_valid_date pl \<longleftrightarrow> pil_calendar_day pl \<and> uint (VBI_PIL_HOUR pl) < 24 \<and> uint (VBI_PIL_MINUTE pl) < 60"
proof -
  have month: "VBI_PIL_MONTH pl - 1 < 12 \<longleftrightarrow> VBI_PIL_MONTH pl \<noteq> 0 \<and> unat (VBI_PIL_MONTH pl) \<le> 12"
    using u32_pred_less [of 12 "VBI_PIL_MONTH pl"] by simp
  have hm: "VBI_PIL_HOUR pl < 24 \<longleftrightarrow> uint (VBI_PIL_HOUR pl) < 24" "VBI_PIL_MINUTE pl < 60 \<longleftrightarrow> uint (VBI_PIL_MINUTE pl) < 60"
    by (simp_all add: word_less_def)
  have nz: "VBI_PIL_MONTH pl \<noteq> 0 \<longleftrightarrow> 1 \<le> uint (VBI_PIL_MONTH pl)" "VBI_PIL_DAY pl \<noteq> 0 \<longleftrightarrow> 1 \<le> uint (VBI_PIL_DAY pl)"
    by (simp_all add: word_neq_0_conv word_less_def int_one_le_iff_zero_less)
  show ?thesis
  proof (cases "VBI_PIL_MONTH pl \<noteq> 0 \<and> uint (VBI_PIL_MONTH pl) \<le> 12")
    case True
    then obtain m where m: "m < 12" "unat (VBI_PIL_MONTH pl - 1) = m" "uint (VBI_PIL_MONTH pl) = int m + 1"
      using month0_cases by blast
    have "month_days ! m < 2 ^ 32 - 1"
      using month_cases [OF m(1)] by (elim insertE emptyE) (simp_all add: month_days_def)
    from u32_pred_less [OF this, of "VBI_PIL_DAY pl"]
    have "VBI_PIL_DAY pl - 1 < of_nat (month_days ! m)
        \<longleftrightarrow> 1 \<le> uint (VBI_PIL_DAY pl) \<and> uint (VBI_PIL_DAY pl) \<le> days_in_month True m"
      unfolding nz by (simp add: month_days_eq [OF m(1), symmetric] unat_le_iff)
    then show ?thesis using True m nz
      by (simp add: vbi_pil_is_valid_date_def pil_calendar_day_def Let_def month hm unat_le_iff)
  next
    case False
    then show ?thesis using nz
      by (auto simp: vbi_pil_is_valid_date_def pil_calendar_day_def Let_def month unat_le_iff)
  qed
qed

section \<open>The year of a label\<close>

text \<open>
  The date a label means near another date: its month and day in the year that puts it no more than
  six months before and five months after that date.
\<close>

definition pil_tm :: "tm \<Rightarrow> vbi_pil \<Rightarrow> tm" where
  "pil_tm near pl =
     (let m = uint (VBI_PIL_MONTH pl) - 1;
          y = (if tm_mon near + 6 \<le> m then tm_year near - 1
               else if m + 6 < tm_mon near then tm_year near + 1 else tm_year near)
      in \<lparr> tm_sec = 0, tm_min = uint (VBI_PIL_MINUTE pl), tm_hour = uint (VBI_PIL_HOUR pl),
          tm_mday = uint (VBI_PIL_DAY pl), tm_mon = m, tm_year = y, tm_isdst = 0 \<rparr>)"

text \<open>Months since the beginning of the year 1900.\<close>

definition month_index :: "tm \<Rightarrow> int" where
  "month_index tm = 12 * tm_year tm + tm_mon tm"

lemma pil_tm_near:
  assumes "0 \<le> tm_mon near" "tm_mon near < 12" "pil_calendar_day pl"
  shows "month_index near - 6 \<le> month_index (pil_tm near pl)" "month_index (pil_tm near pl) \<le> month_index near + 5"
  using assms by (auto simp: month_index_def pil_tm_def Let_def pil_calendar_day_def)

lemma unat_plus_6: "unat w < 12 \<Longrightarrow> unat (w + 6) = unat w + 6" for w :: u32
  by (simp add: unat_word_ariths)

lemma tm_mon_mday_eq:
  assumes "0 \<le> tm_mon near" "tm_mon near < 12" "pil_calendar_day pl" "INT_MIN < tm_year near" "tm_year near < INT_MAX"
  shows "tm_mon_mday_from_pil near pl =
    Some (near \<lparr> tm_year := tm_year (pil_tm near pl), tm_mon := tm_mon (pil_tm near pl), tm_mday := tm_mday (pil_tm near pl) \<rparr>)"
proof -
  let ?m0 = "VBI_PIL_MONTH pl - 1" and ?mon = "word_of_int (tm_mon near) :: u32"
  have nz: "VBI_PIL_MONTH pl \<noteq> 0" "uint (VBI_PIL_MONTH pl) \<le> 12" using assms(3) by (auto simp: pil_calendar_day_def)
  obtain m where m: "m < 12" "unat ?m0 = m" "uint (VBI_PIL_MONTH pl) = int m + 1" by (rule month0_cases [OF nz])
  have mon: "unat ?mon = nat (tm_mon near)"
    using assms(1,2) by (simp add: unsigned_of_int take_bit_int_eq_self)
  have s: "sint ?m0 = int m"
    using sint_small [of ?m0 4] m(1,2) uint_nat [of ?m0] by (simp add: word_less_nat_alt del: of_nat_unat)
  have a: "unat (?mon + 6) = nat (tm_mon near) + 6" "unat (?m0 + 6) = m + 6"
    using unat_plus_6 [of ?mon] unat_plus_6 [of ?m0] assms(1,2) m(1) by (simp_all only: mon m(2))
  have c: "?mon + 6 \<le> ?m0 \<longleftrightarrow> tm_mon near + 6 \<le> int m" "?m0 + 6 < ?mon \<longleftrightarrow> int m + 6 < tm_mon near"
    unfolding word_le_nat_alt word_less_nat_alt a mon m(2) using assms(1) by auto
  have y: "\<not> tm_year near \<le> INT_MIN" "\<not> INT_MAX \<le> tm_year near" using assms(4,5) by simp_all
  show ?thesis
    unfolding tm_mon_mday_from_pil_def Let_def c s pil_tm_def m(3) using y by simp
qed

lemma is_leap_year_eq: "0 \<le> y \<Longrightarrow> y < 2 ^ 32 \<Longrightarrow> is_leap_year (word_of_int y) = leap y"
proof -
  assume "0 \<le> y" "y < 2 ^ 32"
  then have u: "uint (word_of_int y :: u32) = y" by (simp add: unsigned_of_int take_bit_int_eq_self)
  have z: "w mod k = 0 \<longleftrightarrow> uint w mod uint k = 0" for w k :: u32
    by (simp add: uint_0_iff flip: uint_mod)
  have "uint (4 :: u32) = 4" "uint (100 :: u32) = 100" "uint (400 :: u32) = 400" by simp_all
  moreover have "y mod 400 = 0 \<Longrightarrow> y mod 4 = 0" using dvd_trans [of 4 400 y] by (simp add: dvd_eq_mod_eq_0 del: mod_mod_trivial)
  ultimately show ?thesis by (auto simp: is_leap_year_def leap_def z u)
qed

section \<open>Evaluation of the conversion\<close>

text \<open>
  The times the correctness statements range over: from the beginning of 1972 plus one day to the year
  36,000, so that no year before 1971 and no overflow of \<^verbatim>\<open>time_t\<close> occurs, and offsets up to a day.
\<close>

definition pil_start_ok :: "int \<Rightarrow> int \<Rightarrow> bool" where
  "pil_start_ok start east \<longleftrightarrow> 731 * 86400 \<le> start \<and> start \<le> 2 ^ 40 \<and> - 86400 \<le> east \<and> east \<le> 86400"

lemma pil_start_okD:
  assumes "pil_start_ok start east"
  shows "start \<noteq> - 1" "east \<noteq> INT_MIN" "\<not> start < - east" "\<not> TIME_MAX - east < start"
    "72 \<le> tm_year (gmtime (start + east))" "tm_year (gmtime (start + east)) \<le> 35000"
proof -
  have b: "731 * 86400 \<le> start" "start \<le> 2 ^ 40" "- 86400 \<le> east" "east \<le> 86400"
    using assms by (simp_all add: pil_start_ok_def)
  show "start \<noteq> - 1" "east \<noteq> INT_MIN" "\<not> start < - east" "\<not> TIME_MAX - east < start"
    using b by (simp_all add: INT_MIN_def TIME_MAX_def)
  let ?d = "(start + east) div 86400"
  have d: "730 \<le> ?d" "?d \<le> 12726000"
    using zdiv_mono1 [of "730 * 86400" "start + east" 86400] zdiv_mono1 [of "start + east" "12726000 * 86400" 86400] b
    by simp_all
  have "year_start 1972 = 730" by (simp add: year_start_def)
  then have "1972 \<le> year_of_day ?d" using year_of_day_ge [of ?d 1972] d(1) by simp
  then show "72 \<le> tm_year (gmtime (start + east))" by (simp add: gmtime_year)
  have "?d div 365 \<le> 34866" using zdiv_mono1 [OF d(2), of 365] by simp
  then have "year_of_day ?d \<le> 36836" using year_of_day_le [of ?d] d(1) by linarith
  then show "tm_year (gmtime (start + east)) \<le> 35000" by (simp add: gmtime_year)
qed

text \<open>Whether the date exists in the year chosen: February 29 does not in every year.\<close>

definition pil_unreal :: "tm \<Rightarrow> bool" where
  "pil_unreal tm \<longleftrightarrow> tm_mon tm = 1 \<and> 28 < tm_mday tm \<and> \<not> leap (tm_year tm + 1900)"

lemma pil_tm_year:
  assumes "0 \<le> tm_mon near" "tm_mon near < 12" "pil_calendar_day pl"
  shows "tm_year near - 1 \<le> tm_year (pil_tm near pl)" "tm_year (pil_tm near pl) \<le> tm_year near + 1"
  using assms by (auto simp: pil_tm_def Let_def)

lemma pil_tm_valid:
  assumes "pil_calendar_day pl" "uint (VBI_PIL_HOUR pl) < 24" "uint (VBI_PIL_MINUTE pl) < 60" "\<not> pil_unreal (pil_tm near pl)"
  shows "valid_tm (pil_tm near pl)"
proof -
  let ?tm = "pil_tm near pl"
  have f: "tm_sec ?tm = 0" "tm_min ?tm = uint (VBI_PIL_MINUTE pl)" "tm_hour ?tm = uint (VBI_PIL_HOUR pl)"
    "tm_mon ?tm = uint (VBI_PIL_MONTH pl) - 1" "tm_mday ?tm = uint (VBI_PIL_DAY pl)" "tm_isdst ?tm = 0"
    by (simp_all add: pil_tm_def Let_def)
  define lp where "lp = leap (tm_year ?tm + 1900)"
  define m where "m = nat (uint (VBI_PIL_MONTH pl) - 1)"
  have d: "1 \<le> uint (VBI_PIL_DAY pl)" "uint (VBI_PIL_DAY pl) \<le> days_in_month True m"
      "0 \<le> uint (VBI_PIL_MONTH pl) - 1" "uint (VBI_PIL_MONTH pl) - 1 < 12"
    using assms(1) by (simp_all add: pil_calendar_day_def m_def)
  then have m: "m < 12" "uint (VBI_PIL_MONTH pl) - 1 = int m" by (simp_all add: m_def)
  have "m = 1 \<and> \<not> lp \<longrightarrow> uint (VBI_PIL_DAY pl) \<le> 28"
    using assms(4) m(2) by (auto simp: pil_unreal_def f lp_def)
  moreover have "days_in_month True 1 = 29" by (simp add: days_in_month_def month_start_def)
  ultimately have "uint (VBI_PIL_DAY pl) \<le> days_in_month lp m"
    using d(2) days_in_month_leap [OF m(1), of lp] by auto
  then show ?thesis
    using assms(2,3) d unfolding valid_tm_def f by (simp add: lp_def m_def)
qed

lemma leap_day_check_eq:
  assumes "0 \<le> tm_year tm" "tm_year tm \<le> 36000"
  shows "tm_leap_day_check tm = Ret (\<not> pil_unreal tm)"
  using assms is_leap_year_eq [of "tm_year tm + 1900"]
  by (auto simp: tm_leap_day_check_def pil_unreal_def INT_MAX_def)

lemma timegm_range:
  assumes "valid_tm tm" "71 \<le> tm_year tm" "tm_year tm \<le> 35001"
  shows "86400 * 365 \<le> timegm tm" "timegm tm \<le> 2 ^ 41"
proof -
  have "year_start 1971 = 365" by (simp add: year_start_def)
  then have "365 \<le> year_start (tm_year tm + 1900)" using year_start_mono [of 1971 "tm_year tm + 1900"] assms(2) by simp
  then show "86400 * 365 \<le> timegm tm" using timegm_bounds(1) [OF assms(1)] by linarith
  have "year_start (tm_year tm + 1901) \<le> 366 * (tm_year tm + 1901 - 1970)"
    using assms(2) by (intro year_start_bounds) simp
  then show "timegm tm \<le> 2 ^ 41" using timegm_bounds(2) [OF assms(1)] assms(3) by simp
qed

lemma set_errno_simps [simp]:
  "set_errno a (set_errno b e) = set_errno a e" "env_errno (set_errno a e) = a" "env_TZ (set_errno a e) = env_TZ e"
  "env_allocs (set_errno a e) = env_allocs e"
  by (simp_all add: set_errno_def)

lemma vbi_timegm_eq:
  assumes "0 \<le> timegm tm" "timegm tm \<le> 2 ^ 41"
  shows "vbi_timegm tm e = (timegm tm, set_errno NO_ERROR e)"
  using assms by (simp add: vbi_timegm_def Let_def TIME_MIN_def TIME_MAX_def)

lemma gmtime_r_eq: "INT_MIN \<le> tm_year (gmtime t) \<Longrightarrow> tm_year (gmtime t) \<le> INT_MAX \<Longrightarrow> gmtime_r t e = (Some (gmtime t), e)"
  by (simp add: gmtime_r_def)

lemma valid_pil_lto_to_time_eval:
  assumes ok: "pil_start_ok start east" and day: "pil_calendar_day pl"
    and hm: "uint (VBI_PIL_HOUR pl) < 24" "uint (VBI_PIL_MINUTE pl) < 60"
    and tm: "tm = pil_tm (gmtime (start + east)) pl"
  shows "valid_pil_lto_to_time L pl start east e =
    (if pil_unreal tm then Ret (- 1, set_errno VBI_ERR_INVALID_PIL e) else Ret (timegm tm - east, set_errno NO_ERROR e))"
proof -
  let ?near = "gmtime (start + east)"
  note s = pil_start_okD [OF ok]
  have yr: "INT_MIN < tm_year ?near" "tm_year ?near < INT_MAX" "INT_MIN \<le> tm_year ?near" "tm_year ?near \<le> INT_MAX"
    using s(5,6) by (simp_all add: INT_MIN_def INT_MAX_def)
  have ty: "71 \<le> tm_year tm" "tm_year tm \<le> 35001"
    using pil_tm_year [OF gmtime_mon day, of "start + east"] s(5,6) unfolding tm by simp_all
  define tm1 where "tm1 = ?near \<lparr> tm_year := tm_year tm, tm_mon := tm_mon tm, tm_mday := tm_mday tm \<rparr>"
  have f: "tm_year tm1 = tm_year tm" "tm_mon tm1 = tm_mon tm" "tm_mday tm1 = tm_mday tm" "tm_isdst tm1 = 0"
    by (simp_all add: tm1_def gmtime_def Let_def)
  have mm: "tm_mon_mday_from_pil ?near pl = Some tm1"
    unfolding tm1_def tm by (rule tm_mon_mday_eq [OF gmtime_mon day yr(1,2)])
  have lc: "tm_leap_day_check tm1 = Ret (\<not> pil_unreal tm)"
    using leap_day_check_eq [of tm1] ty by (simp add: f pil_unreal_def)
  have t1: "tm1 \<lparr> tm_hour := uint (VBI_PIL_HOUR pl), tm_min := uint (VBI_PIL_MINUTE pl), tm_sec := 0 \<rparr> = tm"
    using f by (cases tm1) (simp add: tm pil_tm_def Let_def)
  show ?thesis
  proof (cases "pil_unreal tm")
    case True
    then show ?thesis
      using s(1-4) by (simp add: valid_pil_lto_to_time_def Let_def gmtime_r_eq [OF yr(3,4)] mm lc time_error_def)
  next
    case False
    then have v: "valid_tm tm" using pil_tm_valid [OF day hm] tm by simp
    note r = timegm_range [OF v ty]
    have vt: "vbi_timegm tm e' = (timegm tm, set_errno NO_ERROR e')" for e' using vbi_timegm_eq r by simp
    have c: "timegm tm \<noteq> - 1" "\<not> timegm tm < east" "\<not> TIME_MAX + east < timegm tm"
      using r ok by (simp_all add: pil_start_ok_def TIME_MAX_def)
    show ?thesis
      using s(1-4) False c by (simp add: valid_pil_lto_to_time_def Let_def gmtime_r_eq [OF yr(3,4)] mm lc t1 vt)
  qed
qed

text \<open>
  C10. On a valid label, and with the bounds on the start time and the offset stated above,
  \<^verbatim>\<open>vbi_pil_lto_to_time\<close> returns the time at which a clock in the given zone shows the month,
  day, hour and minute of the label and second zero, in the year that puts the month of the label no more
  than six months before and five months after the month of the start time; or -1 when the label is
  a February 29 and the month chosen is that of a year that has none. The environment is left as it was.
\<close>

theorem pil_lto_to_time_correct:
  assumes "vbi_pil_is_valid_date pl" "pil_start_ok start east"
  shows "\<exists>t. vbi_pil_lto_to_time L pl start east e = Ret (t, set_errno NO_ERROR e) \<and>
    (if pil_unreal (pil_tm (gmtime (start + east)) pl) then t = - 1
     else t \<noteq> - 1 \<and>
       tm_mon (gmtime (t + east)) + 1 = uint (VBI_PIL_MONTH pl) \<and> tm_mday (gmtime (t + east)) = uint (VBI_PIL_DAY pl) \<and>
       tm_hour (gmtime (t + east)) = uint (VBI_PIL_HOUR pl) \<and> tm_min (gmtime (t + east)) = uint (VBI_PIL_MINUTE pl) \<and>
       tm_sec (gmtime (t + east)) = 0 \<and>
       month_index (gmtime (start + east)) - 6 \<le> month_index (gmtime (t + east)) \<and>
       month_index (gmtime (t + east)) \<le> month_index (gmtime (start + east)) + 5)"
proof -
  define tm where "tm = pil_tm (gmtime (start + east)) pl"
  have day: "pil_calendar_day pl" and hm: "uint (VBI_PIL_HOUR pl) < 24" "uint (VBI_PIL_MINUTE pl) < 60"
    using assms(1) by (simp_all add: pil_valid_date_iff)
  note ev = valid_pil_lto_to_time_eval [OF assms(2) day hm tm_def]
  have near: "month_index (gmtime (start + east)) - 6 \<le> month_index tm" "month_index tm \<le> month_index (gmtime (start + east)) + 5"
    unfolding tm_def by (rule pil_tm_near [OF gmtime_mon day])+
  show ?thesis
  proof (cases "pil_unreal tm")
    case True
    then show ?thesis using assms(1) by (simp add: vbi_pil_lto_to_time_def ev flip: tm_def)
  next
    case False
    then have v: "valid_tm tm" using pil_tm_valid [OF day hm] tm_def by simp
    have ty: "71 \<le> tm_year tm" "tm_year tm \<le> 35001"
      using pil_tm_year [OF gmtime_mon day, of "start + east"] pil_start_okD(5,6) [OF assms(2)] unfolding tm_def by simp_all
    have "timegm tm - east \<noteq> - 1" using timegm_range [OF v ty] assms(2) by (simp add: pil_start_ok_def)
    moreover have f: "tm_mon tm + 1 = uint (VBI_PIL_MONTH pl)" "tm_mday tm = uint (VBI_PIL_DAY pl)"
      "tm_hour tm = uint (VBI_PIL_HOUR pl)" "tm_min tm = uint (VBI_PIL_MINUTE pl)" "tm_sec tm = 0"
      by (simp_all add: tm_def pil_tm_def Let_def)
    ultimately show ?thesis using assms(1) False near
      by (intro exI [of _ "timegm tm - east"]) (simp add: vbi_pil_lto_to_time_def ev gmtime_timegm [OF v] flip: tm_def)
  qed
qed

text \<open>A library whose local time is UTC and whose allocations succeed, and an environment.\<close>

definition utc_lib :: clib where
  "utc_lib = \<lparr> lib_alloc = \<lambda>_. True, lib_time = 1000000000, lib_time_errno = NO_ERROR,
     lib_localtime = \<lambda>_ t. Some (gmtime t), lib_mktime = \<lambda>_ tm. (timegm tm, NO_ERROR) \<rparr>"

definition cet_env :: env where
  "cet_env = \<lparr> env_TZ = Some ''CET'', env_errno = ENOMEM, env_allocs = 0 \<rparr>"

lemma christmas: "vbi_pil_is_valid_date (VBI_PIL 12 24 20 15)" "VBI_PIL_MONTH (VBI_PIL 12 24 20 15) = 12"
  "VBI_PIL_DAY (VBI_PIL 12 24 20 15) = 24" "VBI_PIL_HOUR (VBI_PIL 12 24 20 15) = 20"
  "VBI_PIL_MINUTE (VBI_PIL 12 24 20 15) = 15"
  by code_simp+

lemma christmas_real: "\<not> pil_unreal (pil_tm near (VBI_PIL 12 24 20 15))"
  by (simp add: pil_unreal_def pil_tm_def Let_def christmas)

theorem pil_lto_to_time_correct_witness:
  "\<exists>t. vbi_pil_lto_to_time utc_lib (VBI_PIL 12 24 20 15) 1000000000 3600 cet_env = Ret (t, set_errno NO_ERROR cet_env)
    \<and> t \<noteq> - 1 \<and> tm_mon (gmtime (t + 3600)) = 11 \<and> tm_mday (gmtime (t + 3600)) = 24"
  using pil_lto_to_time_correct [of "VBI_PIL 12 24 20 15" 1000000000 3600 utc_lib cet_env]
  by (auto simp: christmas christmas_real pil_start_ok_def)

lemma window_arith:
  fixes h m mid t :: int
  assumes "0 \<le> h" "h < 24" "0 \<le> m" "m < 60" "mid = t - 3600 * h - 60 * m"
  shows "mid - (if h < 4 then 4 * 3600 else 0) \<le> t" "t < mid + 28 * 3600"
  using assms by auto

text \<open>
  C24. The validity window that \<^verbatim>\<open>vbi_pil_lto_validity_window\<close> computes for a valid label runs from
  midnight of the day of the label, or 20:00 of the day before when the label is earlier than 04:00, until
  04:00 of the day after, in the zone of the label; the time \<^verbatim>\<open>vbi_pil_lto_to_time\<close> gives for the
  label lies inside. A February 29 in a year that has none gets the indefinite window.
\<close>

theorem pil_lto_window_correct:
  assumes "vbi_pil_is_valid_date pl" "pil_start_ok start east"
  shows "if pil_unreal (pil_tm (gmtime (start + east)) pl)
    then vbi_pil_lto_validity_window L pl start east e = Ret (Some (TIME_MIN, TIME_MAX), set_errno NO_ERROR e)
    else \<exists>t midnight before.
      vbi_pil_lto_to_time L pl start east e = Ret (t, set_errno NO_ERROR e) \<and>
      midnight = t - 3600 * uint (VBI_PIL_HOUR pl) - 60 * uint (VBI_PIL_MINUTE pl) \<and>
      tm_hour (gmtime (midnight + east)) = 0 \<and> tm_min (gmtime (midnight + east)) = 0 \<and> tm_sec (gmtime (midnight + east)) = 0 \<and>
      before = (if uint (VBI_PIL_HOUR pl) < 4 then 4 * 3600 else 0) \<and>
      vbi_pil_lto_validity_window L pl start east e = Ret (Some (midnight - before, midnight + 28 * 3600), set_errno NO_ERROR e) \<and>
      midnight - before \<le> t \<and> t < midnight + 28 * 3600"
proof -
  define near where "near = gmtime (start + east)"
  have day: "pil_calendar_day pl" and hm: "uint (VBI_PIL_HOUR pl) < 24" "uint (VBI_PIL_MINUTE pl) < 60"
    using assms(1) by (simp_all add: pil_valid_date_iff)
  have day0: "pil_calendar_day (pil_midnight pl)" and hm0: "uint (VBI_PIL_HOUR (pil_midnight pl)) < 24"
    "uint (VBI_PIL_MINUTE (pil_midnight pl)) < 60"
    using day by (simp_all add: pil_calendar_day_def)
  define tm where "tm = pil_tm near pl"
  define tm0 where "tm0 = pil_tm near (pil_midnight pl)"
  have tm0: "tm0 = tm \<lparr> tm_hour := 0, tm_min := 0 \<rparr>" by (simp add: tm0_def tm_def pil_tm_def Let_def)
  have u: "pil_unreal tm0 = pil_unreal tm" by (simp add: tm0 pil_unreal_def)
  note ev = valid_pil_lto_to_time_eval [OF assms(2) day hm tm_def [unfolded near_def]]
  note ev0 = valid_pil_lto_to_time_eval [OF assms(2) day0 hm0 tm0_def [unfolded near_def], unfolded pil_midnight_def]
  have t0: "timegm tm0 = timegm tm - 3600 * uint (VBI_PIL_HOUR pl) - 60 * uint (VBI_PIL_MINUTE pl)"
    by (simp add: tm0 timegm_def timegm_days_def Let_def) (simp add: tm_def pil_tm_def Let_def)
  have disp: "vbi_pil_lto_validity_window L pl start east e =
      c_bind (valid_pil_lto_validity_window L pl start east e) (\<lambda>(w, e). Ret (w, set_errno NO_ERROR e))"
  proof -
    have m: "VBI_PIL_MONTH pl \<noteq> 0" "VBI_PIL_MONTH pl \<le> 12" using day by (auto simp: pil_calendar_day_def word_le_def)
    have "\<not> of_nat (month_days ! unat (VBI_PIL_MONTH pl - 1)) \<le> VBI_PIL_DAY pl - 1"
      using assms(1) by (simp add: vbi_pil_is_valid_date_def Let_def not_le)
    then show ?thesis using m by (simp add: vbi_pil_lto_validity_window_def pil_window_dispatch_def Let_def)
  qed
  show ?thesis
  proof (cases "pil_unreal tm")
    case True
    then show ?thesis
      by (simp add: disp valid_pil_lto_validity_window_def ev0 u flip: tm_def near_def)
  next
    case False
    have v: "valid_tm tm0" using pil_tm_valid [OF day0 hm0] False u by (simp add: tm0_def)
    have ty: "71 \<le> tm_year tm0" "tm_year tm0 \<le> 35001"
      using pil_tm_year [OF gmtime_mon day0, of "start + east"] pil_start_okD(5,6) [OF assms(2)]
      unfolding tm0_def near_def by simp_all
    note r = timegm_range [OF v ty]
    have b: "timegm tm0 - east \<noteq> - 1" "\<not> TIME_MAX - 28 * 60 * 60 < timegm tm0 - east" "\<not> timegm tm0 - east < 4 * 60 * 60"
      using r assms(2) by (simp_all add: pil_start_ok_def TIME_MAX_def)
    have h: "VBI_PIL_HOUR pl < 4 \<longleftrightarrow> uint (VBI_PIL_HOUR pl) < 4" by (simp add: word_less_def)
    have w: "vbi_pil_lto_validity_window L pl start east e =
        Ret (Some (timegm tm0 - east - (if uint (VBI_PIL_HOUR pl) < 4 then 4 * 3600 else 0), timegm tm0 - east + 28 * 3600),
          set_errno NO_ERROR e)"
      using b False by (simp add: disp valid_pil_lto_validity_window_def ev0 u h)
    have g: "tm_hour (gmtime (timegm tm0)) = 0" "tm_min (gmtime (timegm tm0)) = 0" "tm_sec (gmtime (timegm tm0)) = 0"
      unfolding gmtime_timegm [OF v] by (simp_all add: tm0_def pil_tm_def Let_def)
    have hm': "0 \<le> uint (VBI_PIL_HOUR pl)" "0 \<le> uint (VBI_PIL_MINUTE pl)" by simp_all
    have t: "vbi_pil_lto_to_time L pl start east e = Ret (timegm tm - east, set_errno NO_ERROR e)"
      using assms(1) False by (simp add: vbi_pil_lto_to_time_def ev)
    define mid where "mid = timegm tm0 - east"
    have mid: "mid = timegm tm - east - 3600 * uint (VBI_PIL_HOUR pl) - 60 * uint (VBI_PIL_MINUTE pl)" "mid + east = timegm tm0"
      by (simp_all add: mid_def t0)
    have "mid - (if uint (VBI_PIL_HOUR pl) < 4 then 4 * 3600 else 0) \<le> timegm tm - east" "timegm tm - east < mid + 28 * 3600"
      using window_arith [OF hm'(1) hm(1) hm'(2) hm(2) mid(1)] by simp_all
    then show ?thesis using False t w mid g unfolding mid_def [symmetric]
      by (simp flip: tm_def near_def)
  qed
qed

theorem pil_lto_window_correct_witness:
  "\<exists>t midnight. vbi_pil_lto_to_time utc_lib (VBI_PIL 12 24 20 15) 1000000000 3600 cet_env = Ret (t, set_errno NO_ERROR cet_env) \<and>
     vbi_pil_lto_validity_window utc_lib (VBI_PIL 12 24 20 15) 1000000000 3600 cet_env
       = Ret (Some (midnight, midnight + 100800), set_errno NO_ERROR cet_env) \<and> midnight = t - 72900"
  using pil_lto_window_correct [of "VBI_PIL 12 24 20 15" 1000000000 3600 utc_lib cet_env]
  by (auto simp: christmas christmas_real pil_start_ok_def)

section \<open>The time zone\<close>

lemma set_errno_lib [simp]: "env_TZ (lib_errno a e) = env_TZ e" "env_allocs (lib_errno a e) = env_allocs e"
  by (simp_all add: lib_errno_def)

text \<open>
  What a function that may change TZ leaves behind: TZ as it was, or the failure of an allocation
  and an error reported to the caller.
\<close>

definition tz_restored :: "clib \<Rightarrow> env \<Rightarrow> env \<Rightarrow> bool \<Rightarrow> bool" where
  "tz_restored L e e' failed \<longleftrightarrow>
     env_TZ e' = env_TZ e \<or> (failed \<and> env_TZ e \<noteq> None \<and> (\<exists>n. \<not> lib_alloc L n))"

text \<open>In between, TZ is the one requested and its former value is the one saved.\<close>

definition tz_changed :: "string option \<Rightarrow> string option \<Rightarrow> env \<Rightarrow> env \<Rightarrow> bool" where
  "tz_changed tz old_tz e e' \<longleftrightarrow> (if tz = None then env_TZ e' = env_TZ e else old_tz = env_TZ e)"

lemma change_tz_cases:
  assumes "change_tz L tz e = ((ok, old_tz), e')"
  shows "if ok then old_tz = env_TZ e \<and> env_TZ e' = Some tz else env_TZ e' = env_TZ e"
  using assms
  by (auto simp: change_tz_def strdup_def setenv_TZ_def Let_def split: option.splits if_splits)

lemma restore_tz_cases:
  assumes "restore_tz L old_tz tz e1 = (ok, e2)" "tz_changed tz old_tz e e1"
  shows "tz_restored L e e2 (\<not> ok)"
  using assms
  by (auto simp: restore_tz_def setenv_TZ_def tz_changed_def tz_restored_def split: option.splits if_splits)

lemma tz_restored_set_errno [simp]: "tz_restored L e (set_errno err e') f = tz_restored L e e' f"
  by (simp add: tz_restored_def)

lemma tz_restored_mono: "tz_restored L e e' f \<Longrightarrow> tz_restored L e e' True"
  by (auto simp: tz_restored_def)

lemma tz_restored_refl: "env_TZ e' = env_TZ e \<Longrightarrow> tz_restored L e e' f"
  by (simp add: tz_restored_def)

lemma restore_failing_tz:
  assumes "tz_changed tz old_tz e e1"
  shows "tz_restored L e (restore_failing L old_tz tz err e1) True"
proof -
  obtain ok e2 where r: "restore_tz L old_tz tz e1 = (ok, e2)" by force
  from restore_tz_cases [OF r assms] show ?thesis
    by (cases ok) (auto simp: restore_failing_def r dest: tz_restored_mono)
qed

lemma localtime_tz_cases:
  assumes "localtime_tz L t tz e = (r, e')"
  shows "case r of None \<Rightarrow> tz_restored L e e' True | Some (tm, old_tz) \<Rightarrow> tz_changed tz old_tz e e'"
proof -
  define step where "step = (case tz of None \<Rightarrow> ((True, None), set_errno NO_ERROR e) | Some s \<Rightarrow> change_tz L s (set_errno NO_ERROR e))"
  obtain ok old_tz e1 where s: "step = ((ok, old_tz), e1)" by (metis prod.exhaust)
  have c: "if ok then tz_changed tz old_tz e e1 else env_TZ e1 = env_TZ e"
  proof (cases tz)
    case None
    then show ?thesis using s by (auto simp: step_def tz_changed_def)
  next
    case (Some z)
    then show ?thesis using s change_tz_cases [of L z "set_errno NO_ERROR e"] by (fastforce simp: step_def tz_changed_def)
  qed
  have set: "tz_changed tz old_tz e (lib_errno a e1) = tz_changed tz old_tz e e1" "tz_changed tz old_tz e (set_errno a e1) = tz_changed tz old_tz e e1" for a
    by (simp_all add: tz_changed_def)
  show ?thesis
    using assms c unfolding localtime_tz_def Let_def step_def [symmetric] s
    by (auto simp: localtime_r_def set restore_failing_tz tz_restored_refl split: if_splits option.splits)
qed

lemma vbi_mktime_tz: "vbi_mktime L tm e = (r, e') \<Longrightarrow> env_TZ e' = env_TZ e"
  by (auto simp: vbi_mktime_def Let_def split: prod.splits if_splits)

lemma tz_changed_cong: "tz_changed tz old_tz e e1 \<Longrightarrow> env_TZ e2 = env_TZ e1 \<Longrightarrow> tz_changed tz old_tz e e2"
  by (simp add: tz_changed_def split: if_splits)

lemma valid_pil_lto_to_time_tz:
  "valid_pil_lto_to_time L pl start east e = Ret (t, e') \<Longrightarrow> env_TZ e' = env_TZ e"
  by (auto simp: valid_pil_lto_to_time_def Let_def time_error_def gmtime_r_def vbi_timegm_def c_bind_eq_Ret
      split: if_splits option.splits)

lemma valid_pil_lto_window_tz:
  "valid_pil_lto_validity_window L pl start east e = Ret (w, e') \<Longrightarrow> env_TZ e' = env_TZ e"
  by (auto simp: valid_pil_lto_validity_window_def c_bind_eq_Ret dest!: valid_pil_lto_to_time_tz split: if_splits)

lemma pty_utc_window_tz: "pty_utc_validity_window t e = (w, e') \<Longrightarrow> env_TZ e' = env_TZ e"
  by (auto simp: pty_utc_validity_window_def Let_def gmtime_r_def split: if_splits)

lemma restore_after_mktime:
  assumes "tz_changed tz old_tz e e1" "vbi_mktime L tm e1 = (r, e2)" "restore_tz L old_tz tz e2 = (ok, e3)"
  shows "tz_restored L e e3 (\<not> ok)"
  using restore_tz_cases [OF assms(3)] tz_changed_cong [OF assms(1)] vbi_mktime_tz [OF assms(2)] by simp

lemma pty_window_tz:
  assumes "vbi_pty_validity_window L t tz e = (w, e')"
  shows "tz_restored L e e' (w = None)"
proof (cases "tz = Some ''UTC''")
  case True
  then show ?thesis using assms
    by (auto simp: vbi_pty_validity_window_def tz_restored_refl dest: pty_utc_window_tz split: prod.splits)
next
  case False
  obtain r e1 where l: "localtime_tz L t tz e = (r, e1)" by force
  show ?thesis
  proof (cases r)
    case None
    then show ?thesis using localtime_tz_cases [OF l] assms False by (auto simp: vbi_pty_validity_window_def l)
  next
    case (Some p)
    then obtain tm old_tz where p: "r = Some (tm, old_tz)" by (cases p) simp
    then have c: "tz_changed tz old_tz e e1" using localtime_tz_cases [OF l] by simp
    show ?thesis
      using assms False
      by (auto simp: vbi_pty_validity_window_def l p Let_def split: prod.splits if_splits bool.splits
          dest!: restore_after_mktime [OF c] intro: tz_restored_mono)
  qed
qed

lemma pil_to_time_tz:
  assumes "vbi_pil_to_time L pl start tz e = Ret (t, e')"
  shows "tz_restored L e e' (t = - 1)"
proof (cases "tz = Some ''UTC'' \<or> \<not> vbi_pil_is_valid_date pl")
  case True
  then show ?thesis using assms
    by (auto simp: vbi_pil_to_time_def tz_restored_refl time_error_def c_bind_eq_Ret Let_def
        dest: valid_pil_lto_to_time_tz split: if_splits)
next
  case False
  obtain r e1 where l: "localtime_tz L start tz e = (r, e1)" by force
  show ?thesis
  proof (cases r)
    case None
    then show ?thesis using localtime_tz_cases [OF l] assms False by (auto simp: vbi_pil_to_time_def l Let_def time_error_def)
  next
    case (Some p)
    then obtain tm old_tz where p: "r = Some (tm, old_tz)" by (cases p) simp
    then have c: "tz_changed tz old_tz e e1" using localtime_tz_cases [OF l] by simp
    have f: "tz_restored L e (snd (restore_tz L old_tz tz e2)) True" if "env_TZ e2 = env_TZ e1" for e2
      using restore_tz_cases [OF prod.collapse [symmetric] tz_changed_cong [OF c that]] by (rule tz_restored_mono)
    show ?thesis
      using assms False f vbi_mktime_tz
      by (auto simp: vbi_pil_to_time_def l p Let_def time_error_def c_bind_eq_Ret
          split: prod.splits if_splits bool.splits option.splits
          dest!: restore_after_mktime [OF c] intro: tz_restored_mono)
  qed
qed

lemma valid_pil_window_tz:
  assumes "valid_pil_validity_window L pl start tz e = Ret (w, e')"
  shows "tz_restored L e e' (w = None)"
proof (cases "tz = Some ''UTC''")
  case True
  then show ?thesis using assms by (auto simp: valid_pil_validity_window_def tz_restored_refl dest: valid_pil_lto_window_tz)
next
  case False
  obtain r e1 where l: "localtime_tz L start tz e = (r, e1)" by force
  show ?thesis
  proof (cases r)
    case None
    then show ?thesis using localtime_tz_cases [OF l] assms False by (auto simp: valid_pil_validity_window_def l Let_def)
  next
    case (Some p)
    then obtain tm old_tz where p: "r = Some (tm, old_tz)" by (cases p) simp
    then have c: "tz_changed tz old_tz e e1" using localtime_tz_cases [OF l] by simp
    have r1: "tz_restored L e e3 b" if "restore_tz L old_tz tz e2 = (True, e3)" "env_TZ e2 = env_TZ e1" for e2 e3 b
      using restore_tz_cases [OF that(1) tz_changed_cong [OF c that(2)]] by (auto simp: tz_restored_def)
    have r2: "tz_restored L e e3 True" if "restore_tz L old_tz tz e2 = (False, e3)" "env_TZ e2 = env_TZ e1" for e2 e3
      using restore_tz_cases [OF that(1) tz_changed_cong [OF c that(2)]] by simp
    show ?thesis
      using assms False
      by (auto simp: valid_pil_validity_window_def l p Let_def c_bind_eq_Ret indefinite_window_def
          split: prod.splits if_splits bool.splits option.splits dest!: vbi_mktime_tz intro: r1 r2)
  qed
qed

lemma pil_window_tz:
  assumes "vbi_pil_validity_window L pl start tz e = Ret (w, e')"
  shows "tz_restored L e e' (w = None)"
  using assms
  by (auto simp: vbi_pil_validity_window_def pil_window_dispatch_def Let_def c_bind_eq_Ret tz_restored_refl indefinite_window_def
      split: if_splits prod.splits dest: pty_window_tz valid_pil_window_tz)

text \<open>
  C25. The functions that change TZ to evaluate a time zone put it back: whatever the time, the label
  and the outcome, TZ has its former value afterwards, unless TZ was set, memory for restoring it was
  not available and the function reports failure.
\<close>

theorem time_zone_restored:
  "(\<forall>t e'. vbi_pil_to_time L pl start tz e = Ret (t, e') \<longrightarrow> tz_restored L e e' (t = - 1)) \<and>
   (\<forall>w e'. vbi_pil_validity_window L pl start tz e = Ret (w, e') \<longrightarrow> tz_restored L e e' (w = None)) \<and>
   (\<forall>w e'. vbi_pty_validity_window L start tz e = (w, e') \<longrightarrow> tz_restored L e e' (w = None))"
  using pil_to_time_tz pil_window_tz pty_window_tz by blast

theorem time_zone_restored_witness:
  "\<exists>t e'. vbi_pil_to_time utc_lib (VBI_PIL 12 24 20 15) 1000000000 (Some ''GMT'') cet_env = Ret (t, e') \<and> t \<noteq> - 1 \<and>
     env_TZ e' = Some ''CET''"
proof -
  have r: "vbi_pil_to_time utc_lib (VBI_PIL 12 24 20 15) 1000000000 (Some ''GMT'') cet_env =
      Ret (1009224900, \<lparr> env_TZ = Some ''CET'', env_errno = NO_ERROR, env_allocs = 3 \<rparr>)"
    by code_simp
  then have "tz_restored utc_lib cet_env \<lparr> env_TZ = Some ''CET'', env_errno = NO_ERROR, env_allocs = 3 \<rparr> False"
    using time_zone_restored [of utc_lib "VBI_PIL 12 24 20 15" 1000000000 "Some ''GMT''" cet_env] by auto
  then show ?thesis using r by (auto simp: tz_restored_def cet_env_def)
qed

text \<open>
  When \<^verbatim>\<open>mktime\<close> fails, \<^verbatim>\<open>valid_pil_validity_window\<close> jumps to its error exit without
  having assigned \<^verbatim>\<open>saved_errno\<close>, and copies the uninitialised variable to \<^verbatim>\<open>errno\<close>: for every valid
  label, and a time zone other than UTC in which the start time has a local time in the years 1901
  to 37,899, \<^verbatim>\<open>vbi_pil_validity_window\<close> reads an indeterminate value.
\<close>

theorem window_mktime_failure_undefined:
  assumes "vbi_pil_is_valid_date pl" "start \<noteq> - 1" "tz \<noteq> Some ''UTC''" "\<And>n. lib_alloc L n"
    "lib_localtime L (if tz = None then env_TZ e else tz) start = Some near"
    "0 \<le> tm_mon near" "tm_mon near < 12" "1 \<le> tm_year near" "tm_year near < 36000"
    "\<not> pil_unreal (pil_tm near pl)" "\<And>z tm. fst (lib_mktime L z tm) = - 1"
  shows "vbi_pil_validity_window L pl start tz e = Undef"
proof -
  have day: "pil_calendar_day pl" using assms(1) by (simp add: pil_valid_date_iff)
  have l: "\<exists>old_tz e1. localtime_tz L start tz e = (Some (near, old_tz), e1)"
    using assms(2,4,5)
    by (cases tz; cases "env_TZ e") (auto simp: localtime_tz_def Let_def change_tz_def strdup_def setenv_TZ_def localtime_r_def)
  then obtain old_tz e1 where l: "localtime_tz L start tz e = (Some (near, old_tz), e1)" by blast
  define R where "R e2 = snd (restore_tz L old_tz tz e2)" for e2
  have r: "restore_tz L old_tz tz e2 = (True, R e2)" for e2
    using assms(4) by (auto simp: R_def restore_tz_def setenv_TZ_def split: option.splits)
  define M where "M tm e2 = snd (vbi_mktime L tm e2)" for tm e2
  have k: "vbi_mktime L tm e2 = (- 1, M tm e2)" for tm e2
    using assms(11) [of "env_TZ e2" tm] by (auto simp: M_def vbi_mktime_def Let_def split: prod.splits)
  define tm1 where "tm1 = near \<lparr> tm_year := tm_year (pil_tm near pl), tm_mon := tm_mon (pil_tm near pl), tm_mday := tm_mday (pil_tm near pl) \<rparr>"
  have mm: "tm_mon_mday_from_pil near pl = Some tm1"
    unfolding tm1_def using assms(6-9) by (intro tm_mon_mday_eq day) (simp_all add: INT_MIN_def INT_MAX_def)
  have ty: "0 \<le> tm_year tm1" "tm_year tm1 \<le> 36000"
    using pil_tm_year [OF assms(6,7) day] assms(8,9) by (simp_all add: tm1_def)
  have lc: "tm_leap_day_check tm1 = Ret True"
    using leap_day_check_eq [OF ty] assms(10) by (simp add: tm1_def pil_unreal_def)
  have "valid_pil_validity_window L pl start tz e = Undef"
    using assms(3) by (simp add: valid_pil_validity_window_def l mm lc Let_def k r)
  moreover have "VBI_PIL_MONTH pl \<noteq> 0" "VBI_PIL_MONTH pl \<le> 12" using day by (auto simp: pil_calendar_day_def word_le_def)
  moreover have "\<not> of_nat (month_days ! unat (VBI_PIL_MONTH pl - 1)) \<le> VBI_PIL_DAY pl - 1"
    using assms(1) by (simp add: vbi_pil_is_valid_date_def Let_def not_le)
  ultimately show ?thesis by (simp add: vbi_pil_validity_window_def pil_window_dispatch_def Let_def)
qed

definition no_mktime_lib :: clib where
  "no_mktime_lib = utc_lib \<lparr> lib_mktime := \<lambda>_ _. (- 1, EOVERFLOW) \<rparr>"

theorem window_mktime_failure_undefined_witness:
  "vbi_pil_validity_window no_mktime_lib (VBI_PIL 12 24 20 15) 1000000000 None cet_env = Undef"
proof -
  have g: "gmtime 1000000000 = \<lparr> tm_sec = 40, tm_min = 46, tm_hour = 1, tm_mday = 9, tm_mon = 8, tm_year = 101, tm_isdst = 0 \<rparr>"
    by code_simp
  show ?thesis
    by (rule window_mktime_failure_undefined [where near = "gmtime 1000000000"])
      (simp_all add: christmas christmas_real no_mktime_lib_def utc_lib_def g)
qed

text \<open>
  Offsets west of UTC: a start time smaller than the offset is refused although its local time
  exists, against the comment that it can be negative.
\<close>

lemma west_of_utc_refused:
  assumes "start \<noteq> - 1" "east \<noteq> INT_MIN" "east < 0" "start < - east"
  shows "valid_pil_lto_to_time L pl start east e = Ret (- 1, set_errno EOVERFLOW e)"
  using assms by (simp add: valid_pil_lto_to_time_def Let_def time_error_def)

end
