(* ===== verification/Pil_String.thy ===== *)
theory Pil_String
  imports Program_Id
begin

text \<open>
  Parsing of Program Identification Labels (\<^verbatim>\<open>_vbi_pil_from_string\<close> of \<^verbatim>\<open>vbi/src/pdc.c\<close>,
  \<^verbatim>\<open>_vbi_keyword_lookup\<close> of \<^verbatim>\<open>vbi/src/misc.c\<close>).
\<close>

section \<open>Parsing labels\<close>

text \<open>Character codes of a NUL-terminated string: the code at its end is 0.\<close>

definition char_code :: "string \<Rightarrow> nat \<Rightarrow> nat" where
  "char_code s i = (if i < length s then of_char (s ! i) else 0)"

definition isspace :: "nat \<Rightarrow> bool" where
  "isspace c \<longleftrightarrow> c = 32 \<or> (9 \<le> c \<and> c \<le> 13)"

definition isdigit :: "nat \<Rightarrow> bool" where
  "isdigit c \<longleftrightarrow> 48 \<le> c \<and> c \<le> 57"

definition isalnum :: "nat \<Rightarrow> bool" where
  "isalnum c \<longleftrightarrow> isdigit c \<or> (65 \<le> c \<and> c \<le> 90) \<or> (97 \<le> c \<and> c \<le> 122)"

definition lower :: "char \<Rightarrow> nat" where
  "lower c = (let n = of_char c in if 65 \<le> n \<and> n \<le> 90 then n + 32 else n)"

definition skip_space :: "string \<Rightarrow> string" where
  "skip_space = dropWhile (\<lambda>c. isspace (of_char c))"

text \<open>\<^verbatim>\<open>0 == strncasecmp (s, key, strlen (key))\<close>.\<close>

definition has_prefix_nocase :: "string \<Rightarrow> string \<Rightarrow> bool" where
  "has_prefix_nocase s key \<longleftrightarrow> map lower (take (length key) s) = map lower key"

text \<open>
  The symbolic branch of \<^verbatim>\<open>_vbi_keyword_lookup\<close>, the only one its caller here reaches: the first key
  of the table that the string begins with as a whole word, and the rest of the string.
\<close>

primrec keyword_lookup :: "(string \<times> vbi_pil) list \<Rightarrow> string \<Rightarrow> (vbi_pil \<times> string) option" where
  "keyword_lookup [] s = None"
| "keyword_lookup (kv # table) s =
     (case kv of (key, value) \<Rightarrow>
        if has_prefix_nocase s key \<and> \<not> isalnum (char_code s (length key))
        then Some (value, drop (length key) s)
        else keyword_lookup table s)"

definition pil_symbols :: "(string \<times> vbi_pil) list" where
  "pil_symbols =
    [(''cont'', VBI_PIL_CONTINUE),
     (''continue'', VBI_PIL_CONTINUE),
     (''end'', VBI_PIL_END),
     (''inhibit'', VBI_PIL_INHIBIT_TERMINATE),
     (''int'', VBI_PIL_INTERRUPTION),
     (''interruption'', VBI_PIL_INTERRUPTION),
     (''nspv'', VBI_PIL_NSPV),
     (''rit'', VBI_PIL_INHIBIT_TERMINATE),
     (''terminate'', VBI_PIL_INHIBIT_TERMINATE),
     (''tc'', VBI_PIL_TIMER_CONTROL),
     (''timer'', VBI_PIL_TIMER_CONTROL)]"

text \<open>
  The loop over the fields. Bit \<open>i\<close> of \<open>sep_mask\<close> records the separator after field \<open>i\<close>; the colon
  after the first field, which makes the string a time without date, is recorded in bit 2.
\<close>

function pil_fields :: "nat \<Rightarrow> nat \<Rightarrow> u32 \<Rightarrow> u32 list \<Rightarrow> string \<Rightarrow> (nat \<times> u32 list \<times> string) option" where
  "pil_fields i n_fields sep_mask value s =
     (if i < n_fields
      then if \<not> isdigit (char_code s 0)
           then if i = 2 \<and> sep_mask = 0 then Some (2, value, s) else None
           else if \<not> isdigit (char_code s 1) then None
           else
             let value = value @ [of_nat ((char_code s 0 - 48) * 10 + (char_code s 1 - 48))];
                 s = drop 2 s;
                 c = char_code s 0
             in if i < n_fields - 1
                then if i = 0 \<and> c = of_char CHR '':'' then pil_fields (i + 1) 2 (sep_mask OR push_bit 2 1) value (drop 1 s)
                     else if c = of_char (''-T:'' ! i)
                     then pil_fields (i + 1) n_fields (sep_mask OR push_bit i 1) value (drop 1 s)
                     else pil_fields (i + 1) n_fields sep_mask value s
                else pil_fields (i + 1) n_fields sep_mask value s
      else Some (n_fields, value, s))"
  by pat_completeness auto
termination
  by (relation "measure (\<lambda>(i, n_fields, _). max n_fields 2 - i)") auto

declare pil_fields.simps [simp del]

text \<open>The label and the rest of the string, or \<open>None\<close> on a syntax error.\<close>

definition pil_from_string :: "string \<Rightarrow> (vbi_pil \<times> string) option" where
  "pil_from_string inout_s =
     (let s = skip_space inout_s
      in if \<not> isdigit (char_code s 0) then keyword_lookup pil_symbols (skip_space inout_s)
         else case pil_fields 0 4 0 [] s of
           None \<Rightarrow> None
         | Some (n_fields, value, s) \<Rightarrow>
            let value = (if n_fields < 4 then [0, 0, value ! 0, value ! 1] else value)
            in if 15 < value ! 0 \<or> 31 < (value ! 1 OR value ! 2) \<or> 63 < value ! 3 then None
               else Some (VBI_PIL (value ! 0) (value ! 1) (value ! 2) (value ! 3), s))"

section \<open>The syntax of labels\<close>

text \<open>A number as two decimal digits.\<close>

definition two_digits :: "nat \<Rightarrow> string" where
  "two_digits n = [char_of (48 + n div 10), char_of (48 + n mod 10)]"

lemma char_code_Cons [simp]: "char_code (c # s) 0 = of_char c" "char_code (c # s) (Suc i) = char_code s i"
  by (simp_all add: char_code_def)

lemma of_char_digit: "n < 10 \<Longrightarrow> (of_char (char_of (48 + n)) :: nat) = 48 + n"
  by (simp add: char_of_eq_iff)

lemma two_digits_codes:
  assumes "n < 100"
  shows "char_code (two_digits n @ s) 0 = 48 + n div 10" "char_code (two_digits n @ s) (Suc 0) = 48 + n mod 10"
    "drop 2 (two_digits n @ s) = s"
  using assms of_char_digit [of "n div 10"] of_char_digit [of "n mod 10"]
  by (simp_all add: two_digits_def)

lemma isdigit_codes: "n < 100 \<Longrightarrow> isdigit (48 + n div 10)" "isdigit (48 + n mod 10)"
  by (simp_all add: isdigit_def)

lemma pil_fields_digits:
  assumes "i < n" "k < 100"
  shows "pil_fields i n m v (two_digits k @ s) =
    (if i < n - 1
     then if i = 0 \<and> char_code s 0 = of_char CHR '':'' then pil_fields (i + 1) 2 (m OR push_bit 2 1) (v @ [of_nat k]) (drop 1 s)
          else if char_code s 0 = of_char (''-T:'' ! i) then pil_fields (i + 1) n (m OR push_bit i 1) (v @ [of_nat k]) (drop 1 s)
          else pil_fields (i + 1) n m (v @ [of_nat k]) s
     else Some (n, v @ [of_nat k], s))"
proof -
  have e: "(48 + k div 10 - 48) * 10 + (48 + k mod 10 - 48) = k" by simp
  note d = two_digits_codes [OF assms(2), of s]
  have d1: "char_code (two_digits k @ s) 1 = 48 + k mod 10" using d(2) by simp
  have fin: "pil_fields (i + 1) n m (v @ [of_nat k]) s = Some (n, v @ [of_nat k], s)" if "\<not> i < n - 1"
  proof -
    have "\<not> i + 1 < n" using that by simp
    then show ?thesis by (simp only: pil_fields.simps [of "i + 1"] if_False)
  qed
  have "pil_fields i n m v (two_digits k @ s) =
    (if i < n - 1
     then if i = 0 \<and> char_code s 0 = of_char CHR '':'' then pil_fields (i + 1) 2 (m OR push_bit 2 1) (v @ [of_nat k]) (drop 1 s)
          else if char_code s 0 = of_char (''-T:'' ! i) then pil_fields (i + 1) n (m OR push_bit i 1) (v @ [of_nat k]) (drop 1 s)
          else pil_fields (i + 1) n m (v @ [of_nat k]) s
     else pil_fields (i + 1) n m (v @ [of_nat k]) s)"
    by (subst pil_fields.simps, simp only: assms(1) if_True, simp only: d(1) d1,
        simp only: isdigit_codes(1) [OF assms(2)] isdigit_codes(2) not_True_eq_False if_False,
        simp only: Let_def, simp only: d(3) e)
  with fin show ?thesis by presburger
qed

lemma pil_fields_stop:
  assumes "\<not> isdigit (char_code s 0)" "i < n"
  shows "pil_fields i n m v s = (if i = 2 \<and> m = 0 then Some (2, v, s) else None)"
  using assms by (subst pil_fields.simps) simp

text \<open>A separator that is present or omitted.\<close>

definition opt_sep :: "bool \<Rightarrow> char \<Rightarrow> string" where
  "opt_sep b c = (if b then [c] else [])"

lemma digit_code:
  assumes "n < 100"
  shows "char_code (two_digits n @ s) 0 \<noteq> 58" "char_code (two_digits n @ s) 0 \<noteq> 45" "char_code (two_digits n @ s) 0 \<noteq> 84"
    "isdigit (char_code (two_digits n @ s) 0)"
  using two_digits_codes(1) [OF assms, of s] assms by (simp_all add: isdigit_def)

lemma sep_codes: "of_char CHR '':'' = (58 :: nat)" "of_char (''-T:'' ! 0) = (45 :: nat)" "of_char (''-T:'' ! 1) = (84 :: nat)" "of_char (''-T:'' ! 2) = (58 :: nat)"
  by simp_all

lemma pil_field_0:
  "k < 100 \<Longrightarrow> pil_fields 0 4 0 [] (two_digits k @ s) =
    (if char_code s 0 = 58 then pil_fields 1 2 4 [of_nat k] (drop 1 s)
     else if char_code s 0 = 45 then pil_fields 1 4 1 [of_nat k] (drop 1 s)
     else pil_fields 1 4 0 [of_nat k] s)"
  using pil_fields_digits [of 0 4 k 0 "[]" s] by (simp add: sep_codes)

lemma pil_field_1:
  "k < 100 \<Longrightarrow> pil_fields 1 4 m v (two_digits k @ s) =
    (if char_code s 0 = 84 then pil_fields 2 4 (m OR 2) (v @ [of_nat k]) (drop 1 s)
     else pil_fields 2 4 m (v @ [of_nat k]) s)"
  "k < 100 \<Longrightarrow> pil_fields 1 2 m v (two_digits k @ s) = Some (2, v @ [of_nat k], s)"
  using pil_fields_digits [of 1 4 k m v s] pil_fields_digits [of 1 2 k m v s]
  by (simp_all add: sep_codes [simplified] push_bit_eq_mult numeral_2_eq_2 [symmetric])

lemma pil_field_2:
  "k < 100 \<Longrightarrow> pil_fields 2 4 m v (two_digits k @ s) =
    (if char_code s 0 = 58 then pil_fields 3 4 (m OR 4) (v @ [of_nat k]) (drop 1 s)
     else pil_fields 3 4 m (v @ [of_nat k]) s)"
  using pil_fields_digits [of 2 4 k m v s]
  by (simp add: sep_codes push_bit_eq_mult eval_nat_numeral(3) [of "Num.Bit0 Num.One", symmetric])

lemma pil_field_3: "k < 100 \<Longrightarrow> pil_fields 3 4 m v (two_digits k @ s) = Some (4, v @ [of_nat k], s)"
  using pil_fields_digits [of 3 4 k m v s] by simp

lemma pil_fields_date:
  assumes "mo < 100" "d < 100" "h < 100" "mn < 100"
  shows "pil_fields 0 4 0 [] (two_digits mo @ opt_sep b0 CHR ''-'' @ two_digits d @ opt_sep b1 CHR ''T''
      @ two_digits h @ opt_sep b2 CHR '':'' @ two_digits mn @ rest) =
    Some (4, [of_nat mo, of_nat d, of_nat h, of_nat mn], rest)"
proof -
  note dc = digit_code [OF assms(2)] digit_code [OF assms(3)] digit_code [OF assms(4)]
  have s: "\<exists>m. pil_fields 0 4 0 [] (two_digits mo @ opt_sep b0 CHR ''-'' @ two_digits d @ s)
      = pil_fields 1 4 m [of_nat mo] (two_digits d @ s)" for s
    by (cases b0) (auto simp: opt_sep_def pil_field_0 assms dc)
  have t: "\<exists>m'. pil_fields 1 4 m v (two_digits d @ opt_sep b1 CHR ''T'' @ two_digits h @ s)
      = pil_fields 2 4 m' (v @ [of_nat d]) (two_digits h @ s)" for m v s
    by (cases b1) (auto simp: opt_sep_def pil_field_1(1) [simplified] assms dc)
  have u: "\<exists>m'. pil_fields 2 4 m v (two_digits h @ opt_sep b2 CHR '':'' @ two_digits mn @ s)
      = pil_fields 3 4 m' (v @ [of_nat h]) (two_digits mn @ s)" for m v s
    by (cases b2) (auto simp: opt_sep_def pil_field_2 assms dc)
  show ?thesis
    using s [of "opt_sep b1 CHR ''T'' @ two_digits h @ opt_sep b2 CHR '':'' @ two_digits mn @ rest"]
      t [of _ "[of_nat mo]" "opt_sep b2 CHR '':'' @ two_digits mn @ rest"]
      u [of _ "[of_nat mo, of_nat d]" rest] pil_field_3 [OF assms(4)]
    by (metis append_Cons append_Nil)
qed

lemma pil_fields_time:
  assumes "h < 100" "mn < 100" "b \<or> \<not> isdigit (char_code rest 0) \<and> char_code rest 0 \<noteq> 84"
  shows "pil_fields 0 4 0 [] (two_digits h @ opt_sep b CHR '':'' @ two_digits mn @ rest) = Some (2, [of_nat h, of_nat mn], rest)"
proof (cases b)
  case True
  then show ?thesis using assms(1,2) pil_field_1(2) [OF assms(2)] by (simp add: opt_sep_def pil_field_0)
next
  case False
  note dc = digit_code [OF assms(2)]
  have "pil_fields 0 4 0 [] (two_digits h @ two_digits mn @ rest) = pil_fields 1 4 0 [of_nat h] (two_digits mn @ rest)"
    using assms(1) dc by (simp add: pil_field_0)
  also have "\<dots> = pil_fields 2 4 0 [of_nat h, of_nat mn] rest"
    using pil_field_1(1) [OF assms(2)] assms(3) False by simp
  also have "\<dots> = Some (2, [of_nat h, of_nat mn], rest)"
    using pil_fields_stop [of rest 2 4 0] assms(3) False by simp
  finally show ?thesis using False by (simp add: opt_sep_def)
qed

lemma u32_nat_less: "n < 100 \<Longrightarrow> k < 100 \<Longrightarrow> (of_nat k :: u32) < of_nat n \<longleftrightarrow> k < n"
  by (simp add: word_less_nat_alt unsigned_of_nat take_bit_nat_eq_self)

lemma u32_or_31: "31 < (a OR b) \<longleftrightarrow> 31 < a \<or> 31 < b" for a b :: u32
proof -
  have m: "\<not> 31 < w \<longleftrightarrow> take_bit 5 w = w" for w :: u32
  proof -
    have "\<not> 31 < w \<longleftrightarrow> unat w < 2 ^ 5" by (auto simp: word_less_nat_alt)
    also have "\<dots> \<longleftrightarrow> take_bit 5 (unat w) = unat w" by (simp add: take_bit_nat_eq_self_iff)
    also have "\<dots> \<longleftrightarrow> take_bit 5 w = w" by (metis unsigned_take_bit_eq unsigned_word_eqI)
    finally show ?thesis .
  qed
  have "take_bit 5 (a OR b) = a OR b \<longleftrightarrow> take_bit 5 a = a \<and> take_bit 5 b = b"
    by (auto simp: bit_eq_iff bit_simps)
  then show ?thesis using m [of a] m [of b] m [of "a OR b"] by blast
qed

lemma pil_range_check:
  assumes "mo < 100" "d < 100" "h < 100" "mn < 100"
  shows "15 < (of_nat mo :: u32) \<or> 31 < (of_nat d OR of_nat h :: u32) \<or> 63 < (of_nat mn :: u32)
    \<longleftrightarrow> \<not> (mo \<le> 15 \<and> d \<le> 31 \<and> h \<le> 31 \<and> mn \<le> 63)"
  using u32_nat_less [OF assms(1), of 15] u32_nat_less [OF assms(2), of 31] u32_nat_less [OF assms(3), of 31]
    u32_nat_less [OF assms(4), of 63] by (auto simp: u32_or_31)

lemma skip_space_digits: "n < 100 \<Longrightarrow> skip_space (replicate k CHR '' '' @ two_digits n @ s) = two_digits n @ s"
proof (induction k)
  case 0
  then show ?case using of_char_digit [of "n div 10"] by (simp add: skip_space_def two_digits_def isspace_def)
next
  case (Suc k)
  then show ?case by (simp add: skip_space_def isspace_def)
qed

lemma pil_from_string_fields:
  assumes "mo < 100" "d < 100" "h < 100" "mn < 100"
  shows "pil_from_string (replicate n CHR '' '' @ two_digits mo @ opt_sep b0 CHR ''-'' @ two_digits d @ opt_sep b1 CHR ''T''
      @ two_digits h @ opt_sep b2 CHR '':'' @ two_digits mn @ rest) =
    (if mo \<le> 15 \<and> d \<le> 31 \<and> h \<le> 31 \<and> mn \<le> 63
     then Some (VBI_PIL (of_nat mo) (of_nat d) (of_nat h) (of_nat mn), rest) else None)"
    and "b2 \<or> \<not> isdigit (char_code rest 0) \<and> char_code rest 0 \<noteq> 84 \<Longrightarrow>
    pil_from_string (replicate n CHR '' '' @ two_digits h @ opt_sep b2 CHR '':'' @ two_digits mn @ rest) =
    (if h \<le> 31 \<and> mn \<le> 63 then Some (VBI_PIL 0 0 (of_nat h) (of_nat mn), rest) else None)"
proof -
  show "pil_from_string (replicate n CHR '' '' @ two_digits mo @ opt_sep b0 CHR ''-'' @ two_digits d @ opt_sep b1 CHR ''T''
      @ two_digits h @ opt_sep b2 CHR '':'' @ two_digits mn @ rest) =
    (if mo \<le> 15 \<and> d \<le> 31 \<and> h \<le> 31 \<and> mn \<le> 63
     then Some (VBI_PIL (of_nat mo) (of_nat d) (of_nat h) (of_nat mn), rest) else None)"
    using pil_range_check [OF assms]
    by (simp add: pil_from_string_def Let_def skip_space_digits digit_code pil_fields_date assms)
  assume "b2 \<or> \<not> isdigit (char_code rest 0) \<and> char_code rest 0 \<noteq> 84"
  then show "pil_from_string (replicate n CHR '' '' @ two_digits h @ opt_sep b2 CHR '':'' @ two_digits mn @ rest) =
    (if h \<le> 31 \<and> mn \<le> 63 then Some (VBI_PIL 0 0 (of_nat h) (of_nat mn), rest) else None)"
    using pil_range_check [of 0 0 h mn] assms
    by (simp add: pil_from_string_def Let_def skip_space_digits digit_code pil_fields_time assms)
qed

text \<open>
  C30. \<^verbatim>\<open>_vbi_pil_from_string\<close> accepts a date and time of four fields of two digits, after any
  number of spaces and with any of the separators left out, exactly when the fields fit those of a label, and a time of
  two fields, whose day and month are then zero; it stores the label of these fields and stops at the
  character after the last field. Without a colon the end of a two-field time has to be recognisable: the next
  character is neither a digit nor the separator T.
\<close>

theorem pil_from_string_correct:
  assumes "mo < 100" "d < 100" "h < 100" "mn < 100"
  shows "pil_from_string (replicate n CHR '' '' @ two_digits mo @ opt_sep b0 CHR ''-'' @ two_digits d @ opt_sep b1 CHR ''T''
      @ two_digits h @ opt_sep b2 CHR '':'' @ two_digits mn @ rest) =
    (if mo \<le> 15 \<and> d \<le> 31 \<and> h \<le> 31 \<and> mn \<le> 63
     then Some (VBI_PIL (of_nat mo) (of_nat d) (of_nat h) (of_nat mn), rest) else None) \<and>
    (b2 \<or> \<not> isdigit (char_code rest 0) \<and> char_code rest 0 \<noteq> 84 \<longrightarrow>
     pil_from_string (replicate n CHR '' '' @ two_digits h @ opt_sep b2 CHR '':'' @ two_digits mn @ rest) =
     (if h \<le> 31 \<and> mn \<le> 63 then Some (VBI_PIL 0 0 (of_nat h) (of_nat mn), rest) else None))"
  using pil_from_string_fields [OF assms] by blast

theorem pil_from_string_correct_witness:
  "pil_from_string ''  12-24T20:15 x'' = Some (VBI_PIL 12 24 20 15, '' x'') \<and>
   pil_from_string ''  20:15 x'' = Some (VBI_PIL 0 0 20 15, '' x'')"
proof -
  have t: "two_digits 12 = ''12''" "two_digits 24 = ''24''" "two_digits 20 = ''20''" "two_digits 15 = ''15''"
    by code_simp+
  show ?thesis
    using pil_from_string_correct [of 12 24 20 15 2 True True True "'' x''"]
    unfolding t by (simp add: opt_sep_def numeral_2_eq_2)
qed

end
