(* ===== verification/Dvb_Mux.thy ===== *)
theory Dvb_Mux
  imports Hamm Sliced
begin

text \<open>
  VBI data units, \<^verbatim>\<open>vbi/src/dvb_mux.c\<close>: conversion of sliced lines and raw samples to the
  payload of DVB VBI packets (EN 301 775), and stuffing. The bytes a function stores at \<^verbatim>\<open>*packet\<close>
  are the list it returns; the position of \<^verbatim>\<open>*packet\<close> afterwards is its length.
\<close>

section \<open>Symbols\<close>

definition VBI_SLICED_VPS_F2 :: u32 where
  "VBI_SLICED_VPS_F2 = 0x00001000"

definition VBI_SLICED_CAPTION_625_F1 :: u32 where
  "VBI_SLICED_CAPTION_625_F1 = 0x00000008"

definition VBI_SLICED_CAPTION_625_F2 :: u32 where
  "VBI_SLICED_CAPTION_625_F2 = 0x00000010"

definition VBI_SLICED_CAPTION_625 :: u32 where
  "VBI_SLICED_CAPTION_625 = VBI_SLICED_CAPTION_625_F1 OR VBI_SLICED_CAPTION_625_F2"

definition DATA_UNIT_EBU_TELETEXT_NON_SUBTITLE :: u8 where "DATA_UNIT_EBU_TELETEXT_NON_SUBTITLE = 0x02"
definition DATA_UNIT_EBU_TELETEXT_SUBTITLE :: u8 where "DATA_UNIT_EBU_TELETEXT_SUBTITLE = 0x03"
definition DATA_UNIT_ZVBI_WSS_CPR1204 :: u8 where "DATA_UNIT_ZVBI_WSS_CPR1204 = 0xB4"
definition DATA_UNIT_ZVBI_CLOSED_CAPTION_525 :: u8 where "DATA_UNIT_ZVBI_CLOSED_CAPTION_525 = 0xB5"
definition DATA_UNIT_ZVBI_MONOCHROME_SAMPLES_525 :: u8 where "DATA_UNIT_ZVBI_MONOCHROME_SAMPLES_525 = 0xB6"
definition DATA_UNIT_VPS :: u8 where "DATA_UNIT_VPS = 0xC3"
definition DATA_UNIT_WSS :: u8 where "DATA_UNIT_WSS = 0xC4"
definition DATA_UNIT_CLOSED_CAPTION :: u8 where "DATA_UNIT_CLOSED_CAPTION = 0xC5"
definition DATA_UNIT_MONOCHROME_SAMPLES :: u8 where "DATA_UNIT_MONOCHROME_SAMPLES = 0xC6"
definition DATA_UNIT_STUFFING :: u8 where "DATA_UNIT_STUFFING = 0xFF"

lemmas data_unit_ids = DATA_UNIT_EBU_TELETEXT_NON_SUBTITLE_def DATA_UNIT_EBU_TELETEXT_SUBTITLE_def
  DATA_UNIT_ZVBI_WSS_CPR1204_def DATA_UNIT_ZVBI_CLOSED_CAPTION_525_def DATA_UNIT_ZVBI_MONOCHROME_SAMPLES_525_def
  DATA_UNIT_VPS_def DATA_UNIT_WSS_def DATA_UNIT_CLOSED_CAPTION_def DATA_UNIT_MONOCHROME_SAMPLES_def DATA_UNIT_STUFFING_def

datatype dvb_mux_error =
    VBI_ERR_BUFFER_OVERFLOW
  | VBI_ERR_RAW_BUFFER_OVERFLOW
  | VBI_ERR_LINE_NUMBER
  | VBI_ERR_LINE_ORDER
  | VBI_ERR_INVALID_SERVICE
  | VBI_ERR_SAMPLE_NUMBER
  | VBI_ERR_AMBIGUOUS_VIDEOSTD
  | VBI_ERR_RAW_DATA_INTERRUPTION
  | VBI_ERR_NO_RAW_DATA
  | VBI_ERR_NO_SLICED_DATA
  | VBI_ERR_SAMPLING_PAR

section \<open>Stuffing\<close>

text \<open>A data unit of \<open>n\<close> bytes filled with 0xFF.\<close>

definition stuffing_unit :: "nat \<Rightarrow> u8 list" where
  "stuffing_unit n = [0xFF, of_nat (n - 2)] @ replicate (n - 2) 0xFF"

text \<open>
  \<open>before\<close> are the bytes in front of \<^verbatim>\<open>p\<close>, which the function may change to extend the last data unit;
  the result is these bytes followed by the stuffing. \<open>stuffing_loop\<close> is the \<^verbatim>\<open>while\<close> loop.
\<close>

function stuffing_loop :: "nat \<Rightarrow> u8 list \<Rightarrow> nat \<Rightarrow> nat \<Rightarrow> u8 list \<times> nat \<times> nat" where
  "stuffing_loop du_size before p_left last_du_size =
     (if du_size \<le> p_left \<and> 0 < du_size
      then stuffing_loop du_size (before @ stuffing_unit du_size) (p_left - du_size) du_size
      else (before, p_left, last_du_size))"
  by pat_completeness auto
termination
  by (relation "measure (\<lambda>(_, _, p_left, _). p_left)") auto

declare stuffing_loop.simps [simp del]

definition encode_stuffing :: "u8 list \<Rightarrow> nat \<Rightarrow> nat \<Rightarrow> bool \<Rightarrow> u8 list c_result" where
  "encode_stuffing before p_left last_du_size fixed_length =
     (case stuffing_loop (if fixed_length then 46 else 257) before p_left last_du_size of
        (out, p_left, last_du_size) \<Rightarrow>
          if p_left > 0 then
            if fixed_length then Undef
            else if p_left \<ge> 2 then Ret (out @ stuffing_unit p_left)
            else if last_du_size < 2 \<or> length out < last_du_size then Undef
            else if last_du_size = 257
            then Ret (out [length out + 1 - 257 := 256 - 2] @ [2 - 2])
            else Ret (out [length out + 1 - last_du_size := of_nat (last_du_size - 1)] @ [0xFF])
          else Ret out)"

section \<open>Sliced data\<close>

text \<open>The size of the data unit for a line, or the reason why the line cannot be encoded (\<^verbatim>\<open>strict\<close> is TRUE).\<close>

definition sliced_unit_size :: "u32 \<Rightarrow> u32 \<Rightarrow> dvb_mux_error + nat" where
  "sliced_unit_size service line =
     (if service = VBI_SLICED_TELETEXT_B_L10_625 \<or> service = VBI_SLICED_TELETEXT_B_L25_625
         \<or> service = VBI_SLICED_TELETEXT_B_625
      then if line = 0 then Inr (2 + 2 + 42)
           else let line = (if 313 \<le> line then line - 313 else line)
                in if 22 - 7 < line - 7 then Inl VBI_ERR_LINE_NUMBER else Inr (2 + 2 + 42)
      else if service = VBI_SLICED_VPS
      then if line \<noteq> 16 then Inl VBI_ERR_LINE_NUMBER else Inr (2 + 1 + 13)
      else if service = VBI_SLICED_WSS_625
      then if line \<noteq> 23 then Inl VBI_ERR_LINE_NUMBER else Inr (2 + 1 + 2)
      else if service = VBI_SLICED_CAPTION_625 \<or> service = VBI_SLICED_CAPTION_625_F1
      then if line \<noteq> 21 then Inl VBI_ERR_LINE_NUMBER else Inr (2 + 1 + 2)
      else Inl VBI_ERR_INVALID_SERVICE)"

text \<open>The line_offset / field_parity byte.\<close>

definition sliced_lofp :: "u32 \<Rightarrow> u32 \<Rightarrow> dvb_mux_error + u8" where
  "sliced_lofp line last_line =
     (if line = 0 then Inr (if 313 \<le> last_line then push_bit 6 3 else push_bit 6 3 + push_bit 5 1)
      else if line < 32 then Inr (ucast (push_bit 6 3 + push_bit 5 1 + line))
      else if line < 313 then Inl VBI_ERR_LINE_NUMBER
      else if line < 313 + 32 then Inr (ucast (push_bit 6 3 + line - 313))
      else Inl VBI_ERR_LINE_NUMBER)"

text \<open>\<^verbatim>\<open>vbi_rev8\<close> on bytes.\<close>

definition rev8 :: "u8 \<Rightarrow> u8" where
  "rev8 b = ucast (vbi_rev8 (ucast b))"

text \<open>The data_unit_id and the bytes from \<^verbatim>\<open>p[3]\<close> on.\<close>

definition sliced_payload :: "u32 \<Rightarrow> u8 list \<Rightarrow> u8 \<times> u8 list" where
  "sliced_payload service sdata =
     (if service AND VBI_SLICED_TELETEXT_B_625 \<noteq> 0
      then (DATA_UNIT_EBU_TELETEXT_NON_SUBTITLE, 0xE4 # map (\<lambda>i. rev8 (sdata ! i)) [0..<42])
      else if service AND (VBI_SLICED_VPS OR VBI_SLICED_VPS_F2) \<noteq> 0
      then (DATA_UNIT_VPS, map (\<lambda>i. sdata ! i) [0..<13])
      else if service AND VBI_SLICED_WSS_625 \<noteq> 0
      then (DATA_UNIT_WSS, [rev8 (sdata ! 0), rev8 (sdata ! 1) OR 3])
      else (DATA_UNIT_CLOSED_CAPTION, [rev8 (sdata ! 0), rev8 (sdata ! 1)]))"

text \<open>A data unit of \<open>du_size\<close> bytes; what the payload does not cover was set to 0xFF before.\<close>

definition data_unit :: "nat \<Rightarrow> u8 \<Rightarrow> u8 \<Rightarrow> u8 list \<Rightarrow> u8 list" where
  "data_unit du_size unit_id lofp payload =
     [unit_id, of_nat (du_size - 2), lofp] @ payload @ replicate (du_size - 3 - length payload) 0xFF"

text \<open>
  The loop: the error (\<open>None\<close> is 0), the bytes stored, the size of the last data unit and the lines
  not converted.
\<close>

primrec insert_loop ::
  "u32 \<Rightarrow> bool \<Rightarrow> nat \<Rightarrow> u32 \<Rightarrow> nat \<Rightarrow> u8 list \<Rightarrow> vbi_sliced list
    \<Rightarrow> dvb_mux_error option \<times> u8 list \<times> nat \<times> vbi_sliced list" where
  "insert_loop service_mask fixed_length p_left last_line last_du_size out [] = (None, out, last_du_size, [])"
| "insert_loop service_mask fixed_length p_left last_line last_du_size out (s # ss) =
     (if sl_id s AND service_mask = 0
      then insert_loop service_mask fixed_length p_left last_line last_du_size out ss
      else if 0 < sl_line s \<and> sl_line s \<le> last_line then (Some VBI_ERR_LINE_ORDER, out, last_du_size, s # ss)
      else
        let last_line = (if 0 < sl_line s then sl_line s else last_line)
        in case sliced_unit_size (sl_id s) (sl_line s) of
             Inl err \<Rightarrow> (Some err, out, last_du_size, s # ss)
           | Inr n \<Rightarrow>
              let du_size = (if fixed_length then 2 + 0x2C else n)
              in if p_left < du_size then (None, out, last_du_size, s # ss)
                 else case sliced_lofp (sl_line s) last_line of
                   Inl err \<Rightarrow> (Some err, out, last_du_size, s # ss)
                 | Inr lofp \<Rightarrow>
                    (case sliced_payload (sl_id s) (sl_data s) of (unit_id, payload) \<Rightarrow>
                       insert_loop service_mask fixed_length (p_left - du_size) last_line du_size
                         (out @ data_unit du_size unit_id lofp payload) ss))"

definition insert_sliced_data_units ::
  "nat \<Rightarrow> vbi_sliced list \<Rightarrow> u32 \<Rightarrow> bool \<Rightarrow> dvb_mux_error option \<times> u8 list \<times> nat \<times> vbi_sliced list" where
  "insert_sliced_data_units p_left sliced service_mask fixed_length =
     insert_loop service_mask fixed_length p_left 0 0 [] sliced"

definition fixed_length_format :: "u32 \<Rightarrow> bool" where
  "fixed_length_format data_identifier \<longleftrightarrow> data_identifier AND NOT 0xF = 0x10"

text \<open>
  The result of the function, the bytes stored at \<^verbatim>\<open>*packet\<close>, \<^verbatim>\<open>*packet_left\<close> and the lines
  left. An absent array of lines is the empty list.
\<close>

definition vbi_dvb_multiplex_sliced ::
  "nat \<Rightarrow> vbi_sliced list \<Rightarrow> u32 \<Rightarrow> u32 \<Rightarrow> bool \<Rightarrow> (bool \<times> u8 list \<times> nat \<times> vbi_sliced list) c_result" where
  "vbi_dvb_multiplex_sliced packet_left sliced service_mask data_identifier stuffing =
     (let fixed_length = fixed_length_format data_identifier
      in if packet_left < 2 then Ret (False, [], packet_left, sliced)
         else if fixed_length \<and> packet_left mod 46 > 0 then Ret (False, [], packet_left, sliced)
         else case insert_sliced_data_units packet_left sliced service_mask fixed_length of
           (err, out, last_du_size, rest) \<Rightarrow>
             if err \<noteq> None then Ret (False, out, packet_left - length out, rest)
             else if stuffing
             then c_bind (encode_stuffing out (packet_left - length out) last_du_size fixed_length)
                    (\<lambda>out. Ret (True, out, 0, rest))
             else Ret (True, out, packet_left - length out, rest))"

end
