(* ===== verification/Dvb_Demux.thy ===== *)
theory Dvb_Demux
  imports Dvb_Mux
begin

text \<open>
  Extraction of sliced lines from VBI data units, \<^verbatim>\<open>vbi/src/dvb_demux.c\<close>. The pointer \<^verbatim>\<open>raw\<close> of the
  decoding context is \<^verbatim>\<open>NULL\<close> in every context the library creates, so that the branches for raw
  data (\<^verbatim>\<open>demux_samples\<close>, \<^verbatim>\<open>discard_raw\<close>) are never taken; the model has the others.
\<close>

section \<open>The decoding context\<close>

datatype dvb_demux_error =
    NEW_FRAME
  | VBI_ERR_SLICED_BUFFER_OVERFLOW
  | VBI_ERR_DU_OVERFLOW
  | VBI_ERR_DU_LENGTH
  | VBI_ERR_DU_LINE_NUMBER
  | VBI_ERR_CALLBACK

text \<open>
  \<open>fr_sliced\<close> is the output array from \<^verbatim>\<open>sliced_begin\<close> to \<^verbatim>\<open>sliced_end\<close>, \<open>fr_sp\<close> the index of the next free
  element. \<open>NEW_FRAME\<close> is the result -1.
\<close>

record frame =
  fr_sliced :: "vbi_sliced list"
  fr_sp :: nat
  last_field :: nat
  last_field_line :: nat
  last_frame_line :: nat
  last_data_unit_id :: u8
  n_data_units_extracted_from_packet :: nat

datatype systems = SYSTEM_525 | SYSTEM_625

section \<open>Lines\<close>

definition field_start :: "systems \<Rightarrow> nat \<Rightarrow> nat" where
  "field_start system field = (case system of SYSTEM_525 \<Rightarrow> [0, 263] ! field | SYSTEM_625 \<Rightarrow> [0, 313] ! field)"

text \<open>Field, field line and frame line.\<close>

definition lofp_to_line :: "u8 \<Rightarrow> systems \<Rightarrow> nat \<times> nat \<times> nat" where
  "lofp_to_line lofp system =
     (let field = (if lofp AND 0x20 \<noteq> 0 then 0 else 1);
          line_offset = unat (lofp AND 31)
      in if line_offset > 0 then (field, line_offset, field_start system field + line_offset)
         else (field, 0, 0))"

text \<open>On success the slot is the one before \<open>fr_sp\<close>, and its line number is stored.\<close>

definition take_slot :: "nat \<Rightarrow> frame \<Rightarrow> frame" where
  "take_slot frame_line f =
     f \<lparr> fr_sliced := (fr_sliced f) [fr_sp f := (fr_sliced f ! fr_sp f) \<lparr> sl_line := of_nat frame_line \<rparr>],
         fr_sp := fr_sp f + 1,
         n_data_units_extracted_from_packet := n_data_units_extracted_from_packet f + 1 \<rparr>"

definition line_address :: "frame \<Rightarrow> u8 \<Rightarrow> systems \<Rightarrow> dvb_demux_error + frame" where
  "line_address f lofp system =
     (if length (fr_sliced f) \<le> fr_sp f then Inl VBI_ERR_SLICED_BUFFER_OVERFLOW
      else case lofp_to_line lofp system of (field, field_line, frame_line) \<Rightarrow>
        if frame_line \<noteq> 0 then
          (if frame_line \<le> last_frame_line f
           then if n_data_units_extracted_from_packet f > 0 then Inl VBI_ERR_DU_LINE_NUMBER else Inl NEW_FRAME
           else Inr (take_slot frame_line
                  (f \<lparr> last_field := field, last_field_line := field_line, last_frame_line := frame_line \<rparr>)))
        else if last_data_unit_id f \<noteq> 0 \<and> field \<noteq> last_field f \<and> n_data_units_extracted_from_packet f = 0
        then Inl NEW_FRAME
        else if last_data_unit_id f \<noteq> 0 \<and> field \<noteq> last_field f \<and> field < last_field f
        then Inl VBI_ERR_DU_LINE_NUMBER
        else Inr (take_slot 0 (f \<lparr> last_field := field, last_field_line := field_line \<rparr>)))"

section \<open>Data units\<close>

definition slot :: "frame \<Rightarrow> vbi_sliced" where
  "slot f = fr_sliced f ! (fr_sp f - 1)"

definition store :: "u32 \<Rightarrow> u8 list \<Rightarrow> frame \<Rightarrow> frame" where
  "store service bytes f =
     f \<lparr> fr_sliced := (fr_sliced f) [fr_sp f - 1 := (slot f) \<lparr> sl_id := service, sl_data := c_memcpy 0 bytes (sl_data (slot f)) \<rparr>] \<rparr>"

text \<open>
  The steps every case for a sliced service takes: the line is addressed and checked by \<open>line_ok\<close> (a
  line refused is given back), the service is stored, and the data converted by \<open>conv\<close> from the \<open>n\<close> bytes at \<open>pos\<close>.
\<close>

definition demux_line ::
  "systems \<Rightarrow> (frame \<Rightarrow> bool) \<Rightarrow> (frame \<Rightarrow> u32) \<Rightarrow> nat \<Rightarrow> nat \<Rightarrow> (u8 \<Rightarrow> u8) \<Rightarrow> frame \<Rightarrow> u8 list
    \<Rightarrow> (dvb_demux_error option \<times> frame) c_result" where
  "demux_line system line_ok service pos n conv f p =
     c_bind (c_read p 2) (\<lambda>lofp.
       case line_address f lofp system of
         Inl err \<Rightarrow> Ret (Some err, f)
       | Inr f \<Rightarrow>
          if \<not> line_ok f then Ret (Some VBI_ERR_DU_LINE_NUMBER, f \<lparr> fr_sp := fr_sp f - 1 \<rparr>)
          else c_bind (c_block p pos n) (\<lambda>bytes. Ret (None, store (service f) (map conv bytes) f)))"

definition ttx_line_ok :: "frame \<Rightarrow> bool" where
  "ttx_line_ok f \<longleftrightarrow> \<not> (last_field_line f > 0 \<and> (last_field_line f < 7 \<or> 23 \<le> last_field_line f))"

text \<open>The \<^verbatim>\<open>switch\<close> over the data_unit_id.\<close>

definition demux_unit :: "frame \<Rightarrow> u8 list \<Rightarrow> u8 \<Rightarrow> nat \<Rightarrow> (dvb_demux_error option \<times> frame) c_result" where
  "demux_unit f p unit_id unit_length =
     (let bad_length = Ret (Some VBI_ERR_DU_LENGTH, f)
      in if unit_id = DATA_UNIT_EBU_TELETEXT_NON_SUBTITLE \<or> unit_id = DATA_UNIT_EBU_TELETEXT_SUBTITLE
         then if unit_length < 1 + 1 + 42 then bad_length
              else c_bind (c_read p 3) (\<lambda>framing_code.
                if 0xE4 \<noteq> framing_code then Ret (None, f)
                else demux_line SYSTEM_625 ttx_line_ok (\<lambda>_. VBI_SLICED_TELETEXT_B_625) 4 42 rev8 f p)
         else if unit_id = DATA_UNIT_VPS
         then if unit_length < 1 + 13 then bad_length
              else demux_line SYSTEM_625 (\<lambda>f. sl_line (slot f) = 16)
                     (\<lambda>f. if 0 = last_field f then VBI_SLICED_VPS else VBI_SLICED_VPS_F2) 3 13 id f p
         else if unit_id = DATA_UNIT_WSS
         then if unit_length < 1 + 2 then bad_length
              else demux_line SYSTEM_625 (\<lambda>f. sl_line (slot f) = 23) (\<lambda>_. VBI_SLICED_WSS_625) 3 2 rev8 f p
         else if unit_id = DATA_UNIT_ZVBI_WSS_CPR1204
         then if unit_length < 1 + 3 then bad_length
              else demux_line SYSTEM_525 (\<lambda>_. True) (\<lambda>_. VBI_SLICED_WSS_CPR1204) 3 3 id f p
         else if unit_id = DATA_UNIT_ZVBI_CLOSED_CAPTION_525
         then if unit_length < 1 + 2 then bad_length
              else demux_line SYSTEM_525 (\<lambda>_. True)
                     (\<lambda>f. if 0 = last_field f then VBI_SLICED_CAPTION_525_F1 else VBI_SLICED_CAPTION_525_F2) 3 2 rev8 f p
         else if unit_id = DATA_UNIT_CLOSED_CAPTION
         then if unit_length < 1 + 2 then bad_length
              else demux_line SYSTEM_625 (\<lambda>f. sl_line (slot f) = 21)
                     (\<lambda>f. if 0 = last_field f then VBI_SLICED_CAPTION_625_F1 else VBI_SLICED_CAPTION_625_F2) 3 2 rev8 f p
         else Ret (None, f))"

text \<open>
  The loop over the data units of a packet, on the bytes not converted yet: the error, the context
  and the bytes from the offending data unit on (none on success).
\<close>

function extract_data_units :: "frame \<Rightarrow> u8 list \<Rightarrow> (dvb_demux_error option \<times> frame \<times> u8 list) c_result" where
  "extract_data_units f p =
     (if 2 < length p
      then if length p < unat (p ! 1) + 2 then Ret (Some VBI_ERR_DU_OVERFLOW, f, p)
           else c_bind (demux_unit f p (p ! 0) (unat (p ! 1))) (\<lambda>(err, f).
             if err \<noteq> None then Ret (err, f, p)
             else extract_data_units (f \<lparr> last_data_unit_id := p ! 0 \<rparr>) (drop (unat (p ! 1) + 2) p))
      else Ret (None, f, []))"
  by pat_completeness auto
termination
  by (relation "measure (\<lambda>(_, p). length p)") auto

declare extract_data_units.simps [simp del]

text \<open>\<^verbatim>\<open>raw\<close> is \<^verbatim>\<open>NULL\<close>, so that there is nothing to clear.\<close>

definition reset_frame :: "frame \<Rightarrow> frame" where
  "reset_frame f = f \<lparr> fr_sp := 0, last_field := 0, last_field_line := 0, last_frame_line := 0,
     last_data_unit_id := 0, n_data_units_extracted_from_packet := 0 \<rparr>"

definition vbi_dvb_skip_data_unit :: "u8 list \<Rightarrow> bool \<times> u8 list" where
  "vbi_dvb_skip_data_unit buffer =
     (if length buffer < 2 then (False, buffer)
      else let skip = 2 + unat (buffer ! 1)
           in if length buffer < skip then (False, buffer) else (True, drop skip buffer))"

text \<open>The result, the lines stored (with the rest of the array behind them), their number and the bytes left.\<close>

definition vbi_dvb_demultiplex_sliced ::
  "vbi_sliced list \<Rightarrow> u8 list \<Rightarrow> (bool \<times> vbi_sliced list \<times> nat \<times> u8 list) c_result" where
  "vbi_dvb_demultiplex_sliced sliced buffer =
     (if length buffer < 2 then Ret (False, sliced, 0, buffer)
      else c_bind (extract_data_units
               \<lparr> fr_sliced = sliced, fr_sp = 0, last_field = 0, last_field_line = 0, last_frame_line = 0,
                 last_data_unit_id = 0, n_data_units_extracted_from_packet = 0 \<rparr> buffer)
             (\<lambda>(err, f, rest). Ret (err = None, fr_sliced f, fr_sp f, rest)))"

end
