(* ===== verification/Dvb_Round_Trip.thy ===== *)
theory Dvb_Round_Trip
  imports Dvb_Demux
begin

text \<open>
  The multiplexer and the demultiplexer of VBI data units agree: sliced lines that were encoded, with any padding of the data
  units and any stuffing, are extracted again.
\<close>

section \<open>Bytes\<close>

lemma rev8_bit: "k < 8 \<Longrightarrow> bit (rev8 b) k \<longleftrightarrow> bit b (7 - k)"
  by (auto simp: rev8_def bit_ucast_iff bit_vbi_rev8)

lemma rev8_rev8 [simp]: "rev8 (rev8 b) = b"
  by (rule bit_word_eqI) (simp add: rev8_bit)

lemma rev8_or_3: "rev8 (rev8 b OR 3) = b OR 0xC0"
proof -
  have m: "(3 :: u8) = mask 2" "(0xC0 :: u8) = push_bit 6 (mask 2)" by (simp_all add: mask_eq_exp_minus_1 push_bit_eq_mult)
  show ?thesis unfolding m by (rule bit_word_eqI) (auto simp: rev8_bit bit_simps)
qed

text \<open>What \<^verbatim>\<open>line_offset\<close> and \<^verbatim>\<open>field_parity\<close> say of a line of the first or the second field.\<close>

lemma lofp_first_table:
  "list_all (\<lambda>k. lofp_to_line (ucast (push_bit 6 3 + push_bit 5 1 + (of_nat k :: u32))) SYSTEM_625 = (0, k, k)) [1..<32]"
  by code_simp

lemma lofp_second_table:
  "list_all (\<lambda>k. lofp_to_line (ucast (push_bit 6 3 + (of_nat (313 + k) :: u32) - 313)) SYSTEM_625 = (1, k, 313 + k)) [1..<32]"
  by code_simp

lemma lofp_first:
  "1 \<le> k \<Longrightarrow> k < 32 \<Longrightarrow> lofp_to_line (ucast (push_bit 6 3 + push_bit 5 1 + (of_nat k :: u32))) SYSTEM_625 = (0, k, k)"
  using lofp_first_table unfolding list_all_iff set_upt by (meson atLeastLessThan_iff)

lemma lofp_second:
  "1 \<le> k \<Longrightarrow> k < 32 \<Longrightarrow> lofp_to_line (ucast (push_bit 6 3 + (of_nat (313 + k) :: u32) - 313)) SYSTEM_625 = (1, k, 313 + k)"
  using lofp_second_table unfolding list_all_iff set_upt by (meson atLeastLessThan_iff)

lemma u32_less_nat: "w < n \<longleftrightarrow> unat w < unat n" "w \<le> n \<longleftrightarrow> unat w \<le> unat n" for w n :: u32
  by (simp_all add: word_less_nat_alt word_le_nat_alt)

lemma sliced_lofp_line:
  assumes "sliced_lofp line last_line = Inr lofp" "line \<noteq> 0" "line \<noteq> 313"
  shows "\<exists>k. 1 \<le> k \<and> k < 32 \<and> lofp_to_line lofp SYSTEM_625 = (if 313 \<le> line then 1 else 0, k, unat line)
    \<and> unat line = (if 313 \<le> line then 313 + k else k)"
proof (cases "line < 32")
  case True
  let ?k = "unat line"
  have k: "1 \<le> ?k" "?k < 32" using True assms(2) unat_gt_0 [of line] by (simp_all add: u32_less_nat Suc_le_eq)
  note t = lofp_first [OF k]
  have "\<not> 313 \<le> line" using k by (simp add: u32_less_nat)
  then show ?thesis using assms k True t by (auto simp: sliced_lofp_def)
next
  case False
  then have l: "313 \<le> line" "line < 345" and b: "lofp = ucast (push_bit 6 3 + line - 313)"
    using assms by (auto simp: sliced_lofp_def split: if_splits)
  let ?k = "unat line - 313"
  have "unat line \<noteq> 313" using assms(3) unsigned_word_eqI [of line 313] by auto
  then have k: "1 \<le> ?k" "?k < 32" "313 + ?k = unat line" using l by (auto simp: u32_less_nat)
  have "lofp_to_line lofp SYSTEM_625 = (1, ?k, unat line)"
    using lofp_second [OF k(1,2)] unfolding k(3) b by simp
  then show ?thesis using k l by auto
qed

lemma sliced_lofp_zero:
  "sliced_lofp 0 last_line = Inr lofp \<Longrightarrow> lofp_to_line lofp SYSTEM_625 = (if 313 \<le> last_line then 1 else 0, 0, 0)"
  by (auto simp: sliced_lofp_def lofp_to_line_def Let_def push_bit_eq_mult split: if_splits)

section \<open>One data unit\<close>

text \<open>What a line is delivered as: the service and data that a data unit can represent.\<close>

definition dvb_id :: "u32 \<Rightarrow> u32" where
  "dvb_id service =
     (if service = VBI_SLICED_VPS then VBI_SLICED_VPS
      else if service = VBI_SLICED_WSS_625 then VBI_SLICED_WSS_625
      else if service = VBI_SLICED_CAPTION_625 \<or> service = VBI_SLICED_CAPTION_625_F1 then VBI_SLICED_CAPTION_625_F1
      else VBI_SLICED_TELETEXT_B_625)"

definition dvb_data :: "u32 \<Rightarrow> u8 list \<Rightarrow> u8 list" where
  "dvb_data service bytes =
     (if service = VBI_SLICED_VPS then take 13 bytes
      else if service = VBI_SLICED_WSS_625 then [bytes ! 0, bytes ! 1 OR 0xC0]
      else if service = VBI_SLICED_CAPTION_625 \<or> service = VBI_SLICED_CAPTION_625_F1 then take 2 bytes
      else take 42 bytes)"

definition delivered :: "vbi_sliced \<Rightarrow> vbi_sliced \<Rightarrow> vbi_sliced" where
  "delivered s old = old \<lparr> sl_line := sl_line s, sl_id := dvb_id (sl_id s),
     sl_data := c_memcpy 0 (dvb_data (sl_id s) (sl_data s)) (sl_data old) \<rparr>"

lemma offset_range: "\<not> (22 - 7 < w - 7) \<Longrightarrow> 7 \<le> unat w \<and> unat w \<le> 22" for w :: u32
proof -
  assume a: "\<not> (22 - 7 < w - 7)"
  define j where "j = unat (w - 7)"
  have j: "j \<le> 15" using a by (simp add: j_def u32_less_nat)
  have "w = of_nat j + 7" by (simp add: j_def)
  then have "unat w = j + 7" using j by (simp add: unat_word_ariths unsigned_of_nat take_bit_nat_eq_self)
  then show ?thesis using j by simp
qed

lemma sliced_unit_sizeD:
  assumes "sliced_unit_size service line = Inr n"
  shows "(line = 0 \<or> 7 \<le> unat line \<and> unat line \<le> 22 \<or> 320 \<le> unat line \<and> unat line \<le> 335) \<and> n = 46
        \<and> (service = VBI_SLICED_TELETEXT_B_L10_625 \<or> service = VBI_SLICED_TELETEXT_B_L25_625 \<or> service = VBI_SLICED_TELETEXT_B_625)
    \<or> line = 16 \<and> service = VBI_SLICED_VPS \<and> n = 16
    \<or> line = 23 \<and> service = VBI_SLICED_WSS_625 \<and> n = 5
    \<or> line = 21 \<and> (service = VBI_SLICED_CAPTION_625 \<or> service = VBI_SLICED_CAPTION_625_F1) \<and> n = 5"
proof (cases "service = VBI_SLICED_TELETEXT_B_L10_625 \<or> service = VBI_SLICED_TELETEXT_B_L25_625 \<or> service = VBI_SLICED_TELETEXT_B_625")
  case True
  then have a: "n = 46" "line = 0 \<or> \<not> (22 - 7 < (if 313 \<le> line then line - 313 else line) - 7)"
    using assms by (auto simp: sliced_unit_size_def Let_def split: if_splits)
  have "line = 0 \<or> 7 \<le> unat line \<and> unat line \<le> 22 \<or> 320 \<le> unat line \<and> unat line \<le> 335"
  proof (cases "313 \<le> line")
    case h: True
    then have "unat (line - 313) = unat line - 313" by (simp add: unat_sub u32_less_nat)
    then show ?thesis using a(2) h offset_range [of "line - 313"] by (auto simp: u32_less_nat)
  next
    case False
    then show ?thesis using a(2) offset_range [of line] by auto
  qed
  then show ?thesis using True a(1) by blast
next
  case False
  then show ?thesis using assms by (auto simp: sliced_unit_size_def split: if_splits)
qed

text \<open>The context of the demultiplexer agrees with the last line number the multiplexer saw.\<close>

definition in_step :: "frame \<Rightarrow> u32 \<Rightarrow> bool" where
  "in_step f last_line \<longleftrightarrow> last_frame_line f = unat last_line \<and> last_field f = (if 313 \<le> last_line then 1 else 0)"

lemma line_address_mux:
  assumes size: "sliced_unit_size service line = Inr n" and lofp: "sliced_lofp line ll = Inr lofp"
    and ll: "ll = (if 0 < line then line else l0)" and order: "0 < line \<longrightarrow> l0 < line"
    and room: "fr_sp f < length (fr_sliced f)" and step: "in_step f l0"
  shows "\<exists>f'. line_address f lofp SYSTEM_625 = Inr f'
    \<and> fr_sliced f' = (fr_sliced f) [fr_sp f := (fr_sliced f ! fr_sp f) \<lparr> sl_line := line \<rparr>] \<and> fr_sp f' = Suc (fr_sp f)
    \<and> in_step f' ll \<and> (line = 0 \<or> unat line = last_field_line f' + (if 313 \<le> line then 313 else 0)) \<and> (line = 0 \<longrightarrow> last_field_line f' = 0)
    \<and> (line \<noteq> 0 \<longrightarrow> last_field f' = (if 313 \<le> line then 1 else 0))"
proof (cases "line = 0")
  case True
  then have l: "ll = l0" "sliced_lofp 0 ll = Inr lofp" using ll lofp by simp_all
  have "lofp_to_line lofp SYSTEM_625 = (last_field f, 0, 0)"
    using sliced_lofp_zero [OF l(2)] step l(1) by (simp add: in_step_def)
  then show ?thesis using True room step l(1) by (simp add: line_address_def take_slot_def in_step_def not_le)
next
  case False
  then have pos: "0 < line" by (simp add: word_neq_0_conv)
  have "unat line \<noteq> 313" using sliced_unit_sizeD [OF size] by auto
  then have "line \<noteq> 313" by auto
  from sliced_lofp_line [OF lofp False this] obtain k where k: "1 \<le> k"
    "lofp_to_line lofp SYSTEM_625 = (if 313 \<le> line then 1 else 0, k, unat line)"
    "unat line = (if 313 \<le> line then 313 + k else k)" by blast
  have "\<not> unat line \<le> last_frame_line f" using order pos step by (simp add: in_step_def u32_less_nat)
  moreover have "unat line \<noteq> 0" using k(1,3) by (simp split: if_splits)
  moreover have "k + (if 313 \<le> line then 313 else 0) = unat line" using k(3) by simp
  ultimately show ?thesis using False room pos ll
    by (simp add: line_address_def k(2) take_slot_def in_step_def not_le)
qed

text \<open>The bytes of a data unit with \<open>pad\<close> stuffing bytes at its end.\<close>

definition unit_bytes :: "u8 \<Rightarrow> u8 \<Rightarrow> u8 list \<Rightarrow> nat \<Rightarrow> u8 list" where
  "unit_bytes unit_id lofp payload pad =
     [unit_id, of_nat (1 + length payload + pad), lofp] @ payload @ replicate pad 0xFF"

lemma length_unit_bytes [simp]: "length (unit_bytes unit_id lofp payload pad) = 3 + length payload + pad"
  by (simp add: unit_bytes_def)

lemma data_unit_bytes:
  "3 + length payload \<le> n \<Longrightarrow> data_unit n unit_id lofp payload = unit_bytes unit_id lofp payload (n - 3 - length payload)"
proof -
  assume "3 + length payload \<le> n"
  then have "n - 2 = 1 + length payload + (n - 3 - length payload)" by simp
  then show ?thesis by (simp add: data_unit_def unit_bytes_def)
qed

lemma map_nth_take: "n \<le> length xs \<Longrightarrow> map (\<lambda>i. f (xs ! i)) [0..<n] = map f (take n xs)"
  by (rule nth_equalityI) simp_all

lemma take_2_nth: "2 \<le> length xs \<Longrightarrow> take 2 xs = [xs ! 0, xs ! 1]"
  by (cases xs; cases "tl xs") (auto simp: numeral_2_eq_2)

lemmas service_defs = VBI_SLICED_TELETEXT_B_L10_625_def VBI_SLICED_TELETEXT_B_L25_625_def VBI_SLICED_TELETEXT_B_625_def
  VBI_SLICED_VPS_def VBI_SLICED_VPS_F2_def VBI_SLICED_WSS_625_def VBI_SLICED_CAPTION_625_def VBI_SLICED_CAPTION_625_F1_def
  VBI_SLICED_CAPTION_625_F2_def

lemma demux_line_eq:
  assumes "line_address f lofp system = Inr f'" "line_ok f'" "length before = pos - 3" "3 \<le> pos" "length bytes = n"
  shows "demux_line system line_ok service pos n conv f ([unit_id, l, lofp] @ before @ bytes @ rest) =
    Ret (None, store (service f') (map conv bytes) f')"
proof -
  have "drop pos ([unit_id, l, lofp] @ before @ bytes @ rest) = bytes @ rest"
    using assms(3,4) by (simp add: drop_Cons' numeral_eq_Suc)
  moreover have "pos + n \<le> length ([unit_id, l, lofp] @ before @ bytes @ rest)" using assms(3-5) by simp
  ultimately show ?thesis using assms
    by (simp add: demux_line_def c_block_def numeral_2_eq_2)
qed

lemma demux_unit_eq:
  assumes size: "sliced_unit_size service line = Inr n" and pl: "sliced_payload service sdata = (unit_id, payload)"
    and len: "length sdata = 56" and l: "1 + length payload \<le> l"
    and addr: "line_address f lofp SYSTEM_625 = Inr f'"
    and line: "sl_line (slot f') = line" "line = 0 \<or> unat line = last_field_line f' + (if 313 \<le> line then 313 else 0)"
      "line = 0 \<longrightarrow> last_field_line f' = 0" "line \<noteq> 0 \<longrightarrow> last_field f' = (if 313 \<le> line then 1 else 0)"
  shows "demux_unit f ([unit_id, b, lofp] @ payload @ rest) unit_id l = Ret (None, store (dvb_id service) (dvb_data service sdata) f')"
    and "unit_id \<noteq> DATA_UNIT_STUFFING" and "3 + length payload = n"
proof -
  note dl = demux_line_eq [OF addr]
  from sliced_unit_sizeD [OF size]
  consider (ttx) "line = 0 \<or> 7 \<le> unat line \<and> unat line \<le> 22 \<or> 320 \<le> unat line \<and> unat line \<le> 335" "n = 46"
      "service = VBI_SLICED_TELETEXT_B_L10_625 \<or> service = VBI_SLICED_TELETEXT_B_L25_625 \<or> service = VBI_SLICED_TELETEXT_B_625"
    | (vps) "line = 16" "service = VBI_SLICED_VPS" "n = 16" | (wss) "line = 23" "service = VBI_SLICED_WSS_625" "n = 5"
    | (cc) "line = 21" "service = VBI_SLICED_CAPTION_625 \<or> service = VBI_SLICED_CAPTION_625_F1" "n = 5"
    by blast
  then have "demux_unit f ([unit_id, b, lofp] @ payload @ rest) unit_id l = Ret (None, store (dvb_id service) (dvb_data service sdata) f')
    \<and> unit_id \<noteq> DATA_UNIT_STUFFING \<and> 3 + length payload = n"
  proof cases
    case ttx
    then have p: "unit_id = DATA_UNIT_EBU_TELETEXT_NON_SUBTITLE" "payload = 0xE4 # map rev8 (take 42 sdata)"
      using pl map_nth_take [of 42 sdata rev8] len by (auto simp: sliced_payload_def service_defs)
    have i: "dvb_id service = VBI_SLICED_TELETEXT_B_625" "dvb_data service sdata = take 42 sdata"
      using ttx(3) by (auto simp: dvb_id_def dvb_data_def service_defs)
    have ok: "ttx_line_ok f'"
    proof (cases "line = 0")
      case False
      then show ?thesis using ttx(1) line(2) by (auto simp: ttx_line_ok_def u32_less_nat)
    qed (use line(3) in \<open>simp add: ttx_line_ok_def\<close>)
    have "demux_line SYSTEM_625 ttx_line_ok (\<lambda>_. VBI_SLICED_TELETEXT_B_625) 4 42 rev8 f
        ([unit_id, b, lofp] @ [0xE4] @ map rev8 (take 42 sdata) @ rest) = Ret (None, store VBI_SLICED_TELETEXT_B_625 (take 42 sdata) f')"
      using dl [of ttx_line_ok "[0xE4]" 4 "map rev8 (take 42 sdata)" 42 "\<lambda>_. VBI_SLICED_TELETEXT_B_625" rev8 unit_id b rest] ok len
      by (simp add: comp_def)
    then show ?thesis using p i l ttx(2) len by (simp add: demux_unit_def data_unit_ids numeral_3_eq_3)
  next
    case vps
    then have p: "unit_id = DATA_UNIT_VPS" "payload = take 13 sdata"
      using pl map_nth_take [of 13 sdata id] len by (simp_all add: sliced_payload_def service_defs)
    show ?thesis using p vps line len l
        dl [of "\<lambda>f. sl_line (slot f) = 16" "[]" 3 "take 13 sdata" 13 "\<lambda>f. if 0 = last_field f then VBI_SLICED_VPS else VBI_SLICED_VPS_F2" id]
      by (simp add: demux_unit_def data_unit_ids dvb_id_def dvb_data_def)
  next
    case wss
    then have p: "unit_id = DATA_UNIT_WSS" "payload = [rev8 (sdata ! 0), rev8 (sdata ! 1) OR 3]"
      using pl by (simp_all add: sliced_payload_def service_defs)
    show ?thesis using p wss line len l
        dl [of "\<lambda>f. sl_line (slot f) = 23" "[]" 3 "[rev8 (sdata ! 0), rev8 (sdata ! 1) OR 3]" 2 "\<lambda>_. VBI_SLICED_WSS_625" rev8]
      by (simp add: demux_unit_def data_unit_ids dvb_id_def dvb_data_def service_defs rev8_or_3)
  next
    case cc
    then have p: "unit_id = DATA_UNIT_CLOSED_CAPTION" "payload = [rev8 (sdata ! 0), rev8 (sdata ! 1)]"
      using pl by (auto simp: sliced_payload_def service_defs)
    have i: "dvb_id service = VBI_SLICED_CAPTION_625_F1" "dvb_data service sdata = [sdata ! 0, sdata ! 1]"
      using cc(2) take_2_nth [of sdata] len by (auto simp: dvb_id_def dvb_data_def service_defs)
    show ?thesis using p i cc(1,3) line len l
        dl [of "\<lambda>f. sl_line (slot f) = 21" "[]" 3 "[rev8 (sdata ! 0), rev8 (sdata ! 1)]" 2
          "\<lambda>f. if 0 = last_field f then VBI_SLICED_CAPTION_625_F1 else VBI_SLICED_CAPTION_625_F2" rev8]
      by (simp add: demux_unit_def data_unit_ids)
  qed
  then show "demux_unit f ([unit_id, b, lofp] @ payload @ rest) unit_id l = Ret (None, store (dvb_id service) (dvb_data service sdata) f')"
    and "unit_id \<noteq> DATA_UNIT_STUFFING" and "3 + length payload = n" by blast+
qed

text \<open>A line that cannot be addressed stops the loop at its data unit.\<close>

lemma demux_line_stop:
  "line_address f lofp system = Inl err \<Longrightarrow> demux_line system line_ok service pos n conv f ([unit_id, l, lofp] @ rest) = Ret (Some err, f)"
  by (simp add: demux_line_def numeral_2_eq_2)

lemma demux_unit_stop:
  assumes size: "sliced_unit_size service line = Inr n" and pl: "sliced_payload service sdata = (unit_id, payload)"
    and len: "length sdata = 56" and l: "1 + length payload \<le> l" and addr: "line_address f lofp SYSTEM_625 = Inl err"
  shows "demux_unit f ([unit_id, b, lofp] @ payload @ rest) unit_id l = Ret (Some err, f)"
proof -
  note dl = demux_line_stop [OF addr]
  from sliced_unit_sizeD [OF size]
  consider (ttx) "service = VBI_SLICED_TELETEXT_B_L10_625 \<or> service = VBI_SLICED_TELETEXT_B_L25_625 \<or> service = VBI_SLICED_TELETEXT_B_625"
    | (vps) "service = VBI_SLICED_VPS" | (wss) "service = VBI_SLICED_WSS_625"
    | (cc) "service = VBI_SLICED_CAPTION_625 \<or> service = VBI_SLICED_CAPTION_625_F1"
    by blast
  then show ?thesis
  proof cases
    case ttx
    then have p: "unit_id = DATA_UNIT_EBU_TELETEXT_NON_SUBTITLE" "payload = 0xE4 # map rev8 (take 42 sdata)"
      using pl map_nth_take [of 42 sdata rev8] len by (auto simp: sliced_payload_def service_defs)
    then show ?thesis using l len dl by (simp add: demux_unit_def data_unit_ids numeral_3_eq_3)
  next
    case vps
    then have p: "unit_id = DATA_UNIT_VPS" "payload = take 13 sdata"
      using pl map_nth_take [of 13 sdata id] len by (simp_all add: sliced_payload_def service_defs)
    then show ?thesis using l len dl by (simp add: demux_unit_def data_unit_ids)
  next
    case wss
    then have p: "unit_id = DATA_UNIT_WSS" "payload = [rev8 (sdata ! 0), rev8 (sdata ! 1) OR 3]"
      using pl by (simp_all add: sliced_payload_def service_defs)
    then show ?thesis using l len dl by (simp add: demux_unit_def data_unit_ids)
  next
    case cc
    then have p: "unit_id = DATA_UNIT_CLOSED_CAPTION" "payload = [rev8 (sdata ! 0), rev8 (sdata ! 1)]"
      using pl by (auto simp: sliced_payload_def service_defs)
    then show ?thesis using l len dl by (simp add: demux_unit_def data_unit_ids)
  qed
qed

lemma unat_u8_of_nat: "n \<le> 255 \<Longrightarrow> unat (of_nat n :: u8) = n"
  by (simp add: unsigned_of_nat take_bit_nat_eq_self)

lemma extract_unit:
  assumes size: "sliced_unit_size (sl_id s) (sl_line s) = Inr n" and lofp: "sliced_lofp (sl_line s) ll = Inr lofp"
    and pl: "sliced_payload (sl_id s) (sl_data s) = (unit_id, payload)" and ok: "sliced_ok s"
    and pad: "1 + length payload + pad \<le> 255"
    and ll: "ll = (if 0 < sl_line s then sl_line s else l0)" and order: "0 < sl_line s \<longrightarrow> l0 < sl_line s"
    and room: "fr_sp f < length (fr_sliced f)" and step: "in_step f l0"
  shows "\<exists>f'. extract_data_units f (unit_bytes unit_id lofp payload pad @ tail) = extract_data_units f' tail
    \<and> fr_sliced f' = (fr_sliced f) [fr_sp f := delivered s (fr_sliced f ! fr_sp f)] \<and> fr_sp f' = Suc (fr_sp f) \<and> in_step f' ll"
proof -
  obtain f1 where f1: "line_address f lofp SYSTEM_625 = Inr f1"
      "fr_sliced f1 = (fr_sliced f) [fr_sp f := (fr_sliced f ! fr_sp f) \<lparr> sl_line := sl_line s \<rparr>]" "fr_sp f1 = Suc (fr_sp f)"
      "in_step f1 ll" "sl_line s = 0 \<or> unat (sl_line s) = last_field_line f1 + (if 313 \<le> sl_line s then 313 else 0)"
      "sl_line s = 0 \<longrightarrow> last_field_line f1 = 0" "sl_line s \<noteq> 0 \<longrightarrow> last_field f1 = (if 313 \<le> sl_line s then 1 else 0)"
    using line_address_mux [OF size lofp ll order room step] by blast
  have sl: "slot f1 = (fr_sliced f ! fr_sp f) \<lparr> sl_line := sl_line s \<rparr>" using room by (simp add: slot_def f1(2,3))
  define f2 where "f2 = (store (dvb_id (sl_id s)) (dvb_data (sl_id s) (sl_data s)) f1) \<lparr> last_data_unit_id := unit_id \<rparr>"
  have b: "unat (of_nat (1 + length payload + pad) :: u8) = 1 + length payload + pad"
    by (rule unat_u8_of_nat) (rule pad)
  let ?p = "unit_bytes unit_id lofp payload pad @ tail"
  have p: "?p = [unit_id, of_nat (1 + length payload + pad), lofp] @ payload @ replicate pad 0xFF @ tail"
    by (simp add: unit_bytes_def)
  then have "?p ! 1 = of_nat (1 + length payload + pad)" "?p ! 0 = unit_id" by simp_all
  then have p01: "?p ! 0 = unit_id" "unat (?p ! 1) = 1 + length payload + pad" by (simp_all only: b)
  have "demux_unit f ?p unit_id (1 + length payload + pad) = Ret (None, store (dvb_id (sl_id s)) (dvb_data (sl_id s) (sl_data s)) f1)"
    unfolding p using ok sl f1 by (intro demux_unit_eq [OF size pl]) (simp_all add: sliced_ok_def)
  moreover have "drop (1 + length payload + pad + 2) ?p = tail" by simp
  ultimately have "extract_data_units f ?p = extract_data_units f2 tail"
    by (subst extract_data_units.simps) (simp only: p01, simp add: f2_def)
  moreover have "fr_sliced f2 = (fr_sliced f) [fr_sp f := delivered s (fr_sliced f ! fr_sp f)]" "fr_sp f2 = Suc (fr_sp f)" "in_step f2 ll"
    using f1(2-4) sl by (simp_all add: f2_def store_def delivered_def in_step_def)
  ultimately show ?thesis by blast
qed

text \<open>A frame ends where a line number does not exceed the last one at the begin of a packet.\<close>

lemma extract_unit_new_frame:
  assumes size: "sliced_unit_size (sl_id s) (sl_line s) = Inr n" and lofp: "sliced_lofp (sl_line s) ll = Inr lofp"
    and pl: "sliced_payload (sl_id s) (sl_data s) = (unit_id, payload)" and ok: "sliced_ok s"
    and pad: "1 + length payload + pad \<le> 255"
    and line: "sl_line s \<noteq> 0" "unat (sl_line s) \<le> last_frame_line f"
    and room: "fr_sp f < length (fr_sliced f)" and first: "n_data_units_extracted_from_packet f = 0"
  shows "extract_data_units f (unit_bytes unit_id lofp payload pad @ tail) = Ret (Some NEW_FRAME, f, unit_bytes unit_id lofp payload pad @ tail)"
proof -
  let ?p = "unit_bytes unit_id lofp payload pad @ tail"
  have b: "unat (of_nat (1 + length payload + pad) :: u8) = 1 + length payload + pad" by (rule unat_u8_of_nat) (rule pad)
  have p: "?p = [unit_id, of_nat (1 + length payload + pad), lofp] @ payload @ replicate pad 0xFF @ tail" by (simp add: unit_bytes_def)
  then have "?p ! 1 = of_nat (1 + length payload + pad)" "?p ! 0 = unit_id" by simp_all
  then have p01: "?p ! 0 = unit_id" "unat (?p ! 1) = 1 + length payload + pad" by (simp_all only: b)
  have "unat (sl_line s) \<noteq> 313" using sliced_unit_sizeD [OF size] by auto
  then have "sl_line s \<noteq> 313" by auto
  from sliced_lofp_line [OF lofp line(1) this] obtain field k where
    "lofp_to_line lofp SYSTEM_625 = (field, k, unat (sl_line s))" by blast
  moreover have "unat (sl_line s) \<noteq> 0" using line(1) by (simp add: unat_eq_0)
  ultimately have "line_address f lofp SYSTEM_625 = Inl NEW_FRAME" using line(2) room first by (simp add: line_address_def)
  then have "demux_unit f ?p unit_id (1 + length payload + pad) = Ret (Some NEW_FRAME, f)"
    unfolding p using ok by (intro demux_unit_stop [OF size pl]) (simp_all add: sliced_ok_def)
  then show ?thesis by (subst extract_data_units.simps) (simp only: p01, simp)
qed

section \<open>The lines of a packet\<close>

text \<open>The lines are delivered one after the other, from slot \<open>n\<close> on.\<close>

primrec deliver :: "vbi_sliced list \<Rightarrow> nat \<Rightarrow> vbi_sliced list \<Rightarrow> vbi_sliced list" where
  "deliver [] n slots = slots"
| "deliver (s # ss) n slots = deliver ss (Suc n) (slots [n := delivered s (slots ! n)])"

lemma length_deliver [simp]: "length (deliver ss n slots) = length slots"
  by (induction ss arbitrary: n slots) simp_all

lemma deliver_eq:
  "n + length ss \<le> length slots \<Longrightarrow>
    deliver ss n slots = take n slots @ map2 delivered ss (drop n slots) @ drop (n + length ss) slots"
proof (induction ss arbitrary: n slots)
  case (Cons s ss)
  then have n: "n < length slots" by simp
  then have d: "drop n slots = slots ! n # drop (Suc n) slots" by (simp add: Cons_nth_drop_Suc)
  have "deliver (s # ss) n slots = take (Suc n) (slots [n := delivered s (slots ! n)])
      @ map2 delivered ss (drop (Suc n) (slots [n := delivered s (slots ! n)])) @ drop (Suc n + length ss) (slots [n := delivered s (slots ! n)])"
    using Cons.prems by (simp only: deliver.simps) (rule Cons.IH, simp)
  also have "\<dots> = take n slots @ map2 delivered (s # ss) (drop n slots) @ drop (n + length (s # ss)) slots"
    using n by (simp add: d take_Suc_conv_app_nth)
  finally show ?case .
qed simp

type_synonym unit_head = "u8 \<times> u8 \<times> u8 list"

definition units_bytes :: "unit_head list \<Rightarrow> nat list \<Rightarrow> u8 list" where
  "units_bytes hs pads = concat (map2 (\<lambda>(unit_id, lofp, payload) pad. unit_bytes unit_id lofp payload pad) hs pads)"

lemma units_bytes_Cons [simp]:
  "units_bytes ((unit_id, lofp, payload) # hs) (pad # pads) = unit_bytes unit_id lofp payload pad @ units_bytes hs pads"
  "units_bytes [] pads = []"
  by (simp_all add: units_bytes_def)

definition pads_fit :: "nat \<Rightarrow> unit_head list \<Rightarrow> nat list \<Rightarrow> bool" where
  "pads_fit n hs pads \<longleftrightarrow> list_all2 (\<lambda>(unit_id, lofp, payload) pad. 1 + length payload + pad \<le> n) hs pads"

definition wanted_lines :: "u32 \<Rightarrow> vbi_sliced list \<Rightarrow> vbi_sliced list" where
  "wanted_lines service_mask ss = filter (\<lambda>s. sl_id s AND service_mask \<noteq> 0) ss"

text \<open>The last known line number.\<close>

primrec last_known :: "u32 \<Rightarrow> vbi_sliced list \<Rightarrow> u32" where
  "last_known l [] = l"
| "last_known l (s # ss) = last_known (if 0 < sl_line s then sl_line s else l) ss"

text \<open>\<open>hs\<close> with any paddings is extracted as the lines \<open>ss\<close>, by a context in step with line number \<open>l\<close>.\<close>

definition extracts :: "unit_head list \<Rightarrow> u32 \<Rightarrow> vbi_sliced list \<Rightarrow> bool" where
  "extracts hs l ss \<longleftrightarrow> (\<forall>f pads tail. pads_fit 255 hs pads \<longrightarrow> in_step f l \<longrightarrow> fr_sp f + length ss \<le> length (fr_sliced f) \<longrightarrow>
     (\<exists>f'. extract_data_units f (units_bytes hs pads @ tail) = extract_data_units f' tail
       \<and> fr_sliced f' = deliver ss (fr_sp f) (fr_sliced f) \<and> fr_sp f' = fr_sp f + length ss \<and> in_step f' (last_known l ss)))"

text \<open>\<open>hs\<close> begins a new frame when the number of the first of the lines \<open>ss\<close> does not exceed the last one.\<close>

definition begins :: "unit_head list \<Rightarrow> vbi_sliced list \<Rightarrow> bool" where
  "begins hs ss \<longleftrightarrow> (\<forall>f pads tail s ss'. pads_fit 255 hs pads \<longrightarrow> ss = s # ss' \<longrightarrow> sl_line s \<noteq> 0 \<longrightarrow> unat (sl_line s) \<le> last_frame_line f
     \<longrightarrow> fr_sp f < length (fr_sliced f) \<longrightarrow> n_data_units_extracted_from_packet f = 0
     \<longrightarrow> extract_data_units f (units_bytes hs pads @ tail) = Ret (Some NEW_FRAME, f, units_bytes hs pads @ tail))"

lemma begins_Cons:
  assumes "sliced_unit_size (sl_id s) (sl_line s) = Inr n" "sliced_lofp (sl_line s) ll = Inr lofp"
    "sliced_payload (sl_id s) (sl_data s) = (unit_id, payload)" "sliced_ok s"
  shows "begins ((unit_id, lofp, payload) # hs) (s # ss)"
  unfolding begins_def
proof (intro allI impI)
  fix f :: frame and pads0 tail s' ss'
  assume a: "pads_fit 255 ((unit_id, lofp, payload) # hs) pads0" "s # ss = s' # ss'" "sl_line s' \<noteq> 0" "unat (sl_line s') \<le> last_frame_line f"
    "fr_sp f < length (fr_sliced f)" "n_data_units_extracted_from_packet f = 0"
  then obtain pad pads where p: "pads0 = pad # pads" "1 + length payload + pad \<le> 255"
    by (auto simp: pads_fit_def list_all2_Cons1)
  show "extract_data_units f (units_bytes ((unit_id, lofp, payload) # hs) pads0 @ tail) =
      Ret (Some NEW_FRAME, f, units_bytes ((unit_id, lofp, payload) # hs) pads0 @ tail)"
    using extract_unit_new_frame [OF assms p(2), of f "units_bytes hs pads @ tail"] a(2-6) by (simp add: p(1))
qed

lemma extracts_Cons:
  assumes "sliced_unit_size (sl_id s) (sl_line s) = Inr n" "sliced_lofp (sl_line s) ll = Inr lofp"
    "sliced_payload (sl_id s) (sl_data s) = (unit_id, payload)" "sliced_ok s"
    "ll = (if 0 < sl_line s then sl_line s else l)" "0 < sl_line s \<longrightarrow> l < sl_line s" "extracts hs ll ss"
  shows "extracts ((unit_id, lofp, payload) # hs) l (s # ss)"
  unfolding extracts_def
proof (intro allI impI)
  fix f pads0 tail
  assume a: "pads_fit 255 ((unit_id, lofp, payload) # hs) pads0" "in_step f l" "fr_sp f + length (s # ss) \<le> length (fr_sliced f)"
  then obtain pad pads where p: "pads0 = pad # pads" "1 + length payload + pad \<le> 255" "pads_fit 255 hs pads"
    by (auto simp: pads_fit_def list_all2_Cons1)
  have room: "fr_sp f < length (fr_sliced f)" using a(3) by simp
  obtain f1 where f1: "extract_data_units f (unit_bytes unit_id lofp payload pad @ units_bytes hs pads @ tail)
        = extract_data_units f1 (units_bytes hs pads @ tail)"
      "fr_sliced f1 = (fr_sliced f) [fr_sp f := delivered s (fr_sliced f ! fr_sp f)]" "fr_sp f1 = Suc (fr_sp f)" "in_step f1 ll"
    using extract_unit [OF assms(1-4) p(2) assms(5,6) room a(2)] by blast
  have "fr_sp f1 + length ss \<le> length (fr_sliced f1)" using a(3) f1(2,3) by simp
  then obtain f2 where "extract_data_units f1 (units_bytes hs pads @ tail) = extract_data_units f2 tail"
      "fr_sliced f2 = deliver ss (fr_sp f1) (fr_sliced f1)" "fr_sp f2 = fr_sp f1 + length ss" "in_step f2 (last_known ll ss)"
    using assms(7) p(3) f1(4) unfolding extracts_def by blast
  then show "\<exists>f'. extract_data_units f (units_bytes ((unit_id, lofp, payload) # hs) pads0 @ tail) = extract_data_units f' tail
       \<and> fr_sliced f' = deliver (s # ss) (fr_sp f) (fr_sliced f) \<and> fr_sp f' = fr_sp f + length (s # ss) \<and> in_step f' (last_known l (s # ss))"
    using f1 by (intro exI [of _ f2]) (simp add: p(1) assms(5) [symmetric])
qed

lemma insert_loop_extracts:
  assumes "insert_loop service_mask fixed_length p_left l d out ss = (err, out', d', rest)" "list_all sliced_ok ss"
  shows "\<exists>hs pads read. ss = read @ rest \<and> out' = out @ units_bytes hs pads \<and> pads_fit 44 hs pads \<and> extracts hs l (wanted_lines service_mask read)
    \<and> begins hs (wanted_lines service_mask read) \<and> length hs = length (wanted_lines service_mask read) \<and> (hs = [] \<longrightarrow> d' = d)
    \<and> (\<forall>unit_id lofp payload. hs \<noteq> [] \<and> last hs = (unit_id, lofp, payload) \<longrightarrow> d' = 3 + length payload + last pads)
    \<and> length (units_bytes hs pads) \<le> p_left \<and> (fixed_length \<longrightarrow> 46 dvd length (units_bytes hs pads))"
  using assms
proof (induction ss arbitrary: p_left l d out)
  case Nil
  then show ?case
    by (intro exI [of _ "[]"]) (auto simp: pads_fit_def extracts_def begins_def wanted_lines_def)
next
  case (Cons s ss)
  define ll where "ll = (if 0 < sl_line s then sl_line s else l)"
  show ?case
  proof (cases "sl_id s AND service_mask = 0")
    case True
    then obtain hs pads read where ih: "ss = read @ rest" "out' = out @ units_bytes hs pads" "pads_fit 44 hs pads"
        "extracts hs l (wanted_lines service_mask read)" "begins hs (wanted_lines service_mask read)" "length hs = length (wanted_lines service_mask read)" "hs = [] \<longrightarrow> d' = d"
        "\<forall>unit_id lofp payload. hs \<noteq> [] \<and> last hs = (unit_id, lofp, payload) \<longrightarrow> d' = 3 + length payload + last pads"
        "length (units_bytes hs pads) \<le> p_left" "fixed_length \<longrightarrow> 46 dvd length (units_bytes hs pads)"
      using Cons.IH [of p_left l d out] Cons.prems by auto
    have "wanted_lines service_mask (s # read) = wanted_lines service_mask read" using True by (simp add: wanted_lines_def)
    then show ?thesis using ih by (intro exI [of _ hs] exI [of _ pads] exI [of _ "s # read"]) simp
  next
    case False
    show ?thesis
    proof (cases "(err, out', d', rest) = (err, out, d, s # ss)")
      case True
      then show ?thesis by (intro exI [of _ "[]"]) (auto simp: pads_fit_def extracts_def begins_def wanted_lines_def)
    next
      case go: False
      have order: "\<not> (0 < sl_line s \<and> sl_line s \<le> l)" using Cons.prems(1) False go by (auto split: if_splits)
      obtain n where n: "sliced_unit_size (sl_id s) (sl_line s) = Inr n"
        using Cons.prems(1) False order go by (cases "sliced_unit_size (sl_id s) (sl_line s)") (auto simp: Let_def)
      define du where "du = (if fixed_length then 2 + 0x2C else n)"
      have fit: "\<not> p_left < du" using Cons.prems(1) False order n go by (auto simp: Let_def du_def)
      obtain lofp where lofp: "sliced_lofp (sl_line s) ll = Inr lofp"
        using Cons.prems(1) False order n fit go
        by (cases "sliced_lofp (sl_line s) ll") (auto simp: Let_def du_def [symmetric] ll_def [symmetric])
      obtain unit_id payload where pl: "sliced_payload (sl_id s) (sl_data s) = (unit_id, payload)" by force
      have step: "insert_loop service_mask fixed_length (p_left - du) ll du (out @ data_unit du unit_id lofp payload) ss = (err, out', d', rest)"
        using Cons.prems(1) False order n fit lofp pl by (simp add: Let_def du_def ll_def)
      have len: "3 + length payload = n"
      proof -
        have ok: "length (sl_data s) = 56" using Cons.prems(2) by (simp add: sliced_ok_def)
        from sliced_unit_sizeD [OF n] pl ok show ?thesis by (auto simp: sliced_payload_def service_defs split: if_splits)
      qed
      have "n \<le> 46" using sliced_unit_sizeD [OF n] by auto
      then have du: "3 + length payload \<le> du" "du \<le> 46" using len by (auto simp: du_def)
      define pad where "pad = du - 3 - length payload"
      have pad: "1 + length payload + pad \<le> 44" "3 + length payload + pad = du" using du by (simp_all add: pad_def)
      have bytes: "data_unit du unit_id lofp payload = unit_bytes unit_id lofp payload pad"
        using data_unit_bytes [OF du(1)] by (simp add: pad_def)
      have all: "list_all sliced_ok ss" using Cons.prems(2) by simp
      from Cons.IH [OF step all] obtain hs pads read where ih: "ss = read @ rest" "out' = (out @ unit_bytes unit_id lofp payload pad) @ units_bytes hs pads"
          "pads_fit 44 hs pads" "extracts hs ll (wanted_lines service_mask read)" "length hs = length (wanted_lines service_mask read)"
          "hs = [] \<longrightarrow> d' = du" "\<forall>unit_id lofp payload. hs \<noteq> [] \<and> last hs = (unit_id, lofp, payload) \<longrightarrow> d' = 3 + length payload + last pads"
          "length (units_bytes hs pads) \<le> p_left - du" "fixed_length \<longrightarrow> 46 dvd length (units_bytes hs pads)"
        unfolding bytes by blast
      have w: "wanted_lines service_mask (s # read) = s # wanted_lines service_mask read" using False by (simp add: wanted_lines_def)
      have ex: "extracts ((unit_id, lofp, payload) # hs) l (s # wanted_lines service_mask read)"
        using Cons.prems(2) order by (intro extracts_Cons [OF n lofp pl _ ll_def _ ih(4)]) auto
      have lens: "length pads = length hs" using ih(3) by (simp add: pads_fit_def list_all2_lengthD)
      have dvd: "fixed_length \<longrightarrow> 46 dvd length (unit_bytes unit_id lofp payload pad @ units_bytes hs pads)"
        using ih(9) pad(2) by (simp add: du_def)
      have be: "begins ((unit_id, lofp, payload) # hs) (s # wanted_lines service_mask read)"
        using Cons.prems(2) by (intro begins_Cons [OF n lofp pl]) simp
      show ?thesis
      proof (intro exI [of _ "(unit_id, lofp, payload) # hs"] exI [of _ "pad # pads"] exI [of _ "s # read"] conjI)
        show "pads_fit 44 ((unit_id, lofp, payload) # hs) (pad # pads)" using ih(3) pad(1) by (simp add: pads_fit_def)
        show "length (units_bytes ((unit_id, lofp, payload) # hs) (pad # pads)) \<le> p_left" using ih(8) pad(2) fit by simp
        show "\<forall>u lo pa. (unit_id, lofp, payload) # hs \<noteq> [] \<and> last ((unit_id, lofp, payload) # hs) = (u, lo, pa)
            \<longrightarrow> d' = 3 + length pa + last (pad # pads)"
          using ih(6,7) pad(2) lens by auto
      qed (use ih(1,2,5) ex be dvd w in simp_all)
    qed
  qed
qed

section \<open>Stuffing\<close>

lemma length_stuffing_unit [simp]: "2 \<le> n \<Longrightarrow> length (stuffing_unit n) = n"
  by (simp add: stuffing_unit_def)

text \<open>Bytes that are skipped: the context keeps its lines.\<close>

definition skipped :: "u8 list \<Rightarrow> bool" where
  "skipped p \<longleftrightarrow> (\<forall>f. \<exists>f'. extract_data_units f p = Ret (None, f', []) \<and> fr_sliced f' = fr_sliced f \<and> fr_sp f' = fr_sp f
     \<and> last_frame_line f' = last_frame_line f \<and> last_field f' = last_field f)"

lemma skipped_short: "length p \<le> 2 \<Longrightarrow> skipped p"
  by (auto simp: skipped_def extract_data_units.simps)

lemma skipped_stuffing:
  assumes "2 \<le> n" "n \<le> 257" "skipped p"
  shows "skipped (stuffing_unit n @ p)"
  unfolding skipped_def
proof
  fix f
  have u: "unat (of_nat (n - 2) :: u8) = n - 2" using assms(2) by (intro unat_u8_of_nat) simp
  have e: "extract_data_units f (stuffing_unit n @ p) = extract_data_units (f \<lparr> last_data_unit_id := 0xFF \<rparr>) p" if "2 < length (stuffing_unit n @ p)"
  proof -
    let ?p = "stuffing_unit n @ p"
    have n01: "?p ! 0 = 0xFF" "?p ! 1 = of_nat (n - 2)" by (simp_all add: stuffing_unit_def)
    have "drop (n - 2 + 2) ?p = p" "\<not> length ?p < n - 2 + 2" using assms(1) by simp_all
    then show ?thesis using that
      by (subst extract_data_units.simps) (simp only: n01 u if_True if_False, simp add: demux_unit_def data_unit_ids)
  qed
  show "\<exists>f'. extract_data_units f (stuffing_unit n @ p) = Ret (None, f', []) \<and> fr_sliced f' = fr_sliced f \<and> fr_sp f' = fr_sp f
      \<and> last_frame_line f' = last_frame_line f \<and> last_field f' = last_field f"
  proof (cases "2 < length (stuffing_unit n @ p)")
    case True
    then show ?thesis using assms(3) [unfolded skipped_def, THEN spec, of "f \<lparr> last_data_unit_id := 0xFF \<rparr>"] e [OF True] by simp
  next
    case False
    then show ?thesis using skipped_short [of "stuffing_unit n @ p"] unfolding skipped_def by auto
  qed
qed

lemma skipped_units:
  "2 \<le> n \<Longrightarrow> n \<le> 257 \<Longrightarrow> skipped p \<Longrightarrow> skipped (concat (replicate k (stuffing_unit n)) @ p)"
  by (induction k) (simp_all add: skipped_stuffing)

lemma stuffing_loop_eq:
  assumes "2 \<le> n"
  shows "stuffing_loop n before p_left du =
    (before @ concat (replicate (p_left div n) (stuffing_unit n)), p_left mod n, if p_left < n then du else n)"
proof (induction p_left arbitrary: before du rule: less_induct)
  case (less p_left)
  show ?case
  proof (cases "n \<le> p_left")
    case True
    then have d: "p_left div n = Suc ((p_left - n) div n)" "p_left mod n = (p_left - n) mod n"
      using assms by (simp_all add: le_div_geq le_mod_geq)
    have "stuffing_loop n before p_left du = stuffing_loop n (before @ stuffing_unit n) (p_left - n) n"
      using True assms by (subst stuffing_loop.simps) simp
    also have "\<dots> = ((before @ stuffing_unit n) @ concat (replicate ((p_left - n) div n) (stuffing_unit n)), (p_left - n) mod n, n)"
      using less.IH [of "p_left - n" "before @ stuffing_unit n" n] True assms by (simp split: if_splits)
    finally show ?thesis using True d by simp
  next
    case False
    then show ?thesis by (subst stuffing_loop.simps) simp
  qed
qed

lemma units_bytes_snoc:
  "length pads = length hs \<Longrightarrow> units_bytes (hs @ [h]) (pads @ [pad]) = units_bytes hs pads @ units_bytes [h] [pad]"
  by (simp add: units_bytes_def)

text \<open>One stuffing byte more in the last data unit.\<close>

lemma unit_bytes_extend:
  "1 + length payload + pad < 255 \<Longrightarrow>
    (before @ unit_bytes unit_id lofp payload pad) [length before + 1 := of_nat (2 + length payload + pad)] @ [0xFF]
      = before @ unit_bytes unit_id lofp payload (pad + 1)"
  by (simp add: unit_bytes_def list_update_append replicate_append_same)

text \<open>
  \<open>encode_stuffing\<close> does not fail behind data units that leave a byte for it, fills the buffer, and only pads
  the last data unit.
\<close>

lemma encode_stuffing_units:
  assumes pads: "pads_fit 44 hs pads" and last: "\<forall>unit_id lofp payload. hs \<noteq> [] \<and> last hs = (unit_id, lofp, payload) \<longrightarrow> d = 3 + length payload + last pads"
    and left: "hs = [] \<longrightarrow> 2 \<le> p_left" and fixed: "fixed_length \<longrightarrow> p_left mod 46 = 0"
  shows "\<exists>pads' st. encode_stuffing (units_bytes hs pads) p_left d fixed_length = Ret (units_bytes hs pads' @ st)
    \<and> pads_fit 255 hs pads' \<and> skipped st \<and> length (units_bytes hs pads' @ st) = length (units_bytes hs pads) + p_left"
proof -
  have fit: "pads_fit 255 hs pads" using pads unfolding pads_fit_def by (rule list_all2_mono) auto
  define n where "n = (if fixed_length then 46 else 257 :: nat)"
  have n: "2 \<le> n" "n \<le> 257" by (simp_all add: n_def)
  let ?out = "units_bytes hs pads" and ?k = "p_left div n" and ?r = "p_left mod n"
  let ?full = "concat (replicate ?k (stuffing_unit n))"
  note loop = stuffing_loop_eq [OF n(1), of ?out p_left d]
  have es: "encode_stuffing ?out p_left d fixed_length =
     (if ?r > 0 then
        if fixed_length then Undef
        else if ?r \<ge> 2 then Ret ((?out @ ?full) @ stuffing_unit ?r)
        else let du = if p_left < n then d else n in
          if du < 2 \<or> length (?out @ ?full) < du then Undef
          else if du = 257 then Ret ((?out @ ?full) [length (?out @ ?full) + 1 - 257 := 256 - 2] @ [2 - 2])
          else Ret ((?out @ ?full) [length (?out @ ?full) + 1 - du := of_nat (du - 1)] @ [0xFF])
      else Ret (?out @ ?full))"
    unfolding encode_stuffing_def n_def [symmetric] loop by (simp add: Let_def)
  have fl: "length (concat (replicate k (stuffing_unit n))) = k * n" for k using n(1) by (induction k) simp_all
  have tot: "?k * n + ?r = p_left" by simp
  consider (zero) "?r = 0" | (many) "2 \<le> ?r" | (one_full) "?r = 1" "n \<le> p_left" | (one) "?r = 1" "p_left < n" by linarith
  then show ?thesis
  proof cases
    case zero
    then show ?thesis using fit skipped_units [OF n skipped_short [of "[]"]] fl tot
      by (intro exI [of _ pads] exI [of _ ?full]) (simp add: es)
  next
    case many
    have nf: "\<not> fixed_length" using many fixed by (auto simp: n_def)
    have "?r < 257" using nf by (simp add: n_def)
    then have "skipped (?full @ stuffing_unit ?r)"
      using skipped_units [OF n] skipped_stuffing [OF many _ skipped_short [of "[]"]] by simp
    moreover have "encode_stuffing ?out p_left d fixed_length = Ret (?out @ ?full @ stuffing_unit ?r)"
      unfolding es using many nf by simp
    ultimately show ?thesis using fit many fl tot
      by (intro exI [of _ pads] exI [of _ "?full @ stuffing_unit ?r"]) simp
  next
    case one_full
    have nf: "\<not> fixed_length" using one_full fixed by (auto simp: n_def)
    then have n257: "n = 257" by (simp add: n_def)
    have "0 < ?k" using one_full(2) n(1) by (simp add: div_greater_zero_iff)
    then obtain k where k: "?k = Suc k" using gr0_implies_Suc by blast
    let ?pre = "concat (replicate k (stuffing_unit n))"
    have full: "?full = ?pre @ stuffing_unit 257" unfolding n257 k [unfolded n257] by (simp flip: replicate_append_same)
    have e1: "(stuffing_unit 257) [1 := 254] = stuffing_unit 256 @ [0xFF]"
      by (simp add: stuffing_unit_def numeral_eq_Suc replicate_append_same)
    have upd: "(?out @ ?full) [length (?out @ ?full) + 1 - 257 := 256 - 2] = ?out @ ?pre @ stuffing_unit 256 @ [0xFF]"
    proof -
      have "(?out @ ?full) [length (?out @ ?full) + 1 - 257 := 256 - 2] = ?out @ ?pre @ (stuffing_unit 257) [1 := 254]"
        unfolding full by (simp add: list_update_append)
      then show ?thesis unfolding e1 .
    qed
    have big: "\<not> length (?out @ ?full) < 257" by (simp add: full)
    have "encode_stuffing ?out p_left d fixed_length = Ret ((?out @ ?full) [length (?out @ ?full) + 1 - 257 := 256 - 2] @ [2 - 2])"
      unfolding es Let_def using one_full nf big n257 by simp
    then have r: "encode_stuffing ?out p_left d fixed_length = Ret (?out @ ?pre @ stuffing_unit 256 @ stuffing_unit 2)"
      unfolding upd by (simp add: stuffing_unit_def [of 2])
    have "skipped (?pre @ stuffing_unit 256 @ stuffing_unit 2)"
      using skipped_units [OF n] skipped_stuffing [of 256] skipped_short [of "stuffing_unit 2"] by simp
    moreover have "length (?pre @ stuffing_unit 256 @ stuffing_unit 2) = p_left"
    proof -
      have "Suc k * n + 1 = p_left" using tot unfolding k one_full(1) .
      then show ?thesis using fl [of k] n257 by simp
    qed
    ultimately show ?thesis using fit r by (intro exI [of _ pads] exI [of _ "?pre @ stuffing_unit 256 @ stuffing_unit 2"]) simp
  next
    case one
    have nf: "\<not> fixed_length" using one fixed by (auto simp: n_def)
    have "p_left = 1" using one by simp
    then have "hs \<noteq> []" using left by auto
    then obtain hs0 unit_id lofp payload where hs: "hs = hs0 @ [(unit_id, lofp, payload)]" by (metis prod.exhaust rev_exhaust)
    then obtain pads0 pad where p: "pads = pads0 @ [pad]" "length pads0 = length hs0" "1 + length payload + pad \<le> 44"
      using pads by (auto simp: pads_fit_def list_all2_append1 list_all2_Cons1 list_all2_lengthD)
    have d: "d = 3 + length payload + pad" using last hs p by simp
    let ?pre = "units_bytes hs0 pads0"
    have out: "?out = ?pre @ unit_bytes unit_id lofp payload pad" using hs p units_bytes_snoc [OF p(2)] by simp
    have r: "encode_stuffing ?out p_left d fixed_length = Ret (?pre @ unit_bytes unit_id lofp payload (pad + 1))"
    proof -
      have "encode_stuffing ?out p_left d fixed_length =
          Ret ((?pre @ unit_bytes unit_id lofp payload pad) [length ?pre + 1 := of_nat (2 + length payload + pad)] @ [0xFF])"
        using one nf d p(3) \<open>p_left = 1\<close> unfolding es Let_def by (simp add: out)
      then show ?thesis using unit_bytes_extend [of payload pad ?pre unit_id lofp] p(3) by simp
    qed
    have "pads_fit 255 hs (pads0 @ [pad + 1])"
    proof -
      have "list_all2 (\<lambda>(unit_id, lofp, payload) pad. 1 + length payload + pad \<le> 255) hs0 pads0"
        using fit p(2) by (simp add: pads_fit_def hs p(1) list_all2_append)
      then show ?thesis using p(2,3) by (simp add: hs pads_fit_def list_all2_append)
    qed
    moreover have "units_bytes hs (pads0 @ [pad + 1]) = ?pre @ unit_bytes unit_id lofp payload (pad + 1)"
      using hs units_bytes_snoc [OF p(2)] by simp
    ultimately show ?thesis using r skipped_short [of "[]"] \<open>p_left = 1\<close>
      by (intro exI [of _ "pads0 @ [pad + 1]"] exI [of _ "[]"]) (simp add: out)
  qed
qed

section \<open>The packet\<close>

definition encodable :: "vbi_sliced \<Rightarrow> bool" where
  "encodable s \<longleftrightarrow> (\<exists>n. sliced_unit_size (sl_id s) (sl_line s) = Inr n)"

text \<open>Known line numbers ascend, from behind \<open>l\<close> on.\<close>

primrec ascending :: "u32 \<Rightarrow> vbi_sliced list \<Rightarrow> bool" where
  "ascending l [] = True"
| "ascending l (s # ss) = (if sl_line s = 0 then ascending l ss else l < sl_line s \<and> ascending (sl_line s) ss)"

lemma encodable_lofp:
  assumes "sliced_unit_size service line = Inr n"
  shows "\<exists>lofp. sliced_lofp line last_line = Inr lofp"
proof -
  have "line = 0 \<or> line < 32 \<or> \<not> line < 32 \<and> \<not> line < 313 \<and> line < 345"
    using sliced_unit_sizeD [OF assms] by (auto simp: u32_less_nat)
  then show ?thesis by (auto simp: sliced_lofp_def)
qed

lemma insert_loop_accepts:
  assumes "\<forall>s \<in> set (wanted_lines service_mask ss). encodable s" "ascending l (wanted_lines service_mask ss)"
    "46 * length (wanted_lines service_mask ss) \<le> p_left"
  shows "\<exists>out' d'. insert_loop service_mask fixed_length p_left l d out ss = (None, out', d', [])"
  using assms
proof (induction ss arbitrary: p_left l d out)
  case (Cons s ss)
  show ?case
  proof (cases "sl_id s AND service_mask = 0")
    case True
    then show ?thesis using Cons by (simp add: wanted_lines_def)
  next
    case False
    then have w: "wanted_lines service_mask (s # ss) = s # wanted_lines service_mask ss" by (simp add: wanted_lines_def)
    define ll where "ll = (if 0 < sl_line s then sl_line s else l)"
    obtain n where n: "sliced_unit_size (sl_id s) (sl_line s) = Inr n" using Cons.prems(1) by (auto simp: w encodable_def)
    obtain lofp where lofp: "sliced_lofp (sl_line s) ll = Inr lofp" using encodable_lofp [OF n] by blast
    obtain unit_id payload where pl: "sliced_payload (sl_id s) (sl_data s) = (unit_id, payload)" by force
    define du where "du = (if fixed_length then 2 + 0x2C else n)"
    have du: "du \<le> 46" using sliced_unit_sizeD [OF n] by (auto simp: du_def)
    have order: "\<not> (0 < sl_line s \<and> sl_line s \<le> l)" "ascending ll (wanted_lines service_mask ss)"
      using Cons.prems(2) by (auto simp: w ll_def word_neq_0_conv split: if_splits)
    have "46 * length (wanted_lines service_mask ss) \<le> p_left - du" "\<not> p_left < du" using Cons.prems(3) du by (simp_all add: w)
    then show ?thesis
      using Cons.IH [of ll "p_left - du" du "out @ data_unit du unit_id lofp payload"] Cons.prems(1) False order n lofp pl
      by (simp add: Let_def ll_def [symmetric] du_def [symmetric] w)
  qed
qed simp

lemma multiplex_stuffed:
  assumes ins: "insert_sliced_data_units packet_left sliced service_mask fixed_length = (None, out, d, rest)"
    and "list_all sliced_ok sliced" and "2 \<le> packet_left" and "fixed_length \<longrightarrow> packet_left mod 46 = 0"
  shows "\<exists>hs pads st read. encode_stuffing out (packet_left - length out) d fixed_length = Ret (units_bytes hs pads @ st)
    \<and> pads_fit 255 hs pads \<and> skipped st \<and> length (units_bytes hs pads @ st) = packet_left
    \<and> sliced = read @ rest \<and> extracts hs 0 (wanted_lines service_mask read) \<and> begins hs (wanted_lines service_mask read)"
proof -
  obtain hs pads read where h: "sliced = read @ rest" "out = units_bytes hs pads" "pads_fit 44 hs pads"
      "extracts hs 0 (wanted_lines service_mask read) \<and> begins hs (wanted_lines service_mask read)"
      "\<forall>unit_id lofp payload. hs \<noteq> [] \<and> last hs = (unit_id, lofp, payload) \<longrightarrow> d = 3 + length payload + last pads"
      "length (units_bytes hs pads) \<le> packet_left" "fixed_length \<longrightarrow> 46 dvd length (units_bytes hs pads)"
    using insert_loop_extracts [OF ins [unfolded insert_sliced_data_units_def] assms(2)] by auto
  have m: "fixed_length \<longrightarrow> (packet_left - length out) mod 46 = 0"
    using assms(4) h(2,6,7) by (metis dvd_diff_nat dvd_eq_mod_eq_0)
  have "hs = [] \<longrightarrow> 2 \<le> packet_left - length out" using assms(3) h(2) by simp
  from encode_stuffing_units [OF h(3,5) this m] h(1,2,4,6) show ?thesis by fastforce
qed

text \<open>
  C12. Sliced lines of the services and line numbers that EN 301 775 permits, with ascending known line numbers, survive the
  way through a DVB VBI packet: \<^verbatim>\<open>vbi_dvb_multiplex_sliced\<close> encodes them all into a buffer with 46
  bytes for each line and fills it up with stuffing; \<^verbatim>\<open>_vbi_dvb_demultiplex_sliced\<close> extracts from this buffer the same
  lines in the same order, with their numbers, services and payload, and nothing else. Both layouts of the
  data units are covered, and lines of services that were not requested are left out.
\<close>

theorem dvb_round_trip:
  assumes "list_all sliced_ok sliced" "\<forall>s \<in> set (wanted_lines service_mask sliced). encodable s"
    "ascending 0 (wanted_lines service_mask sliced)" "46 * length (wanted_lines service_mask sliced) \<le> packet_left"
    "2 \<le> packet_left" "fixed_length_format data_identifier \<longrightarrow> packet_left mod 46 = 0"
    "length (wanted_lines service_mask sliced) \<le> length slots"
  shows "\<exists>out. vbi_dvb_multiplex_sliced packet_left sliced service_mask data_identifier True = Ret (True, out, 0, [])
    \<and> length out = packet_left
    \<and> vbi_dvb_demultiplex_sliced slots out =
        Ret (True, map2 delivered (wanted_lines service_mask sliced) slots @ drop (length (wanted_lines service_mask sliced)) slots,
          length (wanted_lines service_mask sliced), [])"
proof -
  let ?fx = "fixed_length_format data_identifier" and ?lines = "wanted_lines service_mask sliced"
  obtain out d where ins: "insert_sliced_data_units packet_left sliced service_mask ?fx = (None, out, d, [])"
    using insert_loop_accepts [OF assms(2-4)] unfolding insert_sliced_data_units_def by blast
  obtain hs pads st where m: "encode_stuffing out (packet_left - length out) d ?fx = Ret (units_bytes hs pads @ st)"
      "pads_fit 255 hs pads" "skipped st" "length (units_bytes hs pads @ st) = packet_left" "extracts hs 0 ?lines"
    using multiplex_stuffed [OF ins assms(1,5,6)] by auto
  let ?f = "\<lparr> fr_sliced = slots, fr_sp = 0, last_field = 0, last_field_line = 0, last_frame_line = 0,
                 last_data_unit_id = 0, n_data_units_extracted_from_packet = 0 \<rparr>"
  have "in_step ?f 0" by (simp add: in_step_def)
  then obtain f1 where f1: "extract_data_units ?f (units_bytes hs pads @ st) = extract_data_units f1 st"
      "fr_sliced f1 = deliver ?lines 0 slots" "fr_sp f1 = length ?lines"
    using m(2,5) assms(7) unfolding extracts_def by fastforce
  obtain f2 where f2: "extract_data_units f1 st = Ret (None, f2, [])" "fr_sliced f2 = fr_sliced f1" "fr_sp f2 = fr_sp f1"
    using m(3) unfolding skipped_def by blast
  have "vbi_dvb_multiplex_sliced packet_left sliced service_mask data_identifier True = Ret (True, units_bytes hs pads @ st, 0, [])"
    using assms(5,6) ins m(1) by (auto simp: vbi_dvb_multiplex_sliced_def Let_def)
  moreover have "vbi_dvb_demultiplex_sliced slots (units_bytes hs pads @ st) =
      Ret (True, map2 delivered ?lines slots @ drop (length ?lines) slots, length ?lines, [])"
    using m(4) assms(5,7) f1 f2 by (simp add: vbi_dvb_demultiplex_sliced_def deliver_eq)
  ultimately show ?thesis using m(4) by blast
qed

definition sample_line :: "u32 \<Rightarrow> u32 \<Rightarrow> vbi_sliced" where
  "sample_line service line = \<lparr> sl_id = service, sl_line = line, sl_data = replicate 56 0x55 \<rparr>"

theorem dvb_round_trip_witness:
  "\<exists>out. vbi_dvb_multiplex_sliced 93 [sample_line VBI_SLICED_TELETEXT_B_L10_625 7, sample_line VBI_SLICED_VPS 16] 7 0x99 True
      = Ret (True, out, 0, []) \<and> length out = 93"
proof -
  have w: "wanted_lines 7 [sample_line VBI_SLICED_TELETEXT_B_L10_625 7, sample_line VBI_SLICED_VPS 16]
      = [sample_line VBI_SLICED_TELETEXT_B_L10_625 7, sample_line VBI_SLICED_VPS 16]"
    by (simp add: wanted_lines_def sample_line_def service_defs)
  have e: "encodable (sample_line VBI_SLICED_TELETEXT_B_L10_625 7)" "encodable (sample_line VBI_SLICED_VPS 16)"
    by (simp_all add: encodable_def sample_line_def sliced_unit_size_def service_defs)
  show ?thesis
    using dvb_round_trip [where sliced = "[sample_line VBI_SLICED_TELETEXT_B_L10_625 7, sample_line VBI_SLICED_VPS 16]"
        and service_mask = 7 and packet_left = 93 and data_identifier = "0x99" and slots = "[sample_line 0 0, sample_line 0 0]"] e
    unfolding w by (auto simp: sliced_ok_def sample_line_def fixed_length_format_def)
qed

text \<open>
  \<^verbatim>\<open>vbi_dvb_multiplex_sliced\<close> is defined for every argument: the assertions of the stuffing function hold. It never stores
  more bytes than the buffer has, accounts for each of them, fills the buffer when stuffing was requested and succeeded,
  and leaves a suffix of the lines unconverted; in the compatible layout it stores whole data units of 46 bytes.
\<close>

theorem dvb_multiplex_bounds:
  assumes "list_all sliced_ok sliced"
  shows "\<exists>ok out left read rest. vbi_dvb_multiplex_sliced packet_left sliced service_mask data_identifier stuffing = Ret (ok, out, left, rest)
    \<and> length out + left = packet_left \<and> sliced = read @ rest
    \<and> (ok \<and> stuffing \<longrightarrow> length out = packet_left)
    \<and> (fixed_length_format data_identifier \<longrightarrow> 46 dvd length out)"
proof -
  let ?fx = "fixed_length_format data_identifier"
  obtain err out d rest where ins: "insert_sliced_data_units packet_left sliced service_mask ?fx = (err, out, d, rest)"
    by (metis prod.exhaust)
  obtain hs pads read where h: "sliced = read @ rest" "out = units_bytes hs pads" "length (units_bytes hs pads) \<le> packet_left"
      "?fx \<longrightarrow> 46 dvd length (units_bytes hs pads)"
    using insert_loop_extracts [OF ins [unfolded insert_sliced_data_units_def] assms] by auto
  show ?thesis
  proof (cases "packet_left < 2 \<or> ?fx \<and> packet_left mod 46 > 0")
    case True
    then show ?thesis by (intro exI [of _ False] exI [of _ "[]"]) (auto simp: vbi_dvb_multiplex_sliced_def Let_def)
  next
    case False
    show ?thesis
    proof (cases "err = None \<and> stuffing")
      case True
      then obtain st hs pads where m: "encode_stuffing out (packet_left - length out) d ?fx = Ret (units_bytes hs pads @ st)"
          "length (units_bytes hs pads @ st) = packet_left"
        using multiplex_stuffed [OF ins [unfolded conjunct1 [OF True]] assms] False by auto
      have "vbi_dvb_multiplex_sliced packet_left sliced service_mask data_identifier stuffing = Ret (True, units_bytes hs pads @ st, 0, rest)"
        using True False ins m(1) by (auto simp: vbi_dvb_multiplex_sliced_def Let_def)
      moreover have "?fx \<longrightarrow> 46 dvd packet_left" using False by (auto simp: dvd_eq_mod_eq_0)
      ultimately show ?thesis using h(1) m(2) by (metis add.right_neutral)
    next
      case no: False
      have "vbi_dvb_multiplex_sliced packet_left sliced service_mask data_identifier stuffing = Ret (err = None, out, packet_left - length out, rest)"
        using no False ins by (auto simp: vbi_dvb_multiplex_sliced_def Let_def)
      moreover have "length out + (packet_left - length out) = packet_left" using h(2,3) by simp
      ultimately show ?thesis using h no by blast
    qed
  qed
qed

theorem dvb_multiplex_bounds_witness:
  "\<exists>ok out left rest. vbi_dvb_multiplex_sliced 92 [sample_line VBI_SLICED_VPS 16] 4 0x10 True = Ret (ok, out, left, rest) \<and> 46 dvd length out"
  using dvb_multiplex_bounds [where sliced = "[sample_line VBI_SLICED_VPS 16]" and packet_left = 92 and service_mask = 4
      and data_identifier = "0x10" and stuffing = True]
  by (auto simp: sliced_ok_def sample_line_def fixed_length_format_def)

section \<open>The demultiplexer on arbitrary bytes\<close>

lemma ascending_snoc:
  "ascending l (ss @ [s]) \<longleftrightarrow> ascending l ss \<and> (sl_line s = 0 \<or> (l < sl_line s \<and> (\<forall>x \<in> set ss. sl_line x < sl_line s)))"
proof (induction ss arbitrary: l)
  case (Cons a ss)
  show ?case
  proof (cases "sl_line a = 0")
    case True
    then show ?thesis using Cons.IH [of l] by (auto simp: word_neq_0_conv)
  next
    case False
    then show ?thesis using Cons.IH [of "sl_line a"] by (auto intro: less_trans)
  qed
qed simp

definition frame_inv :: "nat \<Rightarrow> frame \<Rightarrow> bool" where
  "frame_inv n f \<longleftrightarrow> length (fr_sliced f) = n \<and> fr_sp f \<le> n \<and> list_all sliced_ok (fr_sliced f)
     \<and> ascending 0 (take (fr_sp f) (fr_sliced f)) \<and> last_frame_line f \<le> 344
     \<and> (\<forall>s \<in> set (take (fr_sp f) (fr_sliced f)). unat (sl_line s) \<le> last_frame_line f)"

lemma lofp_to_line_le: "lofp_to_line lofp system = (field, field_line, frame_line) \<Longrightarrow> frame_line \<le> 344"
proof -
  have "lofp AND 31 \<le> 31" by (rule word_and_le1)
  then have "unat (lofp AND 31) \<le> 31" by (simp add: word_le_nat_alt)
  then show "lofp_to_line lofp system = (field, field_line, frame_line) \<Longrightarrow> frame_line \<le> 344"
    by (auto simp: lofp_to_line_def Let_def field_start_def split: systems.splits if_splits)
qed

lemma line_address_inv:
  assumes "line_address f lofp system = Inr f'" "frame_inv n f"
  shows "frame_inv n f'" "frame_inv n (f' \<lparr> fr_sp := fr_sp f' - 1 \<rparr>)" "0 < fr_sp f'"
proof -
  obtain field field_line frame_line where l: "lofp_to_line lofp system = (field, field_line, frame_line)" by (metis prod.exhaust)
  note le = lofp_to_line_le [OF l]
  have room: "fr_sp f < length (fr_sliced f)" using assms(1) by (auto simp: line_address_def split: if_splits)
  define k where "k = (if frame_line = 0 then last_frame_line f else frame_line)"
  have ord: "frame_line \<noteq> 0 \<longrightarrow> last_frame_line f < frame_line"
    using assms(1) room by (auto simp: line_address_def l split: if_splits)
  have f': "fr_sliced f' = (fr_sliced f) [fr_sp f := (fr_sliced f ! fr_sp f) \<lparr> sl_line := of_nat frame_line \<rparr>]"
    "fr_sp f' = Suc (fr_sp f)" "last_frame_line f' = k"
    using assms(1) room by (auto simp: line_address_def l take_slot_def k_def split: if_splits)
  have u: "unat (of_nat frame_line :: u32) = frame_line" using le by (simp add: unsigned_of_nat take_bit_nat_eq_self)
  have ok: "list_all sliced_ok (fr_sliced f')"
    using assms(2) room by (auto simp: frame_inv_def f'(1) list_all_length nth_list_update sliced_ok_def)
  have t: "take (Suc (fr_sp f)) (fr_sliced f') = take (fr_sp f) (fr_sliced f) @ [(fr_sliced f ! fr_sp f) \<lparr> sl_line := of_nat frame_line \<rparr>]"
    using room by (simp add: f'(1) take_Suc_conv_app_nth)
  have lt: "\<forall>s \<in> set (take (fr_sp f) (fr_sliced f)). unat (sl_line s) \<le> last_frame_line f" and k: "last_frame_line f \<le> k"
    using assms(2) ord by (auto simp: frame_inv_def k_def)
  have "ascending 0 (take (Suc (fr_sp f)) (fr_sliced f'))"
  proof (cases "frame_line = 0")
    case True
    then show ?thesis using assms(2) by (simp add: t ascending_snoc frame_inv_def)
  next
    case False
    then have "\<forall>s \<in> set (take (fr_sp f) (fr_sliced f)). sl_line s < of_nat frame_line" "0 < (of_nat frame_line :: u32)"
      using lt ord by (fastforce simp: u32_less_nat u)+
    then show ?thesis using assms(2) by (simp add: t ascending_snoc frame_inv_def)
  qed
  moreover have "\<forall>s \<in> set (take (Suc (fr_sp f)) (fr_sliced f')). unat (sl_line s) \<le> k"
    using lt k by (auto simp: t u k_def)
  moreover have "k \<le> 344" using assms(2) le by (simp add: k_def frame_inv_def)
  ultimately show "frame_inv n f'" using ok room assms(2) by (simp add: frame_inv_def f')
  have "take (fr_sp f) (fr_sliced f') = take (fr_sp f) (fr_sliced f)" by (simp add: f'(1))
  then show "frame_inv n (f' \<lparr> fr_sp := fr_sp f' - 1 \<rparr>)"
    using ok room assms(2) lt k \<open>k \<le> 344\<close> by (force simp: frame_inv_def f'(2,3) f'(1))
  show "0 < fr_sp f'" by (simp add: f'(2))
qed

lemma ascending_cong: "map sl_line xs = map sl_line ys \<Longrightarrow> ascending l xs = ascending l ys"
proof (induction xs arbitrary: ys l)
  case (Cons a xs)
  then obtain b ys' where "ys = b # ys'" "sl_line b = sl_line a" "map sl_line xs = map sl_line ys'" by (cases ys) simp_all
  then show ?case using Cons.IH [of ys'] by simp
qed simp

lemma store_inv:
  assumes "frame_inv n f" "0 < fr_sp f" "length bytes \<le> 56"
  shows "frame_inv n (store service bytes f)"
proof -
  have sp: "fr_sp f - 1 < length (fr_sliced f)" using assms(1,2) by (auto simp: frame_inv_def)
  have lines: "map sl_line (take k (fr_sliced (store service bytes f))) = map sl_line (take k (fr_sliced f))" for k
    using sp by (intro nth_equalityI) (auto simp: store_def slot_def nth_list_update)
  have set_map: "(\<forall>s \<in> set xs. unat (sl_line s) \<le> m) = (\<forall>x \<in> set (map sl_line xs). unat x \<le> m)" for xs m by simp
  have bnd: "(\<forall>s \<in> set xs. unat (sl_line s) \<le> m) = (\<forall>s \<in> set ys. unat (sl_line s) \<le> m)" if "map sl_line xs = map sl_line ys" for xs ys m
    unfolding set_map that ..
  have ok: "list_all sliced_ok (fr_sliced (store service bytes f))"
    using assms(1,3) sp by (auto simp: frame_inv_def store_def slot_def list_all_length nth_list_update sliced_ok_def)
  show ?thesis
    using assms(1) ok ascending_cong [OF lines] bnd [OF lines] by (simp add: frame_inv_def) (simp add: store_def)
qed

lemma demux_line_inv:
  assumes "frame_inv m f" "pos + n \<le> length p" "3 \<le> pos" "n \<le> 56"
  shows "\<exists>err f'. demux_line system line_ok service pos n conv f p = Ret (err, f') \<and> frame_inv m f'"
proof (cases "line_address f (p ! 2) system")
  case (Inl err)
  then show ?thesis using assms by (simp add: demux_line_def)
next
  case (Inr f1)
  note inv = line_address_inv [OF Inr assms(1)]
  have "frame_inv m (store (service f1) (map conv (take n (drop pos p))) f1)" using assms(4) by (intro store_inv inv) simp
  then show ?thesis using assms inv(2) Inr by (auto simp: demux_line_def c_block_def)
qed

lemma demux_unit_inv:
  assumes "frame_inv m f" "2 + l \<le> length p"
  shows "\<exists>err f'. demux_unit f p unit_id l = Ret (err, f') \<and> frame_inv m f'"
proof -
  have t: "44 \<le> l \<Longrightarrow> \<exists>err f'. c_bind (c_read p 3) (\<lambda>framing_code. if 0xE4 \<noteq> framing_code then Ret (None, f)
      else demux_line SYSTEM_625 ttx_line_ok (\<lambda>_. VBI_SLICED_TELETEXT_B_625) 4 42 rev8 f p) = Ret (err, f') \<and> frame_inv m f'"
    using assms demux_line_inv [OF assms(1), of 4 42 p] by simp
  show ?thesis
    unfolding demux_unit_def Let_def
    using assms t by (auto intro!: demux_line_inv simp del: c_bind_simps)
qed

lemma extract_inv:
  "frame_inv m f \<Longrightarrow> \<exists>err f' rest read. extract_data_units f p = Ret (err, f', rest) \<and> frame_inv m f' \<and> p = read @ rest
    \<and> (err = None \<longrightarrow> rest = []) \<and> (err \<noteq> None \<longrightarrow> 2 < length rest)"
proof (induction f p rule: extract_data_units.induct)
  case (1 f p)
  show ?case
  proof (cases "2 < length p \<and> \<not> length p < unat (p ! 1) + 2")
    case False
    then show ?thesis using "1.prems" by (subst extract_data_units.simps) auto
  next
    case True
    then have "2 + unat (p ! 1) \<le> length p" by simp
    then obtain err f1 where u: "demux_unit f p (p ! 0) (unat (p ! 1)) = Ret (err, f1)" "frame_inv m f1"
      using demux_unit_inv [OF "1.prems"] by blast
    show ?thesis
    proof (cases "err = None")
      case no: False
      then show ?thesis using True u by (subst extract_data_units.simps) auto
    next
      case ok: True
      let ?f = "f1 \<lparr> last_data_unit_id := p ! 0 \<rparr>" and ?q = "drop (unat (p ! 1) + 2) p"
      have "frame_inv m ?f" using u(2) by (simp add: frame_inv_def)
      then obtain err' f' rest read where r: "extract_data_units ?f ?q = Ret (err', f', rest)" "frame_inv m f'" "?q = read @ rest"
          "err' = None \<longrightarrow> rest = []" "err' \<noteq> None \<longrightarrow> 2 < length rest"
        using "1.IH" True ok by fastforce
      have "extract_data_units f p = Ret (err', f', rest)"
        using True u(1) ok r(1) by (subst extract_data_units.simps) simp
      moreover have "p = (take (unat (p ! 1) + 2) p @ read) @ rest" using r(3) by (metis append.assoc append_take_drop_id)
      ultimately show ?thesis using r(2,4,5) by blast
    qed
  qed
qed



end
