(* ===== verification/Dvb_Pes_Demux.thy ===== *)
theory Dvb_Pes_Demux
  imports Dvb_Demux
begin

text \<open>
  The PES layer of the DVB VBI demultiplexer, \<^verbatim>\<open>vbi/src/dvb_demux.c\<close>: the wrap-around buffer, the search for
  packet headers, the check of headers, and the assembly of frames from packets. The TS layer is not modelled.
\<close>

section \<open>The wrap-around buffer\<close>

text \<open>
  \<open>wr_left\<close> are the unconsumed bytes, the last \<^verbatim>\<open>leftover\<close> bytes before \<^verbatim>\<open>bp\<close>; \<^verbatim>\<open>consume\<close> is always zero.
\<close>

record wrap =
  wr_left :: "u8 list"
  wr_skip :: nat
  wr_lookahead :: nat

text \<open>
  The source is a buffer \<open>buf\<close> with the position \<open>pos\<close> of \<^verbatim>\<open>*src\<close>, so that \<^verbatim>\<open>*src_left\<close> is \<open>length buf - pos\<close> and
  \<^verbatim>\<open>src_size\<close> is \<open>length buf\<close>. The result has the bytes from \<^verbatim>\<open>*dst\<close> on and the distance of \<^verbatim>\<open>*scan_end\<close> from there.
  Reading before the begin of the source buffer is undefined.
\<close>

type_synonym view = "u8 list \<times> nat"

definition wrap_take :: "wrap \<Rightarrow> u8 list \<Rightarrow> nat \<Rightarrow> (view option \<times> wrap \<times> nat) c_result" where
  "wrap_take w buf pos =
     (let leftover = length (wr_left w); src_left = length buf - pos; available = leftover + src_left; required = wr_lookahead w
      in if available < required \<or> length buf < available
         then if leftover < required
              then let required = required - leftover
                   in if src_left < required then Ret (None, w \<lparr> wr_left := wr_left w @ drop pos buf \<rparr>, length buf)
                      else let left = wr_left w @ take required (drop pos buf)
                           in Ret (Some (left, 0), w \<lparr> wr_left := left \<rparr>, pos + required)
              else Ret (Some (wr_left w, leftover - wr_lookahead w), w, pos)
         else if pos < leftover then Undef
         else Ret (Some (drop (pos - leftover) buf, available - wr_lookahead w), w, pos))"

definition wrap_around :: "wrap \<Rightarrow> u8 list \<Rightarrow> nat \<Rightarrow> (view option \<times> wrap \<times> nat) c_result" where
  "wrap_around w buf pos =
     (if wr_skip w > 0
      then if length (wr_left w) < wr_skip w
           then let skip = wr_skip w - length (wr_left w)
                in if length buf - pos < skip
                   then Ret (None, w \<lparr> wr_left := [], wr_skip := skip - (length buf - pos) \<rparr>, length buf)
                   else wrap_take (w \<lparr> wr_left := [], wr_skip := 0 \<rparr>) buf (pos + skip)
           else wrap_take (w \<lparr> wr_left := drop (wr_skip w) (wr_left w), wr_skip := 0 \<rparr>) buf pos
      else wrap_take w buf pos)"

text \<open>
  The bytes left over end with those read from the present source buffer, as far as they go back.
\<close>

definition wrap_ok :: "wrap \<Rightarrow> u8 list \<Rightarrow> nat \<Rightarrow> bool" where
  "wrap_ok w buf pos \<longleftrightarrow> pos \<le> length buf \<and>
     drop (length (wr_left w) - pos) (wr_left w) = drop (pos - length (wr_left w)) (take pos buf)"

text \<open>The bytes not consumed yet.\<close>

definition wrap_stream :: "wrap \<Rightarrow> u8 list \<Rightarrow> nat \<Rightarrow> u8 list" where
  "wrap_stream w buf pos = wr_left w @ drop pos buf"

lemma wrap_ok_drop:
  assumes "wrap_ok w buf pos" "n \<le> length (wr_left w)"
  shows "wrap_ok (w \<lparr> wr_left := drop n (wr_left w), wr_skip := 0 \<rparr>) buf pos"
proof -
  let ?l = "length (wr_left w)"
  let ?k = "n - (?l - pos)"
  have "drop ?k (drop (?l - pos) (wr_left w)) = drop ?k (drop (pos - ?l) (take pos buf))" using assms(1) by (simp add: wrap_ok_def)
  moreover have "?k + (?l - pos) = ?l - n - pos + n" "?k + (pos - ?l) = pos - (?l - n)" using assms(2) by auto
  ultimately show ?thesis using assms(1) by (simp add: wrap_ok_def)
qed

lemma wrap_ok_fill:
  assumes "wrap_ok w buf pos" "pos + n \<le> length buf"
  shows "wrap_ok (w \<lparr> wr_left := wr_left w @ take n (drop pos buf) \<rparr>) buf (pos + n)"
proof -
  have "take (pos + n) buf = take pos buf @ take n (drop pos buf)" by (rule take_add)
  then show ?thesis using assms by (simp add: wrap_ok_def)
qed

lemma wrap_take_Some:
  assumes "wrap_ok w buf pos" "wrap_take w buf pos = Ret (Some (v, d), w', pos')"
  shows "w' = w \<lparr> wr_left := wr_left w' \<rparr>" "wrap_ok w' buf pos'" "wrap_stream w' buf pos' = wrap_stream w buf pos"
    "v = take (wr_lookahead w + d) (wrap_stream w buf pos)" "length v = wr_lookahead w + d"
proof -
  have ok: "pos \<le> length buf" using assms(1) by (simp add: wrap_ok_def)
  have view: "drop (pos - length (wr_left w)) buf = wrap_stream w buf pos" if "length (wr_left w) \<le> pos"
  proof -
    have "wr_left w = drop (pos - length (wr_left w)) (take pos buf)" using assms(1) that by (simp add: wrap_ok_def)
    moreover have "drop (pos - length (wr_left w)) buf = drop (pos - length (wr_left w)) (take pos buf @ drop pos buf)" by simp
    ultimately show ?thesis using that ok by (simp add: wrap_stream_def del: append_take_drop_id)
  qed
  show "w' = w \<lparr> wr_left := wr_left w' \<rparr>" using assms(2) by (auto simp: wrap_take_def Let_def split: if_splits)
  have "wrap_ok (w \<lparr> wr_left := wr_left w @ take (wr_lookahead w - length (wr_left w)) (drop pos buf) \<rparr>) buf
      (pos + wr_lookahead w - length (wr_left w))"
    if "length (wr_left w) < wr_lookahead w" "\<not> length buf - pos < wr_lookahead w - length (wr_left w)"
    using wrap_ok_fill [OF assms(1), of "wr_lookahead w - length (wr_left w)"] that ok by simp
  then show "wrap_ok w' buf pos'" using assms by (auto simp: wrap_take_def Let_def split: if_splits)
  have "take (wr_lookahead w - length (wr_left w)) (drop pos buf) @ drop (pos + wr_lookahead w - length (wr_left w)) buf = drop pos buf"
    if "length (wr_left w) < wr_lookahead w"
    using append_take_drop_id [of "wr_lookahead w - length (wr_left w)" "drop pos buf"] that by (simp add: add.commute)
  then show "wrap_stream w' buf pos' = wrap_stream w buf pos" using assms(2)
    by (auto simp: wrap_take_def wrap_stream_def Let_def split: if_splits)
  show "v = take (wr_lookahead w + d) (wrap_stream w buf pos)" "length v = wr_lookahead w + d" using assms(2) ok view
    by (auto simp: wrap_take_def wrap_stream_def Let_def split: if_splits)
qed

lemma wrap_take_None:
  assumes "wrap_take w buf pos = Ret (None, w', pos')" "pos \<le> length buf"
  shows "w' = w \<lparr> wr_left := wrap_stream w buf pos \<rparr>" "pos' = length buf" "length (wrap_stream w buf pos) < wr_lookahead w"
  using assms by (auto simp: wrap_take_def wrap_stream_def Let_def split: if_splits)

lemma wrap_take_safe: "wrap_ok w buf pos \<Longrightarrow> wrap_take w buf pos \<noteq> Undef"
  by (auto simp: wrap_take_def wrap_ok_def Let_def split: if_splits)

text \<open>What is left of a stream that ends before the bytes to skip and to look at.\<close>

definition wrap_settle :: "wrap \<Rightarrow> u8 list \<Rightarrow> wrap" where
  "wrap_settle w stream =
     (if length stream < wr_skip w then w \<lparr> wr_left := [], wr_skip := wr_skip w - length stream \<rparr>
      else w \<lparr> wr_left := drop (wr_skip w) stream, wr_skip := 0 \<rparr>)"

lemma wrap_ok_skip:
  assumes "wrap_ok w buf pos" "length (wr_left w) < wr_skip w" "\<not> length buf - pos < wr_skip w - length (wr_left w)"
  shows "wrap_ok (w \<lparr> wr_left := [], wr_skip := 0 \<rparr>) buf (pos + wr_skip w - length (wr_left w))"
  using assms by (auto simp: wrap_ok_def)

lemma wrap_stream_skip:
  assumes "wr_skip w \<le> length (wr_left w)"
  shows "wrap_stream (w \<lparr> wr_left := drop (wr_skip w) (wr_left w), wr_skip := 0 \<rparr>) buf pos = drop (wr_skip w) (wrap_stream w buf pos)"
  using assms by (simp add: wrap_stream_def)

lemma wrap_stream_skip_all:
  assumes "length (wr_left w) < wr_skip w"
  shows "wrap_stream (w \<lparr> wr_left := [], wr_skip := 0 \<rparr>) buf (pos + wr_skip w - length (wr_left w)) = drop (wr_skip w) (wrap_stream w buf pos)"
  using assms by (simp add: wrap_stream_def add.commute)

lemma wrap_around_cases:
  assumes "wrap_ok w buf pos"
  obtains (out) "length (wrap_stream w buf pos) < wr_skip w"
      "wrap_around w buf pos = Ret (None, wrap_settle w (wrap_stream w buf pos), length buf)"
  | (take) w1 pos1 where "wr_skip w \<le> length (wrap_stream w buf pos)" "wrap_around w buf pos = wrap_take w1 buf pos1"
      "wrap_ok w1 buf pos1" "wrap_stream w1 buf pos1 = drop (wr_skip w) (wrap_stream w buf pos)"
      "w1 = w \<lparr> wr_left := wr_left w1, wr_skip := 0 \<rparr>"
proof -
  have pos: "pos \<le> length buf" using assms by (simp add: wrap_ok_def)
  show thesis
  proof (cases "length (wr_left w) < wr_skip w")
    case True
    show thesis
    proof (cases "length buf - pos < wr_skip w - length (wr_left w)")
      case no: True
      then show thesis using True pos out by (simp add: wrap_around_def wrap_settle_def wrap_stream_def Let_def)
    next
      case False
      then show thesis using True pos take [OF _ _ wrap_ok_skip [OF assms True False] wrap_stream_skip_all [OF True]]
        by (simp add: wrap_around_def wrap_stream_def Let_def)
    qed
  next
    case False
    then have le: "wr_skip w \<le> length (wr_left w)" by simp
    have same: "w \<lparr> wr_skip := 0 \<rparr> = w" if "wr_skip w = 0" using that by (cases w) simp
    have "wrap_around w buf pos = wrap_take (w \<lparr> wr_left := drop (wr_skip w) (wr_left w), wr_skip := 0 \<rparr>) buf pos"
      using False by (cases "wr_skip w = 0") (simp_all add: wrap_around_def same)
    then show thesis using le take [OF _ _ wrap_ok_drop [OF assms le] wrap_stream_skip [OF le]] by (simp add: wrap_stream_def)
  qed
qed

lemma wrap_around_Some:
  assumes "wrap_ok w buf pos" "wrap_around w buf pos = Ret (Some (v, d), w', pos')"
  shows "w' = w \<lparr> wr_left := wr_left w', wr_skip := 0 \<rparr>" "wrap_ok w' buf pos'"
    "wrap_stream w' buf pos' = drop (wr_skip w) (wrap_stream w buf pos)"
    "v = take (wr_lookahead w + d) (wrap_stream w' buf pos')" "length v = wr_lookahead w + d"
    "wr_skip w \<le> length (wrap_stream w buf pos)"
proof -
  obtain w1 pos1 where w1: "wr_skip w \<le> length (wrap_stream w buf pos)" "wrap_take w1 buf pos1 = Ret (Some (v, d), w', pos')"
    "wrap_ok w1 buf pos1" "wrap_stream w1 buf pos1 = drop (wr_skip w) (wrap_stream w buf pos)"
    "w1 = w \<lparr> wr_left := wr_left w1, wr_skip := 0 \<rparr>"
    using assms(2) by (cases rule: wrap_around_cases [OF assms(1)]) auto
  have la: "wr_lookahead w1 = wr_lookahead w" by (subst w1(5)) simp
  note s = wrap_take_Some [OF w1(3,2)]
  show "w' = w \<lparr> wr_left := wr_left w', wr_skip := 0 \<rparr>" by (subst s(1), subst w1(5)) simp
  show "wrap_ok w' buf pos'" "wrap_stream w' buf pos' = drop (wr_skip w) (wrap_stream w buf pos)"
    "v = take (wr_lookahead w + d) (wrap_stream w' buf pos')" "length v = wr_lookahead w + d"
    "wr_skip w \<le> length (wrap_stream w buf pos)"
    using s w1(1,4) la by auto
qed

lemma wrap_around_None:
  assumes "wrap_ok w buf pos" "wrap_around w buf pos = Ret (None, w', pos')"
  shows "w' = wrap_settle w (wrap_stream w buf pos)" "pos' = length buf" "length (wrap_stream w buf pos) < wr_skip w + wr_lookahead w"
proof -
  have "w' = wrap_settle w (wrap_stream w buf pos) \<and> pos' = length buf \<and> length (wrap_stream w buf pos) < wr_skip w + wr_lookahead w"
    using assms(1)
  proof (cases rule: wrap_around_cases)
    case out
    then show ?thesis using assms(2) by auto
  next
    case (take w1 pos1)
    have la: "wr_lookahead w1 = wr_lookahead w" by (subst take(5)) simp
    have "w' = w1 \<lparr> wr_left := drop (wr_skip w) (wrap_stream w buf pos) \<rparr>" "pos' = length buf"
      "length (drop (wr_skip w) (wrap_stream w buf pos)) < wr_lookahead w"
      using wrap_take_None [of w1 buf pos1 w' pos'] take assms la by (auto simp: wrap_ok_def)
    moreover have "w1 \<lparr> wr_left := x \<rparr> = w \<lparr> wr_left := x, wr_skip := 0 \<rparr>" for x by (subst take(5)) simp
    ultimately show ?thesis using take(1) by (simp add: wrap_settle_def)
  qed
  then show "w' = wrap_settle w (wrap_stream w buf pos)" "pos' = length buf"
    "length (wrap_stream w buf pos) < wr_skip w + wr_lookahead w" by auto
qed

lemma wrap_around_safe: "wrap_ok w buf pos \<Longrightarrow> wrap_around w buf pos \<noteq> Undef"
  by (cases rule: wrap_around_cases, assumption) (auto dest: wrap_take_safe)

section \<open>The demultiplexer\<close>

type_synonym pts = "64 word"

record vbi_dvb_demux =
  pes_wrap :: wrap
  dx_frame :: frame
  frame_pts :: pts
  packet_pts :: pts
  new_frame :: bool

text \<open>
  A callback gets the lines of a frame and its PTS, and may refuse them; \<open>None\<close> is a \<^verbatim>\<open>NULL\<close> callback.
\<close>

type_synonym 'u dvb_cb = "(vbi_sliced list \<Rightarrow> pts \<Rightarrow> 'u \<Rightarrow> bool \<times> 'u) option"

definition PES_HEADER_LOOKAHEAD :: nat where "PES_HEADER_LOOKAHEAD = 48"
definition PRIVATE_STREAM_1 :: u8 where "PRIVATE_STREAM_1 = 0xBD"

definition vbi_dvb_demux_reset :: "vbi_sliced list \<Rightarrow> vbi_dvb_demux" where
  "vbi_dvb_demux_reset sliced =
     \<lparr> pes_wrap = \<lparr> wr_left = [], wr_skip = 0, wr_lookahead = PES_HEADER_LOOKAHEAD \<rparr>,
       dx_frame = \<lparr> fr_sliced = sliced, fr_sp = 0, last_field = 0, last_field_line = 0, last_frame_line = 0,
                    last_data_unit_id = 0, n_data_units_extracted_from_packet = 0 \<rparr>,
       frame_pts = 0, packet_pts = 0, new_frame = True \<rparr>"

text \<open>The PTS in the five bytes from \<^verbatim>\<open>p[9]\<close> on; a wrong mark is accepted.\<close>

definition decode_timestamp :: "u8 list \<Rightarrow> pts" where
  "decode_timestamp p =
     (let t = push_bit 22 (ucast (p ! 1)) OR push_bit 14 (ucast (p ! 2) AND NOT 1) OR push_bit 7 (ucast (p ! 3))
              OR drop_bit 1 (ucast (p ! 4)) :: u32
      in ucast t OR push_bit 29 (ucast (p ! 0) AND 0x0E))"

text \<open>\<open>h\<close> are the 46 bytes of the header with the data_identifier.\<close>

definition valid_vbi_pes_packet_header :: "vbi_dvb_demux \<Rightarrow> u8 list \<Rightarrow> bool \<times> vbi_dvb_demux" where
  "valid_vbi_pes_packet_header dx h =
     (if h ! 8 \<noteq> 36 then (False, dx)
      else if \<not> ((0x10 \<le> h ! 45 \<and> h ! 45 \<le> 0x1F) \<or> (0x99 \<le> h ! 45 \<and> h ! 45 \<le> 0x9B)) then (False, dx)
      else if h ! 6 AND 0xF4 \<noteq> 0x84 then (False, dx)
      else if drop_bit 6 (h ! 7) = 2 \<or> drop_bit 6 (h ! 7) = 3
      then (True, dx \<lparr> packet_pts := decode_timestamp (drop 9 h) \<rparr>)
      else if new_frame dx then (False, dx) else (True, dx))"

definition begin_frame :: "vbi_dvb_demux \<Rightarrow> vbi_dvb_demux" where
  "begin_frame dx =
     (if new_frame dx
      then dx \<lparr> dx_frame := reset_frame (dx_frame dx), frame_pts := packet_pts dx, new_frame := False \<rparr> else dx)"

definition frame_lines :: "frame \<Rightarrow> vbi_sliced list" where
  "frame_lines f = take (fr_sp f) (fr_sliced f)"

lemma demux_unit_new_frame:
  assumes "demux_unit f p unit_id l = Ret (Some NEW_FRAME, f')" "last_data_unit_id f = 0" "last_frame_line f = 0"
  shows False
proof -
  have addr: "line_address f lofp system \<noteq> Inl NEW_FRAME" for lofp system
    using assms(2,3) by (auto simp: line_address_def split: prod.splits)
  have line: "demux_line system line_ok service pos n conv f q \<noteq> Ret (Some NEW_FRAME, f')" for system line_ok service pos n conv q
    using addr by (auto simp: demux_line_def c_bind_eq_Ret split: sum.splits if_splits)
  show False using assms(1) line
    by (auto simp: demux_unit_def Let_def c_bind_eq_Ret split: if_splits)
qed

lemma extract_suffix: "extract_data_units f p = Ret (err, f', rest) \<Longrightarrow> length rest \<le> length p"
proof (induction f p rule: extract_data_units.induct)
  case (1 f p)
  show ?case
  proof (cases "2 < length p \<and> \<not> length p < unat (p ! 1) + 2")
    case False
    then show ?thesis using "1.prems" by (subst (asm) extract_data_units.simps) (auto split: if_splits)
  next
    case True
    then obtain err1 f1 where u: "demux_unit f p (p ! 0) (unat (p ! 1)) = Ret (err1, f1)"
      using "1.prems" by (subst (asm) extract_data_units.simps) (auto simp: c_bind_eq_Ret)
    show ?thesis
    proof (cases "err1 = None")
      case True
      then have "extract_data_units (f1 \<lparr> last_data_unit_id := p ! 0 \<rparr>) (drop (unat (p ! 1) + 2) p) = Ret (err, f', rest)"
        using "1.prems" u \<open>2 < length p \<and> \<not> length p < unat (p ! 1) + 2\<close> by (subst (asm) extract_data_units.simps) simp
      then show ?thesis using "1.IH" \<open>2 < length p \<and> \<not> length p < unat (p ! 1) + 2\<close> True by fastforce
    next
      case no: False
      then show ?thesis using "1.prems" u True by (subst (asm) extract_data_units.simps) auto
    qed
  qed
qed

lemma extract_new_frame_fresh:
  assumes "extract_data_units f p = Ret (Some NEW_FRAME, f', rest)" "last_data_unit_id f = 0" "last_frame_line f = 0"
  shows "length rest < length p"
proof (cases "2 < length p \<and> \<not> length p < unat (p ! 1) + 2")
  case False
  then show ?thesis using assms by (subst (asm) extract_data_units.simps) (auto split: if_splits)
next
  case True
  then obtain err1 f1 where u: "demux_unit f p (p ! 0) (unat (p ! 1)) = Ret (err1, f1)"
    using assms(1) by (subst (asm) extract_data_units.simps) (auto simp: c_bind_eq_Ret)
  have "err1 = None"
  proof (rule ccontr)
    assume "err1 \<noteq> None"
    then have "err1 = Some NEW_FRAME" using assms(1) u True by (subst (asm) extract_data_units.simps) auto
    then show False using demux_unit_new_frame [OF _ assms(2,3)] u by blast
  qed
  then have "extract_data_units (f1 \<lparr> last_data_unit_id := p ! 0 \<rparr>) (drop (unat (p ! 1) + 2) p) = Ret (Some NEW_FRAME, f', rest)"
    using assms(1) u True by (subst (asm) extract_data_units.simps) simp
  then have "length rest \<le> length (drop (unat (p ! 1) + 2) p)" by (rule extract_suffix)
  also have "\<dots> < length p" using True by auto
  finally show ?thesis .
qed

lemma frame_progress:
  assumes "extract_data_units (dx_frame (begin_frame dx)) src = Ret (Some NEW_FRAME, f, rest)"
  shows "length rest \<le> length src \<and> (new_frame dx \<longrightarrow> length rest < length src)"
  using extract_suffix [OF assms] extract_new_frame_fresh [OF assms] by (auto simp: begin_frame_def reset_frame_def)

text \<open>
  The lines of a packet. A frame is complete when the next one begins; the loop terminates because a
  context that was reset accepts the data unit the loop was stopped at. The assertion is the one at the begin of
  \<^verbatim>\<open>extract_data_units\<close>.
\<close>

declare c_bind_cong [fundef_cong]

function demux_pes_packet_frame ::
  "'u dvb_cb \<Rightarrow> vbi_dvb_demux \<Rightarrow> 'u \<Rightarrow> u8 list \<Rightarrow> (dvb_demux_error option \<times> vbi_dvb_demux \<times> 'u \<times> u8 list) c_result" where
  "demux_pes_packet_frame callback dx u src =
     (if length src < 2 then Undef
      else let dx = begin_frame dx
        in c_bind (extract_data_units (dx_frame dx) src) (\<lambda>(err, f, src).
             if err \<noteq> Some NEW_FRAME then Ret (err, dx \<lparr> dx_frame := f \<rparr>, u, src)
             else let dx = dx \<lparr> dx_frame := f, new_frame := True \<rparr>
               in case callback of
                    None \<Rightarrow> Ret (Some VBI_ERR_CALLBACK, dx, u, src)
                  | Some call \<Rightarrow>
                      (case call (frame_lines f) (frame_pts dx) u of (ok, u) \<Rightarrow>
                         if \<not> ok then Ret (Some VBI_ERR_CALLBACK, dx, u, src)
                         else demux_pes_packet_frame callback dx u src)))"
  by pat_completeness auto
termination
  by (relation "measure (\<lambda>(_, dx, _, src). 2 * length src + (if new_frame dx then 0 else 1))")
    (auto dest!: frame_progress)

declare demux_pes_packet_frame.simps [simp del]

text \<open>
  The search for the start code of a packet, \<open>i\<close> the index of \<^verbatim>\<open>p\<close> in the bytes from \<^verbatim>\<open>scan_begin\<close> on.
  The bytes to skip, or the position of a VBI packet.
\<close>

function scan :: "u8 list \<Rightarrow> nat \<Rightarrow> nat \<Rightarrow> (nat + nat) c_result" where
  "scan v scan_end i =
     c_bind (c_block v i 6) (\<lambda>p.
       if p ! 2 AND NOT 1 \<noteq> 0
       then if scan_end \<le> i + 3 then Ret (Inl (i + 3)) else scan v scan_end (i + 3)
       else if 0 \<noteq> p ! 0 OR p ! 1 \<or> 1 \<noteq> p ! 2
       then if scan_end \<le> i + 1 then Ret (Inl (i + 1)) else scan v scan_end (i + 1)
       else if PRIVATE_STREAM_1 = p ! 3 then Ret (Inr i)
       else if p ! 3 < 0xBC
       then if scan_end \<le> i + 1 then Ret (Inl (i + 1)) else scan v scan_end (i + 1)
       else Ret (Inl (i + 6 + (unat (p ! 4) * 256 + unat (p ! 5)))))"
  by pat_completeness auto
termination
  by (relation "measure (\<lambda>(v, e, i). e - i)") (auto split: if_splits)

declare scan.simps [simp del]

lemma scan_forward: "scan v scan_end i = Ret (Inl j) \<Longrightarrow> i < j"
proof (induction "scan_end - i" arbitrary: i rule: less_induct)
  case less
  have step: "i < j" if "scan v scan_end k = Ret (Inl j)" "\<not> scan_end \<le> k" "i < k" for k
  proof -
    have "scan_end - k < scan_end - i" using that by arith
    then show ?thesis using less.hyps that by fastforce
  qed
  show ?case using less.prems step [of "i + 1"] step [of "i + 3"]
    by (subst (asm) scan.simps) (auto simp: c_bind_eq_Ret Let_def split: if_splits)
qed

lemma wrap_take_total:
  "wrap_take w buf pos = Ret (Some view, w', pos') \<Longrightarrow>
    length (wr_left w') + (length buf - pos') = length (wr_left w) + (length buf - pos) \<and> wr_skip w' = wr_skip w \<and> wr_lookahead w' = wr_lookahead w"
  by (auto simp: wrap_take_def Let_def split: if_splits)

lemma wrap_around_total:
  assumes "wrap_around w buf pos = Ret (Some view, w', pos')"
  shows "length (wr_left w') + (length buf - pos') + wr_skip w = length (wr_left w) + (length buf - pos)
    \<and> wr_skip w' = 0 \<and> wr_lookahead w' = wr_lookahead w"
  using assms by (auto simp: wrap_around_def Let_def split: if_splits dest!: wrap_take_total)

text \<open>
  The main loop. The bytes to skip move from the context to the stream with each \<^verbatim>\<open>wrap_around\<close>, and every turn
  finds some to skip.
\<close>

function demux_pes_packet ::
  "'u dvb_cb \<Rightarrow> vbi_dvb_demux \<Rightarrow> 'u \<Rightarrow> u8 list \<Rightarrow> nat \<Rightarrow> (dvb_demux_error option \<times> vbi_dvb_demux \<times> 'u \<times> nat) c_result" where
  "demux_pes_packet callback dx u buf pos =
     c_bind (wrap_around (pes_wrap dx) buf pos) (\<lambda>(view, w, pos).
       case view of
         None \<Rightarrow> Ret (None, dx \<lparr> pes_wrap := w \<rparr>, u, pos)
       | Some (p, scan_end) \<Rightarrow>
          if PES_HEADER_LOOKAHEAD < wr_lookahead w
          then c_bind (c_block p 0 (wr_lookahead w)) (\<lambda>src.
               c_bind (demux_pes_packet_frame callback
                  (dx \<lparr> pes_wrap := w, dx_frame := (dx_frame dx) \<lparr> n_data_units_extracted_from_packet := 0 \<rparr> \<rparr>) u src)
                 (\<lambda>(err, dx, u, _).
                   if err = Some VBI_ERR_CALLBACK then Ret (err, dx, u, pos)
                   else let dx = (if err = Some NEW_FRAME then dx \<lparr> new_frame := True \<rparr> else dx)
                     in demux_pes_packet callback
                          (dx \<lparr> pes_wrap := w \<lparr> wr_skip := wr_lookahead w, wr_lookahead := PES_HEADER_LOOKAHEAD \<rparr> \<rparr>) u buf pos))
          else c_bind (scan p scan_end 0) (\<lambda>found.
            case found of
              Inl skip \<Rightarrow> demux_pes_packet callback (dx \<lparr> pes_wrap := w \<lparr> wr_skip := skip \<rparr> \<rparr>) u buf pos
            | Inr i \<Rightarrow>
               c_bind (c_block p i 46) (\<lambda>h.
                 let packet_length = unat (h ! 4) * 256 + unat (h ! 5);
                     dx = dx \<lparr> pes_wrap := w \<lparr> wr_skip := i + 6 + packet_length \<rparr> \<rparr>
                 in if packet_length < 178 then demux_pes_packet callback dx u buf pos
                    else case valid_vbi_pes_packet_header dx h of (ok, dx1) \<Rightarrow>
                      if \<not> ok then demux_pes_packet callback dx u buf pos
                      else demux_pes_packet callback
                        (dx1 \<lparr> pes_wrap := w \<lparr> wr_skip := i + 9 + 36 + 1, wr_lookahead := packet_length - 3 - 36 - 1 \<rparr> \<rparr>) u buf pos)))"
  by pat_completeness auto
termination
  by (relation "measure (\<lambda>(_, dx, _, buf, pos). 2 * (length (wr_left (pes_wrap dx)) + (length buf - pos)) + (if wr_skip (pes_wrap dx) = 0 then 1 else 0))")
    (auto dest!: wrap_around_total scan_forward)

declare demux_pes_packet.simps [simp del]

section \<open>The interface\<close>

definition vbi_dvb_demux_feed :: "'u dvb_cb \<Rightarrow> vbi_dvb_demux \<Rightarrow> 'u \<Rightarrow> u8 list \<Rightarrow> (bool \<times> vbi_dvb_demux \<times> 'u) c_result" where
  "vbi_dvb_demux_feed callback dx u buffer =
     (if callback = None then Undef
      else c_bind (demux_pes_packet callback dx u buffer 0) (\<lambda>(err, dx, u, _). Ret (err = None, dx, u)))"

text \<open>
  The coroutine has no callback. Its result is the number of lines, the lines and the PTS of the frame (the PTS only when a
  frame is complete), the context and the bytes of the buffer not read yet.
\<close>

definition vbi_dvb_demux_cor ::
  "vbi_dvb_demux \<Rightarrow> nat \<Rightarrow> u8 list \<Rightarrow> (nat \<times> vbi_sliced list \<times> pts option \<times> vbi_dvb_demux \<times> u8 list) c_result" where
  "vbi_dvb_demux_cor dx max_lines buffer =
     c_bind (demux_pes_packet None dx () buffer 0) (\<lambda>(err, dx, _, pos).
       if err \<noteq> None
       then let n_lines = min (fr_sp (dx_frame dx)) max_lines
         in if n_lines > 0
            then Ret (n_lines, take n_lines (fr_sliced (dx_frame dx)), Some (frame_pts dx),
                      dx \<lparr> dx_frame := (dx_frame dx) \<lparr> fr_sp := 0 \<rparr> \<rparr>, drop pos buffer)
            else Ret (n_lines, [], Some (frame_pts dx), dx, drop pos buffer)
       else Ret (0, [], None, dx, drop pos buffer))"

end
