(* ===== verification/Dvb_Pes_Stream.thy ===== *)
theory Dvb_Pes_Stream
  imports Dvb_Pes_Demux Dvb_Round_Trip
begin

text \<open>
  What the PES demultiplexer computes, on the stream of all bytes fed to it: the reference parser \<open>pes_stream\<close> has the whole
  stream at hand, and looks at one position at a time. \<^verbatim>\<open>demux_pes_packet\<close>, with its wrap-around buffer and its scan ahead, is shown
  equivalent, whence the way a stream is cut into buffers does not matter.
\<close>

section \<open>The reference parser\<close>

definition with_wrap :: "vbi_dvb_demux \<Rightarrow> u8 list \<Rightarrow> nat \<Rightarrow> nat \<Rightarrow> vbi_dvb_demux" where
  "with_wrap dx stream skip lookahead =
     dx \<lparr> pes_wrap := \<lparr> wr_left = stream, wr_skip = skip, wr_lookahead = lookahead \<rparr> \<rparr>"

text \<open>The bytes to skip at the begin of \<open>p\<close>, unless a VBI packet begins there.\<close>

definition start_code :: "u8 list \<Rightarrow> nat option" where
  "start_code p =
     (if p ! 2 AND NOT 1 \<noteq> 0 then Some 3
      else if 0 \<noteq> p ! 0 OR p ! 1 \<or> 1 \<noteq> p ! 2 then Some 1
      else if PRIVATE_STREAM_1 = p ! 3 then None
      else if p ! 3 < 0xBC then Some 1
      else Some (6 + (unat (p ! 4) * 256 + unat (p ! 5))))"

text \<open>The bytes to skip and to look at after a packet header, and the context.\<close>

definition packet_header :: "vbi_dvb_demux \<Rightarrow> u8 list \<Rightarrow> nat \<times> nat \<times> vbi_dvb_demux" where
  "packet_header dx h =
     (let packet_length = unat (h ! 4) * 256 + unat (h ! 5)
      in if packet_length < 178 then (6 + packet_length, 48, dx)
         else case valid_vbi_pes_packet_header dx h of (ok, dx1) \<Rightarrow>
           if ok then (46, packet_length - 40, dx1) else (6 + packet_length, 48, dx))"

function pes_stream :: "'u dvb_cb \<Rightarrow> vbi_dvb_demux \<Rightarrow> 'u \<Rightarrow> (dvb_demux_error option \<times> vbi_dvb_demux \<times> 'u) c_result" where
  "pes_stream callback dx u =
     (let w = pes_wrap dx; stream = wr_left w; p = drop (wr_skip w) stream
      in if length stream < wr_skip w + wr_lookahead w then Ret (None, dx \<lparr> pes_wrap := wrap_settle w stream \<rparr>, u)
         else if 48 < wr_lookahead w
         then c_bind (demux_pes_packet_frame callback
                  (with_wrap (dx \<lparr> dx_frame := (dx_frame dx) \<lparr> n_data_units_extracted_from_packet := 0 \<rparr> \<rparr>) p 0 (wr_lookahead w))
                  u (take (wr_lookahead w) p)) (\<lambda>(err, dx, u, _).
                if err = Some VBI_ERR_CALLBACK then Ret (err, dx, u)
                else pes_stream callback (with_wrap dx p (wr_lookahead w) 48) u)
         else case start_code p of
                Some n \<Rightarrow> pes_stream callback (with_wrap dx p n (wr_lookahead w)) u
              | None \<Rightarrow> (case packet_header dx (take 46 p) of (skip, lookahead, dx) \<Rightarrow>
                  pes_stream callback (with_wrap dx p skip lookahead) u))"
  by pat_completeness auto
termination
  by (relation "measure (\<lambda>(_, dx, _). 2 * length (wr_left (pes_wrap dx)) + (if wr_skip (pes_wrap dx) = 0 then 1 else 0))")
    (auto simp: with_wrap_def start_code_def packet_header_def Let_def split: if_splits prod.splits)

declare pes_stream.simps [simp del]

text \<open>The context at the end of a frame, and induction over the frames of a packet.\<close>

abbreviation frame_end :: "vbi_dvb_demux \<Rightarrow> frame \<Rightarrow> vbi_dvb_demux" where
  "frame_end dx f \<equiv> (begin_frame dx) \<lparr> dx_frame := f, new_frame := True \<rparr>"

lemma packet_frame_induct:
  assumes "\<And>callback dx u src.
    (\<And>call f rest u'. 2 \<le> length src \<Longrightarrow> callback = Some call \<Longrightarrow>
      extract_data_units (dx_frame (begin_frame dx)) src = Ret (Some NEW_FRAME, f, rest) \<Longrightarrow>
      call (frame_lines f) (frame_pts (begin_frame dx)) u = (True, u') \<Longrightarrow> P callback (frame_end dx f) u' rest) \<Longrightarrow> P callback dx u src"
  shows "P callback dx u src"
proof (induction callback dx u src rule: demux_pes_packet_frame.induct)
  case (1 callback dx u src)
  show ?case
  proof (rule assms)
    fix call f rest u'
    assume len: "2 \<le> length src" and *: "callback = Some call"
      "extract_data_units (dx_frame (begin_frame dx)) src = Ret (Some NEW_FRAME, f, rest)"
      "call (frame_lines f) (frame_pts (begin_frame dx)) u = (True, u')"
    then have nl: "\<not> length src < 2" by simp
    show "P callback (frame_end dx f) u' rest"
      by (rule "1.IH" [OF nl refl *(2) refl refl _ refl *(1), of True]) (use * in simp_all)
  qed
qed

lemma packet_frame_cases:
  assumes "2 \<le> length src"
  obtains (undef) "extract_data_units (dx_frame (begin_frame dx)) src = Undef" "demux_pes_packet_frame callback dx u src = Undef"
  | (ok) err f rest where "extract_data_units (dx_frame (begin_frame dx)) src = Ret (err, f, rest)" "err \<noteq> Some NEW_FRAME"
      "demux_pes_packet_frame callback dx u src = Ret (err, (begin_frame dx) \<lparr> dx_frame := f \<rparr>, u, rest)"
  | (stop) f rest u' where "extract_data_units (dx_frame (begin_frame dx)) src = Ret (Some NEW_FRAME, f, rest)"
      "callback = None \<and> u' = u \<or> (\<exists>call. callback = Some call \<and> call (frame_lines f) (frame_pts (begin_frame dx)) u = (False, u'))"
      "demux_pes_packet_frame callback dx u src = Ret (Some VBI_ERR_CALLBACK, frame_end dx f, u', rest)"
  | (again) call f rest u' where "extract_data_units (dx_frame (begin_frame dx)) src = Ret (Some NEW_FRAME, f, rest)" "callback = Some call"
      "call (frame_lines f) (frame_pts (begin_frame dx)) u = (True, u')"
      "demux_pes_packet_frame callback dx u src = demux_pes_packet_frame callback (frame_end dx f) u' rest"
proof (cases "extract_data_units (dx_frame (begin_frame dx)) src")
  case Undef
  then show thesis using assms undef by (simp add: demux_pes_packet_frame.simps [of _ _ u src])
next
  case (Ret r)
  obtain err f rest where r: "r = (err, f, rest)" by (cases r)
  show thesis
  proof (cases "err = Some NEW_FRAME")
    case False
    then show thesis using assms Ret r ok by (simp add: demux_pes_packet_frame.simps [of _ _ u src])
  next
    case new: True
    show thesis
    proof (cases callback)
      case None
      then show thesis using assms Ret r new stop by (simp add: demux_pes_packet_frame.simps [of _ _ u src])
    next
      case (Some call)
      obtain b u' where "call (frame_lines f) (frame_pts (begin_frame dx)) u = (b, u')" by (meson surj_pair)
      then show thesis using assms Ret r new Some stop again
        by (cases b) (auto simp: demux_pes_packet_frame.simps [of _ _ u src])
    qed
  qed
qed

lemma frame_wrap:
  "demux_pes_packet_frame callback (dx \<lparr> pes_wrap := w \<rparr>) u src =
    c_bind (demux_pes_packet_frame callback dx u src) (\<lambda>(err, dx, u, rest). Ret (err, dx \<lparr> pes_wrap := w \<rparr>, u, rest))"
proof (induction callback dx u src rule: packet_frame_induct)
  case (1 callback dx u src)
  have b: "begin_frame (dx \<lparr> pes_wrap := w \<rparr>) = (begin_frame dx) \<lparr> pes_wrap := w \<rparr>" by (simp add: begin_frame_def)
  have order: "x \<lparr> pes_wrap := w, dx_frame := f \<rparr> = x \<lparr> dx_frame := f, pes_wrap := w \<rparr>"
    "x \<lparr> dx_frame := f, pes_wrap := w, new_frame := True \<rparr> = x \<lparr> dx_frame := f, new_frame := True, pes_wrap := w \<rparr>" for x f
    by simp_all
  show ?case
  proof (cases "length src < 2")
    case True
    then show ?thesis by (simp add: demux_pes_packet_frame.simps)
  next
    case False
    then have "2 \<le> length src" by simp
    then show ?thesis
      by (cases rule: packet_frame_cases [of src dx callback u])
        (use 1 False in \<open>auto simp: demux_pes_packet_frame.simps [of _ "dx \<lparr> pes_wrap := w \<rparr>"] b order\<close>)
  qed
qed

lemma frame_not_new: "demux_pes_packet_frame callback dx u src \<noteq> Ret (Some NEW_FRAME, dx', u', rest)"
proof (induction callback dx u src rule: packet_frame_induct)
  case (1 callback dx u src)
  show ?case
  proof (cases "length src < 2")
    case True
    then show ?thesis by (simp add: demux_pes_packet_frame.simps)
  next
    case False
    then have "2 \<le> length src" by simp
    then show ?thesis by (cases rule: packet_frame_cases [of src dx callback u]) (use 1 False in auto)
  qed
qed

section \<open>Scanning\<close>

lemma with_wrap_with_wrap [simp]: "with_wrap (with_wrap dx stream skip la) stream' skip' la' = with_wrap dx stream' skip' la'"
  by (simp add: with_wrap_def)

lemma pes_wrap_with_wrap [simp]: "pes_wrap (with_wrap dx s k l) = \<lparr> wr_left = s, wr_skip = k, wr_lookahead = l \<rparr>"
  by (simp add: with_wrap_def)

lemma with_wrap_self [simp]: "with_wrap dx (wr_left (pes_wrap dx)) (wr_skip (pes_wrap dx)) (wr_lookahead (pes_wrap dx)) = dx"
  by (simp add: with_wrap_def)

lemma packet_header_wrap:
  "packet_header (with_wrap dx s k l) h = (case packet_header dx h of (skip, la, dx) \<Rightarrow> (skip, la, with_wrap dx s k l))"
  by (auto simp: packet_header_def valid_vbi_pes_packet_header_def with_wrap_def Let_def)

text \<open>The three cases of the reference parser.\<close>

lemma stream_out:
  "length stream < skip + la \<Longrightarrow> pes_stream callback (with_wrap dx stream skip la) u =
    Ret (None, dx \<lparr> pes_wrap := wrap_settle \<lparr> wr_left = stream, wr_skip = skip, wr_lookahead = la \<rparr> stream \<rparr>, u)"
  by (subst pes_stream.simps) (simp add: with_wrap_def)

definition new_packet :: "vbi_dvb_demux \<Rightarrow> vbi_dvb_demux" where
  "new_packet dx = dx \<lparr> dx_frame := (dx_frame dx) \<lparr> n_data_units_extracted_from_packet := 0 \<rparr> \<rparr>"

lemma stream_payload:
  assumes "skip + la \<le> length stream" "48 < la" "p = drop skip stream"
  shows "pes_stream callback (with_wrap dx stream skip la) u =
    c_bind (demux_pes_packet_frame callback (new_packet dx) u (take la p)) (\<lambda>(err, dx, u, _).
      if err = Some VBI_ERR_CALLBACK then Ret (err, with_wrap dx p 0 la, u)
      else pes_stream callback (with_wrap dx p la 48) u)"
proof -
  have "demux_pes_packet_frame callback (with_wrap (new_packet dx) p 0 la) u (take la p) =
    c_bind (demux_pes_packet_frame callback (new_packet dx) u (take la p)) (\<lambda>(err, dx, u, rest). Ret (err, with_wrap dx p 0 la, u, rest))"
    unfolding with_wrap_def by (rule frame_wrap)
  moreover have "with_wrap (new_packet (with_wrap dx stream skip la)) p 0 la = with_wrap (new_packet dx) p 0 la"
    by (simp add: new_packet_def with_wrap_def)
  moreover have "pes_wrap (with_wrap dx stream skip la) = \<lparr> wr_left = stream, wr_skip = skip, wr_lookahead = la \<rparr>" by (simp add: with_wrap_def)
  ultimately show ?thesis using assms unfolding pes_stream.simps [of _ "with_wrap dx stream skip la"]
    by (cases "demux_pes_packet_frame callback (new_packet dx) u (take la p)") (simp_all add: Let_def flip: new_packet_def split: prod.splits)
qed

lemma stream_scan:
  assumes "skip + la \<le> length stream" "la \<le> 48" "p = drop skip stream"
  shows "pes_stream callback (with_wrap dx stream skip la) u =
    (case start_code p of
       Some n \<Rightarrow> pes_stream callback (with_wrap dx p n la) u
     | None \<Rightarrow> (case packet_header dx (take 46 p) of (skip, la, dx) \<Rightarrow> pes_stream callback (with_wrap dx p skip la) u))"
proof -
  have "pes_wrap (with_wrap dx stream skip la) = \<lparr> wr_left = stream, wr_skip = skip, wr_lookahead = la \<rparr>" by (simp add: with_wrap_def)
  then show ?thesis using assms unfolding pes_stream.simps [of _ "with_wrap dx stream skip la"]
    by (simp add: Let_def packet_header_wrap split: option.splits prod.splits)
qed

lemma pes_stream_skip:
  assumes "skip \<le> length stream"
  shows "pes_stream callback (with_wrap dx stream skip la) u = pes_stream callback (with_wrap dx (drop skip stream) 0 la) u"
proof (cases "length stream < skip + la")
  case True
  then show ?thesis using assms by (simp add: stream_out wrap_settle_def less_diff_conv2 add.commute)
next
  case False
  then have "skip + la \<le> length stream" "0 + la \<le> length (drop skip stream)" using assms by auto
  then show ?thesis
    using stream_payload [of skip la stream "drop skip stream" callback dx u] stream_payload [of 0 la "drop skip stream" "drop skip stream" callback dx u]
      stream_scan [of skip la stream "drop skip stream" callback dx u] stream_scan [of 0 la "drop skip stream" "drop skip stream" callback dx u]
    by (cases "48 < la") simp_all
qed

lemma pes_stream_drop:
  assumes "i \<le> length stream"
  shows "pes_stream callback (with_wrap dx (drop i stream) n la) u = pes_stream callback (with_wrap dx stream (i + n) la) u"
proof (cases "i + n \<le> length stream")
  case True
  then show ?thesis using pes_stream_skip [of "i + n" stream callback dx la u] pes_stream_skip [of n "drop i stream" callback dx la u] assms by (simp add: add.commute)
next
  case False
  then show ?thesis using assms by (simp add: stream_out wrap_settle_def)
qed

text \<open>Induction over the steps of the reference parser.\<close>

lemma stream_induct [case_names out payload skip header]:
  assumes out: "\<And>dx stream skip la u. length stream < skip + la \<Longrightarrow> P (with_wrap dx stream skip la) u"
    and payload: "\<And>dx stream skip la u p. \<lbrakk>skip + la \<le> length stream; 48 < la; p = drop skip stream;
        \<And>err dx' u' rest. demux_pes_packet_frame callback (new_packet dx) u (take la p) = Ret (err, dx', u', rest) \<Longrightarrow>
          err \<noteq> Some VBI_ERR_CALLBACK \<Longrightarrow> P (with_wrap dx' p la 48) u'\<rbrakk> \<Longrightarrow> P (with_wrap dx stream skip la) u"
    and skip: "\<And>dx stream skip la u p n. \<lbrakk>skip + la \<le> length stream; la \<le> 48; p = drop skip stream; start_code p = Some n;
        P (with_wrap dx p n la) u\<rbrakk> \<Longrightarrow> P (with_wrap dx stream skip la) u"
    and header: "\<And>dx stream skip la u p n l dx1. \<lbrakk>skip + la \<le> length stream; la \<le> 48; p = drop skip stream; start_code p = None;
        packet_header dx (take 46 p) = (n, l, dx1); P (with_wrap dx1 p n l) u\<rbrakk> \<Longrightarrow> P (with_wrap dx stream skip la) u"
  shows "P dx u"
proof -
  have "P (with_wrap dx stream skip la) u" for dx stream skip la u
  proof (induction "2 * length stream + (if skip = 0 then 1 else 0)" arbitrary: dx stream skip la u rule: less_induct)
    case less
    define p where "p = drop skip stream"
    have again: "P (with_wrap dx' p n l) u'" if "0 < n" "skip + la \<le> length stream" for dx' n l u'
      using that by (intro less.hyps) (auto simp: p_def)
    show ?case
    proof (cases "length stream < skip + la")
      case True
      then show ?thesis by (rule out)
    next
      case False
      then have le: "skip + la \<le> length stream" by simp
      consider "48 < la" | n where "la \<le> 48" "start_code p = Some n" | "la \<le> 48" "start_code p = None" by (meson leI option.exhaust)
      then show ?thesis
      proof cases
        case 1
        then show ?thesis using again le by (intro payload [OF le _ p_def]) auto
      next
        case (2 n)
        then have "0 < n" by (auto simp: start_code_def split: if_splits)
        then show ?thesis using 2 again le by (intro skip [OF le _ p_def]) auto
      next
        case 3
        obtain n l dx1 where h: "packet_header dx (take 46 p) = (n, l, dx1)" by (metis prod_cases3)
        then have "0 < n" by (auto simp: packet_header_def Let_def split: if_splits prod.splits)
        then show ?thesis using 3 again le h by (intro header [OF le _ p_def]) auto
      qed
    qed
  qed
  from this [of dx "wr_left (pes_wrap dx)" "wr_skip (pes_wrap dx)" "wr_lookahead (pes_wrap dx)"] show ?thesis by simp
qed

text \<open>A scan ahead arrives where the reference parser does, step by step.\<close>

lemma scan_stream:
  assumes "length v = 48 + d" "v = take (48 + d) stream" "i \<le> d" "scan v d i = Ret found"
  shows "case found of
      Inl j \<Rightarrow> pes_stream callback (with_wrap dx stream i 48) u = pes_stream callback (with_wrap dx stream j 48) u
    | Inr j \<Rightarrow> i \<le> j \<and> j \<le> d \<and> start_code (drop j stream) = None \<and>
        pes_stream callback (with_wrap dx stream i 48) u = pes_stream callback (with_wrap dx stream j 48) u"
  using assms(3,4)
proof (induction "d - i" arbitrary: i rule: less_induct)
  case less
  have "48 + d \<le> length stream" using assms(1,2) by simp
  define p where "p = drop i stream"
  have block: "c_block v i 6 = Ret (take 6 p)"
  proof -
    have "take 6 (drop i v) = take 6 p" using assms(1,2) less.prems(1) by (simp add: p_def drop_take min_def)
    then show ?thesis using assms(1) less.prems(1) by (simp add: c_block_def)
  qed
  have step: "pes_stream callback (with_wrap dx stream i 48) u = pes_stream callback (with_wrap dx stream (i + n) 48) u"
    if "start_code p = Some n" for n
    using that less.prems(1) \<open>48 + d \<le> length stream\<close> stream_scan [of i 48 stream p callback dx u] pes_stream_drop [of i stream callback dx n 48 u]
    by (simp add: p_def)
  have again: "scan v d (i + n) = Ret found \<Longrightarrow> start_code p = Some n \<Longrightarrow> 0 < n \<Longrightarrow> \<not> d \<le> i + n \<Longrightarrow> ?case" for n
  proof -
    assume *: "scan v d (i + n) = Ret found" "start_code p = Some n" "0 < n" "\<not> d \<le> i + n"
    then have "d - (i + n) < d - i" "i + n \<le> d" by arith+
    then show ?case using less.hyps [OF _ _ *(1)] step [OF *(2)] by (auto split: sum.splits)
  qed
  have stop: "found = Inl (i + n) \<Longrightarrow> start_code p = Some n \<Longrightarrow> ?case" for n
    using step [of n] by simp
  have found: "found = Inr i \<Longrightarrow> start_code p = None \<Longrightarrow> ?case"
    using less.prems(1) by (simp add: p_def)
  have p: "take 6 p ! k = p ! k" if "k < 6" for k using that by simp
  show ?case
  proof (cases "start_code p")
    case None
    then have "found = Inr i" using less.prems(2) block p
      by (subst (asm) scan.simps) (simp add: start_code_def split: if_splits)
    then show ?thesis using found None by simp
  next
    case (Some n)
    then have "0 < n" by (auto simp: start_code_def split: if_splits)
    moreover have "scan v d i = (if d \<le> i + n then Ret (Inl (i + n)) else scan v d (i + n)) \<or> scan v d i = Ret (Inl (i + n))"
      using Some block p by (subst (1 3) scan.simps) (auto simp: start_code_def Let_def split: if_splits)
    ultimately show ?thesis using less.prems(2) again [of n] stop [of n] Some by (auto split: if_splits)
  qed
qed

lemma scan_safe: "length v = 48 + d \<Longrightarrow> i \<le> d \<Longrightarrow> scan v d i \<noteq> Undef"
proof (induction "d - i" arbitrary: i rule: less_induct)
  case less
  have "scan v d j \<noteq> Undef" if "\<not> d \<le> j" "i < j" for j
  proof -
    have "d - j < d - i" "j \<le> d" using that by arith+
    then show ?thesis using less.hyps less.prems(1) by blast
  qed
  then show ?case using less.prems
    by (subst scan.simps) (auto simp: c_bind_eq_Undef c_block_def Let_def split: if_splits)
qed

section \<open>Equivalence\<close>

text \<open>The context with the bytes \<open>xs\<close> in its buffer.\<close>

definition absorb :: "vbi_dvb_demux \<Rightarrow> u8 list \<Rightarrow> vbi_dvb_demux" where
  "absorb dx xs = with_wrap dx (wr_left (pes_wrap dx) @ xs) (wr_skip (pes_wrap dx)) (wr_lookahead (pes_wrap dx))"

definition demux_inv :: "vbi_dvb_demux \<Rightarrow> u8 list \<Rightarrow> nat \<Rightarrow> bool" where
  "demux_inv dx buf pos \<longleftrightarrow> wrap_ok (pes_wrap dx) buf pos \<and> 48 \<le> wr_lookahead (pes_wrap dx)"

definition demux_measure :: "vbi_dvb_demux \<Rightarrow> u8 list \<Rightarrow> nat \<Rightarrow> nat" where
  "demux_measure dx buf pos = 2 * (length (wr_left (pes_wrap dx)) + (length buf - pos)) + (if wr_skip (pes_wrap dx) = 0 then 1 else 0)"

lemma absorb_wrap: "absorb dx (drop pos buf) = with_wrap dx (wrap_stream (pes_wrap dx) buf pos) (wr_skip (pes_wrap dx)) (wr_lookahead (pes_wrap dx))"
  by (simp add: absorb_def wrap_stream_def)

lemma absorb_set:
  "absorb (dx \<lparr> pes_wrap := w \<rparr>) (drop pos buf) = with_wrap dx (wrap_stream w buf pos) (wr_skip w) (wr_lookahead w)"
  by (simp add: absorb_def wrap_stream_def with_wrap_def)

lemma absorb_Nil [simp]: "absorb dx [] = dx"
  by (simp add: absorb_def with_wrap_def)

lemma wrap_settle_eta:
  "wrap_settle \<lparr> wr_left = stream, wr_skip = wr_skip w, wr_lookahead = wr_lookahead w \<rparr> stream = wrap_settle w stream"
  by (simp add: wrap_settle_def)

lemma wrap_settle_ok:
  assumes "wrap_ok w buf pos"
  shows "wrap_ok (wrap_settle w (wrap_stream w buf pos)) buf (length buf)"
proof (cases "length (wrap_stream w buf pos) < wr_skip w")
  case True
  then show ?thesis by (simp add: wrap_settle_def wrap_ok_def)
next
  case False
  have "wrap_ok (w \<lparr> wr_left := wrap_stream w buf pos \<rparr>) buf (length buf)"
    using wrap_ok_fill [OF assms, of "length buf - pos"] assms by (simp add: wrap_ok_def wrap_stream_def)
  from wrap_ok_drop [OF this, of "wr_skip w"] False show ?thesis by (simp add: wrap_settle_def)
qed

lemma wrap_ok_set [simp]:
  "wrap_ok (w \<lparr> wr_skip := n \<rparr>) buf pos = wrap_ok w buf pos" "wrap_ok (w \<lparr> wr_lookahead := n \<rparr>) buf pos = wrap_ok w buf pos"
  "wrap_stream (w \<lparr> wr_skip := n \<rparr>) buf pos = wrap_stream w buf pos"
  "wrap_stream (w \<lparr> wr_lookahead := n \<rparr>) buf pos = wrap_stream w buf pos"
  by (simp_all add: wrap_ok_def wrap_stream_def)

lemma valid_wrap:
  "valid_vbi_pes_packet_header (dx \<lparr> pes_wrap := w \<rparr>) h = (case valid_vbi_pes_packet_header dx h of (ok, dx) \<Rightarrow> (ok, dx \<lparr> pes_wrap := w \<rparr>))"
  by (simp add: valid_vbi_pes_packet_header_def)

lemma demux_step:
  assumes "demux_inv dx buf pos"
  obtains (undef) "demux_pes_packet callback dx u buf pos = Undef" "pes_stream callback (absorb dx (drop pos buf)) u = Undef"
  | (ret) err dx' u' pos' where "demux_pes_packet callback dx u buf pos = Ret (err, dx', u', pos')"
      "pes_stream callback (absorb dx (drop pos buf)) u = Ret (err, absorb dx' (drop pos' buf), u')"
      "demux_inv dx' buf pos'" "err = None \<or> err = Some VBI_ERR_CALLBACK" "err = None \<Longrightarrow> pos' = length buf"
  | (again) dx' u' pos' where "demux_pes_packet callback dx u buf pos = demux_pes_packet callback dx' u' buf pos'"
      "pes_stream callback (absorb dx (drop pos buf)) u = pes_stream callback (absorb dx' (drop pos' buf)) u'"
      "demux_inv dx' buf pos'" "demux_measure dx' buf pos' < demux_measure dx buf pos"
proof -
  have ok: "wrap_ok (pes_wrap dx) buf pos" and la: "48 \<le> wr_lookahead (pes_wrap dx)" using assms by (auto simp: demux_inv_def)
  define stream where "stream = wrap_stream (pes_wrap dx) buf pos"
  obtain view w pos1 where around: "wrap_around (pes_wrap dx) buf pos = Ret (view, w, pos1)"
    using wrap_around_safe [OF ok] by (cases "wrap_around (pes_wrap dx) buf pos") auto
  have ref: "absorb dx (drop pos buf) = with_wrap dx stream (wr_skip (pes_wrap dx)) (wr_lookahead (pes_wrap dx))"
    by (simp add: absorb_wrap stream_def)
  show thesis
  proof (cases view)
    case None
    note out = wrap_around_None [OF ok around [unfolded None], folded stream_def]
    show thesis
    proof (rule ret)
      show "demux_pes_packet callback dx u buf pos = Ret (None, dx \<lparr> pes_wrap := w \<rparr>, u, pos1)"
        using around None by (subst demux_pes_packet.simps) simp
      show "pes_stream callback (absorb dx (drop pos buf)) u = Ret (None, absorb (dx \<lparr> pes_wrap := w \<rparr>) (drop pos1 buf), u)"
        using out by (simp add: ref stream_out wrap_settle_eta)
      show "demux_inv (dx \<lparr> pes_wrap := w \<rparr>) buf pos1"
        using out wrap_settle_ok [OF ok] la by (simp add: demux_inv_def stream_def wrap_settle_def)
    qed (use out in simp_all)
  next
    case (Some vd)
    obtain v d where vd: "vd = (v, d)" by (cases vd)
    note view = wrap_around_Some [OF ok around [unfolded Some vd]]
    define p where "p = drop (wr_skip (pes_wrap dx)) stream"
    have w: "wr_skip w = 0" "wr_lookahead w = wr_lookahead (pes_wrap dx)" by (subst view(1), simp)+
    have p: "wrap_stream w buf pos1 = p" "v = take (wr_lookahead w + d) p" "wr_skip (pes_wrap dx) + wr_lookahead (pes_wrap dx) \<le> length stream"
      using view w by (auto simp: p_def stream_def)
    have measure: "demux_measure (dx1 \<lparr> pes_wrap := w \<lparr> wr_skip := n \<rparr> \<rparr>) buf pos1 < demux_measure dx buf pos"
      "demux_measure (dx1 \<lparr> pes_wrap := w \<lparr> wr_skip := n, wr_lookahead := l \<rparr> \<rparr>) buf pos1 < demux_measure dx buf pos"
      if "0 < n" for dx1 n l
      using wrap_around_total [OF around [unfolded Some vd]] that by (simp_all add: demux_measure_def)
    have inv: "demux_inv (dx1 \<lparr> pes_wrap := w \<rparr>) buf pos1" "demux_inv (dx1 \<lparr> pes_wrap := w \<lparr> wr_skip := n \<rparr> \<rparr>) buf pos1"
      "48 \<le> l \<Longrightarrow> demux_inv (dx1 \<lparr> pes_wrap := w \<lparr> wr_skip := n, wr_lookahead := l \<rparr> \<rparr>) buf pos1" for dx1 n l
      using view(2) w la by (simp_all add: demux_inv_def)
    show thesis
    proof (cases "48 < wr_lookahead w")
      case True
      define src where "src = take (wr_lookahead w) p"
      have src: "c_block v 0 (wr_lookahead w) = Ret src" using view(5) p(2) w by (simp add: c_block_def src_def min_def)
      have new: "dx \<lparr> pes_wrap := w, dx_frame := (dx_frame dx) \<lparr> n_data_units_extracted_from_packet := 0 \<rparr> \<rparr> = (new_packet dx) \<lparr> pes_wrap := w \<rparr>"
        by (simp add: new_packet_def)
      note frame = frame_wrap [of callback w "new_packet dx" u src]
      have code: "demux_pes_packet callback dx u buf pos = c_bind (demux_pes_packet_frame callback (new_packet dx) u src) (\<lambda>(err, dx, u, _).
          if err = Some VBI_ERR_CALLBACK then Ret (err, dx \<lparr> pes_wrap := w \<rparr>, u, pos1)
          else demux_pes_packet callback (dx \<lparr> pes_wrap := w \<lparr> wr_skip := wr_lookahead w, wr_lookahead := 48 \<rparr> \<rparr>) u buf pos1)"
        using around Some vd True src frame
        by (subst demux_pes_packet.simps)
          (cases "demux_pes_packet_frame callback (new_packet dx) u src", auto simp: new PES_HEADER_LOOKAHEAD_def Let_def frame_not_new)
      note stream = stream_payload [OF p(3), of p callback dx u, folded ref, unfolded w(2) [symmetric], folded src_def, OF True p_def]
      show thesis
      proof (cases "demux_pes_packet_frame callback (new_packet dx) u src")
        case Undef
        then show thesis using undef code stream by simp
      next
        case (Ret r)
        obtain err dx1 u1 rest where r: "r = (err, dx1, u1, rest)" by (cases r)
        show thesis
        proof (cases "err = Some VBI_ERR_CALLBACK")
          case True
          then show thesis using ret [of err "dx1 \<lparr> pes_wrap := w \<rparr>" u1 pos1] code stream Ret r inv(1) by (simp add: absorb_set p(1) w)
        next
          case False
          then show thesis
            using again [of "dx1 \<lparr> pes_wrap := w \<lparr> wr_skip := wr_lookahead w, wr_lookahead := 48 \<rparr> \<rparr>" u1 pos1]
              code stream Ret r inv(3) [of 48] measure(2) [of "wr_lookahead w" 48 dx1] True by (simp add: absorb_set p(1))
        qed
      qed
    next
      case False
      then have la48: "wr_lookahead w = 48" using la w by simp
      have to_p: "pes_stream callback (absorb dx (drop pos buf)) u = pes_stream callback (with_wrap dx p 0 48) u"
        using pes_stream_skip [OF view(6), folded stream_def] w la48 by (simp add: ref p_def)
      have len: "length v = 48 + d" and v: "v = take (48 + d) p" using view(5) p(2) w la48 by simp_all
      obtain found where found: "scan v d 0 = Ret found" using scan_safe [OF len, of 0] by (cases "scan v d 0") auto
      note scanned = scan_stream [OF len v le0 found, of callback dx u]
      show thesis
      proof (cases found)
        case (Inl j)
        then have "0 < j" using scan_forward found by blast
        moreover have "demux_pes_packet callback dx u buf pos = demux_pes_packet callback (dx \<lparr> pes_wrap := w \<lparr> wr_skip := j \<rparr> \<rparr>) u buf pos1"
          using around Some vd False found Inl by (subst demux_pes_packet.simps) (simp add: PES_HEADER_LOOKAHEAD_def)
        ultimately show thesis using again inv(2) measure(1) scanned to_p Inl la48 by (simp add: absorb_set p(1))
      next
        case (Inr j)
        then have j: "j \<le> d" "start_code (drop j p) = None"
          "pes_stream callback (with_wrap dx p 0 48) u = pes_stream callback (with_wrap dx p j 48) u" using scanned by simp_all
        obtain skip l dx1 where header: "packet_header dx (take 46 (drop j p)) = (skip, l, dx1)" by (metis prod_cases3)
        have "0 < skip" "48 \<le> l" using header by (auto simp: packet_header_def Let_def split: if_splits prod.splits)
        have block: "c_block v j 46 = Ret (take 46 (drop j p))" using len v j(1) by (simp add: c_block_def drop_take min_def)
        have w48: "w \<lparr> wr_skip := n, wr_lookahead := 48 \<rparr> = w \<lparr> wr_skip := n \<rparr>" for n using la48 by (cases w) simp
        have code: "demux_pes_packet callback dx u buf pos =
            demux_pes_packet callback (dx1 \<lparr> pes_wrap := w \<lparr> wr_skip := j + skip, wr_lookahead := l \<rparr> \<rparr>) u buf pos1"
          using around Some vd False found Inr block header
          by (subst demux_pes_packet.simps) (auto simp: PES_HEADER_LOOKAHEAD_def packet_header_def valid_wrap w48 Let_def add_ac split: prod.splits if_splits)
        have "48 + d \<le> length p" using len v by simp
        then have "pes_stream callback (with_wrap dx p j 48) u = pes_stream callback (with_wrap dx1 p (j + skip) l) u"
          using j stream_scan [of j 48 p "drop j p" callback dx u] header pes_stream_drop [of j p callback dx1 skip l u] by simp
        then show thesis using again [OF code] inv(3) [OF \<open>48 \<le> l\<close>] measure(2) [of "j + skip"] \<open>0 < skip\<close> to_p j(3)
          by (simp add: absorb_set p(1))
      qed
    qed
  qed
qed

lemma demux_stream_result:
  assumes "demux_inv dx buf pos"
  shows "c_bind (demux_pes_packet callback dx u buf pos) (\<lambda>(err, dx, u, pos). Ret (err, absorb dx (drop pos buf), u))
      = pes_stream callback (absorb dx (drop pos buf)) u \<and>
    (\<forall>err dx' u' pos'. demux_pes_packet callback dx u buf pos = Ret (err, dx', u', pos') \<longrightarrow>
      demux_inv dx' buf pos' \<and> (err = None \<or> err = Some VBI_ERR_CALLBACK) \<and> (err = None \<longrightarrow> pos' = length buf))"
  using assms
proof (induction "demux_measure dx buf pos" arbitrary: dx u pos rule: less_induct)
  case less
  from less.prems show ?case
  proof (cases rule: demux_step [of dx buf pos callback u])
    case (again dx' u' pos')
    show ?thesis using less.hyps [OF again(4) again(3), of u'] again(1,2) by simp
  qed auto
qed

lemmas demux_stream = demux_stream_result [THEN conjunct1]

lemma demux_result:
  assumes "demux_pes_packet callback dx u buf pos = Ret (err, dx', u', pos')" "demux_inv dx buf pos"
  shows "demux_inv dx' buf pos'" "err = None \<or> err = Some VBI_ERR_CALLBACK" "err = None \<Longrightarrow> pos' = length buf"
  using demux_stream_result [OF assms(2), of callback u] assms(1) by blast+

section \<open>Cutting the stream\<close>

lemma start_code_append [simp]: "6 \<le> length p \<Longrightarrow> start_code (p @ xs) = start_code p"
proof -
  assume "6 \<le> length p"
  then have "(p @ xs) ! k = p ! k" if "k < 6" for k using that by (simp add: nth_append)
  then show ?thesis by (simp add: start_code_def)
qed

lemma absorb_with_wrap [simp]: "absorb (with_wrap dx stream skip la) xs = with_wrap dx (stream @ xs) skip la"
  by (simp add: absorb_def with_wrap_def)

text \<open>The parser stops at the end of a stream in a state from which it continues.\<close>

lemma stream_append:
  assumes "48 \<le> wr_lookahead (pes_wrap dx)"
  shows "pes_stream callback (absorb dx xs) u =
    c_bind (pes_stream callback dx u) (\<lambda>(err, dx, u).
      if err = None then pes_stream callback (absorb dx xs) u else Ret (err, absorb dx xs, u))"
  using assms
proof (induction dx u rule: stream_induct [where callback = callback])
  case (out dx stream skip la u)
  show ?case
  proof (cases "length stream < skip")
    case True
    have "pes_stream callback (with_wrap dx xs (skip - length stream) la) u = pes_stream callback (with_wrap dx (stream @ xs) skip la) u"
      using pes_stream_drop [of "length stream" "stream @ xs" callback dx "skip - length stream" la u] True by simp
    moreover have "pes_stream callback (with_wrap dx stream skip la) u = Ret (None, with_wrap dx [] (skip - length stream) la, u)"
      by (simp only: stream_out [OF out.hyps]) (use True in \<open>simp add: wrap_settle_def with_wrap_def\<close>)
    ultimately show ?thesis by simp
  next
    case False
    have "pes_stream callback (with_wrap dx (drop skip stream @ xs) 0 la) u = pes_stream callback (with_wrap dx (stream @ xs) skip la) u"
      using pes_stream_skip [of skip "stream @ xs" callback dx la u] False by simp
    moreover have "pes_stream callback (with_wrap dx stream skip la) u = Ret (None, with_wrap dx (drop skip stream) 0 la, u)"
      by (simp only: stream_out [OF out.hyps]) (use False in \<open>simp add: wrap_settle_def with_wrap_def\<close>)
    ultimately show ?thesis by simp
  qed
next
  case (payload dx stream skip la u p)
  have p: "drop skip (stream @ xs) = p @ xs" "take la (p @ xs) = take la p" "skip + la \<le> length (stream @ xs)"
    using payload.hyps by auto
  have IH: "pes_stream callback (with_wrap dx' (p @ xs) la 48) u' =
      c_bind (pes_stream callback (with_wrap dx' p la 48) u') (\<lambda>(err, dx, u). if err = None then pes_stream callback (absorb dx xs) u else Ret (err, absorb dx xs, u))"
    if "demux_pes_packet_frame callback (new_packet dx) u (take la p) = Ret (err, dx', u', rest)" "err \<noteq> Some VBI_ERR_CALLBACK" for err dx' u' rest
    using payload.IH [OF that] by simp
  show ?case
  proof (cases "demux_pes_packet_frame callback (new_packet dx) u (take la p)")
    case Undef
    then show ?thesis using payload.hyps p by (simp add: stream_payload)
  next
    case (Ret r)
    obtain err dx' u' rest where r: "r = (err, dx', u', rest)" by (cases r)
    show ?thesis
    proof (cases "err = Some VBI_ERR_CALLBACK")
      case True
      then show ?thesis using payload.hyps p Ret r by (simp add: stream_payload)
    next
      case False
      then show ?thesis using payload.hyps p Ret r IH by (simp add: stream_payload)
    qed
  qed
next
  case (skip dx stream sk la u p n)
  have la: "la = 48" using skip.hyps(2) skip.prems by simp
  have p: "drop sk (stream @ xs) = p @ xs" "sk + la \<le> length (stream @ xs)" "48 \<le> length p" using skip.hyps la by auto
  have "pes_stream callback (with_wrap dx (stream @ xs) sk la) u = pes_stream callback (with_wrap dx (p @ xs) n la) u"
    using skip.hyps(2,4) p by (simp add: stream_scan)
  moreover have "pes_stream callback (with_wrap dx stream sk la) u = pes_stream callback (with_wrap dx p n la) u"
    using skip.hyps by (simp add: stream_scan)
  ultimately show ?case using skip.IH la by simp
next
  case (header dx stream sk la u p n l dx1)
  have la: "la = 48" using header.hyps(2) header.prems by simp
  have p: "drop sk (stream @ xs) = p @ xs" "sk + la \<le> length (stream @ xs)" "48 \<le> length p" using header.hyps la by auto
  have l: "48 \<le> l" using header.hyps(5) by (auto simp: packet_header_def Let_def split: if_splits prod.splits)
  have "pes_stream callback (with_wrap dx (stream @ xs) sk la) u = pes_stream callback (with_wrap dx1 (p @ xs) n l) u"
    using header.hyps(2,4,5) p by (simp add: stream_scan)
  moreover have "pes_stream callback (with_wrap dx stream sk la) u = pes_stream callback (with_wrap dx1 p n l) u"
    using header.hyps by (simp add: stream_scan)
  ultimately show ?case using header.IH l by simp
qed

fun feed_all :: "'u dvb_cb \<Rightarrow> vbi_dvb_demux \<Rightarrow> 'u \<Rightarrow> u8 list list \<Rightarrow> (bool \<times> vbi_dvb_demux \<times> 'u) c_result" where
  "feed_all callback dx u [] = Ret (True, dx, u)"
| "feed_all callback dx u (buffer # buffers) =
     c_bind (vbi_dvb_demux_feed callback dx u buffer) (\<lambda>(ok, dx, u).
       if ok then feed_all callback dx u buffers else Ret (False, dx, u))"

lemma demux_inv_0: "demux_inv dx buffer 0 \<longleftrightarrow> 48 \<le> wr_lookahead (pes_wrap dx)"
  by (simp add: demux_inv_def wrap_ok_def)

lemma feed_stream:
  assumes "48 \<le> wr_lookahead (pes_wrap dx)"
  shows "vbi_dvb_demux_feed (Some call) dx u buffer = Ret (True, dx', u') \<longleftrightarrow> pes_stream (Some call) (absorb dx buffer) u = Ret (None, dx', u')"
proof -
  have inv: "demux_inv dx buffer 0" using assms by (simp add: demux_inv_0)
  note eq = demux_stream [OF inv, of "Some call" u, simplified]
  show ?thesis
  proof (cases "demux_pes_packet (Some call) dx u buffer 0")
    case Undef
    then show ?thesis using eq by (simp add: vbi_dvb_demux_feed_def)
  next
    case (Ret r)
    obtain err dx1 u1 pos1 where r: "r = (err, dx1, u1, pos1)" by (cases r)
    show ?thesis using eq [symmetric] demux_result(3) [OF Ret [unfolded r] inv] Ret r by (auto simp: vbi_dvb_demux_feed_def)
  qed
qed

lemma feed_lookahead:
  "vbi_dvb_demux_feed callback dx u buffer = Ret (ok, dx', u') \<Longrightarrow> 48 \<le> wr_lookahead (pes_wrap dx) \<Longrightarrow> 48 \<le> wr_lookahead (pes_wrap dx')"
  using demux_result(1) demux_inv_0 by (fastforce simp: vbi_dvb_demux_feed_def c_bind_eq_Ret demux_inv_def split: if_splits)

lemma feed_append:
  assumes "48 \<le> wr_lookahead (pes_wrap dx)"
  shows "vbi_dvb_demux_feed callback dx u (xs @ ys) = Ret (True, dx', u') \<longleftrightarrow>
    (\<exists>dx1 u1. vbi_dvb_demux_feed callback dx u xs = Ret (True, dx1, u1) \<and> vbi_dvb_demux_feed callback dx1 u1 ys = Ret (True, dx', u'))"
proof (cases callback)
  case None
  then show ?thesis by (simp add: vbi_dvb_demux_feed_def)
next
  case (Some call)
  have la: "48 \<le> wr_lookahead (pes_wrap (absorb dx xs))" using assms by (simp add: absorb_def)
  have "absorb dx (xs @ ys) = absorb (absorb dx xs) ys" by (simp add: absorb_def)
  then have "pes_stream callback (absorb dx (xs @ ys)) u = Ret (None, dx', u') \<longleftrightarrow>
    (\<exists>dx1 u1. pes_stream callback (absorb dx xs) u = Ret (None, dx1, u1) \<and> pes_stream callback (absorb dx1 ys) u1 = Ret (None, dx', u'))"
    using stream_append [OF la, of callback ys u] by (auto simp: c_bind_eq_Ret split: if_splits prod.splits)
  moreover have "48 \<le> wr_lookahead (pes_wrap dx1)" if "pes_stream callback (absorb dx xs) u = Ret (None, dx1, u1)" for dx1 u1
    using that feed_lookahead [of callback dx u xs True dx1 u1] assms by (simp add: Some feed_stream)
  ultimately show ?thesis using assms by (auto simp: Some feed_stream)
qed

lemma feed_all_eq:
  assumes "48 \<le> wr_lookahead (pes_wrap dx)" "buffers \<noteq> []"
  shows "feed_all callback dx u buffers = Ret (True, dx', u') \<longleftrightarrow> vbi_dvb_demux_feed callback dx u (concat buffers) = Ret (True, dx', u')"
  using assms
proof (induction buffers arbitrary: dx u)
  case (Cons b bs)
  show ?case
  proof (cases "bs = []")
    case True
    then show ?thesis by (cases "vbi_dvb_demux_feed callback dx u b") (auto split: if_splits)
  next
    case False
    have "feed_all callback dx u (b # bs) = Ret (True, dx', u') \<longleftrightarrow>
      (\<exists>dx1 u1. vbi_dvb_demux_feed callback dx u b = Ret (True, dx1, u1) \<and> feed_all callback dx1 u1 bs = Ret (True, dx', u'))"
      by (auto simp: c_bind_eq_Ret split: if_splits)
    then show ?thesis using Cons False feed_lookahead [of callback dx u b True] by (auto simp: feed_append)
  qed
qed simp

section \<open>Safety\<close>

text \<open>
  What a client relies on: every frame delivered has at most \<open>n\<close> lines whose known line numbers ascend. \<open>I\<close> is any property of
  the state of the client which its callback keeps on such frames.
\<close>

definition cb_keeps :: "'u dvb_cb \<Rightarrow> nat \<Rightarrow> ('u \<Rightarrow> bool) \<Rightarrow> bool" where
  "cb_keeps callback n I \<longleftrightarrow>
     (\<forall>call lines pts u. callback = Some call \<and> length lines \<le> n \<and> list_all sliced_ok lines \<and> ascending 0 lines \<and> I u
       \<longrightarrow> I (snd (call lines pts u)))"

lemma begin_frame_inv: "frame_inv n (dx_frame dx) \<Longrightarrow> frame_inv n (dx_frame (begin_frame dx))"
  by (simp add: begin_frame_def frame_inv_def reset_frame_def)

lemma frame_lines_ok:
  assumes "frame_inv n f"
  shows "length (frame_lines f) \<le> n" "list_all sliced_ok (frame_lines f)" "ascending 0 (frame_lines f)"
  using assms by (auto simp: frame_inv_def frame_lines_def list_all_iff dest: in_set_takeD)

lemma packet_frame_inv:
  assumes "cb_keeps callback n I" "2 \<le> length src" "frame_inv n (dx_frame dx)" "I u"
  shows "\<exists>err dx' u' rest. demux_pes_packet_frame callback dx u src = Ret (err, dx', u', rest) \<and> frame_inv n (dx_frame dx') \<and> I u'"
  using assms
proof (induction callback dx u src rule: packet_frame_induct)
  case (1 callback dx u src)
  obtain err f rest where e: "extract_data_units (dx_frame (begin_frame dx)) src = Ret (err, f, rest)" "frame_inv n f"
    "err \<noteq> None \<longrightarrow> 2 < length rest"
    using extract_inv [OF begin_frame_inv [OF "1.prems"(3)], of src] by blast
  have keep: "I (snd (call (frame_lines f) pts u))" if "callback = Some call" for call pts
    using "1.prems"(1,4) frame_lines_ok [OF e(2)] that by (auto simp: cb_keeps_def)
  show ?case
  proof (cases rule: packet_frame_cases [OF "1.prems"(2), of dx callback u, case_names undef ok stop again])
    case undef
    then show ?thesis using e by simp
  next
    case (ok err' f' rest')
    then show ?thesis using e "1.prems"(4) by simp
  next
    case (stop f' rest' u')
    then show ?thesis using e "1.prems"(4) keep by (auto, metis snd_conv)
  next
    case (again call f' rest' u')
    have "f' = f" "rest' = rest" "err = Some NEW_FRAME" using e again(1) by simp_all
    moreover have "I u'" using keep [OF again(2), of "frame_pts (begin_frame dx)"] again(3) calculation by simp
    ultimately show ?thesis
      using "1.IH" [OF "1.prems"(2) again(2,1,3) "1.prems"(1)] e again(4) by simp
  qed
qed

lemma valid_header_frame:
  "valid_vbi_pes_packet_header dx h = (ok, dx') \<Longrightarrow> dx_frame dx' = dx_frame dx"
  by (auto simp: valid_vbi_pes_packet_header_def split: if_splits)

lemma dx_frame_wraps [simp]: "dx_frame (with_wrap dx stream skip la) = dx_frame dx" "dx_frame (absorb dx xs) = dx_frame dx"
  by (simp_all add: with_wrap_def absorb_def)

lemma stream_inv:
  assumes "cb_keeps callback n I"
  shows "frame_inv n (dx_frame dx) \<Longrightarrow> I u \<Longrightarrow>
    \<exists>err dx' u'. pes_stream callback dx u = Ret (err, dx', u') \<and> frame_inv n (dx_frame dx') \<and> I u'"
proof (induction dx u rule: stream_induct [where callback = callback])
  case (out dx stream skip la u)
  then show ?case by (simp add: stream_out)
next
  case (payload dx stream skip la u p)
  have "2 \<le> length (take la p)" "frame_inv n (dx_frame (new_packet dx))"
    using payload by (auto simp: new_packet_def frame_inv_def)
  then obtain err dx' u' rest where r: "demux_pes_packet_frame callback (new_packet dx) u (take la p) = Ret (err, dx', u', rest)"
    "frame_inv n (dx_frame dx')" "I u'"
    using packet_frame_inv [OF assms] payload.prems(2) by blast
  then show ?case using payload by (cases "err = Some VBI_ERR_CALLBACK") (simp_all add: stream_payload)
next
  case (skip dx stream sk la u p n)
  then show ?case by (simp add: stream_scan)
next
  case (header dx stream sk la u p n l dx1)
  then have "dx_frame dx1 = dx_frame dx"
    by (auto simp: packet_header_def Let_def dest: valid_header_frame split: if_splits prod.splits)
  then show ?case using header by (simp add: stream_scan)
qed

lemma demux_safe:
  assumes "cb_keeps callback n I" "frame_inv n (dx_frame dx)" "I u" "demux_inv dx buf pos"
  shows "\<exists>err dx' u' pos'. demux_pes_packet callback dx u buf pos = Ret (err, dx', u', pos')
    \<and> frame_inv n (dx_frame dx') \<and> I u' \<and> demux_inv dx' buf pos' \<and> (err = None \<longrightarrow> pos' = length buf)"
proof -
  obtain err dx' u' where "pes_stream callback (absorb dx (drop pos buf)) u = Ret (err, dx', u')" "frame_inv n (dx_frame dx')" "I u'"
    using stream_inv [OF assms(1), of "absorb dx (drop pos buf)" u] assms(2,3) by auto
  then show ?thesis using demux_stream_result [OF assms(4), of callback u] by (auto simp: c_bind_eq_Ret)
qed

text \<open>A callback that accepts every frame never stops the demultiplexer.\<close>

lemma line_address_no_callback: "line_address f lofp system \<noteq> Inl VBI_ERR_CALLBACK"
  by (auto simp: line_address_def split: prod.splits)

lemma demux_unit_no_callback: "demux_unit f p unit_id l \<noteq> Ret (Some VBI_ERR_CALLBACK, f')"
proof -
  have "demux_line system line_ok service pos n conv f p \<noteq> Ret (Some VBI_ERR_CALLBACK, f')" for system line_ok service pos n conv
    using line_address_no_callback by (auto simp: demux_line_def c_bind_eq_Ret split: sum.splits if_splits)
  then show ?thesis by (auto simp: demux_unit_def Let_def c_bind_eq_Ret split: if_splits)
qed

lemma extract_no_callback: "extract_data_units f p \<noteq> Ret (Some VBI_ERR_CALLBACK, f', rest)"
proof (induction f p rule: extract_data_units.induct)
  case (1 f p)
  show ?case
  proof
    assume e: "extract_data_units f p = Ret (Some VBI_ERR_CALLBACK, f', rest)"
    then have big: "2 < length p" "\<not> length p < unat (p ! 1) + 2"
      by (subst (asm) extract_data_units.simps, simp split: if_splits)+
    then obtain err f1 where u: "demux_unit f p (p ! 0) (unat (p ! 1)) = Ret (err, f1)"
      using e by (subst (asm) extract_data_units.simps) (auto simp: c_bind_eq_Ret)
    show False
    proof (cases "err = None")
      case True
      then have "extract_data_units (f1 \<lparr> last_data_unit_id := p ! 0 \<rparr>) (drop (unat (p ! 1) + 2) p) = Ret (Some VBI_ERR_CALLBACK, f', rest)"
        using e big u by (subst (asm) extract_data_units.simps) simp
      then show False using "1.IH" big True u by fastforce
    next
      case False
      then show False using e big u demux_unit_no_callback by (subst (asm) extract_data_units.simps) auto
    qed
  qed
qed

definition cb_accepts :: "'u dvb_cb \<Rightarrow> bool" where
  "cb_accepts callback \<longleftrightarrow> (\<exists>call. callback = Some call \<and> (\<forall>lines pts u. fst (call lines pts u)))"

lemma packet_frame_accepted:
  assumes "cb_accepts callback"
  shows "demux_pes_packet_frame callback dx u src \<noteq> Ret (Some VBI_ERR_CALLBACK, dx', u', rest)"
  using assms
proof (induction callback dx u src rule: packet_frame_induct)
  case (1 callback dx u src)
  show ?case
  proof (cases "length src < 2")
    case True
    then show ?thesis by (simp add: demux_pes_packet_frame.simps)
  next
    case False
    then have len: "2 \<le> length src" by simp
    show ?thesis
    proof (cases rule: packet_frame_cases [OF len, of dx callback u, case_names undef ok stop again])
      case (stop f rest' u1)
      obtain call where "callback = Some call" "\<forall>lines pts u. fst (call lines pts u)" using "1.prems" by (auto simp: cb_accepts_def)
      then show ?thesis using stop(2) by (metis fst_conv option.distinct(1) option.inject)
    next
      case (again call f rest' u1)
      then show ?thesis using 1 len by simp
    qed (use extract_no_callback in auto)
  qed
qed

lemma stream_accepted:
  assumes "cb_accepts callback"
  shows "pes_stream callback dx u \<noteq> Ret (Some VBI_ERR_CALLBACK, dx', u')"
proof (induction dx u rule: stream_induct [where callback = callback])
  case (out dx stream skip la u)
  then show ?case by (simp add: stream_out)
next
  case (payload dx stream skip la u p)
  then show ?case using packet_frame_accepted [OF assms]
    by (cases "demux_pes_packet_frame callback (new_packet dx) u (take la p)") (auto simp: stream_payload split: if_splits)
next
  case (skip dx stream sk la u p n)
  then show ?case by (simp add: stream_scan)
next
  case (header dx stream sk la u p n l dx1)
  then show ?case by (simp add: stream_scan)
qed

lemma demux_accepted:
  assumes "demux_pes_packet callback dx u buf pos = Ret (err, dx', u', pos')" "demux_inv dx buf pos" "cb_accepts callback"
  shows "err = None"
  using demux_stream [OF assms(2), of callback u, symmetric] demux_result(2) [OF assms(1,2)] stream_accepted [OF assms(3), of "absorb dx (drop pos buf)" u]
    assms(1) by auto

section \<open>One packet\<close>

text \<open>\<open>h\<close> is the header of a VBI packet with \<open>n\<close> bytes of data units.\<close>

definition vbi_header :: "u8 list \<Rightarrow> nat \<Rightarrow> bool" where
  "vbi_header h n \<longleftrightarrow> length h = 46 \<and> h ! 0 = 0 \<and> h ! 1 = 0 \<and> h ! 2 = 1 \<and> h ! 3 = PRIVATE_STREAM_1
     \<and> unat (h ! 4) * 256 + unat (h ! 5) = 40 + n \<and> 138 \<le> n"

lemma stream_packet:
  assumes "vbi_header h (length src)" "valid_vbi_pes_packet_header dx h = (True, dx1)"
  shows "pes_stream callback (with_wrap dx (h @ src @ tail) 0 48) u =
    c_bind (demux_pes_packet_frame callback (new_packet dx1) u src) (\<lambda>(err, dx, u, _).
      if err = Some VBI_ERR_CALLBACK then Ret (err, with_wrap dx (src @ tail) 0 (length src), u)
      else pes_stream callback (with_wrap dx tail 0 48) u)"
proof -
  have h: "length h = 46" "unat (h ! 4) * 256 + unat (h ! 5) = 40 + length src" "138 \<le> length src"
    using assms(1) by (auto simp: vbi_header_def)
  have at: "(h @ src @ tail) ! k = h ! k" if "k < 6" for k using h(1) that by (simp add: nth_append)
  have "start_code (h @ src @ tail) = None" using assms(1) by (simp add: start_code_def at vbi_header_def)
  moreover have "packet_header dx h = (46, length src, dx1)" using h assms(2) by (simp add: packet_header_def Let_def)
  ultimately have "pes_stream callback (with_wrap dx (h @ src @ tail) 0 48) u = pes_stream callback (with_wrap dx1 (h @ src @ tail) 46 (length src)) u"
    using h by (subst stream_scan [OF _ _ refl]) simp_all
  also have "\<dots> = c_bind (demux_pes_packet_frame callback (new_packet dx1) u src) (\<lambda>(err, dx, u, _).
      if err = Some VBI_ERR_CALLBACK then Ret (err, with_wrap dx (src @ tail) 0 (length src), u)
      else pes_stream callback (with_wrap dx (src @ tail) (length src) 48) u)"
    using h by (subst stream_payload [of 46 "length src" _ "src @ tail"]) simp_all
  finally have "pes_stream callback (with_wrap dx (h @ src @ tail) 0 48) u = c_bind (demux_pes_packet_frame callback (new_packet dx1) u src)
      (\<lambda>(err, dx, u, _). if err = Some VBI_ERR_CALLBACK then Ret (err, with_wrap dx (src @ tail) 0 (length src), u)
        else pes_stream callback (with_wrap dx (src @ tail) (length src) 48) u)" .
  moreover have "pes_stream callback (with_wrap d (src @ tail) (length src) 48) v = pes_stream callback (with_wrap d tail 0 48) v" for d v
    using pes_stream_skip [of "length src" "src @ tail" callback d 48 v] by simp
  ultimately show ?thesis by (simp only:)
qed

section \<open>The coroutine\<close>

text \<open>The lines, the context and the unread bytes after several calls.\<close>

primrec cor_calls :: "nat \<Rightarrow> vbi_dvb_demux \<Rightarrow> nat \<Rightarrow> u8 list \<Rightarrow> (vbi_sliced list \<times> vbi_dvb_demux \<times> u8 list) c_result" where
  "cor_calls 0 dx max_lines buffer = Ret ([], dx, buffer)"
| "cor_calls (Suc n) dx max_lines buffer =
     c_bind (vbi_dvb_demux_cor dx max_lines buffer) (\<lambda>(_, lines, _, dx, buffer).
       c_bind (cor_calls n dx max_lines buffer) (\<lambda>(tail, dx, buffer). Ret (lines @ tail, dx, buffer)))"

text \<open>A stuffing unit followed by a Teletext unit for an undefined line of the second field.\<close>

definition stuffing_then_second_field :: "u8 list \<Rightarrow> bool" where
  "stuffing_then_second_field src \<longleftrightarrow>
     (let q = drop (2 + unat (src ! 1)) src
      in src ! 0 = DATA_UNIT_STUFFING \<and> 46 \<le> length q
        \<and> (q ! 0 = DATA_UNIT_EBU_TELETEXT_NON_SUBTITLE \<or> q ! 0 = DATA_UNIT_EBU_TELETEXT_SUBTITLE)
        \<and> 44 \<le> unat (q ! 1) \<and> unat (q ! 1) + 2 \<le> length q \<and> q ! 2 AND 0x3F = 0 \<and> q ! 3 = 0xE4)"

lemma stuck_extract:
  assumes "stuffing_then_second_field src" "fr_sliced f \<noteq> []"
  shows "\<exists>rest. extract_data_units (reset_frame f) src = Ret (Some NEW_FRAME, (reset_frame f) \<lparr> last_data_unit_id := 0xFF \<rparr>, rest)"
proof -
  define q where "q = drop (2 + unat (src ! 1)) src"
  have s: "src ! 0 = 0xFF" "46 \<le> length q" "q ! 0 = 2 \<or> q ! 0 = 3" "44 \<le> unat (q ! 1)" "unat (q ! 1) + 2 \<le> length q"
    "q ! 2 AND 0x3F = 0" "q ! 3 = 0xE4"
    using assms(1) by (simp_all add: stuffing_then_second_field_def Let_def q_def data_unit_ids)
  let ?f = "(reset_frame f) \<lparr> last_data_unit_id := 0xFF \<rparr>"
  have len: "2 < length src" "\<not> length src < unat (src ! 1) + 2" using s(2) by (auto simp: q_def)
  have first: "extract_data_units (reset_frame f) src = extract_data_units ?f q"
  proof -
    have "demux_unit (reset_frame f) src 0xFF (unat (src ! 1)) = Ret (None, reset_frame f)" by (simp add: demux_unit_def data_unit_ids)
    then show ?thesis using len by (subst extract_data_units.simps) (simp add: s(1) q_def)
  qed
  have "q ! 2 AND 0x20 = (q ! 2 AND 0x3F) AND 0x20" "q ! 2 AND 31 = (q ! 2 AND 0x3F) AND 31" by (simp_all add: and.assoc)
  then have bits: "q ! 2 AND 0x20 = 0" "q ! 2 AND 31 = 0" by (simp_all add: s(6))
  have addr: "line_address ?f (q ! 2) SYSTEM_625 = Inl NEW_FRAME"
    using assms(2) bits by (simp add: line_address_def lofp_to_line_def reset_frame_def)
  have "demux_unit ?f q (q ! 0) (unat (q ! 1)) = Ret (Some NEW_FRAME, ?f)"
  proof -
    have reads: "c_read q 2 = Ret (q ! 2)" "c_read q 3 = Ret 0xE4" using s(2,7) by (simp_all add: c_read_def)
    have "demux_line SYSTEM_625 line_ok service 4 42 rev8 ?f q = Ret (Some NEW_FRAME, ?f)" for line_ok service
      by (simp add: demux_line_def reads addr)
    moreover have "\<not> unat (q ! 1) < 1 + 1 + 42" using s(4) by simp
    ultimately show ?thesis using s(3)
      by (elim disjE) (simp_all only: demux_unit_def Let_def data_unit_ids reads c_bind_simps if_True if_False simp_thms)
  qed
  then have "extract_data_units ?f q = Ret (Some NEW_FRAME, ?f, q)"
    using s by (subst extract_data_units.simps) auto
  then show ?thesis using first by simp
qed

lemma stuck_frame:
  assumes "stuffing_then_second_field src" "fr_sliced (dx_frame dx) \<noteq> []" "new_frame dx"
  shows "\<exists>dx' rest. demux_pes_packet_frame None (new_packet dx) () src = Ret (Some VBI_ERR_CALLBACK, dx', (), rest)
    \<and> new_frame dx' \<and> fr_sliced (dx_frame dx') = fr_sliced (dx_frame dx) \<and> fr_sp (dx_frame dx') = 0"
proof -
  have len: "2 \<le> length src" using assms(1) by (auto simp: stuffing_then_second_field_def Let_def)
  have "dx_frame (begin_frame (new_packet dx)) = reset_frame (dx_frame dx)"
    using assms(3) by (simp add: begin_frame_def new_packet_def reset_frame_def)
  then obtain rest where e: "extract_data_units (dx_frame (begin_frame (new_packet dx))) src =
      Ret (Some NEW_FRAME, (reset_frame (dx_frame dx)) \<lparr> last_data_unit_id := 0xFF \<rparr>, rest)"
    using stuck_extract [OF assms(1,2)] by auto
  then show ?thesis using len by (subst demux_pes_packet_frame.simps) (simp add: reset_frame_def)
qed

text \<open>The context and the unread bytes when the coroutine is stuck at the data units \<open>src\<close>.\<close>

definition stuck :: "u8 list \<Rightarrow> u8 list \<Rightarrow> vbi_dvb_demux \<Rightarrow> u8 list \<Rightarrow> bool" where
  "stuck src tail dx buffer \<longleftrightarrow> new_frame dx \<and> fr_sliced (dx_frame dx) \<noteq> [] \<and> absorb dx buffer = with_wrap dx (src @ tail) 0 (length src)"

lemma stuck_cor:
  assumes "pes_stream None (absorb dx buffer) () = Ret (Some VBI_ERR_CALLBACK, with_wrap dx1 (src @ tail) 0 (length src), ())"
    "new_frame dx1" "fr_sliced (dx_frame dx1) \<noteq> []" "fr_sp (dx_frame dx1) = 0" "48 \<le> wr_lookahead (pes_wrap dx)"
  shows "\<exists>pts dx' buffer'. vbi_dvb_demux_cor dx max_lines buffer = Ret (0, [], Some pts, dx', buffer') \<and> stuck src tail dx' buffer'"
proof -
  have inv: "demux_inv dx buffer 0" using assms(5) by (simp add: demux_inv_0)
  obtain dx' pos' where r: "demux_pes_packet None dx () buffer 0 = Ret (Some VBI_ERR_CALLBACK, dx', (), pos')"
    "absorb dx' (drop pos' buffer) = with_wrap dx1 (src @ tail) 0 (length src)"
    using demux_stream [OF inv, of None "()"] assms(1) by (auto simp: c_bind_eq_Ret)
  have core: "dx_frame dx' = dx_frame dx1" "new_frame dx' = new_frame dx1" "with_wrap dx' (src @ tail) 0 (length src) = with_wrap dx1 (src @ tail) 0 (length src)"
    using r(2) by (auto simp: absorb_def with_wrap_def vbi_dvb_demux.defs) (cases dx'; cases dx1; simp)+
  then have "stuck src tail dx' (drop pos' buffer)" using assms(2,3) r(2) by (simp add: stuck_def)
  then show ?thesis using r(1) core(1) assms(4) by (simp add: vbi_dvb_demux_cor_def)
qed

lemma stuck_calls:
  assumes "stuck src tail dx buffer" "stuffing_then_second_field src" "48 < length src"
  shows "\<exists>dx' buffer'. cor_calls n dx max_lines buffer = Ret ([], dx', buffer') \<and> stuck src tail dx' buffer'"
  using assms(1)
proof (induction n arbitrary: dx buffer)
  case (Suc n)
  obtain dx1 rest where f: "demux_pes_packet_frame None (new_packet dx) () src = Ret (Some VBI_ERR_CALLBACK, dx1, (), rest)"
    "new_frame dx1" "fr_sliced (dx_frame dx1) \<noteq> []" "fr_sp (dx_frame dx1) = 0"
    using stuck_frame [OF assms(2), of dx] Suc.prems by (auto simp: stuck_def)
  have "pes_stream None (absorb dx buffer) () = Ret (Some VBI_ERR_CALLBACK, with_wrap dx1 (src @ tail) 0 (length src), ())"
    using Suc.prems assms(3) f(1) by (simp add: stuck_def stream_payload [of 0 "length src" "src @ tail" "src @ tail"])
  moreover have "wr_lookahead (pes_wrap (absorb dx buffer)) = length src" using Suc.prems by (simp add: stuck_def)
  then have "48 \<le> wr_lookahead (pes_wrap dx)" using assms(3) by (simp add: absorb_def)
  ultimately obtain pts dx' buffer' where "vbi_dvb_demux_cor dx max_lines buffer = Ret (0, [], Some pts, dx', buffer')" "stuck src tail dx' buffer'"
    using stuck_cor [of dx buffer dx1 src tail max_lines] f by auto
  then show ?case using Suc.IH [of dx' buffer'] by auto
qed simp

section \<open>Properties\<close>

lemma feed_all_safe:
  assumes "cb_keeps (Some call) n I"
  shows "48 \<le> wr_lookahead (pes_wrap dx) \<Longrightarrow> frame_inv n (dx_frame dx) \<Longrightarrow> I u \<Longrightarrow>
    \<exists>ok dx' u'. feed_all (Some call) dx u buffers = Ret (ok, dx', u') \<and> I u' \<and> (cb_accepts (Some call) \<longrightarrow> ok)"
proof (induction buffers arbitrary: dx u)
  case (Cons b bs)
  have inv: "demux_inv dx b 0" using Cons.prems(1) by (simp add: demux_inv_0)
  obtain err dx1 u1 pos where r: "demux_pes_packet (Some call) dx u b 0 = Ret (err, dx1, u1, pos)" "frame_inv n (dx_frame dx1)" "I u1"
    "demux_inv dx1 b pos" using demux_safe [OF assms Cons.prems(2,3) inv] by blast
  have ok: "cb_accepts (Some call) \<longrightarrow> err = None" using demux_accepted [OF r(1) inv] by blast
  have la: "48 \<le> wr_lookahead (pes_wrap dx1)" using r(4) by (simp add: demux_inv_def)
  show ?case using Cons.IH [OF la r(2,3)] r(1,3) ok by (cases "err = None") (auto simp: vbi_dvb_demux_feed_def)
qed auto

lemma demux_reset_inv:
  "list_all sliced_ok slots \<Longrightarrow> frame_inv (length slots) (dx_frame (vbi_dvb_demux_reset slots))"
  "48 \<le> wr_lookahead (pes_wrap (vbi_dvb_demux_reset slots))"
  by (simp_all add: vbi_dvb_demux_reset_def frame_inv_def PES_HEADER_LOOKAHEAD_def)

text \<open>
  C3. The PES demultiplexer computes a function of the stream alone. Whatever the wrap-around buffer holds and wherever
  the scan for start codes stops, \<^verbatim>\<open>demux_pes_packet\<close> has the result, the lines delivered and the unread bytes of the reference
  parser, which sees the whole stream and decides byte by byte; and a stream cut into buffers in any way, down to single
  bytes, is accepted with the same final state and the same callbacks as in one buffer.
\<close>

theorem dvb_feed_chunks:
  assumes "PES_HEADER_LOOKAHEAD \<le> wr_lookahead (pes_wrap dx)" "buffers \<noteq> []"
  shows "(feed_all callback dx u buffers = Ret (True, dx', u')) = (vbi_dvb_demux_feed callback dx u (concat buffers) = Ret (True, dx', u'))
    \<and> c_bind (demux_pes_packet callback dx u buffer 0) (\<lambda>(err, dx, u, pos). Ret (err, absorb dx (drop pos buffer), u))
        = pes_stream callback (absorb dx buffer) u"
  using assms feed_all_eq [of dx buffers callback u dx' u'] demux_stream [of dx buffer 0 callback u]
  by (simp add: PES_HEADER_LOOKAHEAD_def demux_inv_0)


text \<open>
  C27. The coroutine can get stuck. When the first packet of a frame begins with a stuffing unit and a Teletext unit for an undefined
  line of the second field follows, \<^verbatim>\<open>line_address\<close> takes the latter for the begin of another frame, again in each call: however
  often \<^verbatim>\<open>vbi_dvb_demux_cor\<close> is called, it delivers no line and leaves this packet unread.
\<close>

theorem dvb_cor_livelock:
  assumes "vbi_header h (length src)" "fst (valid_vbi_pes_packet_header (vbi_dvb_demux_reset slots) h)"
    "stuffing_then_second_field src" "slots \<noteq> []"
  shows "\<exists>dx' buffer'. cor_calls (Suc n) (vbi_dvb_demux_reset slots) max_lines (h @ src @ tail) = Ret ([], dx', buffer')
    \<and> wr_left (pes_wrap dx') @ buffer' = src @ tail"
proof -
  let ?dx = "vbi_dvb_demux_reset slots" and ?buffer = "h @ src @ tail"
  obtain dx1 where v: "valid_vbi_pes_packet_header ?dx h = (True, dx1)" using assms(2) by (metis prod.collapse)
  then have dx1: "new_frame dx1" "fr_sliced (dx_frame dx1) = slots"
    by (auto simp: valid_vbi_pes_packet_header_def vbi_dvb_demux_reset_def split: if_splits)
  obtain dx2 rest where f: "demux_pes_packet_frame None (new_packet dx1) () src = Ret (Some VBI_ERR_CALLBACK, dx2, (), rest)"
    "new_frame dx2" "fr_sliced (dx_frame dx2) \<noteq> []" "fr_sp (dx_frame dx2) = 0"
    using stuck_frame [OF assms(3)] dx1 assms(4) by fastforce
  have "absorb ?dx ?buffer = with_wrap ?dx ?buffer 0 48" by (simp add: absorb_def vbi_dvb_demux_reset_def PES_HEADER_LOOKAHEAD_def)
  then have "pes_stream None (absorb ?dx ?buffer) () = Ret (Some VBI_ERR_CALLBACK, with_wrap dx2 (src @ tail) 0 (length src), ())"
    using stream_packet [OF assms(1) v, of None tail "()"] f(1) by simp
  then obtain pts dx' buffer' where c: "vbi_dvb_demux_cor ?dx max_lines ?buffer = Ret (0, [], Some pts, dx', buffer')" "stuck src tail dx' buffer'"
    using stuck_cor f(2-4) demux_reset_inv(2) by metis
  have "48 < length src" using assms(1) by (simp add: vbi_header_def)
  from stuck_calls [OF c(2) assms(3) this] obtain dx3 buffer3 where
    "cor_calls n dx' max_lines buffer' = Ret ([], dx3, buffer3)" "stuck src tail dx3 buffer3" by blast
  moreover have "wr_left (pes_wrap dx3) @ buffer3 = src @ tail" if "stuck src tail dx3 buffer3"
  proof -
    have "wr_left (pes_wrap (absorb dx3 buffer3)) = src @ tail" using that by (simp add: stuck_def)
    then show ?thesis by (simp add: absorb_def)
  qed
  ultimately show ?thesis using c(1) by simp
qed

definition sample_header :: "nat \<Rightarrow> u8 list" where
  "sample_header n = [0, 0, 1, 0xBD, of_nat (n div 256), of_nat (n mod 256), 0x84, 0x80, 0x24, 0x21, 0, 1, 0, 1] @ replicate 31 0xFF @ [0x10]"

theorem dvb_cor_livelock_witness:
  "\<exists>dx' buffer'. cor_calls 1000000 (vbi_dvb_demux_reset [sample_line 0 0]) 10
      (sample_header 178 @ ([0xFF, 0, 2, 44, 0, 0xE4] @ replicate 132 0) @ []) = Ret ([], dx', buffer')
    \<and> length (wr_left (pes_wrap dx') @ buffer') = 138"
proof -
  let ?src = "[0xFF, 0, 2, 44, 0, 0xE4] @ replicate 132 0 :: u8 list"
  have "vbi_header (sample_header 178) (length ?src)"
    by (simp add: vbi_header_def sample_header_def PRIVATE_STREAM_1_def)
  moreover have "fst (valid_vbi_pes_packet_header (vbi_dvb_demux_reset [sample_line 0 0]) (sample_header 178))"
    by (simp add: valid_vbi_pes_packet_header_def sample_header_def nth_append drop_bit_eq_div)
  moreover have "stuffing_then_second_field ?src"
    by (simp add: stuffing_then_second_field_def data_unit_ids nth_append)
  ultimately have "\<exists>dx' buffer'. cor_calls (Suc 999999) (vbi_dvb_demux_reset [sample_line 0 0]) 10 (sample_header 178 @ ?src @ []) = Ret ([], dx', buffer')
    \<and> wr_left (pes_wrap dx') @ buffer' = ?src @ []"
    by (intro dvb_cor_livelock) simp_all
  then obtain dx' buffer' where r: "cor_calls (Suc 999999) (vbi_dvb_demux_reset [sample_line 0 0]) 10 (sample_header 178 @ ?src @ []) = Ret ([], dx', buffer')"
    "wr_left (pes_wrap dx') @ buffer' = ?src @ []" by blast
  have "length (wr_left (pes_wrap dx') @ buffer') = 138" unfolding r(2) by simp
  then show ?thesis using r(1) by simp
qed

theorem dvb_feed_chunks_witness:
  "\<exists>dx'. feed_all (Some (\<lambda>_ _ n. (True, Suc n))) (vbi_dvb_demux_reset [sample_line 0 0]) (0 :: nat) [[0, 0], [1]] = Ret (True, dx', 0)"
proof -
  let ?cb = "Some (\<lambda>_ _ n. (True, Suc n))" and ?dx = "vbi_dvb_demux_reset [sample_line 0 0]"
  have "absorb ?dx [0, 0, 1] = with_wrap ?dx [0, 0, 1] 0 48"
    by (simp add: absorb_def vbi_dvb_demux_reset_def PES_HEADER_LOOKAHEAD_def)
  then have "\<exists>dx'. pes_stream ?cb (absorb ?dx [0, 0, 1]) (0 :: nat) = Ret (None, dx', 0)" by (simp add: stream_out)
  then obtain dx' where "vbi_dvb_demux_feed ?cb ?dx (0 :: nat) [0, 0, 1] = Ret (True, dx', 0)"
    by (auto simp: feed_stream [OF demux_reset_inv(2)])
  then show ?thesis
    using dvb_feed_chunks [of ?dx "[[0, 0], [1]]" ?cb 0 dx' 0 "[]"] demux_reset_inv(2) [of "[sample_line 0 0]"]
    by (auto simp: PES_HEADER_LOOKAHEAD_def simp del: feed_all.simps)
qed


end
