(* ===== verification/Sampling_Par.thy ===== *)
theory Sampling_Par
  imports Zvbi_Prelude
begin

text \<open>
  Raw VBI sampling parameters, \<^verbatim>\<open>vbi/src/sampling_par.c\<close>, and the fields of \<^verbatim>\<open>vbi_raw_decoder\<close> that describe the
  sampling (\<^verbatim>\<open>decoder.h\<close>; \<^verbatim>\<open>VBI_VERSION_MINOR\<close> is 2). A field of type \<^verbatim>\<open>int\<close> is an \<open>int\<close>, and
  \<open>word_of_int\<close> its conversion to \<^verbatim>\<open>unsigned int\<close>.
\<close>

type_synonym vbi_videostd_set = "64 word"

definition VBI_VIDEOSTD_SET_625_50 :: vbi_videostd_set where "VBI_VIDEOSTD_SET_625_50 = 1"
definition VBI_VIDEOSTD_SET_525_60 :: vbi_videostd_set where "VBI_VIDEOSTD_SET_525_60 = 2"

definition VBI_PIXFMT_YUV420 :: int where "VBI_PIXFMT_YUV420 = 1"
definition VBI_PIXFMT_RGBA32_LE :: int where "VBI_PIXFMT_RGBA32_LE = 32"
definition VBI_PIXFMT_BGRA32_BE :: int where "VBI_PIXFMT_BGRA32_BE = 35"
definition VBI_PIXFMT_RGB24 :: int where "VBI_PIXFMT_RGB24 = 36"
definition VBI_PIXFMT_BGR24 :: int where "VBI_PIXFMT_BGR24 = 37"

definition VBI_PIXFMT_BPP :: "int \<Rightarrow> nat" where
  "VBI_PIXFMT_BPP fmt =
     (if fmt = VBI_PIXFMT_YUV420 then 1
      else if VBI_PIXFMT_RGBA32_LE \<le> fmt \<and> fmt \<le> VBI_PIXFMT_BGRA32_BE then 4
      else if fmt = VBI_PIXFMT_RGB24 \<or> fmt = VBI_PIXFMT_BGR24 then 3 else 2)"

text \<open>\<open>sp_start\<close> and \<open>sp_count\<close> are arrays of two elements, first and second field.\<close>

record vbi_sampling_par =
  scanning :: int
  sampling_format :: int
  sampling_rate :: int
  bytes_per_line :: int
  sp_offset :: int
  sp_start :: "int list"
  sp_count :: "int list"
  interlaced :: bool
  synchronous :: bool

definition vbi_videostd_set_from_scanning :: "int \<Rightarrow> vbi_videostd_set" where
  "vbi_videostd_set_from_scanning n =
     (if n = 525 then VBI_VIDEOSTD_SET_525_60 else if n = 625 then VBI_VIDEOSTD_SET_625_50 else 0)"

definition range_check :: "u32 \<Rightarrow> u32 \<Rightarrow> u32 \<Rightarrow> u32 \<Rightarrow> bool" where
  "range_check start count lo hi \<longleftrightarrow> lo \<le> start \<and> start + count \<le> hi \<and> start \<le> start + count"

definition vbi_sampling_par_valid_log :: "vbi_sampling_par \<Rightarrow> bool" where
  "vbi_sampling_par_valid_log sp =
     (let range_ok = (\<lambda>field lo hi. \<not> (0 \<noteq> sp_start sp ! field
            \<and> \<not> range_check (word_of_int (sp_start sp ! field)) (word_of_int (sp_count sp ! field)) lo hi));
          videostd_set = vbi_videostd_set_from_scanning (scanning sp)
      in if sampling_format sp \<noteq> VBI_PIXFMT_YUV420
           \<and> unat (word_of_int (bytes_per_line sp) :: u32) mod VBI_PIXFMT_BPP (sampling_format sp) \<noteq> 0 then False
         else if bytes_per_line sp = 0 then False
         else if sp_count sp ! 0 = 0 \<and> sp_count sp ! 1 = 0 then False
         else if VBI_VIDEOSTD_SET_525_60 AND videostd_set \<noteq> 0
              \<and> (VBI_VIDEOSTD_SET_625_50 AND videostd_set \<noteq> 0 \<or> \<not> range_ok 0 1 262 \<or> \<not> range_ok 1 263 525) then False
         else if VBI_VIDEOSTD_SET_525_60 AND videostd_set = 0 \<and> VBI_VIDEOSTD_SET_625_50 AND videostd_set \<noteq> 0
              \<and> (\<not> range_ok 0 1 311 \<or> \<not> range_ok 1 312 625) then False
         else if VBI_VIDEOSTD_SET_525_60 AND videostd_set = 0 \<and> VBI_VIDEOSTD_SET_625_50 AND videostd_set = 0 then False
         else if interlaced sp \<and> (sp_count sp ! 0 \<noteq> sp_count sp ! 1 \<or> sp_count sp ! 0 = 0) then False
         else True)"

end
