(* ===== verification/Dvb_Pes_Mux.thy ===== *)
theory Dvb_Pes_Mux
  imports Dvb_Mux Sampling_Par
begin

text \<open>
  The second half of \<^verbatim>\<open>vbi/src/dvb_mux.c\<close>: data units of raw VBI samples, the generator of PES packets from sliced and raw
  lines, TS packets, and the interface of the multiplexer (feeding a callback, and the coroutine). \<^verbatim>\<open>VBI_VERSION_MINOR\<close> is 2,
  so that \<^verbatim>\<open>sp_samples_per_line\<close> is \<^verbatim>\<open>bytes_per_line\<close>. The bytes stored at \<^verbatim>\<open>*packet\<close> are a list, as in \<open>Dvb_Mux\<close>.
\<close>

declare c_bind_cong [fundef_cong]

section \<open>Raw data units\<close>

definition VBI_SLICED_VBI_625 :: u32 where "VBI_SLICED_VBI_625 = 0x20000000"
definition BT601_625_OFFSET :: u32 where "BT601_625_OFFSET = 864 - 12 - 720"
definition MAX_PES_PACKET_SIZE :: nat where "MAX_PES_PACKET_SIZE = 6 + 65535 - (6 + 65535) mod 184"

text \<open>
  The loop: \<open>r\<close> are the samples from \<^verbatim>\<open>*raw\<close> on (the array may be longer or shorter than the \<open>r_left\<close> samples to be read).
  The result is the bytes stored, the size of the last data unit, and the number of samples converted.
\<close>

function raw_loop ::
  "bool \<Rightarrow> nat \<Rightarrow> u32 \<Rightarrow> u32 \<Rightarrow> u32 \<Rightarrow> nat \<Rightarrow> u8 list \<Rightarrow> nat \<Rightarrow> u8 list \<Rightarrow> nat \<Rightarrow> nat \<Rightarrow> (u8 list \<times> nat \<times> nat) c_result" where
  "raw_loop fixed_length crit_p_left lofp n_pixels_total position p_left r r_left out last_du_size converted =
     (if r_left = 0 \<or> p_left < (if fixed_length then 2 + 0x2C else 2 + 4 + 1) then Ret (out, last_du_size, converted)
      else
        let n_pixels = (if fixed_length then min r_left (0x2C - 4)
                        else if crit_p_left = p_left then min r_left 250
                        else min (min r_left 251) (p_left - 6));
            last_du_size = (if fixed_length then 2 + 0x2C else 6 + n_pixels)
        in c_bind (c_block r 0 n_pixels) (\<lambda>samples.
             raw_loop fixed_length crit_p_left lofp n_pixels_total (position + of_nat n_pixels) (p_left - last_du_size)
               (drop n_pixels r) (r_left - n_pixels)
               (out @ [DATA_UNIT_MONOCHROME_SAMPLES,
                       if fixed_length then 0x2C else of_nat (4 + n_pixels),
                       ucast (lofp + push_bit 7 (if r_left = unat n_pixels_total then 1 else 0)
                                   + push_bit 6 (if r_left = n_pixels then 1 else 0)),
                       ucast (drop_bit 8 position), ucast position, of_nat n_pixels]
                    @ samples @ (if fixed_length then replicate (0x2C - 4 - n_pixels) 0xFF else []))
               last_du_size (converted + n_pixels)))"
  by pat_completeness auto
termination
  by (relation "measure (\<lambda>(_, _, _, _, _, _, _, r_left, _). r_left)") (auto split: if_splits)

declare raw_loop.simps [simp del]

definition insert_raw_data_units ::
  "nat \<Rightarrow> u8 list \<Rightarrow> nat \<Rightarrow> bool \<Rightarrow> vbi_videostd_set \<Rightarrow> u32 \<Rightarrow> u32 \<Rightarrow> u32 \<Rightarrow> bool
    \<Rightarrow> (dvb_mux_error + u8 list \<times> nat \<times> nat) c_result" where
  "insert_raw_data_units p_left r r_left fixed_length videostd_set line first_pixel_position n_pixels_total stuffing =
     (let crit_p_left = (if stuffing then 2 + 4 + 251 + 1 else 0);
          f2_start = (if videostd_set AND VBI_VIDEOSTD_SET_525_60 \<noteq> 0 then 263 else 313);
          end_position = first_pixel_position + n_pixels_total;
          lofp = (if f2_start \<le> line then 0 else push_bit 5 1);
          line = (if f2_start \<le> line then line - f2_start else line)
      in if videostd_set AND VBI_VIDEOSTD_SET_525_60 \<noteq> 0 \<and> videostd_set AND VBI_VIDEOSTD_SET_625_50 \<noteq> 0
           \<or> videostd_set AND VBI_VIDEOSTD_SET_525_60 = 0 \<and> videostd_set AND VBI_VIDEOSTD_SET_625_50 = 0
         then Ret (Inl VBI_ERR_AMBIGUOUS_VIDEOSTD)
         else if unat n_pixels_total < r_left \<or> 720 < end_position \<or> end_position < n_pixels_total
         then Ret (Inl VBI_ERR_SAMPLE_NUMBER)
         else if 23 - 7 < line - 7 then Ret (Inl VBI_ERR_LINE_NUMBER)
         else c_bind (raw_loop fixed_length crit_p_left (lofp + line) n_pixels_total
                        (first_pixel_position + (n_pixels_total - of_nat r_left)) p_left r r_left [] 0 0)
                (\<lambda>stored. Ret (Inr stored)))"

text \<open>
  The result, the bytes stored at \<^verbatim>\<open>*packet\<close>, \<^verbatim>\<open>*packet_left\<close> and \<^verbatim>\<open>*raw_left\<close>. An absent array is the empty list
  with no samples left.
\<close>

definition vbi_dvb_multiplex_raw ::
  "nat \<Rightarrow> u8 list \<Rightarrow> nat \<Rightarrow> u32 \<Rightarrow> vbi_videostd_set \<Rightarrow> u32 \<Rightarrow> u32 \<Rightarrow> u32 \<Rightarrow> bool
    \<Rightarrow> (bool \<times> u8 list \<times> nat \<times> nat) c_result" where
  "vbi_dvb_multiplex_raw packet_left raw raw_left data_identifier videostd_set line first_pixel_position n_pixels_total stuffing =
     (let fixed_length = fixed_length_format data_identifier
      in if packet_left < 2 then Ret (False, [], packet_left, raw_left)
         else if fixed_length \<and> packet_left mod 46 > 0 then Ret (False, [], packet_left, raw_left)
         else if raw_left = 0 then Ret (False, [], packet_left, raw_left)
         else c_bind (insert_raw_data_units packet_left raw raw_left fixed_length videostd_set line
                        first_pixel_position n_pixels_total stuffing) (\<lambda>r.
           case r of
             Inl err \<Rightarrow> Ret (False, [], packet_left, raw_left)
           | Inr (out, last_du_size, converted) \<Rightarrow>
               if stuffing
               then c_bind (encode_stuffing out (packet_left - length out) last_du_size fixed_length)
                      (\<lambda>out. Ret (True, out, 0, raw_left - converted))
               else Ret (True, out, packet_left - length out, raw_left - converted)))"

section \<open>The multiplexer\<close>

text \<open>
  \<open>mx_packet\<close> is the buffer of \<^verbatim>\<open>4 + MAX_PES_PACKET_SIZE\<close> bytes. The fields for the coroutine follow those for the generator of
  PES and of TS packets.
\<close>

record vbi_dvb_mux =
  mx_packet :: "u8 list"
  min_packet_size :: nat
  max_packet_size :: nat
  mx_data_identifier :: u32
  raw_samples_left :: nat
  raw_line :: u32
  raw_offset :: int
  raw_samples_per_line :: u32
  raw_samples :: "u8 list"
  mx_pid :: u32
  continuity_counter :: u32
  cor_offset :: nat
  cor_end :: nat
  cor_ts_left :: nat

definition vbi_dvb_mux_reset :: "vbi_dvb_mux \<Rightarrow> vbi_dvb_mux" where
  "vbi_dvb_mux_reset mx =
     mx \<lparr> raw_samples_left := 0, continuity_counter := (continuity_counter mx - 1) AND 0xF, cor_offset := 0, cor_end := 0 \<rparr>"

text \<open>The index of the first sample of a line in the raw VBI image.\<close>

definition samples_pointer :: "u8 list option \<Rightarrow> vbi_sampling_par option \<Rightarrow> u32 \<Rightarrow> dvb_mux_error + nat" where
  "samples_pointer raw sp line =
     (case raw of None \<Rightarrow> Inl VBI_ERR_NO_RAW_DATA
      | Some _ \<Rightarrow>
        (case sp of None \<Rightarrow> Inl VBI_ERR_SAMPLING_PAR
         | Some sp \<Rightarrow>
           if line = 0 then Inl VBI_ERR_LINE_NUMBER
           else
             let field = (if 313 \<le> line then 1 else 0);
                 row = line - word_of_int (sp_start sp ! field)
             in if line < word_of_int (sp_start sp ! field) then Inl VBI_ERR_RAW_BUFFER_OVERFLOW
                else if word_of_int (sp_count sp ! field) \<le> row then Inl VBI_ERR_RAW_BUFFER_OVERFLOW
                else
                  let row = (if interlaced sp then row * 2 + of_nat field
                             else if field > 0 then row + word_of_int (sp_count sp ! 0) else row)
                  in Inr (unat (row * word_of_int (bytes_per_line sp)))))"

definition encode_timestamp :: "64 word \<Rightarrow> u32 \<Rightarrow> u8 list" where
  "encode_timestamp pts mark =
     (let t = ucast pts :: u32
      in [ucast (mark + ucast (drop_bit 29 pts AND 0xE)), ucast (drop_bit 22 t), ucast (drop_bit 14 t OR 1),
          ucast (drop_bit 7 t), ucast (t * 2 + 1)])"

text \<open>The sum of two \<^verbatim>\<open>int\<close> is undefined when it overflows.\<close>

definition valid_sampling_par :: "vbi_sampling_par \<Rightarrow> bool c_result" where
  "valid_sampling_par sp =
     (let samples_end = word_of_int (sp_offset sp + bytes_per_line sp) :: u32
      in if 625 \<noteq> scanning sp then Ret False
         else if VBI_PIXFMT_YUV420 \<noteq> sampling_format sp then Ret False
         else if 13500000 \<noteq> sampling_rate sp then Ret False
         else if word_of_int (sp_offset sp) < BT601_625_OFFSET then Ret False
         else if sp_offset sp + bytes_per_line sp < - (2 ^ 31) \<or> 2 ^ 31 \<le> sp_offset sp + bytes_per_line sp then Undef
         else if BT601_625_OFFSET + 720 < samples_end then Ret False
         else if samples_end < word_of_int (bytes_per_line sp) then Ret False
         else if \<not> synchronous sp then Ret False
         else Ret (vbi_sampling_par_valid_log sp))"

definition init_pes_packet_header :: "vbi_dvb_mux \<Rightarrow> vbi_dvb_mux" where
  "init_pes_packet_header mx =
     mx \<lparr> mx_packet := c_memcpy (4 + 6) ([push_bit 6 2 OR push_bit 2 1, push_bit 6 2, 0x24] @ replicate 36 0xFF)
                        (c_memcpy 4 [0x00, 0x00, 0x01, 0xBD] (mx_packet mx)) \<rparr>"

text \<open>
  A new multiplexer. \<open>memory\<close> is what \<^verbatim>\<open>vbi_malloc\<close> returned for the packet; \<^verbatim>\<open>CLEAR\<close> sets everything else to zero.
\<close>

definition vbi_dvb_pes_mux_new :: "u8 list \<Rightarrow> vbi_dvb_mux" where
  "vbi_dvb_pes_mux_new memory =
     init_pes_packet_header
       \<lparr> mx_packet = memory, min_packet_size = 1 * 184, max_packet_size = MAX_PES_PACKET_SIZE, mx_data_identifier = 0x10,
         raw_samples_left = 0, raw_line = 0, raw_offset = 0, raw_samples_per_line = 0, raw_samples = replicate 720 0,
         mx_pid = 0, continuity_counter = 0, cor_offset = 0, cor_end = 0, cor_ts_left = 0 \<rparr>"

definition vbi_dvb_ts_mux_new :: "u32 \<Rightarrow> u8 list \<Rightarrow> vbi_dvb_mux option" where
  "vbi_dvb_ts_mux_new pid memory =
     (if pid \<le> 0x000F \<or> 0x1FFF \<le> pid then None else Some ((vbi_dvb_pes_mux_new memory) \<lparr> mx_pid := pid \<rparr>))"

section \<open>Options\<close>

definition vbi_dvb_mux_set_data_identifier :: "vbi_dvb_mux \<Rightarrow> u32 \<Rightarrow> bool \<times> vbi_dvb_mux" where
  "vbi_dvb_mux_set_data_identifier mx data_identifier =
     (if 0x10 \<le> data_identifier \<and> data_identifier < 0x20 \<or> 0x99 \<le> data_identifier \<and> data_identifier < 0x9C
      then (True, mx \<lparr> mx_data_identifier := data_identifier \<rparr>) else (False, mx))"

definition vbi_dvb_mux_set_pes_packet_size :: "vbi_dvb_mux \<Rightarrow> nat \<Rightarrow> nat \<Rightarrow> bool \<times> vbi_dvb_mux" where
  "vbi_dvb_mux_set_pes_packet_size mx min_size max_size =
     (let min_size = (if min_size < 184 then 184
                      else if MAX_PES_PACKET_SIZE < min_size then MAX_PES_PACKET_SIZE
                      else (min_size + 183) - (min_size + 183) mod 184);
          max_size = (if max_size < min_size then min_size
                      else if MAX_PES_PACKET_SIZE < max_size then MAX_PES_PACKET_SIZE
                      else max_size - max_size mod 184)
      in (True, mx \<lparr> min_packet_size := min_size, max_packet_size := max_size \<rparr>))"

section \<open>PES packets\<close>

text \<open>Whether the first line is not the raw line that an earlier packet began. The null pointer \<^verbatim>\<open>sp\<close> is not tested.\<close>

definition interrupted :: "vbi_dvb_mux \<Rightarrow> vbi_sliced list \<Rightarrow> vbi_sampling_par option \<Rightarrow> bool c_result" where
  "interrupted mx sliced sp =
     (if raw_samples_left mx = 0 then Ret False
      else case sliced of
             [] \<Rightarrow> Ret True
           | s # _ \<Rightarrow>
              if VBI_SLICED_VBI_625 \<noteq> sl_id s then Ret True
              else if raw_line mx \<noteq> sl_line s then Ret True
              else case sp of
                     None \<Rightarrow> Undef
                   | Some sp \<Rightarrow> Ret (raw_offset mx \<noteq> sp_offset sp \<or> raw_samples_per_line mx \<noteq> word_of_int (bytes_per_line sp)))"

text \<open>
  A raw line, new or continued: the error, or the context, the bytes stored and the size of the last data unit. Samples not
  converted are moved to the begin of \<^verbatim>\<open>raw_samples\<close>; when they are there already, the areas of this \<^verbatim>\<open>memcpy\<close> may
  overlap, which is undefined.
\<close>

definition raw_insert ::
  "vbi_dvb_mux \<Rightarrow> bool \<Rightarrow> u8 list \<Rightarrow> nat \<Rightarrow> vbi_sampling_par \<Rightarrow> nat \<Rightarrow> bool \<Rightarrow> u32
    \<Rightarrow> (dvb_mux_error option \<times> vbi_dvb_mux \<times> u8 list \<times> nat) c_result" where
  "raw_insert mx continued samples left sp p_left fixed_length line =
     (if 720 < left then Undef
      else c_bind (insert_raw_data_units p_left samples left fixed_length VBI_VIDEOSTD_SET_625_50 line
                (word_of_int (sp_offset sp) - BT601_625_OFFSET) (word_of_int (bytes_per_line sp)) True) (\<lambda>r.
         case r of
           Inl err \<Rightarrow> Ret (Some err, mx \<lparr> raw_samples_left := 0 \<rparr>, [], 0)
         | Inr (out, last_du_size, converted) \<Rightarrow>
            let todo = left - converted
            in if todo = 0 then Ret (None, mx \<lparr> raw_samples_left := 0 \<rparr>, out, last_du_size)
               else if continued \<and> converted < todo then Undef
               else c_bind (c_block samples converted todo) (\<lambda>block.
                      Ret (None, mx \<lparr> raw_samples_left := todo, raw_samples := c_memcpy 0 block (raw_samples mx), raw_line := line,
                                     raw_offset := sp_offset sp, raw_samples_per_line := word_of_int (bytes_per_line sp) \<rparr>,
                           out, last_du_size))))"

definition raw_step ::
  "vbi_dvb_mux \<Rightarrow> u8 list option \<Rightarrow> vbi_sampling_par option \<Rightarrow> nat \<Rightarrow> bool \<Rightarrow> u32
    \<Rightarrow> (dvb_mux_error option \<times> vbi_dvb_mux \<times> u8 list \<times> nat) c_result" where
  "raw_step mx raw sp p_left fixed_length line =
     (if 0 < raw_samples_left mx
      then case sp of
             None \<Rightarrow> Undef
           | Some sp \<Rightarrow> raw_insert mx True (raw_samples mx) (raw_samples_left mx) sp p_left fixed_length line
      else case samples_pointer raw sp line of
             Inl err \<Rightarrow> Ret (Some err, mx, [], 0)
           | Inr start \<Rightarrow>
              raw_insert mx False (drop start (the raw)) (unat (word_of_int (bytes_per_line (the sp)) :: u32)) (the sp) p_left fixed_length line)"

text \<open>
  The loop over the lines: \<open>pending\<close> are those from \<^verbatim>\<open>s_begin\<close> to \<^verbatim>\<open>s\<close>, \<open>capacity\<close> the bytes the packet has for data units.
  The result is the error, the context, the data units, the size of the last one, and the lines left.
\<close>

function pes_loop ::
  "vbi_dvb_mux \<Rightarrow> u32 \<Rightarrow> u8 list option \<Rightarrow> vbi_sampling_par option \<Rightarrow> nat \<Rightarrow> bool \<Rightarrow> u32 \<Rightarrow> u8 list \<Rightarrow> vbi_sliced list \<Rightarrow> vbi_sliced list
    \<Rightarrow> (dvb_mux_error option \<times> vbi_dvb_mux \<times> u8 list \<times> nat \<times> vbi_sliced list) c_result" where
  "pes_loop mx service_mask raw sp capacity fixed_length last_line out pending sliced =
     (if sliced \<noteq> [] \<and> 0 < sl_line (hd sliced) \<and> sl_line (hd sliced) \<le> last_line
      then Ret (Some VBI_ERR_LINE_ORDER, mx, out, 0, sliced)
      else
        let last_line = (if sliced \<noteq> [] \<and> 0 < sl_line (hd sliced) then sl_line (hd sliced) else last_line)
        in if sliced \<noteq> [] \<and> VBI_SLICED_VBI_625 \<noteq> sl_id (hd sliced)
           then pes_loop mx service_mask raw sp capacity fixed_length last_line out (pending @ [hd sliced]) (tl sliced)
           else case insert_sliced_data_units (capacity - length out) pending service_mask fixed_length of
             (err, units, last_du_size, rest) \<Rightarrow>
               if err \<noteq> None then Ret (err, mx, out @ units, last_du_size, rest @ sliced)
               else if rest \<noteq> [] then Ret (None, mx, out @ units, last_du_size, rest @ sliced)
               else if sliced = [] then Ret (None, mx, out @ units, last_du_size, [])
               else if service_mask AND VBI_SLICED_VBI_625 = 0
               then pes_loop mx service_mask raw sp capacity fixed_length last_line (out @ units) [] (tl sliced)
               else c_bind (raw_step mx raw sp (capacity - length (out @ units)) fixed_length (sl_line (hd sliced)))
                      (\<lambda>(err, mx, segments, last_du_size).
                        if err \<noteq> None \<or> 0 < raw_samples_left mx then Ret (err, mx, out @ units @ segments, last_du_size, sliced)
                        else pes_loop mx service_mask raw sp capacity fixed_length last_line (out @ units @ segments) [] (tl sliced)))"
  by pat_completeness auto
termination
  by (relation "measure (\<lambda>(_, _, _, _, _, _, _, _, _, sliced). length sliced)") (auto simp: neq_Nil_conv)

declare pes_loop.simps [simp del]

text \<open>The bytes of the header that change with each packet, other than its length.\<close>

definition pes_prepare :: "vbi_dvb_mux \<Rightarrow> 64 word \<Rightarrow> vbi_dvb_mux" where
  "pes_prepare mx pts =
     mx \<lparr> mx_packet := (c_memcpy (4 + 9) (encode_timestamp pts 0x21) (mx_packet mx)) [4 + 45 := ucast (mx_data_identifier mx)] \<rparr>"

text \<open>The bytes of stuffing behind \<open>n\<close> bytes.\<close>

definition pes_p_left :: "nat \<Rightarrow> nat \<Rightarrow> nat" where
  "pes_p_left min_size n = (if n < min_size then min_size - n else if n mod 184 > 0 then 184 - n mod 184 else 0)"

text \<open>The end of a packet with the data units \<open>out\<close>: its size and the context. Bytes stored outside the buffer are undefined.\<close>

definition pes_finish :: "vbi_dvb_mux \<Rightarrow> u8 list \<Rightarrow> nat \<Rightarrow> bool \<Rightarrow> (nat \<times> vbi_dvb_mux) c_result" where
  "pes_finish mx out last_du_size fixed_length =
     (let p_left = pes_p_left (min_packet_size mx) (46 + length out);
          packet_size = 46 + length out + p_left;
          packet_length = packet_size - 6
      in c_bind (encode_stuffing out p_left last_du_size fixed_length) (\<lambda>out.
           if length (mx_packet mx) < 4 + packet_size then Undef
           else Ret (packet_size,
                  mx \<lparr> mx_packet := (c_memcpy (4 + 45 + 1) out (mx_packet mx))
                                      [4 + 4 := of_nat (packet_length div 256), 4 + 5 := of_nat packet_length] \<rparr>)))"

text \<open>
  The error, the size of the packet, the context and the lines left. Data units of a packet that could not be completed,
  which nothing reads, are not stored.
\<close>

definition generate_pes_packet ::
  "vbi_dvb_mux \<Rightarrow> vbi_sliced list \<Rightarrow> u32 \<Rightarrow> u8 list option \<Rightarrow> vbi_sampling_par option \<Rightarrow> 64 word
    \<Rightarrow> (dvb_mux_error option \<times> nat \<times> vbi_dvb_mux \<times> vbi_sliced list) c_result" where
  "generate_pes_packet mx sliced service_mask raw sp pts =
     (let mx = pes_prepare mx pts; fixed_length = fixed_length_format (mx_data_identifier mx)
      in c_bind (interrupted mx sliced sp) (\<lambda>stop.
           if stop then Ret (Some VBI_ERR_RAW_DATA_INTERRUPTION, 0, mx, sliced)
           else c_bind (pes_loop mx service_mask raw sp (max_packet_size mx - 46) fixed_length 0 [] [] sliced)
             (\<lambda>(err, mx, out, last_du_size, rest).
               if err \<noteq> None then Ret (err, 0, mx, rest)
               else c_bind (pes_finish mx out last_du_size fixed_length) (\<lambda>(packet_size, mx). Ret (None, packet_size, mx, rest)))))"

section \<open>TS packets\<close>

definition generate_ts_packet_header :: "vbi_dvb_mux \<Rightarrow> nat \<Rightarrow> vbi_dvb_mux" where
  "generate_ts_packet_header mx offset =
     mx \<lparr> mx_packet := c_memcpy offset
            [0x47, ucast (if 0 = offset then push_bit 6 1 OR drop_bit 8 (mx_pid mx) else drop_bit 8 (mx_pid mx)),
             ucast (mx_pid mx), ucast (push_bit 4 1 + (continuity_counter mx AND 15))] (mx_packet mx),
          continuity_counter := continuity_counter mx + 1 \<rparr>"

section \<open>The interface\<close>

type_synonym 'u mux_cb = "(u8 list \<Rightarrow> 'u \<Rightarrow> bool \<times> 'u) option"

function ts_feed_loop ::
  "(u8 list \<Rightarrow> 'u \<Rightarrow> bool \<times> 'u) \<Rightarrow> vbi_dvb_mux \<Rightarrow> 'u \<Rightarrow> nat \<Rightarrow> nat \<Rightarrow> (bool \<times> vbi_dvb_mux \<times> 'u) c_result" where
  "ts_feed_loop call mx u packet_size offset =
     (let mx = generate_ts_packet_header mx offset
      in c_bind (c_block (mx_packet mx) offset 188) (\<lambda>packet.
           case call packet u of (ok, u) \<Rightarrow>
             if \<not> ok then Ret (False, mx, u)
             else if offset + 184 < packet_size then ts_feed_loop call mx u packet_size (offset + 184)
             else Ret (True, mx, u)))"
  by pat_completeness auto
termination
  by (relation "measure (\<lambda>(_, _, _, packet_size, offset). packet_size - offset)") auto

declare ts_feed_loop.simps [simp del]

text \<open>\<open>valid_par sp\<close>: \<^verbatim>\<open>sp\<close> is absent or valid.\<close>

definition valid_par :: "vbi_sampling_par option \<Rightarrow> bool c_result" where
  "valid_par sp = (case sp of None \<Rightarrow> Ret True | Some sp \<Rightarrow> valid_sampling_par sp)"

definition vbi_dvb_mux_feed ::
  "vbi_dvb_mux \<Rightarrow> 'u mux_cb \<Rightarrow> 'u \<Rightarrow> vbi_sliced list \<Rightarrow> u32 \<Rightarrow> u8 list option \<Rightarrow> vbi_sampling_par option \<Rightarrow> 64 word
    \<Rightarrow> (bool \<times> vbi_dvb_mux \<times> 'u) c_result" where
  "vbi_dvb_mux_feed mx callback u sliced service_mask raw sp pts =
     (case callback of
        None \<Rightarrow> Ret (False, mx, u)
      | Some call \<Rightarrow>
        c_bind (valid_par sp) (\<lambda>valid.
          if \<not> valid then Ret (False, mx, u)
          else
            let mx = (if cor_offset mx < cor_end mx then mx \<lparr> cor_end := 0 \<rparr> else mx)
            in c_bind (generate_pes_packet mx sliced service_mask raw sp pts) (\<lambda>(err, packet_size, mx, rest).
                 if err \<noteq> None then Ret (False, mx, u)
                 else if rest \<noteq> [] then Ret (False, mx, u)
                 else if 0 = mx_pid mx
                 then c_bind (c_block (mx_packet mx) 4 packet_size) (\<lambda>packet.
                        case call packet u of (ok, u) \<Rightarrow> Ret (ok, mx, u))
                 else ts_feed_loop call mx u packet_size 0)))"

text \<open>
  The loop of the coroutine over TS packets: the context with \<^verbatim>\<open>cor_ts_left\<close>, the bytes stored, and \<open>offset\<close>.
\<close>

function ts_cor_loop :: "vbi_dvb_mux \<Rightarrow> nat \<Rightarrow> nat \<Rightarrow> nat \<Rightarrow> u8 list \<Rightarrow> (vbi_dvb_mux \<times> u8 list \<times> nat) c_result" where
  "ts_cor_loop mx offset ts_left p_left out =
     (let new = (ts_left = 0);
          offset = (if new then offset - 4 else offset);
          mx = (if new then generate_ts_packet_header mx offset else mx);
          ts_left = (if new then 188 else ts_left);
          size = min p_left ts_left
      in c_bind (c_block (mx_packet mx) offset size) (\<lambda>block.
           if 0 < p_left - size \<and> offset + size < cor_end mx
           then ts_cor_loop mx (offset + size) (ts_left - size) (p_left - size) (out @ block)
           else Ret (mx \<lparr> cor_ts_left := ts_left - size \<rparr>, out @ block, offset + size)))"
  by pat_completeness auto
termination
  by (relation "measure (\<lambda>(_, _, _, p_left, _). p_left)") auto

declare ts_cor_loop.simps [simp del]

text \<open>
  The result, the context, the bytes stored at \<^verbatim>\<open>*buffer\<close>, which has \<open>buffer_left\<close> bytes, and the lines left.
\<close>

definition vbi_dvb_mux_cor ::
  "vbi_dvb_mux \<Rightarrow> nat \<Rightarrow> vbi_sliced list \<Rightarrow> u32 \<Rightarrow> u8 list option \<Rightarrow> vbi_sampling_par option \<Rightarrow> 64 word
    \<Rightarrow> (bool \<times> vbi_dvb_mux \<times> u8 list \<times> vbi_sliced list) c_result" where
  "vbi_dvb_mux_cor mx buffer_left sliced service_mask raw sp pts =
     (if buffer_left = 0 then Ret (False, mx, [], sliced)
      else c_bind (valid_par sp) (\<lambda>valid.
        if \<not> valid then Ret (False, mx, [], sliced)
        else
          let copy = (\<lambda>mx offset.
                c_bind (if 0 = mx_pid mx
                        then let size = min buffer_left (cor_end mx - offset)
                          in c_bind (c_block (mx_packet mx) offset size) (\<lambda>block. Ret (mx, block, offset + size))
                        else ts_cor_loop mx offset (cor_ts_left mx) buffer_left [])
                  (\<lambda>(mx, out, offset). Ret (True, mx \<lparr> cor_offset := offset \<rparr>, out, if cor_end mx \<le> offset then [] else sliced)))
          in if cor_end mx \<le> cor_offset mx
             then if sliced = [] then Ret (False, mx, [], sliced)
                  else c_bind (generate_pes_packet mx sliced service_mask raw sp pts) (\<lambda>(err, size, mx, rest).
                    if err \<noteq> None \<or> rest \<noteq> [] then Ret (False, mx \<lparr> cor_end := 0 \<rparr>, [], rest)
                    else copy (mx \<lparr> cor_end := size + 4, cor_ts_left := 0 \<rparr>) 4)
             else copy mx (cor_offset mx)))"

section \<open>Well-formed multiplexers\<close>

text \<open>
  The packet buffer has its size and holds the constant bytes of the packet header; the options are in range. While the
  coroutine is in a packet, the TS packet it is in ends at a multiple of 184 bytes.
\<close>

definition header_ok :: "u8 list \<Rightarrow> bool" where
  "header_ok packet \<longleftrightarrow> length packet = 4 + MAX_PES_PACKET_SIZE
     \<and> packet ! 4 = 0 \<and> packet ! 5 = 0 \<and> packet ! 6 = 1 \<and> packet ! 7 = 0xBD \<and> packet ! 10 = 0x84 \<and> packet ! 11 = 0x80 \<and> packet ! 12 = 0x24"

definition cor_ok :: "vbi_dvb_mux \<Rightarrow> bool" where
  "cor_ok mx \<longleftrightarrow> (cor_offset mx < cor_end mx \<longrightarrow>
     (\<exists>n k. cor_end mx = 184 * n + 4 \<and> n \<le> 356
       \<and> (if mx_pid mx = 0 then 4 \<le> cor_offset mx else cor_offset mx + cor_ts_left mx = 184 * k + 4 \<and> k \<le> n)))"

definition mux_ok :: "vbi_dvb_mux \<Rightarrow> bool" where
  "mux_ok mx \<longleftrightarrow> header_ok (mx_packet mx) \<and> 184 dvd min_packet_size mx \<and> 184 dvd max_packet_size mx
     \<and> 184 \<le> min_packet_size mx \<and> min_packet_size mx \<le> max_packet_size mx \<and> max_packet_size mx \<le> MAX_PES_PACKET_SIZE
     \<and> (0x10 \<le> mx_data_identifier mx \<and> mx_data_identifier mx < 0x20 \<or> 0x99 \<le> mx_data_identifier mx \<and> mx_data_identifier mx < 0x9C)
     \<and> raw_samples_left mx \<le> 720 \<and> length (raw_samples mx) = 720 \<and> cor_ok mx"

lemma MAX_eq: "MAX_PES_PACKET_SIZE = 184 * 356"
  by (simp add: MAX_PES_PACKET_SIZE_def)

lemma nth_c_memcpy:
  assumes "at + length src \<le> length dst"
  shows "c_memcpy at src dst ! i = (if i < at then dst ! i else if i < at + length src then src ! (i - at) else dst ! i)"
  using assms by (auto simp: c_memcpy_def nth_append)

lemma header_ok_memcpy:
  assumes "header_ok packet" "at + length src \<le> length packet"
    "\<And>i. i \<in> {4, 5, 6, 7, 10, 11, 12} \<Longrightarrow> i < at \<or> at + length src \<le> i"
  shows "header_ok (c_memcpy at src packet)"
proof -
  have "c_memcpy at src packet ! i = packet ! i" if "i \<in> {4, 5, 6, 7, 10, 11, 12}" for i
    using assms(3) [OF that] nth_c_memcpy [OF assms(2), of i] by auto
  then show ?thesis using assms(1) length_c_memcpy [OF assms(2)] by (simp add: header_ok_def)
qed

lemma header_ok_update: "header_ok packet \<Longrightarrow> i \<notin> {4, 5, 6, 7, 10, 11, 12} \<Longrightarrow> header_ok (packet [i := b])"
  by (simp add: header_ok_def nth_list_update)

lemma new_ok:
  assumes "length memory = 4 + MAX_PES_PACKET_SIZE"
  shows "mux_ok (vbi_dvb_pes_mux_new memory)" "mx_pid (vbi_dvb_pes_mux_new memory) = 0" "raw_samples_left (vbi_dvb_pes_mux_new memory) = 0"
proof -
  define q where "q = c_memcpy 4 [0, 0, 1, 0xBD] memory"
  define h where "h = [push_bit 6 2 OR push_bit 2 1, push_bit 6 2, 0x24] @ replicate 36 (0xFF :: u8)"
  have len: "length q = 4 + MAX_PES_PACKET_SIZE" "length h = 39" "10 + length h \<le> length q"
    using assms by (simp_all add: q_def h_def MAX_eq)
  have q: "q ! i = (if i < 4 then memory ! i else if i < 8 then [0, 0, 1, 0xBD] ! (i - 4) else memory ! i)" for i
    using nth_c_memcpy [of 4 "[0, 0, 1, 0xBD]" memory i] assms by (simp add: q_def MAX_eq)
  have at: "c_memcpy 10 h q ! i = (if i < 10 then q ! i else if i < 49 then h ! (i - 10) else q ! i)" for i
    using nth_c_memcpy [OF len(3), of i] len(2) by simp
  have h: "h ! 0 = 0x84" "h ! 1 = 0x80" "h ! 2 = 0x24" by (simp_all add: h_def)
  have "header_ok (c_memcpy 10 h q)"
    using h length_c_memcpy [OF len(3)] len(1) by (simp add: header_ok_def at q)
  then have "header_ok (c_memcpy (4 + 6) ([push_bit 6 2 OR push_bit 2 1, push_bit 6 2, 0x24] @ replicate 36 0xFF) (c_memcpy 4 [0, 0, 1, 0xBD] memory))"
    unfolding h_def q_def by simp
  then show "mux_ok (vbi_dvb_pes_mux_new memory)"
    by (simp add: mux_ok_def vbi_dvb_pes_mux_new_def init_pes_packet_header_def MAX_eq cor_ok_def)
  show "mx_pid (vbi_dvb_pes_mux_new memory) = 0" "raw_samples_left (vbi_dvb_pes_mux_new memory) = 0"
    by (simp_all add: vbi_dvb_pes_mux_new_def init_pes_packet_header_def)
qed

lemma packet_size_ok:
  fixes min_size max_size :: nat
  assumes "mx' = snd (vbi_dvb_mux_set_pes_packet_size mx min_size max_size)"
  shows "184 dvd min_packet_size mx'" "184 dvd max_packet_size mx'" "184 \<le> min_packet_size mx'"
    "min_packet_size mx' \<le> max_packet_size mx'" "max_packet_size mx' \<le> MAX_PES_PACKET_SIZE"
proof -
  define lo where "lo = min_packet_size mx'"
  have up: "x - x mod 184 = 184 * (x div 184)" for x :: nat by (simp add: minus_mod_eq_mult_div)
  have lo: "lo = (if min_size < 184 then 184 else if MAX_PES_PACKET_SIZE < min_size then MAX_PES_PACKET_SIZE
      else 184 * ((min_size + 183) div 184))"
    using assms by (simp add: lo_def vbi_dvb_mux_set_pes_packet_size_def Let_def up)
  have hi: "max_packet_size mx' = (if max_size < lo then lo else if MAX_PES_PACKET_SIZE < max_size then MAX_PES_PACKET_SIZE
      else 184 * (max_size div 184))"
    using assms unfolding lo by (simp add: vbi_dvb_mux_set_pes_packet_size_def Let_def up)
  obtain k where k: "lo = 184 * k" "1 \<le> k" "k \<le> 356"
  proof (cases "min_size < 184 \<or> MAX_PES_PACKET_SIZE < min_size")
    case True
    then show thesis using that [of 1] that [of 356] lo by (auto simp: MAX_eq split: if_splits)
  next
    case False
    then have "1 \<le> (min_size + 183) div 184" "(min_size + 183) div 184 \<le> 356" by (auto simp: MAX_eq)
    then show thesis using that False lo by auto
  qed
  obtain j where j: "max_packet_size mx' = 184 * j" "k \<le> j" "j \<le> 356"
  proof (cases "max_size < lo \<or> MAX_PES_PACKET_SIZE < max_size")
    case True
    then show thesis using that [of k] that [of 356] k hi by (auto simp: MAX_eq split: if_splits)
  next
    case False
    then have "k \<le> max_size div 184" "max_size div 184 \<le> 356" using k(1) by (auto simp: MAX_eq)
    then show thesis using that False hi by auto
  qed
  show "184 dvd min_packet_size mx'" "184 dvd max_packet_size mx'" "184 \<le> min_packet_size mx'"
    "min_packet_size mx' \<le> max_packet_size mx'" "max_packet_size mx' \<le> MAX_PES_PACKET_SIZE"
    using k j by (simp_all add: lo_def [symmetric] MAX_eq)
qed

lemma cor_ok_cong:
  "cor_offset mx' = cor_offset mx \<Longrightarrow> cor_end mx' = cor_end mx \<Longrightarrow> mx_pid mx' = mx_pid mx \<Longrightarrow> cor_ts_left mx' = cor_ts_left mx \<Longrightarrow>
    cor_ok mx' = cor_ok mx"
  by (simp add: cor_ok_def)

lemma set_size_ok:
  assumes "mux_ok mx"
  shows "mux_ok (snd (vbi_dvb_mux_set_pes_packet_size mx min_size max_size))"
proof -
  let ?mx = "snd (vbi_dvb_mux_set_pes_packet_size mx min_size max_size)"
  have "mx_packet ?mx = mx_packet mx" "mx_data_identifier ?mx = mx_data_identifier mx" "raw_samples_left ?mx = raw_samples_left mx"
    "raw_samples ?mx = raw_samples mx" "cor_ok ?mx = cor_ok mx"
    by (simp_all add: vbi_dvb_mux_set_pes_packet_size_def Let_def cor_ok_def)
  then show ?thesis using assms packet_size_ok [OF refl, of mx min_size max_size] by (simp add: mux_ok_def)
qed

lemma set_identifier_ok:
  assumes "mux_ok mx"
  shows "mux_ok (snd (vbi_dvb_mux_set_data_identifier mx b))"
proof -
  have "cor_ok (mx \<lparr> mx_data_identifier := b \<rparr>) = cor_ok mx" by (rule cor_ok_cong) simp_all
  then show ?thesis using assms by (simp add: mux_ok_def vbi_dvb_mux_set_data_identifier_def)
qed

lemma reset_mux_ok: "mux_ok mx \<Longrightarrow> mux_ok (vbi_dvb_mux_reset mx)"
  by (simp add: mux_ok_def vbi_dvb_mux_reset_def cor_ok_def)

end
