(* ===== verification/Dvb_Mux_Inv.thy ===== *)
theory Dvb_Mux_Inv
  imports Dvb_Pes_Mux Dvb_Round_Trip
begin

text \<open>
  The invariant of the multiplexer: every operation keeps it well formed, so that each packet it generates has the constant header
  bytes and a size that is a multiple of 184, whatever lines, raw samples and options it is given.
\<close>

section \<open>The generator\<close>

text \<open>The fields the raw lines do not change, and the ones they do.\<close>

definition mux_core :: "vbi_dvb_mux \<Rightarrow> u8 list \<times> nat \<times> nat \<times> u32 \<times> u32 \<times> u32 \<times> nat \<times> nat \<times> nat" where
  "mux_core mx = (mx_packet mx, min_packet_size mx, max_packet_size mx, mx_data_identifier mx, mx_pid mx, continuity_counter mx,
     cor_offset mx, cor_end mx, cor_ts_left mx)"

definition raw_ok :: "vbi_dvb_mux \<Rightarrow> bool" where
  "raw_ok mx \<longleftrightarrow> raw_samples_left mx \<le> 720 \<and> length (raw_samples mx) = 720"

lemma mux_ok_core: "mux_ok mx \<Longrightarrow> mux_core mx' = mux_core mx \<Longrightarrow> raw_ok mx' \<Longrightarrow> mux_ok mx'"
  using cor_ok_cong [of mx' mx] by (simp add: mux_ok_def mux_core_def raw_ok_def)

lemma raw_insert_ok:
  assumes r: "raw_insert mx continued samples left sp p_left fixed_length line = Ret (err, mx', out, d)" and ok: "raw_ok mx"
  shows "raw_ok mx' \<and> mux_core mx' = mux_core mx"
proof -
  have left: "\<not> 720 < left" using r by (auto simp: raw_insert_def)
  obtain res where res: "insert_raw_data_units p_left samples left fixed_length VBI_VIDEOSTD_SET_625_50 line
        (word_of_int (sp_offset sp) - BT601_625_OFFSET) (word_of_int (bytes_per_line sp)) True = Ret res"
    using r left by (auto simp: raw_insert_def c_bind_eq_Ret)
  show ?thesis
  proof (cases res)
    case (Inl e)
    then show ?thesis using r ok left res by (auto simp: raw_insert_def raw_ok_def mux_core_def)
  next
    case (Inr t)
    obtain out1 d1 n where t: "t = (out1, d1, n)" by (cases t)
    show ?thesis
    proof (cases "left - n = 0")
      case True
      then show ?thesis using r ok left res Inr t by (auto simp: raw_insert_def Let_def raw_ok_def mux_core_def)
    next
      case False
      then obtain block where "c_block samples n (left - n) = Ret block" "mx' = mx \<lparr> raw_samples_left := left - n, raw_samples := c_memcpy 0 block (raw_samples mx),
          raw_line := line, raw_offset := sp_offset sp, raw_samples_per_line := word_of_int (bytes_per_line sp) \<rparr>"
        using r left res Inr t by (auto simp: raw_insert_def Let_def c_bind_eq_Ret split: if_splits)
      moreover then have "length block = left - n" by (auto simp: c_block_def split: if_splits)
      ultimately show ?thesis using ok left by (simp add: raw_ok_def mux_core_def)
    qed
  qed
qed

lemma raw_step_ok:
  assumes "raw_step mx raw sp p_left fixed_length line = Ret (err, mx', out, d)" "raw_ok mx"
  shows "raw_ok mx' \<and> mux_core mx' = mux_core mx"
  using assms by (auto simp: raw_step_def dest: raw_insert_ok split: if_splits option.splits sum.splits)

lemma pes_loop_ok:
  "pes_loop mx service_mask raw sp capacity fixed_length last_line out pending sliced = Ret (err, mx', out', d, rest) \<Longrightarrow> raw_ok mx \<Longrightarrow>
    raw_ok mx' \<and> mux_core mx' = mux_core mx"
proof (induction "length sliced" arbitrary: mx last_line out pending sliced rule: less_induct)
  case less
  define ll where "ll = (if sliced \<noteq> [] \<and> 0 < sl_line (hd sliced) then sl_line (hd sliced) else last_line)"
  have IH: "raw_ok mx' \<and> mux_core mx' = mux_core m"
    if "pes_loop m service_mask raw sp capacity fixed_length ll o1 p1 (tl sliced) = Ret (err, mx', out', d, rest)" "raw_ok m" "sliced \<noteq> []" for m o1 p1
    using less.hyps [OF _ that(1,2)] that(3) by (simp add: length_greater_0_conv [symmetric] del: length_greater_0_conv)
  obtain e units du left where ins: "insert_sliced_data_units (capacity - length out) pending service_mask fixed_length = (e, units, du, left)"
    by (metis prod_cases4)
  note simps = pes_loop.simps [of mx service_mask raw sp capacity fixed_length last_line out pending sliced, folded ll_def]
  show ?case
  proof (cases "sliced \<noteq> [] \<and> VBI_SLICED_VBI_625 = sl_id (hd sliced) \<and> service_mask AND VBI_SLICED_VBI_625 \<noteq> 0 \<and> e = None \<and> left = []
      \<and> \<not> (0 < sl_line (hd sliced) \<and> sl_line (hd sliced) \<le> last_line)")
    case False
    then show ?thesis using less.prems IH unfolding simps
      by (auto simp: ll_def [symmetric] ins Let_def split: if_splits)
  next
    case True
    then obtain e1 m1 segments d1 where raw: "raw_step mx raw sp (capacity - length (out @ units)) fixed_length (sl_line (hd sliced)) = Ret (e1, m1, segments, d1)"
      using less.prems(1) unfolding simps by (auto simp: ins Let_def c_bind_eq_Ret)
    note step = raw_step_ok [OF raw less.prems(2)]
    show ?thesis
    proof (cases "e1 \<noteq> None \<or> 0 < raw_samples_left m1")
      case stop: True
      then show ?thesis using less.prems(1) True raw step unfolding simps by (auto simp: ins Let_def)
    next
      case go: False
      then have "pes_loop m1 service_mask raw sp capacity fixed_length ll (out @ units @ segments) [] (tl sliced) = Ret (err, mx', out', d, rest)"
        using less.prems(1) True raw unfolding simps by (auto simp: ins Let_def ll_def [symmetric])
      then show ?thesis using IH True step by auto
    qed
  qed
qed

lemma encode_stuffing_length:
  assumes "encode_stuffing before p_left d fixed_length = Ret out"
  shows "length out = length before + p_left"
proof -
  define n where "n = (if fixed_length then 46 else 257 :: nat)"
  have n: "2 \<le> n" by (simp add: n_def)
  have fl: "length (concat (replicate k (stuffing_unit n))) = k * n" for k using n by (induction k) simp_all
  obtain st where st: "concat (replicate (p_left div n) (stuffing_unit n)) = st" "length st + p_left mod n = p_left"
    using fl [of "p_left div n"] by (metis div_mult_mod_eq)
  have one: "0 < r \<Longrightarrow> \<not> 2 \<le> r \<Longrightarrow> r = 1" for r :: nat by simp
  show ?thesis using assms st(2)
    unfolding encode_stuffing_def n_def [symmetric] stuffing_loop_eq [OF n] prod.case st(1)
    by (auto split: if_splits dest: one)
qed

lemma length_encode_timestamp [simp]: "length (encode_timestamp pts mark) = 5"
  by (simp add: encode_timestamp_def Let_def)

lemma pes_prepare_ok:
  assumes "mux_ok mx"
  shows "mux_ok (pes_prepare mx pts)" "snd (mux_core (pes_prepare mx pts)) = snd (mux_core mx)"
proof -
  have head: "header_ok (mx_packet mx)" using assms by (simp add: mux_ok_def)
  then have len: "length (mx_packet mx) = 4 + MAX_PES_PACKET_SIZE" by (simp add: header_ok_def)
  have "header_ok ((c_memcpy (4 + 9) (encode_timestamp pts 0x21) (mx_packet mx)) [4 + 45 := ucast (mx_data_identifier mx)])"
    by (intro header_ok_update header_ok_memcpy head) (auto simp: len MAX_eq)
  moreover have "cor_ok (pes_prepare mx pts) = cor_ok mx" by (rule cor_ok_cong) (simp_all add: pes_prepare_def)
  ultimately show "mux_ok (pes_prepare mx pts)" using assms by (simp add: mux_ok_def) (simp add: pes_prepare_def)
  show "snd (mux_core (pes_prepare mx pts)) = snd (mux_core mx)" by (simp add: pes_prepare_def mux_core_def)
qed

lemma pes_p_left_mod:
  assumes "184 dvd m" "184 \<le> m"
  shows "184 dvd n + pes_p_left m n" "184 \<le> n + pes_p_left m n" "m \<le> n + pes_p_left m n"
proof -
  show dvd: "184 dvd n + pes_p_left m n"
  proof (cases "n < m")
    case False
    show ?thesis
    proof (cases "n mod 184 = 0")
      case True
      then show ?thesis using False by (simp add: pes_p_left_def mod_0_imp_dvd)
    next
      case no: False
      have "n + (184 - n mod 184) = 184 * (n div 184 + 1)"
      proof -
        define q r where "q = n div 184" and "r = n mod 184"
        have "n = 184 * q + r" "r < 184" by (simp_all add: q_def r_def)
        then show ?thesis unfolding q_def [symmetric] r_def [symmetric] by simp
      qed
      then show ?thesis using False no by (simp add: pes_p_left_def)
    qed
  qed (use assms in \<open>simp add: pes_p_left_def\<close>)
  show "184 \<le> n + pes_p_left m n" "m \<le> n + pes_p_left m n" using assms(2) by (auto simp: pes_p_left_def)
qed

lemma pes_finish_ok:
  assumes r: "pes_finish mx out d fixed_length = Ret (n, mx')" and ok: "mux_ok mx"
  shows "mux_ok mx'" "snd (mux_core mx') = snd (mux_core mx)" "\<exists>k. n = 184 * k \<and> 1 \<le> k \<and> k \<le> 356"
proof -
  have head: "header_ok (mx_packet mx)" "184 dvd min_packet_size mx" "184 \<le> min_packet_size mx" using ok by (auto simp: mux_ok_def)
  define p_left where "p_left = pes_p_left (min_packet_size mx) (46 + length out)"
  obtain out2 where out2: "encode_stuffing out p_left d fixed_length = Ret out2" "\<not> length (mx_packet mx) < 4 + n" "n = 46 + length out + p_left"
    "mx' = mx \<lparr> mx_packet := (c_memcpy (4 + 45 + 1) out2 (mx_packet mx)) [4 + 4 := of_nat ((n - 6) div 256), 4 + 5 := of_nat (n - 6)] \<rparr>"
    using r unfolding pes_finish_def Let_def p_left_def [symmetric] by (auto simp: c_bind_eq_Ret split: if_splits)
  have "50 + length out2 = 4 + n" using encode_stuffing_length [OF out2(1)] out2(3) by simp
  then have "header_ok (c_memcpy (4 + 45 + 1) out2 (mx_packet mx))" using head(1) out2(2) by (intro header_ok_memcpy) auto
  then have h: "header_ok (mx_packet mx')" unfolding out2(4) by (simp add: header_ok_update)
  have "cor_ok mx' = cor_ok mx" unfolding out2(4) by (rule cor_ok_cong) simp_all
  with h ok show "mux_ok mx'" by (simp add: mux_ok_def) (simp add: out2(4))
  show "snd (mux_core mx') = snd (mux_core mx)" by (simp add: out2(4) mux_core_def)
  have "n \<le> 184 * 356" using head(1) out2(2) by (simp add: header_ok_def MAX_eq)
  moreover have "184 dvd n" "184 \<le> n" using pes_p_left_mod [OF head(2,3), of "46 + length out"] by (simp_all add: out2(3) p_left_def)
  ultimately show "\<exists>k. n = 184 * k \<and> 1 \<le> k \<and> k \<le> 356" by (auto elim!: dvdE)
qed

lemma generate_ok:
  assumes r: "generate_pes_packet mx sliced service_mask raw sp pts = Ret (err, n, mx', rest)" and ok: "mux_ok mx"
  shows "mux_ok mx' \<and> snd (mux_core mx') = snd (mux_core mx) \<and> (err = None \<longrightarrow> (\<exists>k. n = 184 * k \<and> 1 \<le> k \<and> k \<le> 356))"
proof -
  define m0 where "m0 = pes_prepare mx pts"
  have m0: "mux_ok m0" "snd (mux_core m0) = snd (mux_core mx)" using pes_prepare_ok [OF ok] by (simp_all add: m0_def)
  define fx where "fx = fixed_length_format (mx_data_identifier m0)"
  have r1: "c_bind (interrupted m0 sliced sp) (\<lambda>stop.
           if stop then Ret (Some VBI_ERR_RAW_DATA_INTERRUPTION, 0, m0, sliced)
           else c_bind (pes_loop m0 service_mask raw sp (max_packet_size m0 - 46) fx 0 [] [] sliced)
             (\<lambda>(err, mx, out, last_du_size, rest). if err \<noteq> None then Ret (err, 0, mx, rest)
               else c_bind (pes_finish mx out last_du_size fx) (\<lambda>(packet_size, mx). Ret (None, packet_size, mx, rest))))
      = Ret (err, n, mx', rest)"
    using r unfolding generate_pes_packet_def Let_def unfolding m0_def [symmetric] fx_def [symmetric] .
  then obtain stop where stop: "interrupted m0 sliced sp = Ret stop" by (auto simp: c_bind_eq_Ret)
  show ?thesis
  proof (cases stop)
    case True
    then show ?thesis using r1 m0 stop by auto
  next
    case False
    then obtain e m1 out d left where loop: "pes_loop m0 service_mask raw sp (max_packet_size m0 - 46) fx 0 [] [] sliced = Ret (e, m1, out, d, left)"
      using r1 stop by (auto simp: c_bind_eq_Ret)
    have "raw_ok m0" using m0(1) by (simp add: mux_ok_def raw_ok_def)
    note m1 = pes_loop_ok [OF loop this]
    have ok1: "mux_ok m1" using mux_ok_core [OF m0(1)] m1 by simp
    show ?thesis
    proof (cases "e = None")
      case no: False
      then show ?thesis using r1 stop False loop ok1 m1 m0(2) by auto
    next
      case True
      then have "pes_finish m1 out d fx = Ret (n, mx')" "err = None" using r1 stop False loop by (auto simp: c_bind_eq_Ret)
      then show ?thesis using pes_finish_ok [OF _ ok1, of out d fx n mx'] m1 m0(2) by simp
    qed
  qed
qed

section \<open>Output\<close>

lemma ts_header_ok:
  assumes "header_ok (mx_packet mx)" "184 dvd offset" "offset + 4 \<le> 4 + MAX_PES_PACKET_SIZE"
  shows "header_ok (mx_packet (generate_ts_packet_header mx offset))"
proof -
  have "offset = 0 \<or> 184 \<le> offset" using assms(2) by (auto elim!: dvdE)
  then show ?thesis unfolding generate_ts_packet_header_def using assms(1,3)
    by (auto intro!: header_ok_memcpy simp: header_ok_def [of "mx_packet mx"])
qed

lemma ts_header_fields [simp]:
  "min_packet_size (generate_ts_packet_header mx offset) = min_packet_size mx"
  "max_packet_size (generate_ts_packet_header mx offset) = max_packet_size mx"
  "mx_data_identifier (generate_ts_packet_header mx offset) = mx_data_identifier mx"
  "mx_pid (generate_ts_packet_header mx offset) = mx_pid mx"
  "raw_samples_left (generate_ts_packet_header mx offset) = raw_samples_left mx"
  "raw_samples (generate_ts_packet_header mx offset) = raw_samples mx"
  "cor_offset (generate_ts_packet_header mx offset) = cor_offset mx"
  "cor_end (generate_ts_packet_header mx offset) = cor_end mx"
  "cor_ts_left (generate_ts_packet_header mx offset) = cor_ts_left mx"
  by (simp_all add: generate_ts_packet_header_def)

lemma ts_header_mux_ok:
  "mux_ok mx \<Longrightarrow> 184 dvd offset \<Longrightarrow> offset + 4 \<le> 4 + MAX_PES_PACKET_SIZE \<Longrightarrow> mux_ok (generate_ts_packet_header mx offset)"
  using cor_ok_cong [of "generate_ts_packet_header mx offset" mx] by (simp add: mux_ok_def ts_header_ok)

text \<open>\<open>I\<close> is a property of the state of the client which its callback keeps on TS packets.\<close>

lemma ts_feed_loop_ok:
  assumes "\<And>p u. I u \<Longrightarrow> length p = 188 \<Longrightarrow> p ! 0 = 0x47 \<Longrightarrow> I (snd (call p u))" "n = 184 * k" "k \<le> 356"
  shows "mux_ok mx \<Longrightarrow> I u \<Longrightarrow> offset = 184 * j \<Longrightarrow> offset < n \<Longrightarrow>
    \<exists>ok mx' u'. ts_feed_loop call mx u n offset = Ret (ok, mx', u') \<and> mux_ok mx' \<and> I u'"
proof (induction "n - offset" arbitrary: mx u offset j rule: less_induct)
  case less
  define m where "m = generate_ts_packet_header mx offset"
  have le: "offset + 184 \<le> n" "n \<le> MAX_PES_PACKET_SIZE" using less.prems(3,4) assms(2,3) by (auto simp: MAX_eq)
  have m: "mux_ok m" unfolding m_def using less.prems(1,3) le by (intro ts_header_mux_ok) auto
  have len: "length (mx_packet m) = 4 + MAX_PES_PACKET_SIZE" "length (mx_packet mx) = 4 + MAX_PES_PACKET_SIZE"
    using m less.prems(1) by (auto simp: mux_ok_def header_ok_def)
  define p where "p = take 188 (drop offset (mx_packet m))"
  have block: "c_block (mx_packet m) offset 188 = Ret p" using le len by (simp add: c_block_def p_def)
  have "p ! 0 = mx_packet m ! offset" using le len by (simp add: p_def)
  also have "\<dots> = 0x47" unfolding m_def generate_ts_packet_header_def using le len by (simp add: nth_c_memcpy)
  finally have p: "length p = 188" "p ! 0 = 0x47" using le len by (auto simp: p_def)
  obtain ok u1 where call: "call p u = (ok, u1)" by (metis prod.exhaust)
  have I: "I u1" using assms(1) [OF less.prems(2) p] call by simp
  have eq: "ts_feed_loop call mx u n offset =
      (if \<not> ok then Ret (False, m, u1) else if offset + 184 < n then ts_feed_loop call m u1 n (offset + 184) else Ret (True, m, u1))"
    using block call by (subst ts_feed_loop.simps) (simp add: Let_def m_def [symmetric])
  show ?case
  proof (cases "ok \<and> offset + 184 < n")
    case True
    have "n - (offset + 184) < n - offset" using True by arith
    moreover have "offset + 184 = 184 * (j + 1)" using less.prems(3) by simp
    ultimately have "\<exists>ok mx' u'. ts_feed_loop call m u1 n (offset + 184) = Ret (ok, mx', u') \<and> mux_ok mx' \<and> I u'"
      using True by (intro less.hyps [OF _ m I, of "offset + 184" "j + 1"]) auto
    then show ?thesis unfolding eq using True by simp
  next
    case False
    then show ?thesis unfolding eq using m I by auto
  qed
qed

text \<open>What a PES packet looks like from outside.\<close>

definition pes_shape :: "u8 list \<Rightarrow> bool" where
  "pes_shape p \<longleftrightarrow> 184 dvd length p \<and> 184 \<le> length p \<and> length p \<le> MAX_PES_PACKET_SIZE
     \<and> take 4 p = [0, 0, 1, 0xBD] \<and> p ! 6 = 0x84 \<and> p ! 7 = 0x80 \<and> p ! 8 = 0x24
     \<and> unat (p ! 4) * 256 + unat (p ! 5) = length p - 6"

lemma unat_div_256: "n < 65536 \<Longrightarrow> unat (of_nat (n div 256) :: u8) * 256 + unat (of_nat n :: u8) = n"
proof -
  assume "n < 65536"
  then have "n div 256 < 256" by simp
  then have "unat (of_nat (n div 256) :: u8) = n div 256" by (simp add: unsigned_of_nat take_bit_nat_eq_self)
  moreover have "unat (of_nat n :: u8) = n mod 256" by (simp add: unsigned_of_nat take_bit_eq_mod)
  ultimately show ?thesis by simp
qed

lemma generate_shape:
  assumes r: "generate_pes_packet mx sliced service_mask raw sp pts = Ret (None, n, mx', rest)" and ok: "mux_ok mx"
  shows "c_block (mx_packet mx') 4 n = Ret (take n (drop 4 (mx_packet mx')))" "pes_shape (take n (drop 4 (mx_packet mx')))"
proof -
  have g: "mux_ok mx'" "\<exists>k. n = 184 * k \<and> 1 \<le> k \<and> k \<le> 356" using generate_ok [OF r ok] by simp_all
  then obtain k where k: "n = 184 * k" "1 \<le> k" "k \<le> 356" by blast
  have head: "header_ok (mx_packet mx')" using g(1) by (simp add: mux_ok_def)
  then have len: "length (mx_packet mx') = 4 + MAX_PES_PACKET_SIZE" by (simp add: header_ok_def)
  show "c_block (mx_packet mx') 4 n = Ret (take n (drop 4 (mx_packet mx')))" using len k by (simp add: c_block_def MAX_eq)
  obtain m1 out d fx where "pes_finish m1 out d fx = Ret (n, mx')"
    using r by (auto simp: generate_pes_packet_def Let_def c_bind_eq_Ret split: if_splits prod.splits)
  then obtain packet where packet: "mx_packet mx' = packet [4 + 4 := of_nat ((n - 6) div 256), 4 + 5 := of_nat (n - 6)]"
    unfolding pes_finish_def Let_def by (auto simp: c_bind_eq_Ret split: if_splits)
  have "length packet = 4 + MAX_PES_PACKET_SIZE" using len by (simp add: packet)
  then have at: "mx_packet mx' ! 8 = of_nat ((n - 6) div 256)" "mx_packet mx' ! 9 = of_nat (n - 6)"
    by (simp_all add: packet nth_list_update MAX_eq)
  have "n - 6 < 65536" using k by simp
  then have field: "unat (mx_packet mx' ! 8) * 256 + unat (mx_packet mx' ! 9) = n - 6" unfolding at by (rule unat_div_256)
  define q where "q = take n (drop 4 (mx_packet mx'))"
  have q: "length q = n" "\<And>i. i < n \<Longrightarrow> q ! i = mx_packet mx' ! (4 + i)" using len k by (auto simp: q_def MAX_eq)
  have "take 4 q = [q ! 0, q ! 1, q ! 2, q ! 3]" using q(1) k by (intro nth_equalityI) (auto simp: less_Suc_eq numeral_eq_Suc)
  then show "pes_shape q" using q k head field by (simp add: pes_shape_def header_ok_def MAX_eq)
qed

section \<open>The interface\<close>

definition mux_base :: "vbi_dvb_mux \<Rightarrow> bool" where
  "mux_base mx \<longleftrightarrow> mux_ok (mx \<lparr> cor_end := 0 \<rparr>)"

lemma mux_ok_base: "mux_ok mx \<longleftrightarrow> mux_base mx \<and> cor_ok mx"
  by (auto simp: mux_base_def mux_ok_def cor_ok_def)

lemma mux_base_set [simp]:
  "mux_base (mx \<lparr> cor_offset := n \<rparr>) = mux_base mx" "mux_base (mx \<lparr> cor_end := n \<rparr>) = mux_base mx"
  "mux_base (mx \<lparr> cor_ts_left := n \<rparr>) = mux_base mx"
  by (simp_all add: mux_base_def mux_ok_def cor_ok_def)

lemma mux_base_length: "mux_base mx \<Longrightarrow> length (mx_packet mx) = 4 + MAX_PES_PACKET_SIZE"
  by (simp add: mux_base_def mux_ok_def header_ok_def)

lemma ts_header_cor_end:
  "generate_ts_packet_header (mx \<lparr> cor_end := n \<rparr>) offset = (generate_ts_packet_header mx offset) \<lparr> cor_end := n \<rparr>"
  by (simp add: generate_ts_packet_header_def)

lemma mux_base_ts_header:
  "mux_base mx \<Longrightarrow> 184 dvd offset \<Longrightarrow> offset + 4 \<le> 4 + MAX_PES_PACKET_SIZE \<Longrightarrow> mux_base (generate_ts_packet_header mx offset)"
  using ts_header_mux_ok [of "mx \<lparr> cor_end := 0 \<rparr>" offset]
  by (simp only: mux_base_def ts_header_cor_end)

lemma feed_ok:
  assumes r: "vbi_dvb_mux_feed mx (Some call) u sliced service_mask raw sp pts = Ret (ok, mx', u')" and "mux_ok mx"
    and ts: "mx_pid mx \<noteq> 0 \<Longrightarrow> (\<And>p u. I u \<Longrightarrow> length p = 188 \<Longrightarrow> p ! 0 = 0x47 \<Longrightarrow> I (snd (call p u)))"
    and pes: "mx_pid mx = 0 \<Longrightarrow> (\<And>p u. I u \<Longrightarrow> pes_shape p \<Longrightarrow> I (snd (call p u)))" and "I u"
  shows "mux_ok mx' \<and> I u'"
proof -
  define m where "m = (if cor_offset mx < cor_end mx then mx \<lparr> cor_end := 0 \<rparr> else mx)"
  have m: "mux_ok m" "mx_pid m = mx_pid mx" using assms(2) by (auto simp: m_def mux_ok_base cor_ok_def)
  obtain valid where valid: "valid_par sp = Ret valid" using r by (auto simp: vbi_dvb_mux_feed_def Let_def c_bind_eq_Ret)
  show ?thesis
  proof (cases valid)
    case False
    then show ?thesis using r valid assms(2,5) by (auto simp: vbi_dvb_mux_feed_def)
  next
    case True
    then obtain err n m1 rest where g: "generate_pes_packet m sliced service_mask raw sp pts = Ret (err, n, m1, rest)"
      using r valid by (auto simp: vbi_dvb_mux_feed_def Let_def c_bind_eq_Ret m_def [symmetric])
    have m1: "mux_ok m1" "mx_pid m1 = mx_pid mx" "err = None \<longrightarrow> (\<exists>k. n = 184 * k \<and> 1 \<le> k \<and> k \<le> 356)"
      using generate_ok [OF g m(1)] m(2) by (auto simp: mux_core_def)
    show ?thesis
    proof (cases "err = None \<and> rest = []")
      case False
      then show ?thesis using r valid True g m1(1) assms(5) by (auto simp: vbi_dvb_mux_feed_def Let_def m_def [symmetric] split: if_splits)
    next
      case ok: True
      then have g0: "generate_pes_packet m sliced service_mask raw sp pts = Ret (None, n, m1, rest)" using g by simp
      show ?thesis
      proof (cases "mx_pid mx = 0")
        case pid: True
        have "mx' = m1 \<and> (\<exists>ok. call (take n (drop 4 (mx_packet m1))) u = (ok, u'))"
          using r valid True g ok pid m1(2) generate_shape(1) [OF g0 m(1)]
          by (auto simp: vbi_dvb_mux_feed_def Let_def m_def [symmetric] split: prod.splits)
        then show ?thesis using pes [OF pid assms(5) generate_shape(2) [OF g0 m(1)]] m1(1) by auto
      next
        case pid: False
        then have loop: "ts_feed_loop call m1 u n 0 = Ret (ok, mx', u')"
          using r valid True g ok m1(2) by (simp add: vbi_dvb_mux_feed_def Let_def m_def [symmetric])
        obtain k where k: "n = 184 * k" "1 \<le> k" "k \<le> 356" using m1(3) ok by blast
        show ?thesis using ts_feed_loop_ok [of I call n k m1 u 0 0] ts [OF pid] k m1(1) assms(5) loop by auto
      qed
    qed
  qed
qed

lemma ts_cor_loop_ok:
  assumes "cor_end mx = 184 * n + 4" "n \<le> 356"
  shows "mux_base mx \<Longrightarrow> cor_end mx = 184 * n + 4 \<Longrightarrow> mx_pid mx \<noteq> 0 \<Longrightarrow> offset + ts_left = 184 * k + 4 \<Longrightarrow> k \<le> n \<Longrightarrow> offset < 184 * n + 4 \<Longrightarrow>
    0 < p_left \<Longrightarrow>
    \<exists>mx' out' offset'. ts_cor_loop mx offset ts_left p_left out = Ret (mx', out', offset') \<and> mux_ok (mx' \<lparr> cor_offset := offset' \<rparr>)"
  using assms(1)
proof (induction p_left arbitrary: mx offset ts_left k out rule: less_induct)
  case (less p_left)
  define o1 where "o1 = (if ts_left = 0 then offset - 4 else offset)"
  define m1 where "m1 = (if ts_left = 0 then generate_ts_packet_header mx o1 else mx)"
  define t1 where "t1 = (if ts_left = 0 then 188 else ts_left)"
  define sz where "sz = min p_left t1"
  obtain k1 where k1: "o1 + t1 = 184 * k1 + 4" "k1 \<le> n"
  proof (cases "ts_left = 0")
    case True
    then have "o1 + t1 = 184 * (k + 1) + 4" "k + 1 \<le> n" using less.prems(4,6) by (auto simp: o1_def t1_def)
    then show thesis by (rule that)
  next
    case False
    then show thesis using less.prems(4,5) that by (auto simp: o1_def t1_def)
  qed
  have "mux_base m1"
  proof (cases "ts_left = 0")
    case True
    then have "o1 = 184 * k" "o1 + 4 \<le> 4 + MAX_PES_PACKET_SIZE" using less.prems(4,5,6) assms(2) by (auto simp: o1_def MAX_eq)
    then show ?thesis using True less.prems(1) by (simp add: m1_def mux_base_ts_header)
  qed (use less.prems(1) in \<open>simp add: m1_def\<close>)
  note m1 = this
  have same: "cor_end m1 = 184 * n + 4" "mx_pid m1 \<noteq> 0" using less.prems(2,3) by (simp_all add: m1_def)
  have sz: "0 < sz" "sz \<le> p_left" "sz \<le> t1" using less.prems(7) by (auto simp: sz_def t1_def)
  define block where "block = take sz (drop o1 (mx_packet m1))"
  have copied: "c_block (mx_packet m1) o1 sz = Ret block"
    using k1 sz(3) assms(2) mux_base_length [OF m1] by (simp add: c_block_def block_def MAX_eq)
  then have eq: "ts_cor_loop mx offset ts_left p_left out =
      (if 0 < p_left - sz \<and> o1 + sz < 184 * n + 4 then ts_cor_loop m1 (o1 + sz) (t1 - sz) (p_left - sz) (out @ block)
       else Ret (m1 \<lparr> cor_ts_left := t1 - sz \<rparr>, out @ block, o1 + sz))"
    by (simp only: ts_cor_loop.simps [of mx offset ts_left p_left out] Let_def o1_def [symmetric] m1_def [symmetric] t1_def [symmetric]
        sz_def [symmetric] same(1) copied c_bind_simps)
  have sum: "o1 + sz + (t1 - sz) = 184 * k1 + 4" using k1(1) sz(3) by simp
  show ?case
  proof (cases "0 < p_left - sz \<and> o1 + sz < 184 * n + 4")
    case True
    have "\<exists>mx' out' offset'. ts_cor_loop m1 (o1 + sz) (t1 - sz) (p_left - sz) (out @ block) = Ret (mx', out', offset')
        \<and> mux_ok (mx' \<lparr> cor_offset := offset' \<rparr>)"
      using True sz less.prems(7) by (intro less.IH [OF _ m1 same sum k1(2) _ _ same(1)]) auto
    then show ?thesis unfolding eq using True by simp
  next
    case False
    have "cor_ok (m1 \<lparr> cor_ts_left := t1 - sz, cor_offset := o1 + sz \<rparr>)"
      using same sum k1(2) assms(2) by (auto simp: cor_ok_def)
    then have "mux_ok (m1 \<lparr> cor_ts_left := t1 - sz, cor_offset := o1 + sz \<rparr>)" using m1 by (simp add: mux_ok_base)
    then show ?thesis unfolding eq if_not_P [OF False] by blast
  qed
qed

text \<open>The coroutine in the middle of a packet, or at the start of one: \<open>offset\<close> is where it resumes.\<close>

definition cor_copy :: "vbi_dvb_mux \<Rightarrow> nat \<Rightarrow> nat \<Rightarrow> (vbi_dvb_mux \<times> u8 list \<times> nat) c_result" where
  "cor_copy mx buffer_left offset =
     (if 0 = mx_pid mx
      then let size = min buffer_left (cor_end mx - offset)
        in c_bind (c_block (mx_packet mx) offset size) (\<lambda>block. Ret (mx, block, offset + size))
      else ts_cor_loop mx offset (cor_ts_left mx) buffer_left [])"

lemma cor_copy_ok:
  assumes r: "cor_copy mx buffer_left offset = Ret (mx', out, offset')"
    and ok: "mux_base mx" "cor_ok (mx \<lparr> cor_offset := offset \<rparr>)" "offset < cor_end mx" "0 < buffer_left"
  shows "mux_ok (mx' \<lparr> cor_offset := offset' \<rparr>)"
proof -
  obtain n where n: "cor_end mx = 184 * n + 4" "n \<le> 356" using ok(2,3) by (auto simp: cor_ok_def)
  show ?thesis
  proof (cases "mx_pid mx = 0")
    case True
    then have "mx' = mx" "offset \<le> offset'" using r by (auto simp: cor_copy_def Let_def c_bind_eq_Ret)
    then show ?thesis using ok n True by (auto simp: mux_ok_base cor_ok_def)
  next
    case False
    then obtain k where k: "offset + cor_ts_left mx = 184 * k + 4" "k \<le> n" using ok(2,3) n by (auto simp: cor_ok_def)
    show ?thesis using ts_cor_loop_ok [OF n ok(1) n(1) False k _ ok(4), of "[]"] r ok(3) False n(1) by (auto simp: cor_copy_def)
  qed
qed

lemma cor_keeps:
  assumes r: "vbi_dvb_mux_cor mx buffer_left sliced service_mask raw sp pts = Ret (ok, mx', out, rest)" and "mux_ok mx"
  shows "mux_ok mx'"
proof (cases "buffer_left = 0 \<or> valid_par sp = Ret False")
  case True
  then show ?thesis using r assms(2) by (auto simp: vbi_dvb_mux_cor_def split: if_splits)
next
  case False
  then have left: "0 < buffer_left" and valid: "valid_par sp = Ret True" using r by (auto simp: vbi_dvb_mux_cor_def c_bind_eq_Ret split: if_splits)
  define copy where "copy = (\<lambda>mx offset. c_bind (cor_copy mx buffer_left offset)
                  (\<lambda>(mx, out, offset). Ret (True, mx \<lparr> cor_offset := offset \<rparr>, out, if cor_end mx \<le> offset then [] else sliced)))"
  have eq: "vbi_dvb_mux_cor mx buffer_left sliced service_mask raw sp pts =
      (if cor_end mx \<le> cor_offset mx
       then if sliced = [] then Ret (False, mx, [], sliced)
            else c_bind (generate_pes_packet mx sliced service_mask raw sp pts) (\<lambda>(err, size, mx, rest).
                    if err \<noteq> None \<or> rest \<noteq> [] then Ret (False, mx \<lparr> cor_end := 0 \<rparr>, [], rest)
                    else copy (mx \<lparr> cor_end := size + 4, cor_ts_left := 0 \<rparr>) 4)
       else copy mx (cor_offset mx))"
    using left unfolding vbi_dvb_mux_cor_def Let_def copy_def cor_copy_def by (simp add: valid)
  have copied: "mux_ok mx'"
    if "copy m offset = Ret (ok, mx', out, rest)" "mux_base m" "cor_ok (m \<lparr> cor_offset := offset \<rparr>)" "offset < cor_end m" for m offset
    using that(1) cor_copy_ok [OF _ that(2,3,4) left] by (auto simp: copy_def c_bind_eq_Ret)
  show ?thesis
  proof (cases "cor_end mx \<le> cor_offset mx")
    case False
    have "mux_base mx" "cor_ok (mx \<lparr> cor_offset := cor_offset mx \<rparr>)" using assms(2) by (simp_all add: mux_ok_base)
    then show ?thesis using r False unfolding eq by (intro copied [of mx "cor_offset mx"]) auto
  next
    case True
    show ?thesis
    proof (cases "sliced = []")
      case True
      then show ?thesis using r \<open>cor_end mx \<le> cor_offset mx\<close> assms(2) unfolding eq by simp
    next
      case False
      then obtain err n m1 left1 where g: "generate_pes_packet mx sliced service_mask raw sp pts = Ret (err, n, m1, left1)"
        using r True unfolding eq by (auto simp: c_bind_eq_Ret)
      note m1 = generate_ok [OF g assms(2)]
      show ?thesis
      proof (cases "err = None \<and> left1 = []")
        case False
        then show ?thesis using r True \<open>sliced \<noteq> []\<close> g m1 unfolding eq by (auto simp: mux_ok_base cor_ok_def split: if_splits)
      next
        case no: True
        obtain k where k: "n = 184 * k" "1 \<le> k" "k \<le> 356" using m1 no by auto
        show ?thesis
        proof (rule copied)
          show "copy (m1 \<lparr> cor_end := n + 4, cor_ts_left := 0 \<rparr>) 4 = Ret (ok, mx', out, rest)"
            using r True False g no unfolding eq by simp
          show "mux_base (m1 \<lparr> cor_end := n + 4, cor_ts_left := 0 \<rparr>)" using m1 by (simp add: mux_ok_base)
          show "cor_ok (m1 \<lparr> cor_end := n + 4, cor_ts_left := 0, cor_offset := 4 \<rparr>)" using k by (auto simp: cor_ok_def intro: exI [of _ 0])
          show "4 < cor_end (m1 \<lparr> cor_end := n + 4, cor_ts_left := 0 \<rparr>)" using k by simp
        qed
      qed
    qed
  qed
qed

section \<open>Reachable multiplexers\<close>

text \<open>A client that keeps the packets it receives and accepts some of them.\<close>

definition keep_packets :: "(u8 list \<Rightarrow> bool) \<Rightarrow> u8 list \<Rightarrow> u8 list list \<Rightarrow> bool \<times> u8 list list" where
  "keep_packets accept packet got = (accept packet, got @ [packet])"

text \<open>The contexts a client can have, by any sequence of calls that does not leave the behaviour the C standard defines.\<close>

inductive mux_reach :: "vbi_dvb_mux \<Rightarrow> bool" where
  pes_new: "length memory = 4 + MAX_PES_PACKET_SIZE \<Longrightarrow> mux_reach (vbi_dvb_pes_mux_new memory)"
| ts_new: "length memory = 4 + MAX_PES_PACKET_SIZE \<Longrightarrow> vbi_dvb_ts_mux_new pid memory = Some mx \<Longrightarrow> mux_reach mx"
| reset: "mux_reach mx \<Longrightarrow> mux_reach (vbi_dvb_mux_reset mx)"
| set_identifier: "mux_reach mx \<Longrightarrow> mux_reach (snd (vbi_dvb_mux_set_data_identifier mx b))"
| set_size: "mux_reach mx \<Longrightarrow> mux_reach (snd (vbi_dvb_mux_set_pes_packet_size mx min_size max_size))"
| feed: "mux_reach mx \<Longrightarrow> vbi_dvb_mux_feed mx (Some (keep_packets accept)) got sliced service_mask raw sp pts = Ret (ok, mx', got') \<Longrightarrow> mux_reach mx'"
| cor: "mux_reach mx \<Longrightarrow> vbi_dvb_mux_cor mx buffer_left sliced service_mask raw sp pts = Ret (ok, mx', out, rest) \<Longrightarrow> mux_reach mx'"

lemma feed_packets_ok:
  assumes "vbi_dvb_mux_feed mx (Some (keep_packets accept)) [] sliced service_mask raw sp pts = Ret (ok, mx', got)" "mux_ok mx"
  shows "mux_ok mx' \<and> list_all (\<lambda>p. if mx_pid mx = 0 then pes_shape p else length p = 188 \<and> p ! 0 = 0x47) got"
  using assms
  by (rule feed_ok [where I = "list_all (\<lambda>p. if mx_pid mx = 0 then pes_shape p else length p = 188 \<and> p ! 0 = 0x47)"])
    (simp_all add: keep_packets_def)

lemma ts_new_ok:
  assumes "length memory = 4 + MAX_PES_PACKET_SIZE" "vbi_dvb_ts_mux_new pid memory = Some mx"
  shows "mux_ok mx"
proof -
  have "mx = (vbi_dvb_pes_mux_new memory) \<lparr> mx_pid := pid \<rparr>" using assms(2) by (simp add: vbi_dvb_ts_mux_new_def split: if_splits)
  moreover have "cor_end (vbi_dvb_pes_mux_new memory) = 0" by (simp add: vbi_dvb_pes_mux_new_def init_pes_packet_header_def)
  ultimately show ?thesis using new_ok [OF assms(1)] by (simp add: mux_ok_def cor_ok_def)
qed

lemma mux_reach_ok: "mux_reach mx \<Longrightarrow> mux_ok mx"
proof (induction rule: mux_reach.induct)
  case (feed mx accept got sliced service_mask raw sp pts ok mx' got')
  show ?case using feed_ok [where I = "\<lambda>_. True", OF feed.hyps(2) feed.IH] by simp
qed (simp_all add: new_ok ts_new_ok reset_mux_ok set_identifier_ok set_size_ok cor_keeps)



end
