(* ===== verification/Dvb_Pes_Round_Trip.thy ===== *)
theory Dvb_Pes_Round_Trip
  imports Dvb_Pes_Stream Dvb_Mux_Inv
begin

text \<open>
  The multiplexer and the demultiplexer together: frames of sliced lines fed to \<^verbatim>\<open>vbi_dvb_mux_feed\<close> arrive, with their time stamps,
  at the callback of \<^verbatim>\<open>vbi_dvb_demux_feed\<close>, however the stream of PES packets between them is cut.
\<close>

section \<open>Time stamps\<close>

lemma times_2_plus_1: "t * 2 + 1 = push_bit 1 t OR (1 :: u32)"
proof -
  have "t * 2 + 1 = push_bit 1 t + (1 :: u32)" by (simp add: push_bit_eq_mult)
  also have "\<dots> = push_bit 1 t OR 1" by (rule disjunctive_add, simp only: bit_push_bit_iff bit_1_iff) simp
  finally show ?thesis .
qed

lemma marked: "0x21 + ucast (x AND 0xE) = (0x21 OR ucast (x AND 0xE) :: u32)" for x :: "64 word"
proof (rule disjunctive_add)
  fix n
  show "\<not> bit (0x21 :: u32) n \<or> \<not> bit (ucast (x AND 0xE) :: u32) n"
    by (auto simp: bit_simps numeral_eq_Suc elim!: less_SucE)
qed

lemma timestamp_round_trip: "decode_timestamp (encode_timestamp pts 0x21) = take_bit 33 pts"
proof (rule bit_word_eqI)
  fix n assume "n < LENGTH(64)"
  have masks: "(32767 :: int) = mask 15" "(7516192768 :: int) = push_bit 30 (mask 3)" "(14 :: int) = push_bit 1 (mask 3)"
    by (simp_all add: mask_eq_exp_minus_1 push_bit_eq_mult)
  have mb: "bit (32767 :: int) m \<longleftrightarrow> m < 15" "bit (7516192768 :: int) m \<longleftrightarrow> 30 \<le> m \<and> m < 33" "bit (14 :: int) m \<longleftrightarrow> 1 \<le> m \<and> m < 4" for m
    unfolding masks by (simp_all only: bit_push_bit_iff bit_mask_iff possible_bit_int simp_thms) auto
  have dbl: "bit (t * 2) (Suc m) \<longleftrightarrow> bit t m \<and> Suc m < 32" for t :: u32 and m
    using bit_push_bit_iff [of 1 t "Suc m"] by (auto simp: push_bit_eq_mult bit_simps mult.commute)
  have low: "\<not> bit (33 :: int) m" if "m \<in> {1, 2, 3}" for m using that by (auto simp: numeral_eq_Suc)
  have "30 \<le> n \<and> n < 33 \<Longrightarrow> n - 29 \<in> {1, 2, 3}" by auto
  with low have low': "30 \<le> n \<and> n < 33 \<Longrightarrow> \<not> bit (33 :: int) (n - 29)" by blast
  consider "n < 7" | "7 \<le> n \<and> n < 14" | "n = 14" | "15 \<le> n \<and> n < 22" | "22 \<le> n \<and> n < 30" | "30 \<le> n \<and> n < 33" | "33 \<le> n"
    by linarith
  then show "bit (decode_timestamp (encode_timestamp pts 0x21)) n = bit (take_bit 33 pts) n"
    by cases (use \<open>n < LENGTH(64)\<close> low' in \<open>simp_all add: decode_timestamp_def encode_timestamp_def Let_def times_2_plus_1 marked bit_simps dbl mb less_diff_conv2 le_diff_conv2\<close>)
qed

section \<open>One packet from the multiplexer\<close>

text \<open>What the demultiplexer needs to know of a packet with the lines \<open>lines\<close>.\<close>

definition carries :: "u8 list \<Rightarrow> vbi_sliced list \<Rightarrow> 64 word \<Rightarrow> bool" where
  "carries packet lines pts \<longleftrightarrow> (\<exists>h src hs pads st. packet = h @ src \<and> vbi_header h (length src)
     \<and> (\<forall>dx. valid_vbi_pes_packet_header dx h = (True, dx \<lparr> packet_pts := take_bit 33 pts \<rparr>))
     \<and> src = units_bytes hs pads @ st \<and> pads_fit 255 hs pads \<and> skipped st \<and> extracts hs 0 lines \<and> begins hs lines)"

text \<open>Without raw lines the generator converts all lines in one go.\<close>

lemma pes_loop_sliced:
  assumes "VBI_SLICED_VBI_625 \<notin> sl_id ` set sliced" "ascending last_line sliced"
    "insert_sliced_data_units (capacity - length out) (pending @ sliced) service_mask fixed_length = (err, units, du, rest)"
  shows "pes_loop mx service_mask raw sp capacity fixed_length last_line out pending sliced = Ret (err, mx, out @ units, du, rest)"
  using assms
proof (induction sliced arbitrary: last_line pending)
  case Nil
  then show ?case by (subst pes_loop.simps) simp
next
  case (Cons s ss)
  have "pes_loop mx service_mask raw sp capacity fixed_length last_line out pending (s # ss)
      = pes_loop mx service_mask raw sp capacity fixed_length (if 0 < sl_line s then sl_line s else last_line) out (pending @ [s]) ss"
    using Cons.prems(1,2) by (subst pes_loop.simps) (auto simp: Let_def word_neq_0_conv split: if_splits)
  also have "\<dots> = Ret (err, mx, out @ units, du, rest)"
    using Cons.prems by (intro Cons.IH) (auto simp: word_neq_0_conv split: if_splits)
  finally show ?case .
qed

lemma pes_p_left_le:
  assumes "184 dvd m" "184 dvd M" "184 \<le> m" "m \<le> M" "n \<le> M"
  shows "n + pes_p_left m n \<le> M"
proof (cases "n < m")
  case True
  then show ?thesis using assms(4) by (simp add: pes_p_left_def)
next
  case False
  obtain j where M: "M = 184 * j" using assms(2) by (auto elim: dvdE)
  have "184 dvd n + pes_p_left m n" by (rule pes_p_left_mod(1) [OF assms(1,3)])
  then obtain k where k: "n + pes_p_left m n = 184 * k" by (auto elim: dvdE)
  have "n + pes_p_left m n < n + 184" using False by (auto simp: pes_p_left_def)
  then have "k \<le> j" using assms(5) M k by simp
  then show ?thesis using M k by simp
qed

lemma pes_p_left_46:
  assumes "184 dvd m" "184 \<le> m" "46 dvd n"
  shows "pes_p_left m (46 + n) mod 46 = 0"
proof -
  have "46 dvd 46 + n + pes_p_left m (46 + n)" using pes_p_left_mod(1) [OF assms(1,2), of "46 + n"] by (auto elim: dvd_trans [rotated])
  then show ?thesis using assms(3) by (simp add: dvd_add_right_iff dvd_imp_mod_0)
qed

text \<open>Lines a packet has room for, without raw lines.\<close>

definition frame_fits :: "vbi_dvb_mux \<Rightarrow> u32 \<Rightarrow> vbi_sliced list \<Rightarrow> bool" where
  "frame_fits mx service_mask sliced \<longleftrightarrow> list_all sliced_ok sliced \<and> ascending 0 sliced \<and> VBI_SLICED_VBI_625 \<notin> sl_id ` set sliced
     \<and> list_all encodable (wanted_lines service_mask sliced) \<and> 46 * length (wanted_lines service_mask sliced) \<le> max_packet_size mx - 46"

lemma ascending_wanted: "ascending l ss \<Longrightarrow> l' \<le> l \<Longrightarrow> ascending l' (wanted_lines service_mask ss)"
proof (induction ss arbitrary: l l')
  case (Cons s ss)
  show ?case
  proof (cases "sl_line s = 0")
    case True
    then show ?thesis using Cons.IH [of l l'] Cons.prems by (simp add: wanted_lines_def)
  next
    case False
    then show ?thesis using Cons.IH [of "sl_line s" "sl_line s"] Cons.IH [of "sl_line s" l'] Cons.prems
      by (auto simp: wanted_lines_def)
  qed
qed (simp add: wanted_lines_def)

lemma decode_timestamp_cong: "(\<And>i. i < 5 \<Longrightarrow> p ! i = p' ! i) \<Longrightarrow> decode_timestamp p = decode_timestamp p'"
  by (simp add: decode_timestamp_def)

text \<open>The packet the generator leaves in the buffer, with the data units \<open>src\<close>.\<close>

lemma finished_packet:
  assumes "pes_finish m out du fx = Ret (n, mx')" "encode_stuffing out (pes_p_left (min_packet_size m) (46 + length out)) du fx = Ret src"
    "length (mx_packet m) = 4 + MAX_PES_PACKET_SIZE"
  shows "4 + n \<le> length (mx_packet mx')" "46 + length src = n" "drop 46 (take n (drop 4 (mx_packet mx'))) = src"
    "\<And>i. 9 \<le> i \<Longrightarrow> i < 46 \<Longrightarrow> take n (drop 4 (mx_packet mx')) ! i = mx_packet m ! (4 + i)" "raw_samples_left mx' = raw_samples_left m"
proof -
  define p_left where "p_left = pes_p_left (min_packet_size m) (46 + length out)"
  have len: "length src = length out + p_left" using encode_stuffing_length [OF assms(2)] by (simp add: p_left_def)
  have r: "n = 46 + length out + p_left" "4 + n \<le> length (mx_packet m)"
    "mx' = m \<lparr> mx_packet := (c_memcpy (4 + 45 + 1) src (mx_packet m)) [4 + 4 := of_nat ((n - 6) div 256), 4 + 5 := of_nat (n - 6)] \<rparr>"
    using assms(1,2) unfolding pes_finish_def Let_def p_left_def [symmetric] by (auto split: if_splits)
  show n: "46 + length src = n" by (simp add: r(1) len)
  have room: "50 + length src \<le> length (mx_packet m)" using n r(2) by simp
  note lc = length_c_memcpy [OF room]
  show "4 + n \<le> length (mx_packet mx')" using r(2) lc by (simp add: r(3))
  have at: "mx_packet mx' ! (4 + i) = (if i < 46 then mx_packet m ! (4 + i) else src ! (i - 46))" if "6 \<le> i" "i < n" for i
    using that n by (simp add: r(3) nth_c_memcpy [OF room])
  show "take n (drop 4 (mx_packet mx')) ! i = mx_packet m ! (4 + i)" if "9 \<le> i" "i < 46" for i
    using that n at [of i] r(2) lc by (simp add: r(3))
  show "drop 46 (take n (drop 4 (mx_packet mx'))) = src"
  proof (rule nth_equalityI)
    show "length (drop 46 (take n (drop 4 (mx_packet mx')))) = length src" using n r(2) lc by (simp add: r(3))
    fix i assume "i < length (drop 46 (take n (drop 4 (mx_packet mx'))))"
    then have "i < length src" "4 + (46 + i) < length (mx_packet mx')" using n by auto
    then show "drop 46 (take n (drop 4 (mx_packet mx'))) ! i = src ! i"
      using at [of "46 + i"] n by (simp add: add.commute add.left_commute)
  qed
  show "raw_samples_left mx' = raw_samples_left m" by (simp add: r(3))
qed

lemma prepared_packet:
  assumes "length (mx_packet mx) = 4 + MAX_PES_PACKET_SIZE"
  shows "i < 5 \<Longrightarrow> mx_packet (pes_prepare mx pts) ! (13 + i) = encode_timestamp pts 0x21 ! i"
    "mx_packet (pes_prepare mx pts) ! 49 = ucast (mx_data_identifier mx)"
proof -
  have room: "13 + length (encode_timestamp pts 0x21) \<le> length (mx_packet mx)" using assms by (simp add: MAX_eq)
  show "i < 5 \<Longrightarrow> mx_packet (pes_prepare mx pts) ! (13 + i) = encode_timestamp pts 0x21 ! i"
    using nth_c_memcpy [OF room, of "13 + i"] by (simp add: pes_prepare_def)
  show "mx_packet (pes_prepare mx pts) ! 49 = ucast (mx_data_identifier mx)"
    using length_c_memcpy [OF room] assms by (simp add: pes_prepare_def MAX_eq)
qed

lemma identifier_ok:
  fixes d :: u32
  assumes "0x10 \<le> d \<and> d < 0x20 \<or> 0x99 \<le> d \<and> d < 0x9C"
  shows "(0x10 \<le> (ucast d :: u8) \<and> (ucast d :: u8) \<le> 0x1F) \<or> (0x99 \<le> (ucast d :: u8) \<and> (ucast d :: u8) \<le> 0x9B)"
proof -
  have "unat d < 0x9C" using assms by (auto simp: word_less_nat_alt)
  then have "unat (ucast d :: u8) = unat d" by (simp add: unsigned_ucast_eq take_bit_nat_eq_self)
  then show ?thesis using assms by (auto simp: word_le_nat_alt word_less_nat_alt)
qed

lemma generate_sliced:
  assumes ok: "mux_ok mx" "raw_samples_left mx = 0" and fits: "frame_fits mx service_mask sliced"
  shows "\<exists>n mx'. generate_pes_packet mx sliced service_mask raw sp pts = Ret (None, n, mx', [])
    \<and> carries (take n (drop 4 (mx_packet mx'))) (wanted_lines service_mask sliced) pts \<and> raw_samples_left mx' = 0"
proof -
  define m where "m = pes_prepare mx pts"
  define fx where "fx = fixed_length_format (mx_data_identifier m)"
  define cap where "cap = max_packet_size m - 46"
  let ?lines = "wanted_lines service_mask sliced"
  have m: "mux_ok m" "raw_samples_left m = 0" "max_packet_size m = max_packet_size mx" "mx_data_identifier m = mx_data_identifier mx"
    using pes_prepare_ok [OF ok(1), of pts] ok(2) by (simp_all add: m_def pes_prepare_def)
  have core: "length (mx_packet m) = 4 + MAX_PES_PACKET_SIZE" "184 dvd min_packet_size m" "184 dvd max_packet_size m"
    "184 \<le> min_packet_size m" "min_packet_size m \<le> max_packet_size m" "max_packet_size m \<le> MAX_PES_PACKET_SIZE"
    using m(1) by (auto simp: mux_ok_def header_ok_def)
  have lines: "list_all sliced_ok sliced" "VBI_SLICED_VBI_625 \<notin> sl_id ` set sliced" "ascending 0 sliced"
    "\<forall>s \<in> set ?lines. encodable s" "46 * length ?lines \<le> cap"
    using fits m(3) by (auto simp: frame_fits_def list_all_iff cap_def)
  obtain out du where ins: "insert_sliced_data_units cap sliced service_mask fx = (None, out, du, [])"
    using insert_loop_accepts [OF lines(4) ascending_wanted [OF lines(3) order.refl] lines(5)] unfolding insert_sliced_data_units_def by blast
  have loop: "pes_loop m service_mask raw sp cap fx 0 [] [] sliced = Ret (None, m, out, du, [])"
    using pes_loop_sliced [OF lines(2,3), of cap "[]" "[]" service_mask fx None out du "[]"] ins by simp
  obtain hs pads read where h: "sliced = read @ []" "out = units_bytes hs pads" "pads_fit 44 hs pads" "extracts hs 0 (wanted_lines service_mask read)"
      "begins hs (wanted_lines service_mask read)"
      "\<forall>unit_id lofp payload. hs \<noteq> [] \<and> last hs = (unit_id, lofp, payload) \<longrightarrow> du = 3 + length payload + last pads"
      "length (units_bytes hs pads) \<le> cap" "fx \<longrightarrow> 46 dvd length (units_bytes hs pads)"
    using insert_loop_extracts [OF ins [unfolded insert_sliced_data_units_def] lines(1)] by auto
  define p_left where "p_left = pes_p_left (min_packet_size m) (46 + length out)"
  have "hs = [] \<longrightarrow> 2 \<le> p_left" using core(4) h(2) by (auto simp: p_left_def pes_p_left_def)
  moreover have "fx \<longrightarrow> p_left mod 46 = 0" using pes_p_left_46 [OF core(2,4)] h(2,8) by (simp add: p_left_def)
  ultimately obtain pads' st where es: "encode_stuffing out p_left du fx = Ret (units_bytes hs pads' @ st)" "pads_fit 255 hs pads'" "skipped st"
    using encode_stuffing_units [OF h(3,6), of p_left fx] by (auto simp: h(2))
  define n where "n = 46 + length out + p_left"
  have "46 + length out \<le> max_packet_size m" using h(2,7) core(4,5) by (simp add: cap_def)
  from pes_p_left_le [OF core(2,3,4,5) this] have room: "\<not> length (mx_packet m) < 4 + n"
    using core(1,6) by (simp add: n_def p_left_def)
  obtain mx' where fin: "pes_finish m out du fx = Ret (n, mx')"
    using es(1) room by (auto simp: pes_finish_def Let_def p_left_def [symmetric] n_def)
  have gen: "generate_pes_packet mx sliced service_mask raw sp pts = Ret (None, n, mx', [])"
    unfolding generate_pes_packet_def Let_def m_def [symmetric] fx_def [symmetric] cap_def [symmetric]
    using m(2) loop fin by (simp add: interrupted_def)
  define q where "q = take n (drop 4 (mx_packet mx'))"
  note packet = finished_packet [OF fin es(1) [unfolded p_left_def] core(1), folded q_def]
  have shape: "pes_shape q" unfolding q_def by (rule generate_shape(2) [OF gen ok(1)])
  define hd where "hd = take 46 q"
  have len: "length q = n" "46 \<le> n" using packet(1,2) by (auto simp: q_def)
  have at: "hd ! i = q ! i" if "i < 46" for i using that by (simp add: hd_def)
  have "length (mx_packet mx) = 4 + MAX_PES_PACKET_SIZE" using ok(1) by (simp add: mux_ok_def header_ok_def)
  note prep = prepared_packet [OF this, where pts = pts, folded m_def]
  have "decode_timestamp (drop 9 hd) = decode_timestamp (encode_timestamp pts 0x21)"
  proof (rule decode_timestamp_cong)
    fix i :: nat assume "i < 5"
    then show "drop 9 hd ! i = encode_timestamp pts 0x21 ! i" using prep(1) [of i] packet(4) [of "9 + i"] len at [of "9 + i"] by (simp add: hd_def)
  qed
  then have stamp: "decode_timestamp (drop 9 hd) = take_bit 33 pts" by (simp add: timestamp_round_trip)
  have id: "hd ! 45 = ucast (mx_data_identifier mx)" using prep(2) packet(4) [of 45] at [of 45] by simp
  have start: "hd ! 0 = 0 \<and> hd ! 1 = 0 \<and> hd ! 2 = 1 \<and> hd ! 3 = 0xBD"
  proof -
    have "take 4 q = [0, 0, 1, 0xBD]" using shape by (simp add: pes_shape_def)
    then have "take 4 q ! i = [0, 0, 1, 0xBD] ! i" for i by simp
    from this [of 0] this [of 1] this [of 2] this [of 3] show ?thesis by (simp add: at)
  qed
  have fields: "hd ! 6 = 0x84" "hd ! 7 = 0x80" "hd ! 8 = 0x24" "unat (hd ! 4) * 256 + unat (hd ! 5) = n - 6" "184 \<le> n"
    using shape by (simp_all add: pes_shape_def at len(1))
  have "vbi_header hd (length (units_bytes hs pads' @ st))"
    using start fields(4,5) packet(2) len by (simp add: vbi_header_def hd_def PRIVATE_STREAM_1_def)
  moreover have "valid_vbi_pes_packet_header dx hd = (True, dx \<lparr> packet_pts := take_bit 33 pts \<rparr>)" for dx
    using fields(1-3) identifier_ok [of "mx_data_identifier mx"] ok(1)
    by (simp add: valid_vbi_pes_packet_header_def id stamp mux_ok_def drop_bit_eq_div)
  moreover have "q = hd @ units_bytes hs pads' @ st" using packet(3) by (simp add: hd_def) (metis append_take_drop_id)
  moreover have "read = sliced" using h(1) by simp
  ultimately have "carries q ?lines pts" using es(2,3) h(4,5) unfolding carries_def by blast
  then show ?thesis using gen packet(5) m(2) unfolding q_def by auto
qed

section \<open>One packet at the demultiplexer\<close>

text \<open>The state after a packet: its frame is complete but for lines of a further packet.\<close>

definition holds_frame :: "nat \<Rightarrow> vbi_dvb_demux \<Rightarrow> vbi_sliced list \<Rightarrow> 64 word \<Rightarrow> bool" where
  "holds_frame n dx lines pts \<longleftrightarrow> (\<exists>slots. length slots = n \<and> list_all sliced_ok slots \<and> fr_sliced (dx_frame dx) = deliver lines 0 slots)
     \<and> fr_sp (dx_frame dx) = length lines \<and> in_step (dx_frame dx) (last_known 0 lines)
     \<and> \<not> new_frame dx \<and> frame_pts dx = take_bit 33 pts"

lemma sliced_ok_deliver:
  "k + length ss \<le> length slots \<Longrightarrow> list_all sliced_ok slots \<Longrightarrow> list_all sliced_ok ss \<Longrightarrow> list_all sliced_ok (deliver ss k slots)"
proof (induction ss arbitrary: k slots)
  case (Cons s ss)
  have d: "length (dvb_data (sl_id s) (sl_data s)) \<le> 56" using Cons.prems(3) by (auto simp: dvb_data_def sliced_ok_def)
  have "sliced_ok (delivered s (slots ! k))"
    using d Cons.prems by (simp add: delivered_def sliced_ok_def list_all_length)
  then have "list_all sliced_ok (slots [k := delivered s (slots ! k)])"
    using Cons.prems(2) by (auto simp: list_all_iff dest!: set_update_subset_insert [THEN subsetD])
  then show ?case using Cons.IH [of "Suc k" "slots [k := delivered s (slots ! k)]"] Cons.prems(1,3) by simp
qed simp

lemma new_frame_packet:
  assumes "carries packet lines pts" "new_frame dx" "length lines \<le> n" "length (fr_sliced (dx_frame dx)) = n" "list_all sliced_ok (fr_sliced (dx_frame dx))"
    and src: "packet = h @ src" "length h = 46"
  shows "\<exists>dx'. demux_pes_packet_frame callback (dx \<lparr> packet_pts := take_bit 33 pts \<rparr>) u src = Ret (None, dx', u, []) \<and> holds_frame n dx' lines pts"
proof -
  obtain hs pads st where c: "src = units_bytes hs pads @ st" "pads_fit 255 hs pads" "skipped st" "extracts hs 0 lines" "2 \<le> length src"
    using assms(1) src by (auto simp: carries_def vbi_header_def)
  let ?dx = "dx \<lparr> packet_pts := take_bit 33 pts \<rparr>"
  let ?f = "dx_frame (begin_frame ?dx)"
  have f: "?f = reset_frame (dx_frame dx)" "frame_pts (begin_frame ?dx) = take_bit 33 pts" "\<not> new_frame (begin_frame ?dx)"
    using assms(2) by (simp_all add: begin_frame_def)
  have "in_step ?f 0" by (simp add: f(1) in_step_def reset_frame_def)
  moreover have "fr_sp ?f + length lines \<le> length (fr_sliced ?f)" using assms(3,4) by (simp add: f(1) reset_frame_def)
  ultimately obtain f1 where f1: "extract_data_units ?f src = extract_data_units f1 st" "fr_sliced f1 = deliver lines (fr_sp ?f) (fr_sliced ?f)"
      "fr_sp f1 = fr_sp ?f + length lines" "in_step f1 (last_known 0 lines)"
    using c(2,4) unfolding c(1) extracts_def by blast
  obtain f2 where f2: "extract_data_units f1 st = Ret (None, f2, [])" "fr_sliced f2 = fr_sliced f1" "fr_sp f2 = fr_sp f1"
      "last_frame_line f2 = last_frame_line f1" "last_field f2 = last_field f1"
    using c(3) unfolding skipped_def by blast
  have "demux_pes_packet_frame callback ?dx u src = Ret (None, (begin_frame ?dx) \<lparr> dx_frame := f2 \<rparr>, u, [])"
    using c(5) f1(1) f2(1) by (subst demux_pes_packet_frame.simps) simp
  moreover have "holds_frame n ((begin_frame ?dx) \<lparr> dx_frame := f2 \<rparr>) lines pts"
    using f(2,3) f1(2-4) f2(2-5) assms(4,5) by (auto simp: holds_frame_def f(1) reset_frame_def in_step_def)
  ultimately show ?thesis by blast
qed

text \<open>A packet whose first line has a number not behind the last one of the frame held: this frame is passed on.\<close>

definition starts_frame :: "vbi_sliced list \<Rightarrow> vbi_sliced list \<Rightarrow> bool" where
  "starts_frame lines lines' = (case lines' of [] \<Rightarrow> False | s # _ \<Rightarrow> sl_line s \<noteq> 0 \<and> sl_line s \<le> last_known 0 lines)"

lemma packet_pts_same: "packet_pts dx = pts \<Longrightarrow> dx = dx \<lparr> packet_pts := pts \<rparr>" for dx :: vbi_dvb_demux
  by (cases dx) simp

lemma next_frame_packet:
  assumes held: "holds_frame n dx lines pts" "length lines < n" "list_all sliced_ok lines"
    and packet: "carries packet lines' pts'" "packet = h @ src" "length h = 46" "length lines' \<le> n" "starts_frame lines lines'"
    and call: "call (frame_lines (dx_frame dx)) (take_bit 33 pts) u = (True, u')"
  shows "\<exists>dx'. demux_pes_packet_frame (Some call) (new_packet (dx \<lparr> packet_pts := take_bit 33 pts' \<rparr>)) u src = Ret (None, dx', u', [])
    \<and> holds_frame n dx' lines' pts'"
proof -
  let ?dx = "new_packet (dx \<lparr> packet_pts := take_bit 33 pts' \<rparr>)"
  obtain hs pads st where c: "src = units_bytes hs pads @ st" "pads_fit 255 hs pads" "begins hs lines'" "2 \<le> length src"
    using packet(1-3) by (auto simp: carries_def vbi_header_def)
  obtain slots where slots: "length slots = n" "list_all sliced_ok slots" "fr_sliced (dx_frame dx) = deliver lines 0 slots"
    using held(1) by (auto simp: holds_frame_def)
  have f: "begin_frame ?dx = ?dx" "frame_pts ?dx = take_bit 33 pts" using held(1) by (simp_all add: holds_frame_def begin_frame_def new_packet_def)
  obtain s ss where first: "lines' = s # ss" "sl_line s \<noteq> 0" "unat (sl_line s) \<le> last_frame_line (dx_frame ?dx)"
    using packet(5) held(1) by (auto simp: starts_frame_def holds_frame_def in_step_def new_packet_def word_le_nat_alt split: list.splits)
  have "fr_sp (dx_frame ?dx) < length (fr_sliced (dx_frame ?dx))" "n_data_units_extracted_from_packet (dx_frame ?dx) = 0"
    using held(1,2) slots by (simp_all add: holds_frame_def new_packet_def)
  then have e: "extract_data_units (dx_frame ?dx) src = Ret (Some NEW_FRAME, dx_frame ?dx, src)"
    using c(2,3) first unfolding c(1) begins_def by blast
  have lines: "frame_lines (dx_frame ?dx) = frame_lines (dx_frame dx)" by (simp add: new_packet_def frame_lines_def)
  have "demux_pes_packet_frame (Some call) ?dx u src = demux_pes_packet_frame (Some call) (frame_end ?dx (dx_frame ?dx)) u' src"
    using c(4) call by (subst demux_pes_packet_frame.simps) (simp add: f e lines)
  moreover have "frame_end ?dx (dx_frame ?dx) = (frame_end ?dx (dx_frame ?dx)) \<lparr> packet_pts := take_bit 33 pts' \<rparr>"
    by (rule packet_pts_same) (simp only: f(1), simp add: new_packet_def)
  moreover have "list_all sliced_ok (deliver lines 0 slots)" using sliced_ok_deliver [of 0 lines slots] slots held(2,3) by simp
  ultimately show ?thesis
    using new_frame_packet [OF packet(1) _ packet(4) _ _ packet(2,3), of "frame_end ?dx (dx_frame ?dx)" "Some call" u'] slots(1,3)
    by (simp add: f(1) new_packet_def)
qed

section \<open>A stream of packets\<close>

text \<open>What arrives of a line, and of a frame.\<close>

definition receives :: "vbi_sliced \<Rightarrow> vbi_sliced \<Rightarrow> bool" where
  "receives s r \<longleftrightarrow> sl_id r = dvb_id (sl_id s) \<and> sl_line r = sl_line s
     \<and> take (length (dvb_data (sl_id s) (sl_data s))) (sl_data r) = dvb_data (sl_id s) (sl_data s)"

definition arrives :: "vbi_sliced list \<times> 64 word \<Rightarrow> vbi_sliced list \<times> 64 word \<Rightarrow> bool" where
  "arrives frame r \<longleftrightarrow> list_all2 receives (fst frame) (fst r) \<and> snd r = take_bit 33 (snd frame)"

lemma receives_delivered: "sliced_ok s \<Longrightarrow> receives s (delivered s old)"
  by (simp add: receives_def delivered_def c_memcpy_def)

lemma held_arrives:
  assumes "holds_frame n dx lines pts" "length lines < n" "list_all sliced_ok lines"
  shows "list_all2 receives lines (frame_lines (dx_frame dx))"
proof -
  obtain slots where slots: "length slots = n" "fr_sliced (dx_frame dx) = deliver lines 0 slots" "fr_sp (dx_frame dx) = length lines"
    using assms(1) by (auto simp: holds_frame_def)
  have "frame_lines (dx_frame dx) = map2 delivered lines slots"
    using slots assms(2) by (simp add: frame_lines_def deliver_eq)
  then show ?thesis using slots(1) assms(2,3) receives_delivered by (auto simp: list_all2_conv_all_nth list_all_length)
qed

definition keep_frames :: "vbi_sliced list \<Rightarrow> pts \<Rightarrow> (vbi_sliced list \<times> pts) list \<Rightarrow> bool \<times> (vbi_sliced list \<times> pts) list" where
  "keep_frames lines pts got = (True, got @ [(lines, pts)])"

text \<open>Each frame begins with a line the demultiplexer can tell from a continuation of the one before.\<close>

primrec frames_follow :: "nat \<Rightarrow> vbi_sliced list \<Rightarrow> (vbi_sliced list \<times> 64 word) list \<Rightarrow> bool" where
  "frames_follow n lines [] \<longleftrightarrow> length lines < n"
| "frames_follow n lines (frame # frames) \<longleftrightarrow> length lines < n \<and> starts_frame lines (fst frame) \<and> frames_follow n (fst frame) frames"

lemma frames_follow_length: "frames_follow n lines frames \<Longrightarrow> length lines < n"
  by (cases frames) simp_all

lemma packets_stream:
  assumes "holds_frame n dx lines pts" "list_all sliced_ok lines" "frames_follow n lines frames"
    "list_all2 (\<lambda>packet frame. carries packet (fst frame) (snd frame)) packets frames" "\<forall>frame \<in> set frames. list_all sliced_ok (fst frame)"
  shows "\<exists>dx' got'. pes_stream (Some keep_frames) (with_wrap dx (concat packets) 0 48) got = Ret (None, dx', got @ got')
    \<and> list_all2 arrives (butlast ((lines, pts) # frames)) got'"
  using assms
proof (induction frames arbitrary: dx lines pts packets got)
  case Nil
  then show ?case by (simp add: stream_out)
next
  case (Cons frame frames)
  obtain packet ps where p: "packets = packet # ps" "carries packet (fst frame) (snd frame)"
    "list_all2 (\<lambda>packet frame. carries packet (fst frame) (snd frame)) ps frames"
    using Cons.prems(4) by (auto simp: list_all2_Cons2)
  obtain h src where hs: "packet = h @ src" "vbi_header h (length src)"
    "\<And>dx. valid_vbi_pes_packet_header dx h = (True, dx \<lparr> packet_pts := take_bit 33 (snd frame) \<rparr>)"
    using p(2) by (auto simp: carries_def)
  have h46: "length h = 46" using hs(2) by (simp add: vbi_header_def)
  have follow: "starts_frame lines (fst frame)" "frames_follow n (fst frame) frames" "length lines < n" using Cons.prems(3) by simp_all
  note len = frames_follow_length [OF follow(2)]
  define got1 where "got1 = got @ [(frame_lines (dx_frame dx), take_bit 33 pts)]"
  obtain dx1 where dx1: "demux_pes_packet_frame (Some keep_frames) (new_packet (dx \<lparr> packet_pts := take_bit 33 (snd frame) \<rparr>)) got src = Ret (None, dx1, got1, [])"
    "holds_frame n dx1 (fst frame) (snd frame)"
    using next_frame_packet [OF Cons.prems(1) follow(3) Cons.prems(2) p(2) hs(1) h46 _ follow(1), of keep_frames got got1] len
    by (auto simp: keep_frames_def got1_def)
  have step: "pes_stream (Some keep_frames) (with_wrap dx (concat packets) 0 48) got = pes_stream (Some keep_frames) (with_wrap dx1 (concat ps) 0 48) got1"
    using stream_packet [OF hs(2) hs(3), where callback = "Some keep_frames" and tail = "concat ps" and u = got and dx = dx] dx1(1) by (simp add: p(1) hs(1))
  have "list_all sliced_ok (fst frame)" "\<forall>frame \<in> set frames. list_all sliced_ok (fst frame)" using Cons.prems(5) by simp_all
  from Cons.IH [OF dx1(2) this(1) follow(2) p(3) this(2), of got1] obtain dx' got' where
    r: "pes_stream (Some keep_frames) (with_wrap dx1 (concat ps) 0 48) got1 = Ret (None, dx', got1 @ got')"
      "list_all2 arrives (butlast ((fst frame, snd frame) # frames)) got'" by blast
  have "arrives (lines, pts) (frame_lines (dx_frame dx), take_bit 33 pts)"
    using held_arrives [OF Cons.prems(1) follow(3) Cons.prems(2)] by (simp add: arrives_def)
  then show ?case using r step by (intro exI [of _ dx'] exI [of _ "(frame_lines (dx_frame dx), take_bit 33 pts) # got'"]) (simp add: got1_def)
qed

section \<open>All frames\<close>

text \<open>The frames fed to the multiplexer, with their time stamps; its packets are kept.\<close>

primrec mux_feed_all ::
  "vbi_dvb_mux \<Rightarrow> u8 list list \<Rightarrow> u32 \<Rightarrow> (vbi_sliced list \<times> 64 word) list \<Rightarrow> (bool \<times> vbi_dvb_mux \<times> u8 list list) c_result" where
  "mux_feed_all mx packets service_mask [] = Ret (True, mx, packets)"
| "mux_feed_all mx packets service_mask (frame # frames) =
     c_bind (vbi_dvb_mux_feed mx (Some (keep_packets (\<lambda>_. True))) packets (fst frame) service_mask None None (snd frame)) (\<lambda>(ok, mx, packets).
       if ok then mux_feed_all mx packets service_mask frames else Ret (False, mx, packets))"

lemma feed_sliced:
  assumes "mux_ok mx" "mx_pid mx = 0" "raw_samples_left mx = 0" "frame_fits mx service_mask sliced"
  shows "\<exists>mx' packet. vbi_dvb_mux_feed mx (Some (keep_packets (\<lambda>_. True))) packets sliced service_mask None None pts = Ret (True, mx', packets @ [packet])
    \<and> carries packet (wanted_lines service_mask sliced) pts
    \<and> mux_ok mx' \<and> mx_pid mx' = 0 \<and> raw_samples_left mx' = 0 \<and> max_packet_size mx' = max_packet_size mx"
proof -
  define m where "m = (if cor_offset mx < cor_end mx then mx \<lparr> cor_end := 0 \<rparr> else mx)"
  have m: "mux_ok m" "mx_pid m = 0" "raw_samples_left m = 0" "max_packet_size m = max_packet_size mx"
    using assms(1-3) by (auto simp: m_def mux_ok_base cor_ok_def)
  then have "frame_fits m service_mask sliced" using assms(4) by (simp add: frame_fits_def)
  then obtain n mx' where g: "generate_pes_packet m sliced service_mask None None pts = Ret (None, n, mx', [])"
    "carries (take n (drop 4 (mx_packet mx'))) (wanted_lines service_mask sliced) pts" "raw_samples_left mx' = 0"
    using generate_sliced [OF m(1,3)] by blast
  have mx': "mux_ok mx'" "mx_pid mx' = 0" "max_packet_size mx' = max_packet_size mx"
    using generate_ok [OF g(1) m(1)] m(2,4) by (simp_all add: mux_core_def)
  have "vbi_dvb_mux_feed mx (Some (keep_packets (\<lambda>_. True))) packets sliced service_mask None None pts
      = Ret (True, mx', packets @ [take n (drop 4 (mx_packet mx'))])"
    using g(1) mx'(2) generate_shape(1) [OF g(1) m(1)]
    by (simp add: vbi_dvb_mux_feed_def valid_par_def Let_def m_def [symmetric] keep_packets_def)
  then show ?thesis using g(2,3) mx' by blast
qed

lemma mux_feed_all_carries:
  assumes "mux_ok mx" "mx_pid mx = 0" "raw_samples_left mx = 0" "\<forall>frame \<in> set frames. frame_fits mx service_mask (fst frame)"
  shows "\<exists>mx' packets'. mux_feed_all mx packets service_mask frames = Ret (True, mx', packets @ packets')
    \<and> list_all2 (\<lambda>packet frame. carries packet (wanted_lines service_mask (fst frame)) (snd frame)) packets' frames"
  using assms
proof (induction frames arbitrary: mx packets)
  case (Cons frame frames)
  obtain m packet where m: "vbi_dvb_mux_feed mx (Some (keep_packets (\<lambda>_. True))) packets (fst frame) service_mask None None (snd frame)
      = Ret (True, m, packets @ [packet])" "carries packet (wanted_lines service_mask (fst frame)) (snd frame)"
    "mux_ok m" "mx_pid m = 0" "raw_samples_left m = 0" "max_packet_size m = max_packet_size mx"
    using feed_sliced [OF Cons.prems(1-3)] Cons.prems(4) by fastforce
  have "\<forall>frame \<in> set frames. frame_fits m service_mask (fst frame)" using Cons.prems(4) m(6) by (simp add: frame_fits_def)
  from Cons.IH [OF m(3-5) this, of "packets @ [packet]"] obtain mx' packets' where
    "mux_feed_all m (packets @ [packet]) service_mask frames = Ret (True, mx', (packets @ [packet]) @ packets')"
    "list_all2 (\<lambda>packet frame. carries packet (wanted_lines service_mask (fst frame)) (snd frame)) packets' frames" by blast
  then show ?case using m(1,2) by (intro exI [of _ mx'] exI [of _ "packet # packets'"]) simp
qed simp

text \<open>The lines of the requested services of each frame.\<close>

definition wanted_frames :: "u32 \<Rightarrow> (vbi_sliced list \<times> 64 word) list \<Rightarrow> (vbi_sliced list \<times> 64 word) list" where
  "wanted_frames service_mask frames = map (\<lambda>frame. (wanted_lines service_mask (fst frame), snd frame)) frames"

lemma wanted_ok: "frame_fits mx service_mask sliced \<Longrightarrow> list_all sliced_ok (wanted_lines service_mask sliced)"
  by (auto simp: frame_fits_def wanted_lines_def list_all_iff)

lemma first_packet_stream:
  assumes "carries packet lines pts" "length lines \<le> length slots" "list_all sliced_ok slots"
  shows "\<exists>dx1. pes_stream callback (absorb (vbi_dvb_demux_reset slots) (packet @ tail)) u = pes_stream callback (with_wrap dx1 tail 0 48) u
    \<and> holds_frame (length slots) dx1 lines pts"
proof -
  obtain h src where hs: "packet = h @ src" "vbi_header h (length src)"
    "\<And>dx. valid_vbi_pes_packet_header dx h = (True, dx \<lparr> packet_pts := take_bit 33 pts \<rparr>)"
    using assms(1) by (auto simp: carries_def)
  have h46: "length h = 46" using hs(2) by (simp add: vbi_header_def)
  define dx where "dx = vbi_dvb_demux_reset slots"
  have dx: "new_frame dx" "fr_sliced (dx_frame dx) = slots" "new_packet dx = dx"
    by (simp_all add: dx_def vbi_dvb_demux_reset_def new_packet_def)
  have np: "new_packet (dx \<lparr> packet_pts := p \<rparr>) = dx \<lparr> packet_pts := p \<rparr>" for p
    by (simp add: dx_def vbi_dvb_demux_reset_def new_packet_def)
  obtain dx1 where dx1: "demux_pes_packet_frame callback (dx \<lparr> packet_pts := take_bit 33 pts \<rparr>) u src = Ret (None, dx1, u, [])"
    "holds_frame (length slots) dx1 lines pts"
    using new_frame_packet [OF assms(1) dx(1) assms(2) _ _ hs(1) h46, of callback u] dx(2) assms(3) by auto
  have "absorb dx (packet @ tail) = with_wrap dx (h @ src @ tail) 0 48"
    by (simp add: dx_def absorb_def vbi_dvb_demux_reset_def with_wrap_def hs(1) PES_HEADER_LOOKAHEAD_def)
  then show ?thesis
    using stream_packet [OF hs(2) hs(3), where callback = callback and tail = tail and u = u and dx = dx] dx1 by (auto simp: dx_def [symmetric] np)
qed

text \<open>
  C1. Frames survive the way through multiplexer, PES stream and demultiplexer. A multiplexer in any state without an
  unfinished raw line accepts every frame whose lines EN 301 775 permits and which fits the packet size; the packets it passes to
  its callback, concatenated and cut into buffers in any way, are accepted by a demultiplexer after a reset; and its callback
  gets each frame but the last, in order, with all lines of the requested services, their numbers, services and payload, and with the low
  33 bits of the time stamp. Each frame shall begin with a known line which is not behind the last one of the frame before, so
  that the demultiplexer can tell them apart; the last frame is held until another begins.
\<close>

theorem dvb_mux_demux:
  assumes "mux_ok mx" "mx_pid mx = 0" "raw_samples_left mx = 0" "list_all sliced_ok slots"
    "\<forall>frame \<in> set (frame # frames). frame_fits mx service_mask (fst frame)"
    "frames_follow (length slots) (wanted_lines service_mask (fst frame)) (wanted_frames service_mask frames)"
  shows "\<exists>mx' packets. mux_feed_all mx [] service_mask (frame # frames) = Ret (True, mx', packets)
    \<and> (\<forall>buffers. buffers \<noteq> [] \<and> concat buffers = concat packets \<longrightarrow>
        (\<exists>dx' got. feed_all (Some keep_frames) (vbi_dvb_demux_reset slots) [] buffers = Ret (True, dx', got)
          \<and> list_all2 arrives (wanted_frames service_mask (butlast (frame # frames))) got))"
proof -
  let ?carry = "\<lambda>packet frame. carries packet (wanted_lines service_mask (fst frame)) (snd frame)"
  let ?lines = "wanted_lines service_mask (fst frame)"
  obtain mx' packets where p: "mux_feed_all mx [] service_mask (frame # frames) = Ret (True, mx', packets)"
    "list_all2 ?carry packets (frame # frames)"
    using mux_feed_all_carries [OF assms(1-3,5), of "[]"] by auto
  obtain packet ps where ps: "packets = packet # ps" "carries packet ?lines (snd frame)" "list_all2 ?carry ps frames"
    using p(2) by (auto simp: list_all2_Cons2)
  have carried: "list_all2 (\<lambda>packet frame. carries packet (fst frame) (snd frame)) ps (wanted_frames service_mask frames)"
    using ps(3) by (simp add: wanted_frames_def list_all2_map2)
  have ok: "list_all sliced_ok ?lines" "\<forall>frame \<in> set (wanted_frames service_mask frames). list_all sliced_ok (fst frame)"
    using assms(5) wanted_ok by (auto simp: wanted_frames_def)
  have len: "length ?lines \<le> length slots" using frames_follow_length [OF assms(6)] by simp
  obtain dx1 where dx1: "pes_stream (Some keep_frames) (absorb (vbi_dvb_demux_reset slots) (concat packets)) [] = pes_stream (Some keep_frames) (with_wrap dx1 (concat ps) 0 48) []"
    "holds_frame (length slots) dx1 ?lines (snd frame)"
    using first_packet_stream [OF ps(2) len assms(4), where callback = "Some keep_frames" and tail = "concat ps" and u = "[]"] by (auto simp: ps(1))
  obtain dx' got where r: "pes_stream (Some keep_frames) (with_wrap dx1 (concat ps) 0 48) [] = Ret (None, dx', got)"
    "list_all2 arrives (butlast ((?lines, snd frame) # wanted_frames service_mask frames)) got"
    using packets_stream [OF dx1(2) ok(1) assms(6) carried ok(2), of "[]"] by auto
  have "butlast ((?lines, snd frame) # wanted_frames service_mask frames) = wanted_frames service_mask (butlast (frame # frames))"
    by (simp add: wanted_frames_def map_butlast)
  then have got: "list_all2 arrives (wanted_frames service_mask (butlast (frame # frames))) got" using r(2) by simp
  have "feed_all (Some keep_frames) (vbi_dvb_demux_reset slots) [] buffers = Ret (True, dx', got)"
    if "buffers \<noteq> []" "concat buffers = concat packets" for buffers
    using that dx1(1) r(1) by (simp add: feed_all_eq [OF demux_reset_inv(2)] feed_stream [OF demux_reset_inv(2)])
  then show ?thesis using p(1) got by blast
qed

theorem dvb_mux_demux_witness:
  "\<exists>mx' packets dx' lines. mux_feed_all (vbi_dvb_pes_mux_new (replicate (4 + MAX_PES_PACKET_SIZE) 0)) [] 7
      [([sample_line VBI_SLICED_TELETEXT_B_L10_625 7, sample_line VBI_SLICED_VPS 16], 1), ([sample_line VBI_SLICED_VPS 16], 3601)] = Ret (True, mx', packets)
    \<and> feed_all (Some keep_frames) (vbi_dvb_demux_reset (replicate 64 (sample_line 0 0))) [] [concat packets] = Ret (True, dx', [(lines, 1)])
    \<and> map sl_line lines = [7, 16]"
proof -
  let ?mx = "vbi_dvb_pes_mux_new (replicate (4 + MAX_PES_PACKET_SIZE) 0)"
  let ?l7 = "sample_line VBI_SLICED_TELETEXT_B_L10_625 7" and ?l16 = "sample_line VBI_SLICED_VPS 16"
  have mx: "mux_ok ?mx" "mx_pid ?mx = 0" "raw_samples_left ?mx = 0" by (rule new_ok, simp)+
  have size: "max_packet_size ?mx = 65504" by (simp add: vbi_dvb_pes_mux_new_def init_pes_packet_header_def MAX_eq)
  have e: "encodable ?l7" "encodable ?l16"
    by (simp_all add: encodable_def sample_line_def sliced_unit_size_def service_defs)
  have w: "wanted_lines 7 [?l7, ?l16] = [?l7, ?l16]" "wanted_lines 7 [?l16] = [?l16]"
    by (simp_all add: wanted_lines_def sample_line_def service_defs)
  have n: "sl_line ?l7 = 7" "sl_line ?l16 = 16" "sliced_ok ?l7" "sliced_ok ?l16" "sl_id ?l7 \<noteq> VBI_SLICED_VBI_625" "sl_id ?l16 \<noteq> VBI_SLICED_VBI_625"
    by (simp_all add: sample_line_def sliced_ok_def service_defs VBI_SLICED_VBI_625_def)
  have fits: "frame_fits ?mx 7 [?l7, ?l16]" "frame_fits ?mx 7 [?l16]"
    using e n by (simp_all add: frame_fits_def w size)
  have follow: "frames_follow 64 [?l7, ?l16] [([?l16], 3601)]"
    using n by (simp add: starts_frame_def)
  have slots: "list_all sliced_ok (replicate 64 (sample_line 0 0))" by (simp add: list_all_iff sliced_ok_def sample_line_def)
  have "\<exists>mx' packets. mux_feed_all ?mx [] 7 [([?l7, ?l16], 1), ([?l16], 3601)] = Ret (True, mx', packets)
    \<and> (\<forall>buffers. buffers \<noteq> [] \<and> concat buffers = concat packets \<longrightarrow>
        (\<exists>dx' got. feed_all (Some keep_frames) (vbi_dvb_demux_reset (replicate 64 (sample_line 0 0))) [] buffers = Ret (True, dx', got)
          \<and> list_all2 arrives (wanted_frames 7 (butlast [([?l7, ?l16], 1), ([?l16], 3601)])) got))"
    using fits follow by (intro dvb_mux_demux [OF mx slots]) (simp_all add: w wanted_frames_def)
  then obtain mx' packets where p: "mux_feed_all ?mx [] 7 [([?l7, ?l16], 1), ([?l16], 3601)] = Ret (True, mx', packets)"
    "\<forall>buffers. buffers \<noteq> [] \<and> concat buffers = concat packets \<longrightarrow>
        (\<exists>dx' got. feed_all (Some keep_frames) (vbi_dvb_demux_reset (replicate 64 (sample_line 0 0))) [] buffers = Ret (True, dx', got)
          \<and> list_all2 arrives (wanted_frames 7 (butlast [([?l7, ?l16], 1), ([?l16], 3601)])) got)" by blast
  from p(2) [rule_format, of "[concat packets]"] obtain dx' got where r:
    "feed_all (Some keep_frames) (vbi_dvb_demux_reset (replicate 64 (sample_line 0 0))) [] [concat packets] = Ret (True, dx', got)"
    "list_all2 arrives (wanted_frames 7 [([?l7, ?l16], 1)]) got" by auto
  obtain lines where "got = [(lines, 1)]" "list_all2 receives [?l7, ?l16] lines"
    using r(2) by (auto simp: wanted_frames_def w list_all2_Cons1 arrives_def)
  moreover from this(2) have "map sl_line lines = [7, 16]" using n by (auto simp: list_all2_Cons1 receives_def)
  ultimately show ?thesis using p(1) r(1) by (intro exI [of _ mx'] exI [of _ packets] exI [of _ dx'] exI [of _ lines]) (simp del: mux_feed_all.simps feed_all.simps)
qed

end
