(* ===== verification/Page_Format.thy ===== *)
theory Page_Format
  imports Zvbi_Prelude
begin

text \<open>
  The attributed character of formatted pages (\<^verbatim>\<open>vbi/src/format.h\<close>). One bit fields are truth values, the 8 bit fields
  for colors bytes, since pages can have more colors than the enumeration names.
\<close>

definition VBI_BLACK :: u8 where "VBI_BLACK = 0"
definition VBI_RED :: u8 where "VBI_RED = 1"
definition VBI_GREEN :: u8 where "VBI_GREEN = 2"
definition VBI_YELLOW :: u8 where "VBI_YELLOW = 3"
definition VBI_BLUE :: u8 where "VBI_BLUE = 4"
definition VBI_MAGENTA :: u8 where "VBI_MAGENTA = 5"
definition VBI_CYAN :: u8 where "VBI_CYAN = 6"
definition VBI_WHITE :: u8 where "VBI_WHITE = 7"

lemmas vbi_colors = VBI_BLACK_def VBI_RED_def VBI_GREEN_def VBI_YELLOW_def VBI_BLUE_def VBI_MAGENTA_def VBI_CYAN_def VBI_WHITE_def

datatype vbi_opacity = VBI_TRANSPARENT_SPACE | VBI_TRANSPARENT_FULL | VBI_SEMI_TRANSPARENT | VBI_OPAQUE

record vbi_char =
  vc_underline :: bool
  vc_bold :: bool
  vc_italic :: bool
  vc_flash :: bool
  vc_conceal :: bool
  vc_proportional :: bool
  vc_link :: bool
  vc_reserved :: bool
  vc_size :: u8
  vc_opacity :: vbi_opacity
  vc_foreground :: u8
  vc_background :: u8
  vc_drcs_clut_offs :: u8
  vc_unicode :: u16

text \<open>A character of which all bytes are zero.\<close>

definition vbi_char_0 :: vbi_char where
  "vbi_char_0 = \<lparr> vc_underline = False, vc_bold = False, vc_italic = False, vc_flash = False, vc_conceal = False, vc_proportional = False,
     vc_link = False, vc_reserved = False, vc_size = 0, vc_opacity = VBI_TRANSPARENT_SPACE, vc_foreground = 0, vc_background = 0,
     vc_drcs_clut_offs = 0, vc_unicode = 0 \<rparr>"

end
