(* ===== verification/Lang.thy ===== *)
theory Lang
  imports Page_Format
begin

text \<open>
  Character sets, from \<^verbatim>\<open>vbi/src/lang.h\<close> and \<^verbatim>\<open>vbi/src/lang.c\<close>: the designation of Teletext character sets, the translation of Teletext
  and Closed Caption codes to Unicode, and the optimization of attributes of a page. The tables are copied entry by entry; the
  labels of the font descriptors are left out. The character set 0 of unused descriptors is \<open>None\<close>.
\<close>

section \<open>Character sets\<close>

datatype vbi_character_set =
    LATIN_G0 | LATIN_G2 | CYRILLIC_1_G0 | CYRILLIC_2_G0 | CYRILLIC_3_G0 | CYRILLIC_G2 | GREEK_G0 | GREEK_G2
  | ARABIC_G0 | ARABIC_G2 | HEBREW_G0 | BLOCK_MOSAIC_G1 | SMOOTH_MOSAIC_G3

datatype vbi_national_subset =
    NO_SUBSET | CZECH_SLOVAK | ENGLISH | ESTONIAN | FRENCH | GERMAN | ITALIAN | LETT_LITH | POLISH | PORTUG_SPANISH
  | RUMANIAN | SERB_CRO_SLO | SWE_FIN_HUN | TURKISH

primrec subset_number :: "vbi_national_subset \<Rightarrow> nat" where
  "subset_number NO_SUBSET = 0"
| "subset_number CZECH_SLOVAK = 1"
| "subset_number ENGLISH = 2"
| "subset_number ESTONIAN = 3"
| "subset_number FRENCH = 4"
| "subset_number GERMAN = 5"
| "subset_number ITALIAN = 6"
| "subset_number LETT_LITH = 7"
| "subset_number POLISH = 8"
| "subset_number PORTUG_SPANISH = 9"
| "subset_number RUMANIAN = 10"
| "subset_number SERB_CRO_SLO = 11"
| "subset_number SWE_FIN_HUN = 12"
| "subset_number TURKISH = 13"

definition vbi_font_descriptors :: "(vbi_character_set option \<times> vbi_character_set option \<times> vbi_national_subset) list" where
  "vbi_font_descriptors = [
     (Some LATIN_G0, Some LATIN_G2, ENGLISH), (Some LATIN_G0, Some LATIN_G2, GERMAN), (Some LATIN_G0, Some LATIN_G2, SWE_FIN_HUN), (Some LATIN_G0, Some LATIN_G2, ITALIAN),
     (Some LATIN_G0, Some LATIN_G2, FRENCH), (Some LATIN_G0, Some LATIN_G2, PORTUG_SPANISH), (Some LATIN_G0, Some LATIN_G2, CZECH_SLOVAK), (Some LATIN_G0, Some LATIN_G2, NO_SUBSET),
     (Some LATIN_G0, Some LATIN_G2, POLISH), (Some LATIN_G0, Some LATIN_G2, GERMAN), (Some LATIN_G0, Some LATIN_G2, SWE_FIN_HUN), (Some LATIN_G0, Some LATIN_G2, ITALIAN),
     (Some LATIN_G0, Some LATIN_G2, FRENCH), (Some LATIN_G0, Some LATIN_G2, NO_SUBSET), (Some LATIN_G0, Some LATIN_G2, CZECH_SLOVAK), (Some LATIN_G0, Some LATIN_G2, NO_SUBSET),
     (Some LATIN_G0, Some LATIN_G2, ENGLISH), (Some LATIN_G0, Some LATIN_G2, GERMAN), (Some LATIN_G0, Some LATIN_G2, SWE_FIN_HUN), (Some LATIN_G0, Some LATIN_G2, ITALIAN),
     (Some LATIN_G0, Some LATIN_G2, FRENCH), (Some LATIN_G0, Some LATIN_G2, PORTUG_SPANISH), (Some LATIN_G0, Some LATIN_G2, TURKISH), (Some LATIN_G0, Some LATIN_G2, NO_SUBSET),
     (Some LATIN_G0, Some LATIN_G2, NO_SUBSET), (Some LATIN_G0, Some LATIN_G2, NO_SUBSET), (Some LATIN_G0, Some LATIN_G2, NO_SUBSET), (Some LATIN_G0, Some LATIN_G2, NO_SUBSET),
     (Some LATIN_G0, Some LATIN_G2, NO_SUBSET), (Some LATIN_G0, Some LATIN_G2, SERB_CRO_SLO), (Some LATIN_G0, Some LATIN_G2, NO_SUBSET), (Some LATIN_G0, Some LATIN_G2, RUMANIAN),
     (Some CYRILLIC_1_G0, Some CYRILLIC_G2, NO_SUBSET), (Some LATIN_G0, Some LATIN_G2, GERMAN), (Some LATIN_G0, Some LATIN_G2, ESTONIAN), (Some LATIN_G0, Some LATIN_G2, LETT_LITH),
     (Some CYRILLIC_2_G0, Some CYRILLIC_G2, NO_SUBSET), (Some CYRILLIC_3_G0, Some CYRILLIC_G2, NO_SUBSET), (Some LATIN_G0, Some LATIN_G2, CZECH_SLOVAK), (None, None, NO_SUBSET),
     (None, None, NO_SUBSET), (None, None, NO_SUBSET), (None, None, NO_SUBSET), (None, None, NO_SUBSET),
     (None, None, NO_SUBSET), (None, None, NO_SUBSET), (None, None, NO_SUBSET), (None, None, NO_SUBSET),
     (None, None, NO_SUBSET), (None, None, NO_SUBSET), (None, None, NO_SUBSET), (None, None, NO_SUBSET),
     (None, None, NO_SUBSET), (None, None, NO_SUBSET), (Some LATIN_G0, Some LATIN_G2, TURKISH), (Some GREEK_G0, Some GREEK_G2, NO_SUBSET),
     (None, None, NO_SUBSET), (None, None, NO_SUBSET), (None, None, NO_SUBSET), (None, None, NO_SUBSET),
     (None, None, NO_SUBSET), (None, None, NO_SUBSET), (None, None, NO_SUBSET), (None, None, NO_SUBSET),
     (Some LATIN_G0, Some ARABIC_G2, ENGLISH), (None, None, NO_SUBSET), (None, None, NO_SUBSET), (None, None, NO_SUBSET),
     (Some LATIN_G0, Some ARABIC_G2, FRENCH), (None, None, NO_SUBSET), (None, None, NO_SUBSET), (Some ARABIC_G0, Some ARABIC_G2, NO_SUBSET),
     (None, None, NO_SUBSET), (None, None, NO_SUBSET), (None, None, NO_SUBSET), (None, None, NO_SUBSET),
     (None, None, NO_SUBSET), (None, None, NO_SUBSET), (None, None, NO_SUBSET), (None, None, NO_SUBSET),
     (None, None, NO_SUBSET), (None, None, NO_SUBSET), (None, None, NO_SUBSET), (None, None, NO_SUBSET),
     (None, None, NO_SUBSET), (Some HEBREW_G0, Some ARABIC_G2, NO_SUBSET), (None, None, NO_SUBSET), (Some ARABIC_G0, Some ARABIC_G2, NO_SUBSET)]"

definition VALID_CHARACTER_SET :: "nat \<Rightarrow> bool" where
  "VALID_CHARACTER_SET n \<longleftrightarrow> n < 88 \<and> fst (vbi_font_descriptors ! n) \<noteq> None"

section \<open>Tables\<close>

definition national_subset :: "u32 list list" where
  "national_subset = [
     [0x0023, 0x0024, 0x0040, 0x005B, 0x005C, 0x005D, 0x005E, 0x005F, 0x0060, 0x007B, 0x007C, 0x007D, 0x007E],
     [0x0023, 0x016F, 0x010D, 0x0165, 0x017E, 0x00FD, 0x00ED, 0x0159, 0x00E9, 0x00E1, 0x011B, 0x00FA, 0x0161],
     [0x00A3, 0x0024, 0x0040, 0x2190, 0x00BD, 0x2192, 0x2191, 0x0023, 0x2014, 0x00BC, 0x2016, 0x00BE, 0x00F7],
     [0x0023, 0x00F5, 0x0160, 0x00C4, 0x00D6, 0x017D, 0x00DC, 0x00D5, 0x0161, 0x00E4, 0x00F6, 0x017E, 0x00FC],
     [0x00E9, 0x00EF, 0x00E0, 0x00EB, 0x00EA, 0x00F9, 0x00EE, 0x0023, 0x00E8, 0x00E2, 0x00F4, 0x00FB, 0x00E7],
     [0x0023, 0x0024, 0x00A7, 0x00C4, 0x00D6, 0x00DC, 0x005E, 0x005F, 0x00B0, 0x00E4, 0x00F6, 0x00FC, 0x00DF],
     [0x00A3, 0x0024, 0x00E9, 0x00B0, 0x00E7, 0x2192, 0x2191, 0x0023, 0x00F9, 0x00E0, 0x00F2, 0x00E8, 0x00EC],
     [0x0023, 0x0024, 0x0160, 0x0117, 0x0229, 0x017D, 0x010D, 0x016B, 0x0161, 0x0105, 0x0173, 0x017E, 0x012F],
     [0x0023, 0x0144, 0x0105, 0x01B5, 0x015A, 0x0141, 0x0107, 0x00F3, 0x0119, 0x017C, 0x015B, 0x0142, 0x017A],
     [0x00E7, 0x0024, 0x00A1, 0x00E1, 0x00E9, 0x00ED, 0x00F3, 0x00FA, 0x00BF, 0x00FC, 0x00F1, 0x00E8, 0x00E0],
     [0x0023, 0x00A4, 0x0162, 0x00C2, 0x015E, 0x01CD, 0x00CD, 0x0131, 0x0163, 0x00E2, 0x015F, 0x01CE, 0x00EE],
     [0x0023, 0x00CB, 0x010C, 0x0106, 0x017D, 0x00D0, 0x0160, 0x00EB, 0x010D, 0x0107, 0x017E, 0x00F0, 0x0161],
     [0x0023, 0x00A4, 0x00C9, 0x00C4, 0x00D6, 0x00C5, 0x00DC, 0x005F, 0x00E9, 0x00E4, 0x00F6, 0x00E5, 0x00FC],
     [0xE800, 0x011F, 0x0130, 0x015E, 0x00D6, 0x00C7, 0x00DC, 0x011E, 0x0131, 0x015F, 0x00F6, 0x00E7, 0x00FC]]"

definition latin_g2 :: "u32 list" where
  "latin_g2 = [
     0x00A0, 0x00A1, 0x00A2, 0x00A3, 0x0024, 0x00A5, 0x0023, 0x00A7, 0x00A4, 0x2018, 0x201C, 0x00AB, 0x2190, 0x2191, 0x2192, 0x2193,
     0x00B0, 0x00B1, 0x00B2, 0x00B3, 0x00D7, 0x00B5, 0x00B6, 0x00B7, 0x00F7, 0x2019, 0x201D, 0x00BB, 0x00BC, 0x00BD, 0x00BE, 0x00BF,
     0x0020, 0x02CB, 0x02CA, 0x02C6, 0x02DC, 0x02C9, 0x02D8, 0x02D9, 0x00A8, 0x002E, 0x02DA, 0x02CF, 0x02CD, 0x02DD, 0x02DB, 0x02C7,
     0x2014, 0x00B9, 0x00AE, 0x00A9, 0x2122, 0x266A, 0x20A0, 0x2030, 0x0251, 0x0020, 0x0020, 0x0020, 0x215B, 0x215C, 0x215D, 0x215E,
     0x2126, 0x00C6, 0x00D0, 0x00AA, 0x0126, 0x0020, 0x0132, 0x013F, 0x0141, 0x00D8, 0x0152, 0x00BA, 0x00DE, 0x0166, 0x014A, 0x0149,
     0x0138, 0x00E6, 0x0111, 0x00F0, 0x0127, 0x0131, 0x0133, 0x0140, 0x0142, 0x00F8, 0x0153, 0x00DF, 0x00FE, 0x0167, 0x014B, 0x25A0]"

definition cyrillic_1_g0 :: "u32 list" where
  "cyrillic_1_g0 = [
     0x0427, 0x0410, 0x0411, 0x0426, 0x0414, 0x0415, 0x0424, 0x0413, 0x0425, 0x0418, 0x0408, 0x041A, 0x041B, 0x041C, 0x041D, 0x041E,
     0x041F, 0x040C, 0x0420, 0x0421, 0x0422, 0x0423, 0x0412, 0x0403, 0x0409, 0x040A, 0x0417, 0x040B, 0x0416, 0x0402, 0x0428, 0x040F,
     0x0447, 0x0430, 0x0431, 0x0446, 0x0434, 0x0435, 0x0444, 0x0433, 0x0445, 0x0438, 0x0458, 0x043A, 0x043B, 0x043C, 0x043D, 0x043E,
     0x043F, 0x045C, 0x0440, 0x0441, 0x0442, 0x0443, 0x0432, 0x0453, 0x0459, 0x045A, 0x0437, 0x045B, 0x0436, 0x0452, 0x0448, 0x25A0]"

definition cyrillic_2_g0 :: "u32 list" where
  "cyrillic_2_g0 = [
     0x042E, 0x0410, 0x0411, 0x0426, 0x0414, 0x0415, 0x0424, 0x0413, 0x0425, 0x0418, 0x040D, 0x041A, 0x041B, 0x041C, 0x041D, 0x041E,
     0x041F, 0x042F, 0x0420, 0x0421, 0x0422, 0x0423, 0x0416, 0x0412, 0x042C, 0x042A, 0x0417, 0x0428, 0x042D, 0x0429, 0x0427, 0x042B,
     0x044E, 0x0430, 0x0431, 0x0446, 0x0434, 0x0435, 0x0444, 0x0433, 0x0445, 0x0438, 0x045D, 0x043A, 0x043B, 0x043C, 0x043D, 0x043E,
     0x043F, 0x044F, 0x0440, 0x0441, 0x0442, 0x0443, 0x0436, 0x0432, 0x044C, 0x044A, 0x0437, 0x0448, 0x044D, 0x0449, 0x0447, 0x25A0]"

definition cyrillic_3_g0 :: "u32 list" where
  "cyrillic_3_g0 = [
     0x042E, 0x0410, 0x0411, 0x0426, 0x0414, 0x0415, 0x0424, 0x0413, 0x0425, 0x0418, 0x040D, 0x041A, 0x041B, 0x041C, 0x041D, 0x041E,
     0x041F, 0x042F, 0x0420, 0x0421, 0x0422, 0x0423, 0x0416, 0x0412, 0x042C, 0x0406, 0x0417, 0x0428, 0x0404, 0x0429, 0x0427, 0x0407,
     0x044E, 0x0430, 0x0431, 0x0446, 0x0434, 0x0435, 0x0444, 0x0433, 0x0445, 0x0438, 0x045D, 0x043A, 0x043B, 0x043C, 0x043D, 0x043E,
     0x043F, 0x044F, 0x0440, 0x0441, 0x0442, 0x0443, 0x0436, 0x0432, 0x044C, 0x0456, 0x0437, 0x0448, 0x0454, 0x0449, 0x0447, 0x25A0]"

definition cyrillic_g2 :: "u32 list" where
  "cyrillic_g2 = [
     0x00A0, 0x00A1, 0x00A2, 0x00A3, 0x0020, 0x00A5, 0x0023, 0x00A7, 0x0020, 0x2018, 0x201C, 0x00AB, 0x2190, 0x2191, 0x2192, 0x2193,
     0x00B0, 0x00B1, 0x00B2, 0x00B3, 0x00D7, 0x00B5, 0x00B6, 0x00B7, 0x00F7, 0x2019, 0x201D, 0x00BB, 0x00BC, 0x00BD, 0x00BE, 0x00BF,
     0x0020, 0x02CB, 0x02CA, 0x02C6, 0x02DC, 0x02C9, 0x02D8, 0x02D9, 0x00A8, 0x002E, 0x02DA, 0x02CF, 0x02CD, 0x02DD, 0x02DB, 0x02C7,
     0x2014, 0x00B9, 0x00AE, 0x00A9, 0x2122, 0x266A, 0x20A0, 0x2030, 0x0251, 0x0141, 0x0142, 0x00DF, 0x215B, 0x215C, 0x215D, 0x215E,
     0x0044, 0x0045, 0x0046, 0x0047, 0x0049, 0x004A, 0x004B, 0x004C, 0x004E, 0x0051, 0x0052, 0x0053, 0x0055, 0x0056, 0x0057, 0x005A,
     0x0064, 0x0065, 0x0066, 0x0067, 0x0069, 0x006A, 0x006B, 0x006C, 0x006E, 0x0071, 0x0072, 0x0073, 0x0075, 0x0076, 0x0077, 0x007A]"

definition greek_g0 :: "u32 list" where
  "greek_g0 = [
     0x0390, 0x0391, 0x0392, 0x0393, 0x0394, 0x0395, 0x0396, 0x0397, 0x0398, 0x0399, 0x039A, 0x039B, 0x039C, 0x039D, 0x039E, 0x039F,
     0x03A0, 0x03A1, 0x0374, 0x03A3, 0x03A4, 0x03A5, 0x03A6, 0x03A7, 0x03A8, 0x03A9, 0x03AA, 0x03AB, 0x03AC, 0x03AD, 0x03AE, 0x03AF,
     0x03B0, 0x03B1, 0x03B2, 0x03B3, 0x03B4, 0x03B5, 0x03B6, 0x03B7, 0x03B8, 0x03B9, 0x03BA, 0x03BB, 0x03BC, 0x03BD, 0x03BE, 0x03BF,
     0x03C0, 0x03C1, 0x03C2, 0x03C3, 0x03C4, 0x03C5, 0x03C6, 0x03C7, 0x03C8, 0x03C9, 0x03CA, 0x03CB, 0x03CC, 0x03CD, 0x03CE, 0x25A0]"

definition greek_g2 :: "u32 list" where
  "greek_g2 = [
     0x00A0, 0x0061, 0x0062, 0x00A3, 0x0065, 0x0068, 0x0069, 0x00A7, 0x003A, 0x2018, 0x201C, 0x006B, 0x2190, 0x2191, 0x2192, 0x2193,
     0x00B0, 0x00B1, 0x00B2, 0x00B3, 0x0078, 0x006D, 0x006E, 0x0070, 0x00F7, 0x2019, 0x201D, 0x0074, 0x00BC, 0x00BD, 0x00BE, 0x0078,
     0x0020, 0x02CB, 0x02CA, 0x02C6, 0x02DC, 0x02C9, 0x02D8, 0x02D9, 0x00A8, 0x002E, 0x02DA, 0x02CF, 0x02CD, 0x02DD, 0x02DB, 0x02C7,
     0x003F, 0x00B9, 0x00AE, 0x00A9, 0x2122, 0x266A, 0x20A0, 0x2030, 0x0251, 0x038A, 0x038E, 0x038F, 0x215B, 0x215C, 0x215D, 0x215E,
     0x0043, 0x0044, 0x0046, 0x0047, 0x004A, 0x004C, 0x0051, 0x0052, 0x0053, 0x0055, 0x0056, 0x0057, 0x0059, 0x005A, 0x0386, 0x0389,
     0x0063, 0x0064, 0x0066, 0x0067, 0x006A, 0x006C, 0x0071, 0x0072, 0x0073, 0x0075, 0x0076, 0x0077, 0x0079, 0x007A, 0x0388, 0x25A0]"

definition arabic_g0 :: "u32 list" where
  "arabic_g0 = [
     0x0020, 0x0021, 0x0022, 0x00A3, 0x0024, 0x0025, 0xE606, 0xE607, 0x0029, 0x0028, 0x002A, 0x002B, 0x060C, 0x002D, 0x002E, 0x002F,
     0x0030, 0x0031, 0x0032, 0x0033, 0x0034, 0x0035, 0x0036, 0x0037, 0x0038, 0x0039, 0x003A, 0x061B, 0x003E, 0x003D, 0x003C, 0x061F,
     0xE620, 0xE621, 0xE622, 0xE623, 0xE624, 0xE625, 0xE626, 0xE627, 0xE628, 0xE629, 0xE62A, 0xE62B, 0xE62C, 0xE62D, 0xE62E, 0xE62F,
     0xE630, 0xE631, 0xE632, 0xE633, 0xE634, 0xE635, 0xE636, 0xE637, 0xE638, 0xE639, 0xE63A, 0xE63B, 0xE63C, 0xE63D, 0xE63E, 0x0023,
     0xE640, 0xE641, 0xE642, 0xE643, 0xE644, 0xE645, 0xE646, 0xE647, 0xE648, 0xE649, 0xE64A, 0xE64B, 0xE64C, 0xE64D, 0xE64E, 0xE64F,
     0xE650, 0xE651, 0xE652, 0xE653, 0xE654, 0xE655, 0xE656, 0xE657, 0xE658, 0xE659, 0xE65A, 0xE65B, 0xE65C, 0xE65D, 0xE65E, 0x25A0]"

definition arabic_g2 :: "u32 list" where
  "arabic_g2 = [
     0xE660, 0xE661, 0xE662, 0xE663, 0xE664, 0xE665, 0xE666, 0xE667, 0xE668, 0xE669, 0xE66A, 0xE66B, 0xE66C, 0xE66D, 0xE66E, 0xE66F,
     0xE670, 0xE671, 0xE672, 0xE673, 0xE674, 0xE675, 0xE676, 0xE677, 0xE678, 0xE679, 0xE67A, 0xE67B, 0xE67C, 0xE67D, 0xE67E, 0xE67F,
     0x00E0, 0x0041, 0x0042, 0x0043, 0x0044, 0x0045, 0x0046, 0x0047, 0x0048, 0x0049, 0x004A, 0x004B, 0x004C, 0x004D, 0x004E, 0x004F,
     0x0050, 0x0051, 0x0052, 0x0053, 0x0054, 0x0055, 0x0056, 0x0057, 0x0058, 0x0059, 0x005A, 0x00EB, 0x00EA, 0x00F9, 0x00EE, 0xE75F,
     0x00E9, 0x0061, 0x0062, 0x0063, 0x0064, 0x0065, 0x0066, 0x0067, 0x0068, 0x0069, 0x006A, 0x006B, 0x006C, 0x006D, 0x006E, 0x006F,
     0x0070, 0x0071, 0x0072, 0x0073, 0x0074, 0x0075, 0x0076, 0x0077, 0x0078, 0x0079, 0x007A, 0x00E2, 0x00F4, 0x00FB, 0x00E7, 0x0020]"

definition hebrew_g0 :: "u32 list" where
  "hebrew_g0 = [
     0x2190, 0x00BD, 0x2192, 0x2191, 0x0023, 0x05D0, 0x05D1, 0x05D2, 0x05D3, 0x05D4, 0x05D5, 0x05D6, 0x05D7, 0x05D8, 0x05D9, 0x05DA,
     0x05DB, 0x05DC, 0x05DD, 0x05DE, 0x05DF, 0x05E0, 0x05E1, 0x05E2, 0x05E3, 0x05E4, 0x05E5, 0x05E6, 0x05E7, 0x05E8, 0x05E9, 0x05EA,
     0x20AA, 0x2016, 0x00BE, 0x00F7, 0x25A0]"

definition composed :: "u32 list" where
  "composed = [
     0x1041, 0x2041, 0x3041, 0x4041, 0x8041, 0xA041, 0x0000, 0xB043, 0x1045, 0x2045, 0x3045, 0x8045, 0x1049, 0x2049, 0x3049, 0x8049,
     0x0000, 0x404E, 0x104F, 0x204F, 0x304F, 0x404F, 0x804F, 0x0000, 0x0000, 0x1055, 0x2055, 0x3055, 0x8055, 0x2059, 0x0000, 0x0000,
     0x1061, 0x2061, 0x3061, 0x4061, 0x8061, 0xA061, 0x0000, 0xB063, 0x1065, 0x2065, 0x3065, 0x8065, 0x1069, 0x2069, 0x3069, 0x8069,
     0x0000, 0x406E, 0x106F, 0x206F, 0x306F, 0x406F, 0x806F, 0x0000, 0x0000, 0x1075, 0x2075, 0x3075, 0x8075, 0x2079, 0x0000, 0x8079,
     0x5041, 0x5061, 0x6041, 0x6061, 0xE041, 0xE061, 0x2043, 0x2063, 0x3043, 0x3063, 0x7043, 0x7063, 0xF043, 0xF063, 0xF044, 0xF064,
     0x0000, 0x0000, 0x5045, 0x5065, 0x6045, 0x6065, 0x7045, 0x7065, 0xE045, 0xE065, 0xF045, 0xF065, 0x3047, 0x3067, 0x6047, 0x6067,
     0x7047, 0x7067, 0xB047, 0xB067, 0x3048, 0x3068, 0x0000, 0x0000, 0x4049, 0x4069, 0x5049, 0x5069, 0x6049, 0x6069, 0xE049, 0xE069,
     0x7049, 0x0000, 0x0000, 0x0000, 0x304A, 0x306A, 0xB04B, 0xB06B, 0x0000, 0x204C, 0x206C, 0xB04C, 0xB06C, 0xF04C, 0xF06C, 0x0000,
     0x0000, 0x0000, 0x0000, 0x204E, 0x206E, 0xB04E, 0xB06E, 0xF04E, 0xF06E, 0x0000, 0x0000, 0x0000, 0x504F, 0x506F, 0x604F, 0x606F,
     0xD04F, 0xD06F, 0x0000, 0x0000, 0x2052, 0x2072, 0xB052, 0xB072, 0xF052, 0xF072, 0x2053, 0x2073, 0x3053, 0x3073, 0xB053, 0xB073,
     0xF053, 0xF073, 0xB054, 0xB074, 0xF054, 0xF074, 0x0000, 0x0000, 0x4055, 0x4075, 0x5055, 0x5075, 0x6055, 0x6075, 0xA055, 0xA075,
     0xD055, 0xD075, 0xE055, 0xE075, 0x3057, 0x3077, 0x3059, 0x3079, 0x8059, 0x205A, 0x207A, 0x705A, 0x707A, 0xF05A, 0xF07A, 0x0000]"

definition caption_basic :: "(u32 \<times> u32) list" where
  "caption_basic = [
     (0x0020, 0x0020), (0x0021, 0x0021), (0x0022, 0x0022), (0x0023, 0x0023), (0x0024, 0x0024), (0x0025, 0x0025), (0x0026, 0x0026), (0x0027, 0x0027),
     (0x0028, 0x0028), (0x0029, 0x0029), (0x00E1, 0x00C1), (0x002B, 0x002B), (0x002C, 0x002C), (0x002D, 0x002D), (0x002E, 0x002E), (0x002F, 0x002F),
     (0x0030, 0x0030), (0x0031, 0x0031), (0x0032, 0x0032), (0x0033, 0x0033), (0x0034, 0x0034), (0x0035, 0x0035), (0x0036, 0x0036), (0x0037, 0x0037),
     (0x0038, 0x0038), (0x0039, 0x0039), (0x003A, 0x003A), (0x003B, 0x003B), (0x003C, 0x003C), (0x003D, 0x003D), (0x003E, 0x003E), (0x003F, 0x003F),
     (0x0040, 0x0040), (0x0041, 0x0041), (0x0042, 0x0042), (0x0043, 0x0043), (0x0044, 0x0044), (0x0045, 0x0045), (0x0046, 0x0046), (0x0047, 0x0047),
     (0x0048, 0x0048), (0x0049, 0x0049), (0x004A, 0x004A), (0x004B, 0x004B), (0x004C, 0x004C), (0x004D, 0x004D), (0x004E, 0x004E), (0x004F, 0x004F),
     (0x0050, 0x0050), (0x0051, 0x0051), (0x0052, 0x0052), (0x0053, 0x0053), (0x0054, 0x0054), (0x0055, 0x0055), (0x0056, 0x0056), (0x0057, 0x0057),
     (0x0058, 0x0058), (0x0059, 0x0059), (0x005A, 0x005A), (0x005B, 0x005B), (0x00E9, 0x00C9), (0x005D, 0x005D), (0x00ED, 0x00CD), (0x00F3, 0x00D3),
     (0x00FA, 0x00DA), (0x0061, 0x0041), (0x0062, 0x0042), (0x0063, 0x0043), (0x0064, 0x0044), (0x0065, 0x0045), (0x0066, 0x0046), (0x0067, 0x0047),
     (0x0068, 0x0048), (0x0069, 0x0049), (0x006A, 0x004A), (0x006B, 0x004B), (0x006C, 0x004C), (0x006D, 0x004D), (0x006E, 0x004E), (0x006F, 0x004F),
     (0x0070, 0x0050), (0x0071, 0x0051), (0x0072, 0x0052), (0x0073, 0x0053), (0x0074, 0x0054), (0x0075, 0x0055), (0x0076, 0x0056), (0x0077, 0x0057),
     (0x0078, 0x0058), (0x0079, 0x0059), (0x007A, 0x005A), (0x00E7, 0x00C7), (0x00F7, 0x00F7), (0x00D1, 0x00D1), (0x00F1, 0x00D1), (0x25A0, 0x25A0)]"

definition caption_special :: "(u32 \<times> u32) list" where
  "caption_special = [
     (0x00AE, 0x00AE), (0x00B0, 0x00B0), (0x00BD, 0x00BD), (0x00BF, 0x00BF), (0x2122, 0x2122), (0x00A2, 0x00A2), (0x00A3, 0x00A3), (0x266A, 0x266A),
     (0x00E0, 0x00C0), (0x0020, 0x0020), (0x00E8, 0x00C8), (0x00E2, 0x00C2), (0x00EA, 0x00CA), (0x00EE, 0x00CE), (0x00F4, 0x00D4), (0x00FB, 0x00DB)]"

definition caption_extended2 :: "(u32 \<times> u32) list" where
  "caption_extended2 = [
     (0x00C1, 0x00C1), (0x00C9, 0x00C9), (0x00D3, 0x00D3), (0x00DA, 0x00DA), (0x00DC, 0x00DC), (0x00FC, 0x00DC), (0x2018, 0x2018), (0x00A1, 0x00A1),
     (0x002A, 0x002A), (0x0027, 0x0027), (0x2500, 0x2500), (0x00A9, 0x00A9), (0x2120, 0x2120), (0x2022, 0x2022), (0x201C, 0x201C), (0x201D, 0x201D),
     (0x00C0, 0x00C0), (0x00C2, 0x00C2), (0x00C7, 0x00C7), (0x00C8, 0x00C8), (0x00CA, 0x00CA), (0x00CB, 0x00CB), (0x00EB, 0x00CB), (0x00CE, 0x00CE),
     (0x00CF, 0x00CF), (0x00EF, 0x00CF), (0x00D4, 0x00D4), (0x00D9, 0x00D9), (0x00F9, 0x00D9), (0x00DB, 0x00DB), (0x00AB, 0x00AB), (0x00BB, 0x00BB)]"

definition caption_extended3 :: "(u32 \<times> u32) list" where
  "caption_extended3 = [
     (0x00C3, 0x00C3), (0x00E3, 0x00C3), (0x00CD, 0x00CD), (0x00CC, 0x00CC), (0x00EC, 0x00CC), (0x00D2, 0x00D2), (0x00F2, 0x00D2), (0x00D5, 0x00D5),
     (0x00F5, 0x00D5), (0x007B, 0x007B), (0x007D, 0x007D), (0x005C, 0x005C), (0x005E, 0x005E), (0x005F, 0x005F), (0x007C, 0x007C), (0x007E, 0x007E),
     (0x00C4, 0x00C4), (0x00E4, 0x00C4), (0x00D6, 0x00D6), (0x00F6, 0x00D6), (0x00DF, 0x00DF), (0x00A5, 0x00A5), (0x00A4, 0x00A4), (0x2502, 0x2502),
     (0x00C5, 0x00C5), (0x00E5, 0x00C5), (0x00D8, 0x00D8), (0x00F8, 0x00D8), (0x250C, 0x250C), (0x2510, 0x2510), (0x2514, 0x2514), (0x2518, 0x2518)]"

section \<open>Translation\<close>

text \<open>A failed assertion is \<open>Undef\<close>. The loop over \<^verbatim>\<open>national_subset[0]\<close> finds the first match.\<close>

definition vbi_teletext_unicode :: "vbi_character_set \<Rightarrow> vbi_national_subset \<Rightarrow> u32 \<Rightarrow> u32 c_result" where
  "vbi_teletext_unicode s n c =
     (if \<not> (0x20 \<le> c \<and> c \<le> 0x7F) then Undef
      else case s of
        LATIN_G0 \<Rightarrow>
          if (0xF8000019 :: 64 word) AND push_bit (unat (c AND 31)) 1 \<noteq> 0
          then case (if n = NO_SUBSET then None else map_of (zip (national_subset ! 0) (national_subset ! subset_number n)) c) of
                 Some u \<Rightarrow> Ret u
               | None \<Rightarrow> Ret (if c = 0x24 then 0x00A4 else if c = 0x7C then 0x00A6 else if c = 0x7F then 0x25A0 else c)
          else Ret c
      | LATIN_G2 \<Rightarrow> c_read latin_g2 (unat (c - 0x20))
      | CYRILLIC_1_G0 \<Rightarrow> if c < 0x40 then Ret c else c_read cyrillic_1_g0 (unat (c - 0x40))
      | CYRILLIC_2_G0 \<Rightarrow> if c = 0x26 then Ret 0x044B else if c < 0x40 then Ret c else c_read cyrillic_2_g0 (unat (c - 0x40))
      | CYRILLIC_3_G0 \<Rightarrow> if c = 0x26 then Ret 0x00EF else if c < 0x40 then Ret c else c_read cyrillic_3_g0 (unat (c - 0x40))
      | CYRILLIC_G2 \<Rightarrow> c_read cyrillic_g2 (unat (c - 0x20))
      | GREEK_G0 \<Rightarrow>
          if c = 0x3C then Ret 0x00AB else if c = 0x3E then Ret 0x00BB else if c < 0x40 then Ret c
          else c_read greek_g0 (unat (c - 0x40))
      | GREEK_G2 \<Rightarrow> c_read greek_g2 (unat (c - 0x20))
      | ARABIC_G0 \<Rightarrow> c_read arabic_g0 (unat (c - 0x20))
      | ARABIC_G2 \<Rightarrow> c_read arabic_g2 (unat (c - 0x20))
      | HEBREW_G0 \<Rightarrow> if c < 0x5B then Ret c else c_read hebrew_g0 (unat (c - 0x5B))
      | BLOCK_MOSAIC_G1 \<Rightarrow> if c < 0x40 \<or> 0x60 \<le> c then Ret (0xEE00 + c) else Undef
      | SMOOTH_MOSAIC_G3 \<Rightarrow> Ret (0xEF00 + c))"

text \<open>The index of the first element that equals \<open>x\<close>.\<close>

primrec find_index :: "'a \<Rightarrow> 'a list \<Rightarrow> nat option" where
  "find_index x [] = None"
| "find_index x (y # ys) = (if y = x then Some 0 else map_option Suc (find_index x ys))"

definition vbi_teletext_composed_unicode :: "u32 \<Rightarrow> u32 \<Rightarrow> u32 c_result" where
  "vbi_teletext_composed_unicode a c =
     (if \<not> a \<le> 15 \<or> \<not> (0x20 \<le> c \<and> c \<le> 0x7F) then Undef
      else if a = 0 then if c = 0x2A then Ret 0x0040 else vbi_teletext_unicode LATIN_G0 NO_SUBSET c
      else case find_index (c + push_bit 12 a) composed of
             Some i \<Rightarrow> Ret (0x00C0 + of_nat i)
           | None \<Rightarrow> Ret 0)"

definition column_of :: "bool \<Rightarrow> 'a \<times> 'a \<Rightarrow> 'a" where
  "column_of to_upper p = (if to_upper then snd p else fst p)"

definition vbi_caption_unicode :: "u32 \<Rightarrow> bool \<Rightarrow> u32 c_result" where
  "vbi_caption_unicode c to_upper =
     (if c < 0x80
      then if 0x20 \<le> c then c_bind (c_read caption_basic (unat (c - 0x20))) (\<lambda>p. Ret (column_of to_upper p)) else Ret 0
      else
        let c = c AND NOT 0x0800
        in if c < 0x1240
           then if c < 0x1140 \<and> 0x1130 \<le> c
                then c_bind (c_read caption_special (unat (c - 0x1130))) (\<lambda>p. Ret (column_of to_upper p))
                else if 0x1220 \<le> c
                then c_bind (c_read caption_extended2 (unat (c - 0x1220))) (\<lambda>p. Ret (column_of to_upper p))
                else Ret 0
           else if c < 0x1340 \<and> 0x1320 \<le> c
           then c_bind (c_read caption_extended3 (unat (c - 0x1320))) (\<lambda>p. Ret (column_of to_upper p))
           else Ret 0)"

section \<open>Optimization of a page\<close>

definition is_blank :: "vbi_char \<Rightarrow> bool" where
  "is_blank c \<longleftrightarrow> \<not> (vc_flash c \<or> vc_conceal c \<or> vc_underline c)
     \<and> (vc_unicode c \<le> 0x0020 \<or> vc_unicode c = 0x00A0 \<or> vc_unicode c = 0xEE00 \<or> vc_unicode c = 0xEE20)"

definition is_full :: "vbi_char \<Rightarrow> bool" where
  "is_full c \<longleftrightarrow> \<not> (vc_flash c \<or> vc_conceal c) \<and> (vc_unicode c = 0xEE7F \<or> vc_unicode c = 0xFF3F)"

definition optimize_char :: "vbi_char \<Rightarrow> vbi_char \<Rightarrow> vbi_char" where
  "optimize_char l c =
     (if is_blank c then c \<lparr> vc_bold := vc_bold l, vc_italic := vc_italic l, vc_foreground := vc_foreground l \<rparr>
      else if is_full c then c \<lparr> vc_bold := vc_bold l, vc_italic := vc_italic l, vc_background := vc_background l \<rparr>
      else c)"

text \<open>The characters at the positions listed, one after the other, with the last one in \<open>l\<close>.\<close>

primrec optimize_pass :: "nat list \<Rightarrow> vbi_char \<Rightarrow> vbi_char list \<Rightarrow> (vbi_char \<times> vbi_char list) c_result" where
  "optimize_pass [] l chars = Ret (l, chars)"
| "optimize_pass (i # is) l chars =
     c_bind (c_read chars i) (\<lambda>c. optimize_pass is (optimize_char l c) (chars [i := optimize_char l c]))"

definition vbi_optimize_page :: "nat \<Rightarrow> vbi_char list \<Rightarrow> nat \<Rightarrow> nat \<Rightarrow> nat \<Rightarrow> nat \<Rightarrow> vbi_char list c_result" where
  "vbi_optimize_page columns chars column row width height =
     (let positions = concat (map (\<lambda>r. map (\<lambda>c. columns * r + c) [column ..< column + width]) [row ..< row + height])
      in c_bind (c_read chars (columns * row + column)) (\<lambda>l.
           c_bind (optimize_pass positions l chars) (\<lambda>(l, chars).
             c_bind (optimize_pass (rev positions) l chars) (\<lambda>(_, chars). Ret chars))))"

section \<open>Properties\<close>

lemma c_read_all: "list_all P xs \<Longrightarrow> i < length xs \<Longrightarrow> \<exists>u. c_read xs i = Ret u \<and> P u"
  by (simp add: list_all_length)

text \<open>An index from the codes of a set.\<close>

lemma code_index: "lo \<le> c \<Longrightarrow> c \<le> hi \<Longrightarrow> unat (c - lo) \<le> unat hi - unat lo" for c :: u32
  by (simp add: word_le_nat_alt unat_sub)

lemma not_less_le: "\<not> c < lo \<Longrightarrow> lo \<le> c" for c :: u32
  by simp

abbreviation printable :: "u32 \<Rightarrow> bool" where
  "printable u \<equiv> 0x20 \<le> u \<and> u < 0x10000"

lemma lang_tables:
  "list_all printable latin_g2" "length latin_g2 = 96" "list_all printable cyrillic_1_g0" "length cyrillic_1_g0 = 64"
  "list_all printable cyrillic_2_g0" "length cyrillic_2_g0 = 64" "list_all printable cyrillic_3_g0" "length cyrillic_3_g0 = 64"
  "list_all printable cyrillic_g2" "length cyrillic_g2 = 96" "list_all printable greek_g0" "length greek_g0 = 64"
  "list_all printable greek_g2" "length greek_g2 = 96" "list_all printable arabic_g0" "length arabic_g0 = 96"
  "list_all printable arabic_g2" "length arabic_g2 = 96" "list_all printable hebrew_g0" "length hebrew_g0 = 37"
  by (simp_all add: latin_g2_def cyrillic_1_g0_def cyrillic_2_g0_def cyrillic_3_g0_def cyrillic_g2_def greek_g0_def greek_g2_def
      arabic_g0_def arabic_g2_def hebrew_g0_def)

lemma subset_number_less: "subset_number n < 14"
  by (cases n) simp_all

lemma national_printable: "map_of (zip (national_subset ! 0) (national_subset ! subset_number n)) c = Some u \<Longrightarrow> printable u"
proof -
  assume "map_of (zip (national_subset ! 0) (national_subset ! subset_number n)) c = Some u"
  then have "u \<in> set (national_subset ! subset_number n)" by (auto dest: map_of_SomeD set_zip_rightD)
  moreover have "list_all (list_all printable) national_subset" "length national_subset = 14" by (simp_all add: national_subset_def)
  ultimately show ?thesis using subset_number_less [of n] by (auto simp: list_all_length in_set_conv_nth)
qed

text \<open>
  \<^verbatim>\<open>vbi_teletext_unicode\<close> is total on the codes of a Teletext character set: for each of the thirteen sets and fourteen
  national subsets and each code from 0x20 to 0x7F (but the codes block mosaics do not have) no assertion fails, no table
  is read outside, and the result is a code of the basic plane, at least that of a space.
\<close>

theorem teletext_unicode_total:
  assumes "0x20 \<le> c" "c \<le> 0x7F" "s = BLOCK_MOSAIC_G1 \<longrightarrow> c < 0x40 \<or> 0x60 \<le> c"
  shows "\<exists>u. vbi_teletext_unicode s n c = Ret u \<and> 0x20 \<le> u \<and> u < 0x10000"
proof -
  have i20: "unat (c - 0x20) < 96" using code_index [OF assms(1,2)] by simp
  have i40: "unat (c - 0x40) < 64" if "\<not> c < 0x40" using code_index [OF not_less_le [OF that] assms(2)] by simp
  have i5B: "unat (c - 0x5B) < 37" if "\<not> c < 0x5B" using code_index [OF not_less_le [OF that] assms(2)] by simp
  note i = i20 i40 i5B
  note tbl = lang_tables(1,3,5,7,9,11,13,15,17,19) [THEN c_read_all]
  have self: "printable c" using assms(1,2) by (simp add: word_le_nat_alt word_less_nat_alt)
  have mosaic: "printable (0xEE00 + c)" "printable (0xEF00 + c)"
    using assms(1,2) by (auto simp: word_le_nat_alt word_less_nat_alt unat_word_ariths)
  have latin: "\<exists>u. vbi_teletext_unicode LATIN_G0 n c = Ret u \<and> printable u"
    using assms(1,2) national_printable [of n c] self by (auto simp: vbi_teletext_unicode_def split: option.splits if_splits)
  show ?thesis
  proof (cases s)
    case LATIN_G0
    then show ?thesis using latin by simp
  next
    case BLOCK_MOSAIC_G1
    then show ?thesis using assms mosaic by (simp add: vbi_teletext_unicode_def)
  next
    case SMOOTH_MOSAIC_G3
    then show ?thesis using assms mosaic by (simp add: vbi_teletext_unicode_def)
  qed (use assms(1,2) i self tbl in \<open>auto simp: vbi_teletext_unicode_def lang_tables\<close>)
qed

theorem teletext_unicode_total_witness: "\<exists>u. vbi_teletext_unicode LATIN_G0 TURKISH 0x23 = Ret u \<and> 0x20 \<le> u \<and> u < 0x10000"
  by (rule teletext_unicode_total) simp_all

lemma find_index_nth: "find_index x xs = Some i \<Longrightarrow> i < length xs \<and> xs ! i = x"
  by (induction xs arbitrary: i) (auto split: if_splits)

lemma digits_4096: "x + 4096 * y = x' + 4096 * y' \<Longrightarrow> x < 4096 \<Longrightarrow> x' < 4096 \<Longrightarrow> x = x' \<and> y = y'" for x y :: nat
proof -
  assume eq: "x + 4096 * y = x' + 4096 * y'" and lt: "x < 4096" "x' < 4096"
  have "x = (x + 4096 * y) mod 4096" using lt by simp
  also have "\<dots> = x'" unfolding eq using lt by simp
  finally show ?thesis using eq by simp
qed

lemma composed_key:
  fixes a c a' c' :: u32
  assumes "a \<le> 15" "a' \<le> 15" "c \<le> 0x7F" "c' \<le> 0x7F" "c + push_bit 12 a = c' + push_bit 12 a'"
  shows "a = a' \<and> c = c'"
proof -
  have u: "unat (c + push_bit 12 a) = unat c + 4096 * unat a" if ac: "a \<le> 15" "c \<le> 0x7F" for a c :: u32
  proof -
    have b: "unat a \<le> 15" "unat c \<le> 127" using ac by (simp_all add: word_le_nat_alt)
    have "unat (push_bit 12 a) = take_bit 32 (push_bit 12 (unat a))" by (simp only: unsigned_push_bit_eq) simp
    also have "\<dots> = 4096 * unat a" using b by (simp add: take_bit_eq_mod push_bit_eq_mult)
    finally have "unat (push_bit 12 a) = 4096 * unat a" .
    then show ?thesis using b by (simp add: unat_word_ariths(1))
  qed
  have "unat c + 4096 * unat a = unat c' + 4096 * unat a'"
    by (simp only: u [OF assms(1,3), symmetric] u [OF assms(2,4), symmetric] assms(5))
  moreover have "unat c < 4096" "unat c' < 4096" using assms(3,4) by (auto simp: word_le_nat_alt)
  ultimately have "unat c = unat c' \<and> unat a = unat a'" by (rule digits_4096)
  then show ?thesis by (simp only: word_unat_eq_iff)
qed



subsection \<open>Closed Caption codes\<close>

text \<open>The codes of EIA 608-B: basic characters, and on either channel (0x0800) special and extended characters.\<close>

definition caption_code :: "u32 \<Rightarrow> bool" where
  "caption_code c \<longleftrightarrow> 0x20 \<le> c \<and> c < 0x80
     \<or> 0x80 \<le> c \<and> (let d = c AND NOT 0x0800 in 0x1130 \<le> d \<and> d \<le> 0x113F \<or> 0x1220 \<le> d \<and> d \<le> 0x123F \<or> 0x1320 \<le> d \<and> d \<le> 0x133F)"

lemma caption_tables:
  "list_all (\<lambda>p. fst p \<noteq> 0 \<and> snd p \<noteq> 0) caption_basic" "length caption_basic = 96"
  "list_all (\<lambda>p. fst p \<noteq> 0 \<and> snd p \<noteq> 0) caption_special" "length caption_special = 16"
  "list_all (\<lambda>p. fst p \<noteq> 0 \<and> snd p \<noteq> 0) caption_extended2" "length caption_extended2 = 32"
  "list_all (\<lambda>p. fst p \<noteq> 0 \<and> snd p \<noteq> 0) caption_extended3" "length caption_extended3 = 32"
  by (simp_all add: caption_basic_def caption_special_def caption_extended2_def caption_extended3_def)

lemma caption_lookup:
  assumes "list_all (\<lambda>p. fst p \<noteq> 0 \<and> snd p \<noteq> 0) tbl" "i < length tbl"
  shows "\<exists>u. c_bind (c_read tbl i) (\<lambda>p. Ret (column_of up p)) = Ret u \<and> u \<noteq> 0"
  using assms by (auto simp: column_of_def list_all_length)

lemma caption_unicode_value: "\<exists>u. vbi_caption_unicode c up = Ret u \<and> (u \<noteq> 0 \<longleftrightarrow> caption_code c)"
proof (cases "c < 0x80")
  case True
  show ?thesis
  proof (cases "0x20 \<le> c")
    case in_basic: True
    have "c \<le> 0x7F" using True by (simp add: word_le_nat_alt word_less_nat_alt)
    then have "unat (c - 0x20) < length caption_basic" using code_index [OF in_basic, of "0x7F"] by (simp add: caption_tables)
    from caption_lookup [OF caption_tables(1) this, of up] show ?thesis
      using True in_basic by (simp add: vbi_caption_unicode_def caption_code_def)
  next
    case False
    moreover have "\<not> 0x80 \<le> c" using True by (simp add: not_le)
    ultimately show ?thesis using True by (simp add: vbi_caption_unicode_def caption_code_def)
  qed
next
  case False
  define d where "d = c AND NOT 0x0800"
  have code: "caption_code c \<longleftrightarrow> 0x1130 \<le> d \<and> d \<le> 0x113F \<or> 0x1220 \<le> d \<and> d \<le> 0x123F \<or> 0x1320 \<le> d \<and> d \<le> 0x133F"
  proof -
    have "(c < 0x80) = False" "(0x80 \<le> c) = True" using False by simp_all
    then show ?thesis unfolding caption_code_def d_def Let_def by blast
  qed
  have sp: "unat (d - 0x1130) < length caption_special" if "0x1130 \<le> d" "d \<le> 0x113F"
    using code_index [OF that] by (simp add: caption_tables)
  have e2: "unat (d - 0x1220) < length caption_extended2" if "0x1220 \<le> d" "d \<le> 0x123F"
    using code_index [OF that] by (simp add: caption_tables)
  have e3: "unat (d - 0x1320) < length caption_extended3" if "0x1320 \<le> d" "d \<le> 0x133F"
    using code_index [OF that] by (simp add: caption_tables)
  have cu: "vbi_caption_unicode c up =
      (if d < 0x1240
       then if d < 0x1140 \<and> 0x1130 \<le> d then c_bind (c_read caption_special (unat (d - 0x1130))) (\<lambda>p. Ret (column_of up p))
            else if 0x1220 \<le> d then c_bind (c_read caption_extended2 (unat (d - 0x1220))) (\<lambda>p. Ret (column_of up p))
            else Ret 0
       else if d < 0x1340 \<and> 0x1320 \<le> d then c_bind (c_read caption_extended3 (unat (d - 0x1320))) (\<lambda>p. Ret (column_of up p))
       else Ret 0)"
    using False by (simp add: vbi_caption_unicode_def d_def Let_def)
  consider "0x1130 \<le> d \<and> d \<le> 0x113F" | "0x1220 \<le> d \<and> d \<le> 0x123F" | "0x1320 \<le> d \<and> d \<le> 0x133F" | "\<not> caption_code c"
    using code by blast
  then show ?thesis
  proof cases
    case 1
    then have "d < 0x1140 \<and> d < 0x1240" by (simp add: word_le_nat_alt word_less_nat_alt)
    then show ?thesis
      using caption_lookup [OF caption_tables(3) sp, of up] 1 code by (auto simp: cu)
  next
    case 2
    then have "d < 0x1240 \<and> \<not> d < 0x1140" by (simp add: word_le_nat_alt word_less_nat_alt)
    then show ?thesis
      using caption_lookup [OF caption_tables(5) e2, of up] 2 code by (auto simp: cu)
  next
    case 3
    then have "d < 0x1340 \<and> \<not> d < 0x1240" by (simp add: word_le_nat_alt word_less_nat_alt)
    then show ?thesis
      using caption_lookup [OF caption_tables(7) e3, of up] 3 code by (auto simp: cu)
  next
    case 4
    then have "\<not> (d < 0x1140 \<and> 0x1130 \<le> d)" "\<not> (d < 0x1240 \<and> 0x1220 \<le> d)" "\<not> (d < 0x1340 \<and> 0x1320 \<le> d)"
      using code by (auto simp: word_le_nat_alt word_less_nat_alt)
    then show ?thesis using 4 by (auto simp: cu)
  qed
qed

text \<open>
  \<^verbatim>\<open>vbi_caption_unicode\<close> accepts every integer: it never reads outside its tables, and returns a character
  (not 0) exactly for the codes of the standard.
\<close>

theorem caption_unicode_codes: "\<exists>u. vbi_caption_unicode c up = Ret u \<and> (u \<noteq> 0 \<longleftrightarrow> caption_code c)"
  by (rule caption_unicode_value)

subsection \<open>Optimization keeps the look of a page\<close>

text \<open>
  What a reader sees: of a cell that shows only background the style and foreground may change, of one that shows only
  foreground the style and background.
\<close>

definition same_look :: "vbi_char \<Rightarrow> vbi_char \<Rightarrow> bool" where
  "same_look c d \<longleftrightarrow>
     (if is_blank c then d = c \<lparr> vc_bold := vc_bold d, vc_italic := vc_italic d, vc_foreground := vc_foreground d \<rparr>
      else if is_full c then d = c \<lparr> vc_bold := vc_bold d, vc_italic := vc_italic d, vc_background := vc_background d \<rparr>
      else d = c)"

lemma blank_full_updates [simp]:
  "is_blank (c \<lparr> vc_bold := b, vc_italic := i, vc_foreground := f \<rparr>) = is_blank c"
  "is_full (c \<lparr> vc_bold := b, vc_italic := i, vc_foreground := f \<rparr>) = is_full c"
  "is_blank (c \<lparr> vc_bold := b, vc_italic := i, vc_background := f \<rparr>) = is_blank c"
  "is_full (c \<lparr> vc_bold := b, vc_italic := i, vc_background := f \<rparr>) = is_full c"
  by (simp_all add: is_blank_def is_full_def)

lemma same_look_refl [simp]: "same_look c c"
  by (simp add: same_look_def)

lemma same_look_blank: "same_look c d \<Longrightarrow> is_blank d = is_blank c \<and> is_full d = is_full c"
  unfolding same_look_def by (metis blank_full_updates)

lemma same_look_trans: "same_look c d \<Longrightarrow> same_look d e \<Longrightarrow> same_look c e"
  by (frule same_look_blank) (cases c, cases d, cases e, auto simp: same_look_def split: if_splits)

lemma same_look_optimize: "same_look c (optimize_char l c)"
  by (simp add: same_look_def optimize_char_def)

lemma optimize_pass_look:
  assumes "\<forall>i \<in> set is. i < length chars"
  shows "\<exists>l' chars'. optimize_pass is l chars = Ret (l', chars') \<and> length chars' = length chars
     \<and> (\<forall>i < length chars. same_look (chars ! i) (chars' ! i) \<and> (i \<notin> set is \<longrightarrow> chars' ! i = chars ! i))"
  using assms
proof (induction "is" arbitrary: l chars)
  case Nil
  show ?case by simp
next
  case (Cons j js)
  let ?c = "optimize_char l (chars ! j)"
  obtain l' chars' where r: "optimize_pass js ?c (chars [j := ?c]) = Ret (l', chars')"
    "length chars' = length chars"
    "\<forall>i < length chars. same_look (chars [j := ?c] ! i) (chars' ! i) \<and> (i \<notin> set js \<longrightarrow> chars' ! i = chars [j := ?c] ! i)"
    using Cons.IH [of "chars [j := ?c]" ?c] Cons.prems by auto
  have "same_look (chars ! i) (chars' ! i) \<and> (i \<notin> set (j # js) \<longrightarrow> chars' ! i = chars ! i)" if "i < length chars" for i
  proof (cases "i = j")
    case True
    then have "same_look ?c (chars' ! i)" using r(3) that by auto
    then show ?thesis using same_look_trans [OF same_look_optimize, of l "chars ! j"] True by auto
  next
    case False
    then show ?thesis using r(3) that by auto
  qed
  then show ?case using r(1,2) Cons.prems by auto
qed

lemma cell_inside: "r < rows \<Longrightarrow> c < columns \<Longrightarrow> columns * r + c < columns * rows" for r :: nat
proof -
  assume "r < rows" "c < columns"
  then have "columns * r + c < columns * Suc r" by simp
  also have "\<dots> \<le> columns * rows" using \<open>r < rows\<close> by (intro mult_le_mono2) simp
  finally show ?thesis .
qed

definition cell_of :: "nat \<Rightarrow> nat \<Rightarrow> nat \<Rightarrow> nat \<Rightarrow> nat \<Rightarrow> nat \<Rightarrow> bool" where
  "cell_of columns column row width height i \<longleftrightarrow>
     (\<exists>r < row + height. \<exists>c < column + width. row \<le> r \<and> column \<le> c \<and> i = columns * r + c)"



end
