(* ===== verification/Caption_State.thy ===== *)
theory Caption_State
  imports Complex_Main Page_Format
begin

text \<open>
  The state of the Closed Caption decoder (\<^verbatim>\<open>vbi/src/cc.h\<close>) and the operations on a caption channel (\<^verbatim>\<open>vbi/src/caption.c\<close>).
  A channel has two pages, the displayed one and the hidden one, and a pointer \<^verbatim>\<open>line\<close> to a row of one of them: \<open>ch_line_page\<close> and
  \<open>ch_line_off\<close>, the page it points into and the offset there. Of the pages the fields that change are kept. The mutex is
  left out; calls of the client and of other modules are recorded in the order in which they are made.
\<close>

section \<open>Data\<close>

definition ROWS :: int where "ROWS = 15"
definition COLUMNS :: int where "COLUMNS = 34"
definition TEXT_SIZE :: int where "TEXT_SIZE = 1056"

lemmas cc_sizes = ROWS_def COLUMNS_def TEXT_SIZE_def

datatype cc_mode = MODE_NONE | MODE_POP_ON | MODE_PAINT_ON | MODE_ROLL_UP | MODE_TEXT

record cc_page =
  pg_pgno :: nat
  pg_rows :: int
  pg_columns :: int
  pg_screen_color :: u8
  pg_screen_opacity :: vbi_opacity
  pg_text :: "vbi_char list"
  pg_dirty_y0 :: int
  pg_dirty_y1 :: int
  pg_dirty_roll :: int

record cc_channel =
  ch_mode :: cc_mode
  ch_col :: int
  ch_col1 :: int
  ch_row :: int
  ch_row1 :: int
  ch_roll :: int
  ch_nul_ct :: int
  ch_time :: real
  ch_attr :: vbi_char
  ch_line_page :: nat
  ch_line_off :: int
  ch_hidden :: nat
  ch_pg :: "cc_page list"

text \<open>
  Calls that leave the decoder: \<^verbatim>\<open>VBI_EVENT_CAPTION\<close> for a page, a complete XDS packet with class, type, the buffer and the length of its contents, an ITV string.
\<close>

datatype cc_call =
    Send_caption nat
  | Xds_decoder nat nat "u8 list" nat
  | Atvef_trigger "u8 list"

text \<open>The functions below work on a channel and the calls made so far.\<close>

type_synonym cc_work = "cc_channel \<times> cc_call list"

section \<open>Pages\<close>

definition modify_page :: "nat \<Rightarrow> (cc_page \<Rightarrow> cc_page) \<Rightarrow> cc_channel \<Rightarrow> cc_channel" where
  "modify_page p f ch = ch \<lparr> ch_pg := (ch_pg ch) [p := f (ch_pg ch ! p)] \<rparr>"

definition the_other :: "nat \<Rightarrow> nat" where
  "the_other p = (if p = 0 then 1 else 0)"

definition send_caption :: "nat \<Rightarrow> cc_work \<Rightarrow> cc_work" where
  "send_caption p w = (fst w, snd w @ [Send_caption (pg_pgno (ch_pg (fst w) ! p))])"

definition render :: "nat \<Rightarrow> int \<Rightarrow> cc_work \<Rightarrow> cc_work" where
  "render p row w =
     send_caption p (apfst (modify_page p (\<lambda>pg.
       if row < 0 \<or> pg_dirty_roll pg \<noteq> 0
       then pg \<lparr> pg_dirty_y0 := 0, pg_dirty_y1 := ROWS - 1, pg_dirty_roll := 0 \<rparr>
       else pg \<lparr> pg_dirty_y0 := min row (pg_dirty_y0 pg), pg_dirty_y1 := max row (pg_dirty_y1 pg) \<rparr>)) w)"

definition clear :: "nat \<Rightarrow> cc_work \<Rightarrow> cc_work" where
  "clear p w =
     send_caption p (apfst (modify_page p (\<lambda>pg.
       pg \<lparr> pg_dirty_y0 := 0, pg_dirty_y1 := ROWS - 1, pg_dirty_roll := - ROWS \<rparr>)) w)"

definition roll_up :: "nat \<Rightarrow> int \<Rightarrow> int \<Rightarrow> cc_work \<Rightarrow> cc_work" where
  "roll_up p first_row last_row w =
     send_caption p (apfst (modify_page p (\<lambda>pg.
       if pg_dirty_roll pg \<noteq> 0 \<or> pg_dirty_y0 pg \<le> pg_dirty_y1 pg
       then pg \<lparr> pg_dirty_roll := 0, pg_dirty_y0 := min first_row (pg_dirty_y0 pg), pg_dirty_y1 := max last_row (pg_dirty_y1 pg) \<rparr>
       else pg \<lparr> pg_dirty_roll := -1, pg_dirty_y0 := first_row, pg_dirty_y1 := last_row \<rparr>)) w)"

section \<open>The current line\<close>

text \<open>Reading and writing \<^verbatim>\<open>ch->line[i]\<close>, and blocks of a page's text.\<close>

definition line_get :: "int \<Rightarrow> cc_channel \<Rightarrow> vbi_char c_result" where
  "line_get i ch =
     (let k = ch_line_off ch + i
      in if 0 \<le> k \<and> k < TEXT_SIZE then Ret (pg_text (ch_pg ch ! ch_line_page ch) ! nat k) else Undef)"

definition line_set :: "int \<Rightarrow> vbi_char \<Rightarrow> cc_channel \<Rightarrow> cc_channel c_result" where
  "line_set i c ch =
     (let k = ch_line_off ch + i
      in if 0 \<le> k \<and> k < TEXT_SIZE
         then Ret (modify_page (ch_line_page ch) (pg_text_update (\<lambda>t. t [nat k := c])) ch) else Undef)"

text \<open>\<^verbatim>\<open>for (i = n; i > 0 && col < end; i--) line[col++] = c\<close>, with the final \<^verbatim>\<open>col\<close>.\<close>

fun line_fill :: "nat \<Rightarrow> int \<Rightarrow> int \<Rightarrow> vbi_char \<Rightarrow> cc_channel \<Rightarrow> (int \<times> cc_channel) c_result" where
  "line_fill 0 col last_col c ch = Ret (col, ch)"
| "line_fill (Suc n) col last_col c ch =
     (if col < last_col then c_bind (line_set col c ch) (line_fill n (col + 1) last_col c) else Ret (col, ch))"

text \<open>A copy of \<open>n\<close> characters from offset \<open>from\<close> of a page to offset \<open>to\<close> of a page.\<close>

definition text_move :: "nat \<Rightarrow> int \<Rightarrow> nat \<Rightarrow> int \<Rightarrow> int \<Rightarrow> cc_channel \<Rightarrow> cc_channel c_result" where
  "text_move dst to src from n ch =
     (if 0 \<le> to \<and> 0 \<le> from \<and> 0 \<le> n \<and> to + n \<le> TEXT_SIZE \<and> from + n \<le> TEXT_SIZE
      then let block = take (nat n) (drop (nat from) (pg_text (ch_pg ch ! src)))
           in Ret (modify_page dst (pg_text_update (c_memcpy (nat to) block)) ch)
      else Undef)"

text \<open>\<^verbatim>\<open>update\<close> subtracts \<^verbatim>\<open>pg[hidden].text\<close> from \<^verbatim>\<open>line\<close>, which is defined only when \<^verbatim>\<open>line\<close> points into this page.\<close>

definition update :: "cc_channel \<Rightarrow> cc_channel c_result" where
  "update ch =
     (if ch_line_page ch = ch_hidden ch
      then text_move (the_other (ch_hidden ch)) (ch_line_off ch) (ch_hidden ch) (ch_line_off ch) COLUMNS ch
      else Undef)"

text \<open>One of the two additions of a space next to a word: at \<open>pos\<close>, next to the character at \<open>near\<close>.\<close>

definition add_space :: "int \<Rightarrow> int \<Rightarrow> cc_channel \<Rightarrow> cc_channel c_result" where
  "add_space near pos ch =
     c_bind (line_get near ch) (\<lambda>c.
       if vc_unicode c AND 0x7F \<noteq> 0x20
       then c_bind (line_get pos ch) (\<lambda>b.
              if vc_opacity b = VBI_TRANSPARENT_SPACE then line_set pos (c \<lparr> vc_unicode := 0x20 \<rparr>) ch else Ret ch)
       else Ret ch)"

definition word_break :: "bool \<Rightarrow> cc_work \<Rightarrow> cc_work c_result" where
  "word_break upd w =
     (let ch = fst w
      in c_bind (if ch_col1 ch < ch_col ch
                 then c_bind (add_space (ch_col1 ch) (ch_col1 ch - 1) ch) (\<lambda>ch. add_space (ch_col ch - 1) (ch_col ch) ch)
                 else Ret ch) (\<lambda>ch.
           if \<not> upd \<or> ch_mode ch = MODE_POP_ON then Ret (ch, snd w)
           else c_bind (update ch) (\<lambda>ch. Ret (render 1 (ch_row ch) (ch, snd w)))))"

definition set_cursor :: "int \<Rightarrow> int \<Rightarrow> cc_channel \<Rightarrow> cc_channel" where
  "set_cursor col row ch =
     ch \<lparr> ch_col := col, ch_col1 := col, ch_row := row, ch_line_page := ch_hidden ch, ch_line_off := row * COLUMNS \<rparr>"

definition put_char :: "vbi_char \<Rightarrow> cc_work \<Rightarrow> cc_work c_result" where
  "put_char c w =
     (let ch = fst w
      in c_bind (if ch_col ch < COLUMNS - 1
                 then c_bind (line_set (ch_col ch) c ch) (\<lambda>ch. Ret (ch \<lparr> ch_col := ch_col ch + 1 \<rparr>))
                 else line_set (COLUMNS - 2) c ch) (\<lambda>ch.
           if vc_unicode c AND 0x7F = 0x20 then word_break True (ch, snd w) else Ret (ch, snd w)))"

definition put_char_space :: "cc_work \<Rightarrow> cc_work c_result" where
  "put_char_space w = put_char (ch_attr (fst w) \<lparr> vc_unicode := 0x0020 \<rparr>) w"

text \<open>\<open>space\<close> is the transparent space of the channel, \<^verbatim>\<open>cc->transp_space[ch >= &cc->channel[4]]\<close>.\<close>

definition erase_memory :: "vbi_char \<Rightarrow> nat \<Rightarrow> cc_channel \<Rightarrow> cc_channel" where
  "erase_memory space p =
     modify_page p (\<lambda>pg. pg \<lparr> pg_text := replicate (nat (COLUMNS * ROWS)) space @ drop (nat (COLUMNS * ROWS)) (pg_text pg),
       pg_dirty_y0 := 0, pg_dirty_y1 := ROWS - 1, pg_dirty_roll := ROWS \<rparr>)"

definition palette_mapping :: "u8 list" where
  "palette_mapping = [VBI_WHITE, VBI_GREEN, VBI_BLUE, VBI_CYAN, VBI_RED, VBI_YELLOW, VBI_MAGENTA, VBI_BLACK]"

definition row_mapping :: "int list" where
  "row_mapping = [10, -1, 0, 1, 2, 3, 11, 12, 13, 14, 4, 5, 6, 7, 8, 9]"

end
