(* ===== verification/Caption.thy ===== *)
theory Caption
  imports Caption_State Lang Hamm
begin

text \<open>
  The Closed Caption decoder of \<^verbatim>\<open>vbi/src/caption.c\<close>: the commands, the separation of XDS packets and ITV strings, and the entry points.
  The interpretation of XDS packets and the parser of ITV strings are separate; they are called with what is recorded here.
\<close>

section \<open>State\<close>

text \<open>\<open>sp_buffer\<close> has 32 bytes; the sub-packets are the array \<^verbatim>\<open>sub_packet[4][0x18]\<close>, row after row.\<close>

record xds_buffer =
  sp_count :: int
  sp_chksum :: int
  sp_buffer :: "u8 list"

record caption =
  cc_last0 :: u8
  cc_last1 :: u8
  cc_curr_chan :: nat
  cc_transp_space :: "vbi_char list"
  cc_channels :: "cc_channel list"
  cc_sub_packet :: "xds_buffer list"
  cc_curr_sp :: "nat option"
  cc_xds :: bool
  cc_itv_buf :: "u8 list"
  cc_itv_count :: int
  cc_event_trigger :: bool
  cc_calls :: "cc_call list"

definition space_of :: "caption \<Rightarrow> nat \<Rightarrow> vbi_char" where
  "space_of cc chan = cc_transp_space cc ! (if 4 \<le> chan then 1 else 0)"

definition with_channel :: "nat \<Rightarrow> (cc_work \<Rightarrow> cc_work c_result) \<Rightarrow> caption \<Rightarrow> caption c_result" where
  "with_channel chan f cc =
     c_bind (f (cc_channels cc ! chan, cc_calls cc)) (\<lambda>(ch, calls).
       Ret (cc \<lparr> cc_channels := (cc_channels cc) [chan := ch], cc_calls := calls \<rparr>))"

definition on_channel :: "nat \<Rightarrow> (cc_channel \<Rightarrow> cc_channel) \<Rightarrow> caption \<Rightarrow> caption" where
  "on_channel chan f cc = cc \<lparr> cc_channels := (cc_channels cc) [chan := f (cc_channels cc ! chan)] \<rparr>"

definition switch_channel :: "nat \<Rightarrow> nat \<Rightarrow> caption \<Rightarrow> caption c_result" where
  "switch_channel chan new_chan cc =
     c_bind (with_channel chan (word_break True) cc) (\<lambda>cc. Ret (cc \<lparr> cc_curr_chan := new_chan \<rparr>))"

section \<open>ITV strings\<close>

definition itv_flush :: "caption \<Rightarrow> caption c_result" where
  "itv_flush cc =
     (if 0 \<le> cc_itv_count cc \<and> cc_itv_count cc < 256
      then Ret (cc \<lparr> cc_itv_buf := (cc_itv_buf cc) [nat (cc_itv_count cc) := 0], cc_itv_count := 0,
                  cc_calls := cc_calls cc @ [Atvef_trigger (take (nat (cc_itv_count cc)) (cc_itv_buf cc))] \<rparr>)
      else Undef)"

definition itv_separator :: "int \<Rightarrow> caption \<Rightarrow> caption c_result" where
  "itv_separator c cc =
     (if \<not> cc_event_trigger cc then Ret cc
      else if 0x20 \<le> c
      then c_bind (if c = 0x3C then itv_flush cc
                   else Ret (if 254 < cc_itv_count cc then cc \<lparr> cc_itv_count := 0 \<rparr> else cc)) (\<lambda>cc.
             if 0 \<le> cc_itv_count cc \<and> cc_itv_count cc < 256
             then Ret (cc \<lparr> cc_itv_buf := (cc_itv_buf cc) [nat (cc_itv_count cc) := word_of_int c],
                         cc_itv_count := cc_itv_count cc + 1 \<rparr>)
             else Undef)
      else itv_flush cc)"

section \<open>XDS packets\<close>

definition modify_sp :: "nat \<Rightarrow> (xds_buffer \<Rightarrow> xds_buffer) \<Rightarrow> caption \<Rightarrow> caption" where
  "modify_sp k f cc = cc \<lparr> cc_sub_packet := (cc_sub_packet cc) [k := f (cc_sub_packet cc ! k)] \<rparr>"

definition sp_discard :: "xds_buffer \<Rightarrow> xds_buffer" where
  "sp_discard sp = sp \<lparr> sp_count := 0, sp_chksum := 0 \<rparr>"

text \<open>The element past the end of a row or of the array cannot be accessed.\<close>

definition packet_start :: "int \<Rightarrow> int \<Rightarrow> caption \<Rightarrow> caption c_result" where
  "packet_start c1 c2 cc =
     (let cls = (c1 - 1) div 2
      in if 4 < cls \<or> 0x18 < c2 then Ret (cc \<lparr> cc_curr_sp := None \<rparr>)
         else if 4 \<le> cls \<or> 0x18 \<le> c2 then Undef
         else let k = nat cls * 0x18 + nat c2; cc = cc \<lparr> cc_curr_sp := Some k \<rparr>
              in if odd c1 then Ret (modify_sp k (\<lambda>sp. sp \<lparr> sp_count := 2, sp_chksum := c1 + c2 \<rparr>) cc)
                 else if sp_count (cc_sub_packet cc ! k) = 0 then Ret (cc \<lparr> cc_curr_sp := None \<rparr>)
                 else Ret cc)"

definition packet_end :: "int \<Rightarrow> nat \<Rightarrow> caption \<Rightarrow> caption c_result" where
  "packet_end c k cc =
     (let sp = cc_sub_packet cc ! k;
          complete = (sp_chksum sp + c) AND 0x7F = 0 \<and> 2 < sp_count sp
      in if complete \<and> 32 < sp_count sp - 2 then Undef
         else Ret (modify_sp k sp_discard (cc \<lparr> cc_curr_sp := None,
           cc_calls := (if complete
             then cc_calls cc @ [Xds_decoder (k div 0x18) (k mod 0x18) (sp_buffer sp) (nat (sp_count sp - 2))]
             else cc_calls cc) \<rparr>)))"

definition packet_contents :: "int \<Rightarrow> int \<Rightarrow> nat \<Rightarrow> caption \<Rightarrow> caption c_result" where
  "packet_contents c1 c2 k cc =
     (let n = sp_count (cc_sub_packet cc ! k)
      in if 32 + 2 \<le> n then Ret (modify_sp k sp_discard (cc \<lparr> cc_curr_sp := None \<rparr>))
         else if 0 \<le> n - 2 \<and> n - 1 < 32
         then Ret (modify_sp k (\<lambda>sp. sp \<lparr>
                sp_buffer := (sp_buffer sp) [nat (n - 2) := word_of_int c1, nat (n - 1) := word_of_int c2],
                sp_chksum := sp_chksum sp + (c1 + c2),
                sp_count := n + 1 + (if c2 \<noteq> 0 then 1 else 0) \<rparr>) cc)
         else Undef)"

definition xds_separator :: "u8 \<Rightarrow> u8 \<Rightarrow> caption \<Rightarrow> caption c_result" where
  "xds_separator b0 b1 cc =
     (let c1 = vbi_unpar8 (ucast b0); c2 = vbi_unpar8 (ucast b1)
      in if c1 < 0 \<or> c2 < 0
         then Ret (case cc_curr_sp cc of None \<Rightarrow> cc | Some k \<Rightarrow> modify_sp k sp_discard cc)
         else if 1 \<le> c1 \<and> c1 \<le> 14 then packet_start c1 c2 cc
         else if c1 = 15 then (case cc_curr_sp cc of None \<Rightarrow> Ret cc | Some k \<Rightarrow> packet_end (c1 + c2) k cc)
         else if 0x20 \<le> c1 \<and> c1 \<le> 0x7F
         then (case cc_curr_sp cc of None \<Rightarrow> Ret cc | Some k \<Rightarrow> packet_contents c1 c2 k cc)
         else Undef)"

section \<open>Commands\<close>

text \<open>The color and style of preamble and midrow codes.\<close>

definition color_style :: "u8 \<Rightarrow> vbi_char \<Rightarrow> vbi_char" where
  "color_style c2 attr =
     (let k = drop_bit 1 c2 AND 7
      in if k < 7 then attr \<lparr> vc_italic := False, vc_foreground := palette_mapping ! unat k \<rparr>
         else attr \<lparr> vc_italic := True, vc_foreground := VBI_WHITE \<rparr>)"

text \<open>Preamble address codes: \<open>space\<close> is the transparent space of the channel.\<close>

definition preamble_row :: "vbi_char \<Rightarrow> int \<Rightarrow> cc_channel \<Rightarrow> cc_channel" where
  "preamble_row space row ch =
     (if ch_mode ch = MODE_ROLL_UP
      then let row1 = max 0 (row - ch_roll ch + 1);
               ch = (if row1 \<noteq> ch_row1 ch
                     then erase_memory space (the_other (ch_hidden ch)) (erase_memory space (ch_hidden ch) (ch \<lparr> ch_row1 := row1 \<rparr>))
                     else ch)
           in set_cursor 1 (ch_row1 ch + ch_roll ch - 1) ch
      else set_cursor 1 row ch)"

definition move_right :: "nat \<Rightarrow> vbi_char \<Rightarrow> cc_channel \<Rightarrow> cc_channel c_result" where
  "move_right n space ch =
     c_bind (line_fill n (ch_col ch) (COLUMNS - 1) space ch) (\<lambda>(col, ch).
       Ret (if ch_col ch < col then ch \<lparr> ch_col := col, ch_col1 := col \<rparr> else ch))"

definition preamble_code :: "vbi_char \<Rightarrow> u8 \<Rightarrow> u8 \<Rightarrow> cc_work \<Rightarrow> cc_work c_result" where
  "preamble_code space c1 c2 w =
     (let row = row_mapping ! unat (push_bit 1 c1 + (drop_bit 5 c2 AND 1))
      in if row < 0 \<or> ch_mode (fst w) = MODE_NONE then Ret w
         else c_bind (word_break True (apfst (ch_attr_update (\<lambda>a. a \<lparr> vc_underline := c2 AND 1 \<noteq> 0, vc_background := VBI_BLACK,
                        vc_opacity := VBI_OPAQUE, vc_flash := False \<rparr>)) w)) (\<lambda>(ch, calls).
                let ch = preamble_row space row ch
                in if c2 AND 0x10 \<noteq> 0
                   then c_bind (move_right (unat ((c2 AND 14) * 2)) space ch) (\<lambda>ch.
                          Ret (ch_attr_update (\<lambda>a. a \<lparr> vc_italic := False, vc_foreground := VBI_WHITE \<rparr>) ch, calls))
                   else Ret (ch_attr_update (color_style c2) ch, calls)))"

text \<open>Background attributes, special characters and midrow codes.\<close>

definition background_code :: "u8 \<Rightarrow> cc_work \<Rightarrow> cc_work c_result" where
  "background_code c2 w =
     put_char_space (apfst (ch_attr_update (\<lambda>a.
       a \<lparr> vc_opacity := (if c2 AND 1 \<noteq> 0 then VBI_SEMI_TRANSPARENT else VBI_OPAQUE),
           vc_background := palette_mapping ! unat (drop_bit 1 c2 AND 7) \<rparr>)) w)"

definition special_character :: "vbi_char \<Rightarrow> u8 \<Rightarrow> cc_work \<Rightarrow> cc_work c_result" where
  "special_character space c2 w =
     (let ch = fst w; c2 = c2 AND 15
      in if c2 = 9
         then if ch_col ch < COLUMNS - 1
              then c_bind (line_set (ch_col ch) space ch) (\<lambda>ch. Ret (ch \<lparr> ch_col := ch_col ch + 1, ch_col1 := ch_col ch + 1 \<rparr>, snd w))
              else c_bind (line_set (COLUMNS - 2) space ch) (\<lambda>ch. Ret (ch, snd w))
         else c_bind (vbi_caption_unicode (0x1130 OR ucast c2) False) (\<lambda>u.
                put_char (ch_attr ch \<lparr> vc_unicode := ucast u \<rparr>) w))"

definition midrow_code :: "u8 \<Rightarrow> cc_work \<Rightarrow> cc_work c_result" where
  "midrow_code c2 w =
     put_char_space (apfst (ch_attr_update (\<lambda>a. color_style c2 (a \<lparr> vc_flash := False, vc_underline := c2 AND 1 \<noteq> 0 \<rparr>))) w)"

text \<open>Miscellaneous control codes.\<close>

definition resume_loading :: "nat \<Rightarrow> caption \<Rightarrow> caption c_result" where
  "resume_loading chan cc =
     c_bind (switch_channel chan (chan mod 4) cc) (\<lambda>cc. Ret (on_channel (chan mod 4) (ch_mode_update (\<lambda>_. MODE_POP_ON)) cc))"

definition start_roll_up :: "vbi_char \<Rightarrow> int \<Rightarrow> cc_channel \<Rightarrow> cc_channel" where
  "start_roll_up space roll ch =
     (if ch_mode ch = MODE_ROLL_UP \<and> ch_roll ch = roll then ch
      else (set_cursor 1 14 ((erase_memory space (the_other (ch_hidden ch)) (erase_memory space (ch_hidden ch) ch))
              \<lparr> ch_mode := MODE_ROLL_UP, ch_roll := roll \<rparr>)) \<lparr> ch_row1 := 14 - roll + 1 \<rparr>)"

definition roll_up_captions :: "nat \<Rightarrow> int \<Rightarrow> caption \<Rightarrow> caption c_result" where
  "roll_up_captions chan roll cc =
     c_bind (switch_channel chan (chan mod 4) cc) (\<lambda>cc.
       Ret (on_channel (chan mod 4) (start_roll_up (space_of cc (chan mod 4)) roll) cc))"

definition resume_direct :: "nat \<Rightarrow> caption \<Rightarrow> caption c_result" where
  "resume_direct chan cc =
     c_bind (switch_channel chan (chan mod 4) cc) (\<lambda>cc. Ret (on_channel (chan mod 4) (ch_mode_update (\<lambda>_. MODE_PAINT_ON)) cc))"

definition text_channel :: "nat \<Rightarrow> nat" where
  "text_channel chan = chan mod 4 + 4"

definition text_restart :: "nat \<Rightarrow> caption \<Rightarrow> caption c_result" where
  "text_restart chan cc =
     c_bind (switch_channel chan (text_channel chan) cc) (\<lambda>cc. Ret (on_channel (text_channel chan) (set_cursor 1 0) cc))"

definition show_caption :: "vbi_char \<Rightarrow> cc_work \<Rightarrow> cc_work c_result" where
  "show_caption space w =
     c_bind (word_break True (apfst (ch_mode_update (\<lambda>_. MODE_POP_ON)) w)) (\<lambda>w.
       let h = the_other (ch_hidden (fst w)); w = render (the_other h) (-1) (apfst (ch_hidden_update (\<lambda>_. h)) w)
       in Ret (apfst (\<lambda>ch. set_cursor 1 (ROWS - 1) (erase_memory space h ch)) w))"

definition end_of_caption :: "nat \<Rightarrow> caption \<Rightarrow> caption c_result" where
  "end_of_caption chan cc =
     c_bind (switch_channel chan (chan mod 4) cc) (\<lambda>cc. with_channel (chan mod 4) (show_caption (space_of cc (chan mod 4))) cc)"

definition backspace :: "vbi_char \<Rightarrow> cc_channel \<Rightarrow> cc_channel c_result" where
  "backspace space ch =
     (if ch_mode ch \<noteq> MODE_NONE \<and> 1 < ch_col ch
      then c_bind (line_set (ch_col ch - 1) space ch) (\<lambda>ch.
             Ret (ch \<lparr> ch_col := ch_col ch - 1, ch_col1 := min (ch_col1 ch) (ch_col ch - 1) \<rparr>))
      else Ret ch)"

definition scroll :: "vbi_char \<Rightarrow> int \<Rightarrow> cc_work \<Rightarrow> cc_work c_result" where
  "scroll space last_row w =
     (let p = (if ch_mode (fst w) \<noteq> MODE_POP_ON then the_other (ch_hidden (fst w)) else ch_hidden (fst w))
      in c_bind (word_break True w) (\<lambda>(ch, calls).
         c_bind (update ch) (\<lambda>ch.
         c_bind (text_move p (ch_row1 ch * COLUMNS) p ((ch_row1 ch + 1) * COLUMNS) ((ch_roll ch - 1) * COLUMNS) ch) (\<lambda>ch.
         c_bind (line_fill (nat (COLUMNS + 1)) 0 (COLUMNS + 1) space ch) (\<lambda>(_, ch).
         c_bind (if ch_mode ch \<noteq> MODE_POP_ON
                 then c_bind (update ch) (\<lambda>ch. Ret (roll_up (the_other (ch_hidden ch)) (ch_row1 ch) last_row (ch, calls)))
                 else Ret (ch, calls)) (\<lambda>(ch, calls).
           Ret (ch \<lparr> ch_col := 1, ch_col1 := 1 \<rparr>, calls)))))))"

definition new_line :: "vbi_char \<Rightarrow> cc_work \<Rightarrow> cc_work c_result" where
  "new_line space w =
     (if ch_mode (fst w) = MODE_NONE then Ret w
      else let last_row = min (ROWS - 1) (ch_row1 (fst w) + ch_roll (fst w) - 1)
           in if ch_row (fst w) < last_row
              then c_bind (word_break True w) (\<lambda>(ch, calls). Ret (set_cursor 1 (ch_row ch + 1) ch, calls))
              else scroll space last_row w)"

definition carriage_return :: "nat \<Rightarrow> caption \<Rightarrow> caption c_result" where
  "carriage_return chan cc =
     c_bind (if chan = 5 then itv_separator 0 cc else Ret cc) (with_channel chan (new_line (space_of cc chan)))"

definition delete_to_end :: "vbi_char \<Rightarrow> cc_work \<Rightarrow> cc_work c_result" where
  "delete_to_end space w =
     (if ch_mode (fst w) = MODE_NONE then Ret w
      else c_bind (line_fill (nat (COLUMNS - ch_col (fst w))) (ch_col (fst w)) COLUMNS space (fst w)) (\<lambda>(_, ch).
           c_bind (word_break False (ch, snd w)) (\<lambda>(ch, calls).
             if ch_mode ch \<noteq> MODE_POP_ON
             then c_bind (update ch) (\<lambda>ch. Ret (render (the_other (ch_hidden ch)) (ch_row ch) (ch, calls)))
             else Ret (ch, calls))))"

definition erase_displayed :: "vbi_char \<Rightarrow> cc_work \<Rightarrow> cc_work" where
  "erase_displayed space w =
     (let ch = fst w;
          ch = (if ch_mode ch \<noteq> MODE_POP_ON then erase_memory space (ch_hidden ch) ch else ch)
      in clear (the_other (ch_hidden ch)) (erase_memory space (the_other (ch_hidden ch)) ch, snd w))"

definition erase_non_displayed :: "vbi_char \<Rightarrow> cc_channel \<Rightarrow> cc_channel" where
  "erase_non_displayed space ch = (if ch_mode ch = MODE_POP_ON then erase_memory space (ch_hidden ch) ch else ch)"

definition misc_control :: "nat \<Rightarrow> u8 \<Rightarrow> caption \<Rightarrow> caption c_result" where
  "misc_control chan c2 cc =
     (let k = unat (c2 AND 15); space = space_of cc chan
      in if k = 0 then resume_loading chan cc
         else if k \<in> {5, 6, 7} then roll_up_captions chan (int (k mod 8) - 3) cc
         else if k = 9 then resume_direct chan cc
         else if k = 10 then text_restart chan cc
         else if k = 11 then switch_channel chan (text_channel chan) cc
         else if k = 15 then end_of_caption chan cc
         else if k = 8 then Ret (on_channel chan (ch_attr_update (vc_flash_update (\<lambda>_. True))) cc)
         else if k = 1 then with_channel chan (\<lambda>w. c_bind (backspace space (fst w)) (\<lambda>ch. Ret (ch, snd w))) cc
         else if k = 13 then carriage_return chan cc
         else if k = 4 then with_channel chan (delete_to_end space) cc
         else if k = 12 then with_channel chan (\<lambda>w. Ret (erase_displayed space w)) cc
         else if k = 14 then Ret (on_channel chan (erase_non_displayed space) cc)
         else Ret cc)"

text \<open>Tabs and optional attributes.\<close>

definition attribute_magic :: "cc_channel \<Rightarrow> cc_channel c_result" where
  "attribute_magic ch =
     (if 1 < ch_col ch
      then c_bind (line_get (ch_col ch - 1) ch) (\<lambda>c.
             if vc_unicode c AND 0x7F = 0x20
             then line_set (ch_col ch - 1) (ch_attr ch \<lparr> vc_unicode := 0x0020 \<rparr>) ch else Ret ch)
      else Ret ch)"

definition tab_attribute :: "vbi_char \<Rightarrow> u8 \<Rightarrow> cc_channel \<Rightarrow> cc_channel c_result" where
  "tab_attribute space c2 ch =
     (if ch_mode ch = MODE_NONE then Ret ch
      else if 0x21 \<le> c2 \<and> c2 \<le> 0x23 then move_right (unat (c2 AND 3)) space ch
      else if c2 = 0x2D then attribute_magic (ch_attr_update (vc_opacity_update (\<lambda>_. VBI_TRANSPARENT_FULL)) ch)
      else if c2 = 0x2E \<or> c2 = 0x2F
      then attribute_magic (ch_attr_update (\<lambda>a. a \<lparr> vc_foreground := VBI_BLACK, vc_underline := c2 AND 1 \<noteq> 0 \<rparr>) ch)
      else Ret ch)"

definition caption_command :: "u8 \<Rightarrow> u8 \<Rightarrow> bool \<Rightarrow> caption \<Rightarrow> caption c_result" where
  "caption_command c1 c2 field2 cc =
     (let chan = 4 * (cc_curr_chan cc div 4 mod 2) + (if field2 then 2 else 0) + (if bit c1 3 then 1 else 0);
          c1 = c1 AND 7; space = space_of cc chan
      in if 0x40 \<le> c2 then with_channel chan (preamble_code space c1 c2) cc
         else if c1 = 0 then with_channel chan (background_code c2) cc
         else if c1 = 1
         then with_channel chan (if c2 AND 0x10 \<noteq> 0 then special_character space c2 else midrow_code c2) cc
         else if c1 = 4 \<or> c1 = 5 then misc_control chan c2 cc
         else if c1 = 7 then with_channel chan (\<lambda>w. c_bind (tab_attribute space c2 (fst w)) (\<lambda>ch. Ret (ch, snd w))) cc
         else Ret cc)"

section \<open>Decoding two bytes\<close>

text \<open>A byte of text, with the attributes \<open>c\<close> of the channel.\<close>

definition text_byte :: "nat \<Rightarrow> vbi_char \<Rightarrow> u8 \<Rightarrow> caption \<Rightarrow> caption c_result" where
  "text_byte chan c b cc =
     (let ci = vbi_unpar8 (ucast b) AND 0x7F
      in if ci \<le> 0x1F then Ret cc
         else c_bind (if chan = 5 then itv_separator ci cc else Ret cc) (\<lambda>cc.
              c_bind (vbi_caption_unicode (word_of_int ci) False) (\<lambda>u.
                with_channel chan (put_char (c \<lparr> vc_unicode := ucast u \<rparr>)) cc)))"

definition decode_text :: "bool \<Rightarrow> u8 \<Rightarrow> u8 \<Rightarrow> real \<Rightarrow> caption \<Rightarrow> caption c_result" where
  "decode_text field2 b0 b1 now cc =
     (let chan = 4 * (cc_curr_chan cc div 4 mod 2) + cc_curr_chan cc mod 2 + (if field2 then 2 else 0);
          ch = cc_channels cc ! chan
      in if b0 = 0x80 \<and> b1 = 0x80
         then if ch_mode ch = MODE_NONE then Ret cc
              else with_channel chan (\<lambda>w.
                c_bind (if ch_nul_ct (fst w) = 2 then word_break True w else Ret w) (\<lambda>w.
                  Ret (apfst (ch_nul_ct_update (\<lambda>n. n + 2)) w))) cc
         else let cc = on_channel chan (ch_nul_ct_update (\<lambda>_. 0)) (if field2 then cc else cc \<lparr> cc_last0 := 0 \<rparr>)
              in if ch_mode ch = MODE_NONE then Ret cc
                 else let cc = on_channel chan (ch_time_update (\<lambda>_. now)) cc; c = ch_attr (cc_channels cc ! chan)
                      in c_bind (text_byte chan c b0 cc) (text_byte chan c b1))"

definition decode_field :: "bool \<Rightarrow> u8 \<Rightarrow> u8 \<Rightarrow> real \<Rightarrow> caption \<Rightarrow> caption c_result" where
  "decode_field field2 b0 b1 now cc =
     (let (c1, b0, b1) = (if vbi_unpar8 (ucast b0) < 0 then (127, 127, 127) else (b0 AND 0x7F, b0, b1))
      in if 0x01 \<le> c1 \<and> c1 \<le> 0x0F then Ret (if field2 then cc else cc \<lparr> cc_last0 := 0 \<rparr>)
         else if 0x10 \<le> c1 \<and> c1 \<le> 0x1F
         then if 0 \<le> vbi_unpar8 (ucast b1)
              then if \<not> field2 \<and> b0 = cc_last0 cc \<and> b1 = cc_last1 cc then Ret (cc \<lparr> cc_last0 := 0 \<rparr>)
                   else c_bind (caption_command c1 (b1 AND 0x7F) field2 cc) (\<lambda>cc.
                          Ret (if field2 then cc else cc \<lparr> cc_last0 := b0, cc_last1 := b1 \<rparr>))
              else Ret (if field2 then cc else cc \<lparr> cc_last0 := 0 \<rparr>)
         else decode_text field2 b0 b1 now cc)"

definition vbi_decode_caption :: "int \<Rightarrow> u8 \<Rightarrow> u8 \<Rightarrow> real \<Rightarrow> caption \<Rightarrow> caption c_result" where
  "vbi_decode_caption line b0 b1 now cc =
     (let c1 = b0 AND 0x7F
      in if line = 21 \<or> line = 22 then decode_field False b0 b1 now cc
         else if line = 335 then decode_field True b0 b1 now cc
         else if line = 284
         then if 0 \<le> vbi_unpar8 (ucast b0)
              then if c1 = 0 then Ret cc
                   else if c1 \<le> 0x0F
                   then c_bind (xds_separator b0 b1 cc) (\<lambda>cc. Ret (cc \<lparr> cc_xds := c1 \<noteq> 15 \<rparr>))
                   else if c1 \<le> 0x1F then decode_field True b0 b1 now (cc \<lparr> cc_xds := False \<rparr>)
                   else if cc_xds cc then xds_separator b0 b1 cc
                   else decode_field True b0 b1 now cc
              else if cc_xds cc then xds_separator b0 b1 cc
              else decode_field True b0 b1 now cc
         else Ret cc)"

section \<open>Initialization and access\<close>

definition xds_buffer_0 :: xds_buffer where
  "xds_buffer_0 = \<lparr> sp_count = 0, sp_chksum = 0, sp_buffer = replicate 32 0 \<rparr>"

definition vbi_caption_desync :: "caption \<Rightarrow> caption" where
  "vbi_caption_desync cc =
     (case cc_curr_sp cc of None \<Rightarrow> cc | Some k \<Rightarrow> (modify_sp k (\<lambda>_. xds_buffer_0) cc) \<lparr> cc_curr_sp := None \<rparr>) \<lparr> cc_itv_count := 0 \<rparr>"

definition channel_switched :: "caption \<Rightarrow> nat \<Rightarrow> cc_channel \<Rightarrow> cc_channel" where
  "channel_switched cc i ch =
     (let ch = (if i < 4 then ch \<lparr> ch_mode := MODE_NONE, ch_row := ROWS - 1, ch_row1 := ROWS - 3, ch_roll := 3 \<rparr>
                else ch \<lparr> ch_mode := MODE_TEXT, ch_row1 := 0, ch_row := 0, ch_roll := ROWS \<rparr>);
          ch = ch_attr_update (\<lambda>a. a \<lparr> vc_opacity := VBI_OPAQUE, vc_foreground := VBI_WHITE, vc_background := VBI_BLACK \<rparr>) ch;
          ch = (set_cursor 1 (ch_row ch) ch) \<lparr> ch_time := 0, ch_hidden := 0 \<rparr>;
          ch = erase_memory (space_of cc i) 0
                 (modify_page 0 (\<lambda>pg. pg \<lparr> pg_dirty_y0 := 0, pg_dirty_y1 := ROWS - 1, pg_dirty_roll := 0 \<rparr>) ch)
      in modify_page 1 (\<lambda>_. ch_pg ch ! 0) ch)"

definition vbi_caption_channel_switched :: "caption \<Rightarrow> caption" where
  "vbi_caption_channel_switched cc =
     vbi_caption_desync (cc \<lparr> cc_channels := map (\<lambda>i. channel_switched cc i (cc_channels cc ! i)) [0..<9], cc_xds := False,
       cc_sub_packet := replicate 96 xds_buffer_0 \<rparr>)"

text \<open>A channel of which all bytes are zero but for the constant fields of its pages.\<close>

definition channel_0 :: "nat \<Rightarrow> cc_channel" where
  "channel_0 i =
     (let pg = \<lparr> pg_pgno = i + 1, pg_rows = ROWS, pg_columns = COLUMNS, pg_screen_color = 0,
                 pg_screen_opacity = (if i < 4 then VBI_TRANSPARENT_SPACE else VBI_OPAQUE),
                 pg_text = replicate (nat TEXT_SIZE) vbi_char_0, pg_dirty_y0 = 0, pg_dirty_y1 = 0, pg_dirty_roll = 0 \<rparr>
      in \<lparr> ch_mode = MODE_NONE, ch_col = 0, ch_col1 = 0, ch_row = 0, ch_row1 = 0, ch_roll = 0, ch_nul_ct = 0, ch_time = 0,
           ch_attr = vbi_char_0, ch_line_page = 0, ch_line_off = 0, ch_hidden = 0, ch_pg = [pg, pg] \<rparr>)"

definition transparent_space :: "vbi_opacity \<Rightarrow> vbi_char" where
  "transparent_space opacity =
     vbi_char_0 \<lparr> vc_foreground := VBI_WHITE, vc_background := VBI_BLACK, vc_unicode := 0x0020, vc_opacity := opacity \<rparr>"

definition vbi_caption_init :: "bool \<Rightarrow> caption" where
  "vbi_caption_init event_trigger =
     vbi_caption_channel_switched
       \<lparr> cc_last0 = 0, cc_last1 = 0, cc_curr_chan = 0,
         cc_transp_space = [transparent_space VBI_TRANSPARENT_SPACE, transparent_space VBI_OPAQUE],
         cc_channels = map channel_0 [0..<9], cc_sub_packet = replicate 96 xds_buffer_0, cc_curr_sp = None, cc_xds = False,
         cc_itv_buf = replicate 256 0, cc_itv_count = 0, cc_event_trigger = event_trigger, cc_calls = [] \<rparr>"

definition vbi_fetch_cc_page :: "int \<Rightarrow> caption \<Rightarrow> (cc_page \<times> caption) option" where
  "vbi_fetch_cc_page pgno cc =
     (if pgno < 1 \<or> 8 < pgno then None
      else let n = nat ((pgno - 1) AND 7); ch = cc_channels cc ! n; p = the_other (ch_hidden ch)
           in Some (ch_pg ch ! p,
                on_channel n (modify_page p (\<lambda>pg. pg \<lparr> pg_dirty_y0 := ROWS, pg_dirty_y1 := -1, pg_dirty_roll := 0 \<rparr>)) cc))"

end
