(* ===== verification/Caption_Inv.thy ===== *)
theory Caption_Inv
  imports Caption
begin

text \<open>
  The invariant of the Closed Caption decoder, and the inputs on which the decoder leaves its buffers. Only packets of
  the Extended Data Service can make it do so; every pair of bytes on the caption channels is handled.
\<close>

section \<open>Channels\<close>

definition pages_ok :: "cc_page list \<Rightarrow> bool" where
  "pages_ok ps \<longleftrightarrow> length ps = 2 \<and> list_all (\<lambda>pg. length (pg_text pg) = 1056) ps"

definition channel_ok :: "cc_channel \<Rightarrow> bool" where
  "channel_ok ch \<longleftrightarrow> pages_ok (ch_pg ch) \<and> ch_hidden ch < 2 \<and> ch_line_page ch = ch_hidden ch
     \<and> 1 \<le> ch_col1 ch \<and> ch_col1 ch \<le> ch_col ch \<and> ch_col ch \<le> 33
     \<and> 0 \<le> ch_row ch \<and> ch_row ch \<le> 14 \<and> ch_line_off ch = ch_row ch * 34
     \<and> 0 \<le> ch_row1 ch \<and> 1 \<le> ch_roll ch \<and> ch_row1 ch + ch_roll ch \<le> 15"

text \<open>Only the pages have changed.\<close>

definition repaint :: "cc_channel \<Rightarrow> cc_channel \<Rightarrow> bool" where
  "repaint ch ch' \<longleftrightarrow> ch' = ch \<lparr> ch_pg := ch_pg ch' \<rparr> \<and> pages_ok (ch_pg ch')"

lemma repaint_fields:
  assumes "repaint ch ch'"
  shows "ch_mode ch' = ch_mode ch" "ch_col ch' = ch_col ch" "ch_col1 ch' = ch_col1 ch" "ch_row ch' = ch_row ch"
    "ch_row1 ch' = ch_row1 ch" "ch_roll ch' = ch_roll ch" "ch_nul_ct ch' = ch_nul_ct ch" "ch_time ch' = ch_time ch"
    "ch_attr ch' = ch_attr ch" "ch_line_page ch' = ch_line_page ch" "ch_line_off ch' = ch_line_off ch" "ch_hidden ch' = ch_hidden ch"
    "pages_ok (ch_pg ch')"
proof -
  have eq: "ch' = ch \<lparr> ch_pg := ch_pg ch' \<rparr>" and pg: "pages_ok (ch_pg ch')" using assms unfolding repaint_def by auto
  show "ch_mode ch' = ch_mode ch" "ch_col ch' = ch_col ch" "ch_col1 ch' = ch_col1 ch" "ch_row ch' = ch_row ch"
    "ch_row1 ch' = ch_row1 ch" "ch_roll ch' = ch_roll ch" "ch_nul_ct ch' = ch_nul_ct ch" "ch_time ch' = ch_time ch"
    "ch_attr ch' = ch_attr ch" "ch_line_page ch' = ch_line_page ch" "ch_line_off ch' = ch_line_off ch" "ch_hidden ch' = ch_hidden ch"
    by (subst eq, simp)+
  show "pages_ok (ch_pg ch')" by (rule pg)
qed

lemma channel_ok_repaint: "channel_ok ch \<Longrightarrow> repaint ch ch' \<Longrightarrow> channel_ok ch'"
  using repaint_fields [of ch ch'] by (auto simp: channel_ok_def)

lemma repaint_refl: "channel_ok ch \<Longrightarrow> repaint ch ch"
  by (simp add: channel_ok_def repaint_def)

lemma repaint_trans: "repaint ch ch' \<Longrightarrow> repaint ch' ch'' \<Longrightarrow> repaint ch ch''"
  by (cases ch, cases ch', cases ch'') (auto simp: repaint_def)

lemma the_other_less [simp]: "the_other p < 2"
  by (simp add: the_other_def)

lemma the_other_twice: "p < 2 \<Longrightarrow> the_other (the_other p) = p"
  by (auto simp: the_other_def)

lemma pages_ok_text: "pages_ok ps \<Longrightarrow> p < 2 \<Longrightarrow> length (pg_text (ps ! p)) = 1056"
  by (auto simp: pages_ok_def list_all_length)

lemma pages_ok_update:
  "pages_ok ps \<Longrightarrow> (p < 2 \<Longrightarrow> length (pg_text pg) = 1056) \<Longrightarrow> pages_ok (ps [p := pg])"
proof (cases "p < 2")
  case True
  assume "pages_ok ps" "p < 2 \<Longrightarrow> length (pg_text pg) = 1056"
  then show ?thesis using True by (auto simp: pages_ok_def list_all_iff dest!: set_update_subset_insert [THEN subsetD])
next
  case False
  assume "pages_ok ps"
  then show ?thesis using False by (simp add: pages_ok_def list_update_beyond)
qed

lemma repaint_modify_page:
  assumes "channel_ok ch" "p < 2 \<Longrightarrow> length (pg_text (f (ch_pg ch ! p))) = 1056"
  shows "repaint ch (modify_page p f ch)"
  using assms by (auto simp: repaint_def modify_page_def channel_ok_def intro: pages_ok_update)

lemma repaint_text:
  assumes "channel_ok ch" "\<And>t. length t = 1056 \<Longrightarrow> length (f t) = 1056"
  shows "repaint ch (modify_page p (pg_text_update f) ch)"
  by (rule repaint_modify_page [OF assms(1)])
    (use assms in \<open>auto simp: channel_ok_def dest: pages_ok_text\<close>)

subsection \<open>Access to the line\<close>

lemma line_inside: "channel_ok ch \<Longrightarrow> 0 \<le> i \<Longrightarrow> i \<le> 34 \<Longrightarrow> 0 \<le> ch_line_off ch + i \<and> ch_line_off ch + i < TEXT_SIZE"
  by (auto simp: channel_ok_def cc_sizes)

lemma line_get_ok:
  "channel_ok ch \<Longrightarrow> 0 \<le> i \<Longrightarrow> i \<le> 34 \<Longrightarrow>
   line_get i ch = Ret (pg_text (ch_pg ch ! ch_hidden ch) ! nat (ch_row ch * 34 + i))"
  using line_inside [of ch i] by (auto simp: line_get_def Let_def channel_ok_def)

lemma line_set_ok:
  "channel_ok ch \<Longrightarrow> 0 \<le> i \<Longrightarrow> i \<le> 34 \<Longrightarrow>
   line_set i c ch = Ret (modify_page (ch_hidden ch) (pg_text_update (\<lambda>t. t [nat (ch_row ch * 34 + i) := c])) ch)"
  using line_inside [of ch i] by (auto simp: line_set_def Let_def channel_ok_def)

lemma line_set_repaint:
  assumes "channel_ok ch" "0 \<le> i" "i \<le> 34"
  shows "\<exists>ch'. line_set i c ch = Ret ch' \<and> repaint ch ch'"
  using line_set_ok [OF assms, of c] repaint_text [OF assms(1)] by auto

lemma line_fill_repaint:
  assumes "channel_ok ch" "0 \<le> col" "end \<le> 35"
  shows "\<exists>col' ch'. line_fill n col end c ch = Ret (col', ch') \<and> repaint ch ch' \<and> col \<le> col' \<and> (col \<le> end \<longrightarrow> col' \<le> end)"
  using assms
proof (induction n arbitrary: col ch)
  case 0
  then show ?case by (auto intro: repaint_refl)
next
  case (Suc n)
  show ?case
  proof (cases "col < end")
    case True
    obtain ch1 where s: "line_set col c ch = Ret ch1" "repaint ch ch1"
      using line_set_repaint [of ch col c] Suc.prems True by auto
    obtain col' ch' where f: "line_fill n (col + 1) end c ch1 = Ret (col', ch')" "repaint ch1 ch'" "col + 1 \<le> col'" "col' \<le> end"
      using Suc.IH [OF channel_ok_repaint [OF Suc.prems(1) s(2)], of "col + 1"] Suc.prems True by auto
    show ?thesis using s f True repaint_trans [OF s(2) f(2)] by auto
  next
    case False
    then show ?thesis using repaint_refl [OF Suc.prems(1)] by auto
  qed
qed

lemma text_move_repaint:
  assumes "channel_ok ch" "src < 2" "0 \<le> to" "0 \<le> from" "0 \<le> n" "to + n \<le> 1056" "from + n \<le> 1056"
  shows "\<exists>ch'. text_move dst to src from n ch = Ret ch' \<and> repaint ch ch'"
proof -
  let ?b = "take (nat n) (drop (nat from) (pg_text (ch_pg ch ! src)))"
  have "length (pg_text (ch_pg ch ! src)) = 1056" using assms(1,2) by (auto simp: channel_ok_def intro: pages_ok_text)
  then have "nat to + length ?b \<le> 1056" using assms by auto
  then have "repaint ch (modify_page dst (pg_text_update (c_memcpy (nat to) ?b)) ch)"
    by (intro repaint_text assms(1) length_c_memcpy [THEN trans]) auto
  then show ?thesis using assms by (auto simp: text_move_def Let_def cc_sizes)
qed

lemma update_repaint: "channel_ok ch \<Longrightarrow> \<exists>ch'. update ch = Ret ch' \<and> repaint ch ch'"
  using text_move_repaint [of ch "ch_hidden ch" "ch_row ch * 34" "ch_row ch * 34" 34 "the_other (ch_hidden ch)"]
  by (auto simp: update_def channel_ok_def cc_sizes)

lemma add_space_repaint:
  assumes "channel_ok ch" "0 \<le> i" "i \<le> 34" "0 \<le> j" "j \<le> 34"
  shows "\<exists>ch'. add_space i j ch = Ret ch' \<and> repaint ch ch'"
  using line_get_ok [OF assms(1,2,3)] line_get_ok [OF assms(1,4,5)] line_set_repaint [OF assms(1,4,5)] repaint_refl [OF assms(1)]
  by (auto simp: add_space_def)

subsection \<open>Operations on a channel\<close>

lemma render_ok: "channel_ok (fst w) \<Longrightarrow> p < 2 \<Longrightarrow> repaint (fst w) (fst (render p row w))"
  by (cases w) (auto simp: render_def send_caption_def channel_ok_def intro!: repaint_modify_page dest: pages_ok_text)

lemma clear_ok: "channel_ok (fst w) \<Longrightarrow> p < 2 \<Longrightarrow> repaint (fst w) (fst (clear p w))"
  by (cases w) (auto simp: clear_def send_caption_def channel_ok_def intro!: repaint_modify_page dest: pages_ok_text)

lemma roll_up_ok: "channel_ok (fst w) \<Longrightarrow> p < 2 \<Longrightarrow> repaint (fst w) (fst (roll_up p a b w))"
  by (cases w) (auto simp: roll_up_def send_caption_def channel_ok_def intro!: repaint_modify_page dest: pages_ok_text)

lemma erase_memory_repaint: "channel_ok ch \<Longrightarrow> repaint ch (erase_memory space p ch)"
  unfolding erase_memory_def
  by (rule repaint_modify_page) (auto simp: channel_ok_def cc_sizes dest: pages_ok_text)

lemma word_break_repaint:
  assumes "channel_ok (fst w)"
  shows "\<exists>w'. word_break upd w = Ret w' \<and> repaint (fst w) (fst w')"
proof -
  obtain ch calls where w: "w = (ch, calls)" by (cases w)
  have ok: "channel_ok ch" using assms w by simp
  have col: "1 \<le> ch_col1 ch" "ch_col ch \<le> 33" using ok by (auto simp: channel_ok_def)
  obtain ch2 where ch2: "(if ch_col1 ch < ch_col ch
      then c_bind (add_space (ch_col1 ch) (ch_col1 ch - 1) ch) (\<lambda>ch. add_space (ch_col ch - 1) (ch_col ch) ch) else Ret ch) = Ret ch2"
    "repaint ch ch2"
  proof (cases "ch_col1 ch < ch_col ch")
    case True
    obtain ch1 where a: "add_space (ch_col1 ch) (ch_col1 ch - 1) ch = Ret ch1" "repaint ch ch1"
      using add_space_repaint [OF ok, of "ch_col1 ch" "ch_col1 ch - 1"] col True by auto
    obtain ch2 where b: "add_space (ch_col ch1 - 1) (ch_col ch1) ch1 = Ret ch2" "repaint ch1 ch2"
      using add_space_repaint [OF channel_ok_repaint [OF ok a(2)], of "ch_col ch1 - 1" "ch_col ch1"] col True
      by (auto simp: repaint_fields [OF a(2)])
    show thesis using that [of ch2] a(1) b(1) True repaint_trans [OF a(2) b(2)] by simp
  next
    case False
    then show thesis using that [of ch] repaint_refl [OF ok] by simp
  qed
  have ok2: "channel_ok ch2" using channel_ok_repaint [OF ok ch2(2)] .
  obtain ch3 where ch3: "update ch2 = Ret ch3" "repaint ch2 ch3" using update_repaint [OF ok2] by blast
  have r: "repaint ch3 (fst (render 1 (ch_row ch3) (ch3, calls)))"
    using render_ok [of "(ch3, calls)" 1 "ch_row ch3"] channel_ok_repaint [OF ok2 ch3(2)] by simp
  show ?thesis
    using ch2 ch3(1) repaint_trans [OF repaint_trans [OF ch2(2) ch3(2)] r]
    by (cases "render (Suc 0) (ch_row ch3) (ch3, calls)") (simp add: word_break_def w)
qed

lemma word_break_ok:
  assumes "channel_ok (fst w)"
  obtains w' where "word_break upd w = Ret w'" "repaint (fst w) (fst w')" "channel_ok (fst w')"
  using word_break_repaint [OF assms] channel_ok_repaint [OF assms] by blast

lemma word_break_run:
  "channel_ok ch \<Longrightarrow> \<exists>ch' calls'. word_break upd (ch, calls) = Ret (ch', calls') \<and> repaint ch ch' \<and> channel_ok ch'"
  using word_break_ok [of "(ch, calls)" upd] by (metis fst_conv surj_pair)

text \<open>A step on a channel that is always defined and keeps the invariant.\<close>

definition keeps :: "(cc_work \<Rightarrow> cc_work c_result) \<Rightarrow> bool" where
  "keeps f \<longleftrightarrow> (\<forall>w. channel_ok (fst w) \<longrightarrow> (\<exists>w'. f w = Ret w' \<and> channel_ok (fst w')))"

lemma keepsI: "(\<And>ch calls. channel_ok ch \<Longrightarrow> \<exists>ch' calls'. f (ch, calls) = Ret (ch', calls') \<and> channel_ok ch') \<Longrightarrow> keeps f"
  by (auto simp: keeps_def)

lemma keeps_word_break: "keeps (word_break upd)"
  unfolding keeps_def by (blast elim: word_break_ok)

lemma keeps_put_char: "keeps (put_char c)"
proof (rule keepsI)
  fix ch calls assume ok: "channel_ok ch"
  obtain ch1 where s: "(if ch_col ch < COLUMNS - 1
      then c_bind (line_set (ch_col ch) c ch) (\<lambda>ch. Ret (ch \<lparr> ch_col := ch_col ch + 1 \<rparr>))
      else line_set (COLUMNS - 2) c ch) = Ret ch1" "channel_ok ch1"
  proof (cases "ch_col ch < COLUMNS - 1")
    case True
    obtain ch1 where r: "line_set (ch_col ch) c ch = Ret ch1" "repaint ch ch1"
      using line_set_repaint [OF ok, of "ch_col ch" c] True ok by (auto simp: channel_ok_def cc_sizes)
    have "channel_ok (ch1 \<lparr> ch_col := ch_col ch1 + 1 \<rparr>)"
      using channel_ok_repaint [OF ok r(2)] True by (auto simp: channel_ok_def cc_sizes repaint_fields [OF r(2)])
    then show thesis using that r(1) True by simp
  next
    case False
    obtain ch1 where r: "line_set (COLUMNS - 2) c ch = Ret ch1" "repaint ch ch1"
      using line_set_repaint [OF ok, of "COLUMNS - 2" c] by (auto simp: cc_sizes)
    then show thesis using that False channel_ok_repaint [OF ok r(2)] by simp
  qed
  show "\<exists>ch' calls'. put_char c (ch, calls) = Ret (ch', calls') \<and> channel_ok ch'"
    using s word_break_ok [of "(ch1, calls)" True] by (force simp: put_char_def)
qed

lemma channel_ok_attr [simp]: "channel_ok (ch \<lparr> ch_attr := a \<rparr>) = channel_ok ch"
  by (simp add: channel_ok_def)

lemma channel_ok_attr_update [simp]: "channel_ok (ch_attr_update f ch) = channel_ok ch"
  by (simp add: channel_ok_def)

lemma channel_ok_mode_update [simp]: "channel_ok (ch_mode_update f ch) = channel_ok ch"
  by (simp add: channel_ok_def)

lemma channel_ok_nul_update [simp]: "channel_ok (ch_nul_ct_update f ch) = channel_ok ch"
  by (simp add: channel_ok_def)

lemma channel_ok_time_update [simp]: "channel_ok (ch_time_update f ch) = channel_ok ch"
  by (simp add: channel_ok_def)

lemma channel_ok_set_cursor:
  assumes "channel_ok ch" "1 \<le> col" "col \<le> 33" "0 \<le> row" "row \<le> 14"
  shows "channel_ok (set_cursor col row ch)"
  using assms by (auto simp: channel_ok_def set_cursor_def cc_sizes)

lemma keeps_put_char_space: "keeps put_char_space"
  using keeps_put_char by (auto simp: keeps_def put_char_space_def)

lemma keeps_background_code: "keeps (background_code c2)"
  using keeps_put_char_space by (auto simp: keeps_def background_code_def)

lemma keeps_midrow_code: "keeps (midrow_code c2)"
  using keeps_put_char_space by (auto simp: keeps_def midrow_code_def)

lemma keeps_special_character: "keeps (special_character space c2)"
proof (rule keepsI)
  fix ch calls assume ok: "channel_ok ch"
  show "\<exists>ch' calls'. special_character space c2 (ch, calls) = Ret (ch', calls') \<and> channel_ok ch'"
  proof (cases "c2 AND 15 = 9")
    case True
    have col: "1 \<le> ch_col ch" "ch_col ch \<le> 33" using ok by (auto simp: channel_ok_def)
    show ?thesis
    proof (cases "ch_col ch < COLUMNS - 1")
      case in_line: True
      obtain ch1 where r: "line_set (ch_col ch) space ch = Ret ch1" "repaint ch ch1"
        using line_set_repaint [OF ok, of "ch_col ch" space] col by auto
      have "channel_ok (ch1 \<lparr> ch_col := ch_col ch1 + 1, ch_col1 := ch_col ch1 + 1 \<rparr>)"
        using channel_ok_repaint [OF ok r(2)] in_line by (auto simp: channel_ok_def cc_sizes repaint_fields [OF r(2)])
      then show ?thesis using r(1) in_line True by (simp add: special_character_def)
    next
      case False
      obtain ch1 where r: "line_set (COLUMNS - 2) space ch = Ret ch1" "repaint ch ch1"
        using line_set_repaint [OF ok, of "COLUMNS - 2" space] by (auto simp: cc_sizes)
      then show ?thesis using False True channel_ok_repaint [OF ok r(2)] by (simp add: special_character_def)
    qed
  next
    case False
    obtain u where "vbi_caption_unicode (0x1130 OR ucast (c2 AND 15)) False = Ret u" using caption_unicode_value by blast
    then show ?thesis using False keeps_put_char ok by (auto simp: special_character_def keeps_def)
  qed
qed

lemma move_right_ok:
  assumes "channel_ok ch"
  shows "\<exists>ch'. move_right n space ch = Ret ch' \<and> channel_ok ch'"
proof -
  have col: "1 \<le> ch_col ch" "ch_col ch \<le> 33" using assms by (auto simp: channel_ok_def)
  obtain col' ch1 where f: "line_fill n (ch_col ch) 33 space ch = Ret (col', ch1)" "repaint ch ch1" "ch_col ch \<le> col'" "col' \<le> 33"
    using line_fill_repaint [OF assms, of "ch_col ch" 33 n space] col by auto
  have ok1: "channel_ok ch1" using channel_ok_repaint [OF assms f(2)] .
  then have "channel_ok (ch1 \<lparr> ch_col := col', ch_col1 := col' \<rparr>)"
    using f(3,4) col by (auto simp: channel_ok_def)
  then show ?thesis using f(1) ok1 by (auto simp: move_right_def cc_sizes)
qed

lemma channel_ok_erase: "channel_ok ch \<Longrightarrow> channel_ok (erase_memory space p ch)"
  using channel_ok_repaint erase_memory_repaint by blast

lemma erase_memory_fields [simp]:
  "ch_mode (erase_memory space p ch) = ch_mode ch" "ch_row (erase_memory space p ch) = ch_row ch"
  "ch_row1 (erase_memory space p ch) = ch_row1 ch" "ch_roll (erase_memory space p ch) = ch_roll ch"
  "ch_hidden (erase_memory space p ch) = ch_hidden ch" "ch_attr (erase_memory space p ch) = ch_attr ch"
  by (simp_all add: erase_memory_def modify_page_def)

lemma preamble_row_ok:
  assumes "channel_ok ch" "0 \<le> row" "row \<le> 14"
  shows "channel_ok (preamble_row space row ch)"
proof (cases "ch_mode ch = MODE_ROLL_UP")
  case True
  define row1 where "row1 = max 0 (row - ch_roll ch + 1)"
  define ch1 where "ch1 = (if row1 \<noteq> ch_row1 ch
    then erase_memory space (the_other (ch_hidden ch)) (erase_memory space (ch_hidden ch) (ch \<lparr> ch_row1 := row1 \<rparr>)) else ch)"
  have b: "0 \<le> row1" "row1 + ch_roll ch \<le> 15" "1 \<le> ch_roll ch" using assms by (auto simp: row1_def channel_ok_def)
  then have "channel_ok (ch \<lparr> ch_row1 := row1 \<rparr>)" using assms(1) by (simp add: channel_ok_def)
  then have ok1: "channel_ok ch1" and f: "ch_row1 ch1 = row1" "ch_roll ch1 = ch_roll ch"
    using assms(1) by (auto simp: ch1_def channel_ok_erase)
  have "preamble_row space row ch = set_cursor 1 (ch_row1 ch1 + ch_roll ch1 - 1) ch1"
    using True by (simp add: preamble_row_def Let_def ch1_def row1_def)
  moreover have "channel_ok (set_cursor 1 (ch_row1 ch1 + ch_roll ch1 - 1) ch1)"
    using b f by (intro channel_ok_set_cursor ok1) auto
  ultimately show ?thesis by simp
next
  case False
  then show ?thesis using assms by (simp add: preamble_row_def channel_ok_set_cursor)
qed

lemma row_mapping_bounds: "row_mapping ! k < 0 \<or> 0 \<le> row_mapping ! k \<and> row_mapping ! k \<le> 14" if "k < 16"
proof -
  have "list_all (\<lambda>r. r < 0 \<or> 0 \<le> r \<and> r \<le> 14) row_mapping" "length row_mapping = 16" by (simp_all add: row_mapping_def)
  then show ?thesis using that by (simp add: list_all_length)
qed

lemma row_index_less: "c1 < 8 \<Longrightarrow> unat (push_bit 1 c1 + (drop_bit 5 c2 AND 1)) < 16" for c1 c2 :: u8
proof -
  assume "c1 < 8"
  then have "unat c1 < 8" by (simp add: word_less_nat_alt)
  moreover have "unat (drop_bit 5 c2 AND 1) < 2" using unat_and_mask_less [of "drop_bit 5 c2" 1] by simp
  moreover have "unat (push_bit 1 c1) = take_bit 8 (push_bit 1 (unat c1))" by (simp only: unsigned_push_bit_eq) simp
  ultimately show ?thesis
    by (simp add: unat_word_ariths(1) take_bit_eq_mod push_bit_eq_mult)
qed

lemma keeps_preamble_code: "c1 < 8 \<Longrightarrow> keeps (preamble_code space c1 c2)"
proof (rule keepsI)
  fix ch calls assume ok: "channel_ok ch" and c1: "c1 < 8"
  let ?row = "row_mapping ! unat (push_bit 1 c1 + (drop_bit 5 c2 AND 1))"
  show "\<exists>ch' calls'. preamble_code space c1 c2 (ch, calls) = Ret (ch', calls') \<and> channel_ok ch'"
  proof (cases "?row < 0 \<or> ch_mode ch = MODE_NONE")
    case True
    then show ?thesis using ok by (auto simp: preamble_code_def)
  next
    case False
    then have row: "0 \<le> ?row" "?row \<le> 14" using row_mapping_bounds [OF row_index_less [OF c1], of c2] by auto
    let ?ch0 = "ch_attr_update (\<lambda>a. a \<lparr> vc_underline := c2 AND 1 \<noteq> 0, vc_background := VBI_BLACK,
                        vc_opacity := VBI_OPAQUE, vc_flash := False \<rparr>) ch"
    obtain ch1 calls1 where w: "word_break True (?ch0, calls) = Ret (ch1, calls1)" "channel_ok ch1"
      using word_break_run [of ?ch0 True calls] ok by (auto simp only: channel_ok_attr_update)
    have ok2: "channel_ok (preamble_row space ?row ch1)" using preamble_row_ok [OF w(2) row] .
    show ?thesis
    proof (cases "c2 AND 0x10 \<noteq> 0")
      case True
      then show ?thesis
        using False w move_right_ok [OF ok2, of "unat ((c2 AND 14) * 2)" space] by (auto simp: preamble_code_def Let_def)
    next
      case f: False
      then show ?thesis using False w ok2 by (auto simp: preamble_code_def Let_def)
    qed
  qed
qed

lemma show_caption_ok: "keeps (show_caption space)"
proof (rule keepsI)
  fix ch calls assume ok: "channel_ok ch"
  obtain ch1 calls1 where w: "word_break True (ch_mode_update (\<lambda>_. MODE_POP_ON) ch, calls) = Ret (ch1, calls1)" "channel_ok ch1"
    using word_break_run [of "ch_mode_update (\<lambda>_. MODE_POP_ON) ch" True calls] ok by (auto simp only: channel_ok_mode_update)
  define h where "h = the_other (ch_hidden ch1)"
  define ch2 where "ch2 = fst (render (the_other h) (-1) (ch1 \<lparr> ch_hidden := h \<rparr>, calls1))"
  have pg: "ch_pg ch2 = ch_pg (fst (render (the_other h) (-1) (ch1, calls1)))" "ch2 = (fst (render (the_other h) (-1) (ch1, calls1))) \<lparr> ch_hidden := h \<rparr>"
    by (simp_all add: ch2_def render_def send_caption_def modify_page_def)
  have "channel_ok (fst (render (the_other h) (-1) (ch1, calls1)))"
    using channel_ok_repaint [OF w(2)] render_ok [of "(ch1, calls1)" "the_other h" "-1"] w(2) by simp
  then have "channel_ok (set_cursor 1 (ROWS - 1) (erase_memory space h ch2))"
    unfolding pg(2) using erase_memory_repaint [of "fst (render (the_other h) (-1) (ch1, calls1))" space h]
    by (auto simp: channel_ok_def set_cursor_def cc_sizes h_def erase_memory_def modify_page_def repaint_def)
  then show "\<exists>ch' calls'. show_caption space (ch, calls) = Ret (ch', calls') \<and> channel_ok ch'"
    using w(1) by (auto simp: show_caption_def Let_def h_def ch2_def prod_eq_iff)
qed

lemma backspace_ok:
  assumes "channel_ok ch"
  shows "\<exists>ch'. backspace space ch = Ret ch' \<and> channel_ok ch'"
proof (cases "ch_mode ch \<noteq> MODE_NONE \<and> 1 < ch_col ch")
  case True
  obtain ch1 where r: "line_set (ch_col ch - 1) space ch = Ret ch1" "repaint ch ch1"
    using line_set_repaint [OF assms, of "ch_col ch - 1" space] True assms by (auto simp: channel_ok_def)
  have "channel_ok (ch1 \<lparr> ch_col := ch_col ch1 - 1, ch_col1 := min (ch_col1 ch1) (ch_col ch1 - 1) \<rparr>)"
    using channel_ok_repaint [OF assms r(2)] True by (auto simp: channel_ok_def repaint_fields [OF r(2)])
  then show ?thesis using True r(1) by (simp add: backspace_def)
next
  case False
  then show ?thesis using assms by (auto simp: backspace_def)
qed

lemma keeps_scroll: "keeps (scroll space last_row)"
proof (rule keepsI)
  fix ch calls assume ok: "channel_ok ch"
  let ?p = "if ch_mode ch \<noteq> MODE_POP_ON then the_other (ch_hidden ch) else ch_hidden ch"
  obtain ch1 calls1 where 1: "word_break True (ch, calls) = Ret (ch1, calls1)" "channel_ok ch1"
    using word_break_run [OF ok] by blast
  obtain ch2 where 2: "update ch1 = Ret ch2" "channel_ok ch2"
    using update_repaint [OF 1(2)] channel_ok_repaint [OF 1(2)] by blast
  have b: "0 \<le> ch_row1 ch2" "1 \<le> ch_roll ch2" "ch_row1 ch2 + ch_roll ch2 \<le> 15" "ch_hidden ch < 2"
    using 2(2) ok by (auto simp: channel_ok_def)
  have "?p < 2" using b(4) by simp
  then obtain ch3 where 3: "text_move ?p (ch_row1 ch2 * COLUMNS) ?p ((ch_row1 ch2 + 1) * COLUMNS) ((ch_roll ch2 - 1) * COLUMNS) ch2 = Ret ch3"
    "channel_ok ch3"
    using text_move_repaint [OF 2(2), of ?p "ch_row1 ch2 * COLUMNS" "(ch_row1 ch2 + 1) * COLUMNS" "(ch_roll ch2 - 1) * COLUMNS" ?p]
      b(1,2,3) channel_ok_repaint [OF 2(2)] by (auto simp: cc_sizes)
  obtain col ch4 where 4: "line_fill (nat (COLUMNS + 1)) 0 (COLUMNS + 1) space ch3 = Ret (col, ch4)" "channel_ok ch4"
    using line_fill_repaint [OF 3(2), of 0 "COLUMNS + 1" "nat (COLUMNS + 1)" space] channel_ok_repaint [OF 3(2)]
    by (auto simp: cc_sizes)
  obtain ch5 where 5: "update ch4 = Ret ch5" "channel_ok ch5"
    using update_repaint [OF 4(2)] channel_ok_repaint [OF 4(2)] by blast
  obtain ch6 calls6 where 6: "(if ch_mode ch4 \<noteq> MODE_POP_ON
      then c_bind (update ch4) (\<lambda>ch. Ret (roll_up (the_other (ch_hidden ch)) (ch_row1 ch) last_row (ch, calls1)))
      else Ret (ch4, calls1)) = Ret (ch6, calls6)" "channel_ok ch6"
  proof (cases "ch_mode ch4 \<noteq> MODE_POP_ON")
    case True
    have "channel_ok (fst (roll_up (the_other (ch_hidden ch5)) (ch_row1 ch5) last_row (ch5, calls1)))"
      using roll_up_ok [of "(ch5, calls1)" "the_other (ch_hidden ch5)"] channel_ok_repaint [OF 5(2)] 5(2) by auto
    then show thesis
      using that 5(1) True by (cases "roll_up (the_other (ch_hidden ch5)) (ch_row1 ch5) last_row (ch5, calls1)") simp
  next
    case False
    then show thesis using that 4(2) by simp
  qed
  have "channel_ok (ch6 \<lparr> ch_col := 1, ch_col1 := 1 \<rparr>)" using 6(2) by (simp add: channel_ok_def)
  moreover have "scroll space last_row (ch, calls) = Ret (ch6 \<lparr> ch_col := 1, ch_col1 := 1 \<rparr>, calls6)"
    by (simp only: scroll_def Let_def fst_conv 1(1) c_bind_simps prod.case 2(1) 3(1) 4(1) 6(1))
  ultimately show "\<exists>ch' calls'. scroll space last_row (ch, calls) = Ret (ch', calls') \<and> channel_ok ch'" by blast
qed

lemma keeps_new_line: "keeps (new_line space)"
proof (rule keepsI)
  fix ch calls assume ok: "channel_ok ch"
  obtain ch1 calls1 where 1: "word_break True (ch, calls) = Ret (ch1, calls1)" "channel_ok ch1" "repaint ch ch1"
    using word_break_run [OF ok] by blast
  show "\<exists>ch' calls'. new_line space (ch, calls) = Ret (ch', calls') \<and> channel_ok ch'"
  proof (cases "ch_row ch < min (ROWS - 1) (ch_row1 ch + ch_roll ch - 1)")
    case True
    then have "channel_ok (set_cursor 1 (ch_row ch1 + 1) ch1)"
      using 1(2) repaint_fields(4) [OF 1(3)] by (intro channel_ok_set_cursor) (auto simp: channel_ok_def cc_sizes)
    then show ?thesis using True 1(1) ok by (auto simp: new_line_def Let_def)
  next
    case False
    then show ?thesis using keeps_scroll ok by (auto simp: new_line_def Let_def keeps_def)
  qed
qed

lemma keeps_delete_to_end: "keeps (delete_to_end space)"
proof (rule keepsI)
  fix ch calls assume ok: "channel_ok ch"
  obtain col ch1 where 1: "line_fill (nat (COLUMNS - ch_col ch)) (ch_col ch) COLUMNS space ch = Ret (col, ch1)" "channel_ok ch1"
    using line_fill_repaint [OF ok, of "ch_col ch" COLUMNS "nat (COLUMNS - ch_col ch)" space] channel_ok_repaint [OF ok] ok
    by (auto simp: cc_sizes channel_ok_def)
  obtain ch2 calls2 where 2: "word_break False (ch1, calls) = Ret (ch2, calls2)" "channel_ok ch2"
    using word_break_run [OF 1(2)] by blast
  obtain ch3 where 3: "update ch2 = Ret ch3" "channel_ok ch3"
    using update_repaint [OF 2(2)] channel_ok_repaint [OF 2(2)] by blast
  have 4: "channel_ok (fst (render (the_other (ch_hidden ch3)) (ch_row ch3) (ch3, calls2)))"
    using render_ok [of "(ch3, calls2)" "the_other (ch_hidden ch3)"] channel_ok_repaint [OF 3(2)] 3(2) by auto
  show "\<exists>ch' calls'. delete_to_end space (ch, calls) = Ret (ch', calls') \<and> channel_ok ch'"
    using 1(1) 2 3(1) 4 ok
    by (cases "render (the_other (ch_hidden ch3)) (ch_row ch3) (ch3, calls2)") (auto simp: delete_to_end_def)
qed

lemma erase_displayed_ok: "channel_ok (fst w) \<Longrightarrow> channel_ok (fst (erase_displayed space w))"
  unfolding erase_displayed_def Let_def
  by (rule channel_ok_repaint [OF _ clear_ok]) (auto intro!: channel_ok_erase)

lemma attribute_magic_ok:
  assumes "channel_ok ch"
  shows "\<exists>ch'. attribute_magic ch = Ret ch' \<and> channel_ok ch'"
proof (cases "1 < ch_col ch")
  case True
  have b: "0 \<le> ch_col ch - 1" "ch_col ch - 1 \<le> 34" using True assms by (auto simp: channel_ok_def)
  show ?thesis
    using line_get_ok [OF assms b] line_set_repaint [OF assms b] channel_ok_repaint [OF assms] True assms
    by (fastforce simp: attribute_magic_def)
next
  case False
  then show ?thesis using assms by (simp add: attribute_magic_def)
qed

lemma tab_attribute_ok: "channel_ok ch \<Longrightarrow> \<exists>ch'. tab_attribute space c2 ch = Ret ch' \<and> channel_ok ch'"
  by (auto simp: tab_attribute_def intro!: move_right_ok attribute_magic_ok)

lemma start_roll_up_ok:
  assumes "channel_ok ch" "2 \<le> roll" "roll \<le> 4"
  shows "channel_ok (start_roll_up space roll ch)"
proof (cases "ch_mode ch = MODE_ROLL_UP \<and> ch_roll ch = roll")
  case True
  then show ?thesis using assms by (auto simp: start_roll_up_def)
next
  case False
  have "channel_ok (erase_memory space (the_other (ch_hidden ch)) (erase_memory space (ch_hidden ch) ch))"
    by (intro channel_ok_erase assms(1))
  then show ?thesis using False assms(2,3) by (auto simp: start_roll_up_def channel_ok_def set_cursor_def cc_sizes)
qed

section \<open>The decoder\<close>

definition sp_ok :: "xds_buffer \<Rightarrow> bool" where
  "sp_ok sp \<longleftrightarrow> length (sp_buffer sp) = 32 \<and> 0 \<le> sp_count sp \<and> sp_count sp \<le> 34 \<and> sp_count sp \<noteq> 1"

definition caption_ok :: "caption \<Rightarrow> bool" where
  "caption_ok cc \<longleftrightarrow> cc_curr_chan cc < 8 \<and> length (cc_transp_space cc) = 2
     \<and> length (cc_channels cc) = 9 \<and> list_all channel_ok (cc_channels cc)
     \<and> length (cc_sub_packet cc) = 96 \<and> list_all sp_ok (cc_sub_packet cc)
     \<and> (case cc_curr_sp cc of None \<Rightarrow> True | Some k \<Rightarrow> k < 96)
     \<and> length (cc_itv_buf cc) = 256 \<and> 0 \<le> cc_itv_count cc \<and> cc_itv_count cc \<le> 255"

lemma caption_ok_channel: "caption_ok cc \<Longrightarrow> n < 9 \<Longrightarrow> channel_ok (cc_channels cc ! n)"
  by (simp add: caption_ok_def list_all_length)

lemma list_all_update: "list_all P xs \<Longrightarrow> P x \<Longrightarrow> list_all P (xs [n := x])"
  by (auto simp: list_all_iff dest!: set_update_subset_insert [THEN subsetD])

lemma with_channel_ok:
  assumes "caption_ok cc" "n < 9" "keeps f"
  shows "\<exists>cc'. with_channel n f cc = Ret cc' \<and> caption_ok cc'"
proof -
  obtain ch' calls' where "f (cc_channels cc ! n, cc_calls cc) = Ret (ch', calls')" "channel_ok ch'"
    using assms(3) caption_ok_channel [OF assms(1,2)] by (force simp: keeps_def)
  then show ?thesis using assms(1,2) by (auto simp: with_channel_def caption_ok_def intro: list_all_update)
qed

lemma on_channel_ok:
  assumes "caption_ok cc" "n < 9" "\<And>ch. channel_ok ch \<Longrightarrow> channel_ok (f ch)"
  shows "caption_ok (on_channel n f cc)"
  using assms(1,2) assms(3) [OF caption_ok_channel [OF assms(1,2)]]
  by (auto simp: on_channel_def caption_ok_def intro: list_all_update)

lemma caption_ok_simps [simp]:
  "caption_ok (cc \<lparr> cc_last0 := a \<rparr>) = caption_ok cc" "caption_ok (cc \<lparr> cc_last1 := a \<rparr>) = caption_ok cc"
  "caption_ok (cc \<lparr> cc_last0 := a, cc_last1 := b \<rparr>) = caption_ok cc"
  "caption_ok (cc \<lparr> cc_xds := x \<rparr>) = caption_ok cc"
  by (simp_all add: caption_ok_def)

text \<open>A result that is defined and satisfies the invariant.\<close>

definition good :: "caption c_result \<Rightarrow> bool" where
  "good r \<longleftrightarrow> (\<exists>cc. r = Ret cc \<and> caption_ok cc)"

lemma good_Ret [simp]: "good (Ret cc) = caption_ok cc"
  by (simp add: good_def)

lemma good_bind: "good r \<Longrightarrow> (\<And>cc. caption_ok cc \<Longrightarrow> good (f cc)) \<Longrightarrow> good (c_bind r f)"
  by (auto simp: good_def)

lemma good_if: "(P \<Longrightarrow> good r) \<Longrightarrow> (\<not> P \<Longrightarrow> good s) \<Longrightarrow> good (if P then r else s)"
  by simp

lemma good_with_channel: "caption_ok cc \<Longrightarrow> n < 9 \<Longrightarrow> keeps f \<Longrightarrow> good (with_channel n f cc)"
  by (simp add: good_def with_channel_ok)

lemma keeps_work: "(\<And>ch. channel_ok ch \<Longrightarrow> \<exists>ch'. f ch = Ret ch' \<and> channel_ok ch') \<Longrightarrow>
  keeps (\<lambda>w. c_bind (f (fst w)) (\<lambda>ch. Ret (ch, snd w)))"
  by (fastforce simp: keeps_def)

lemma good_switch_channel: "caption_ok cc \<Longrightarrow> chan < 9 \<Longrightarrow> new_chan < 8 \<Longrightarrow> good (switch_channel chan new_chan cc)"
  unfolding switch_channel_def
  by (intro good_bind good_with_channel keeps_word_break) (auto simp: caption_ok_def)

lemma good_itv_separator: "caption_ok cc \<Longrightarrow> good (itv_separator c cc)"
  by (auto simp: itv_separator_def itv_flush_def caption_ok_def)

lemma good_carriage_return: "caption_ok cc \<Longrightarrow> chan < 9 \<Longrightarrow> good (carriage_return chan cc)"
  unfolding carriage_return_def
  by (intro good_bind good_if good_with_channel keeps_new_line) (auto intro: good_itv_separator)

lemma good_misc_control:
  assumes cc: "caption_ok cc" and "chan < 8"
  shows "good (misc_control chan c2 cc)"
proof -
  have m: "chan mod 4 < 9" "chan mod 4 < 8" "text_channel chan < 9" "text_channel chan < 8" "chan < 9"
    using assms(2) by (auto simp: text_channel_def)
  note sw = good_switch_channel [OF cc m(5) m(2)] good_switch_channel [OF cc m(5) m(4)]
  have k: "int (unat (c2 AND 15) mod 8) - 3 \<in> {2, 3, 4}" if "unat (c2 AND 15) \<in> {5, 6, 7}" using that by auto
  have "good (resume_loading chan cc)" "good (resume_direct chan cc)"
    unfolding resume_loading_def resume_direct_def by (auto intro!: good_bind sw on_channel_ok m)
  moreover have "good (roll_up_captions chan (int (unat (c2 AND 15) mod 8) - 3) cc)" if "unat (c2 AND 15) \<in> {5, 6, 7}"
    unfolding roll_up_captions_def using k [OF that] by (auto intro!: good_bind sw on_channel_ok start_roll_up_ok m)
  moreover have "good (text_restart chan cc)"
    unfolding text_restart_def by (auto intro!: good_bind sw on_channel_ok m channel_ok_set_cursor)
  moreover have "good (end_of_caption chan cc)"
    unfolding end_of_caption_def by (intro good_bind sw good_with_channel m show_caption_ok)
  moreover have "good (with_channel chan (\<lambda>w. c_bind (backspace (space_of cc chan) (fst w)) (\<lambda>ch. Ret (ch, snd w))) cc)"
    by (intro good_with_channel keeps_work backspace_ok cc m)
  moreover have "good (with_channel chan (delete_to_end (space_of cc chan)) cc)"
    by (intro good_with_channel keeps_delete_to_end cc m)
  moreover have "keeps (\<lambda>w. Ret (erase_displayed (space_of cc chan) w))"
    by (auto simp: keeps_def intro: erase_displayed_ok)
  then have "good (with_channel chan (\<lambda>w. Ret (erase_displayed (space_of cc chan) w)) cc)"
    by (intro good_with_channel cc m)
  moreover have "caption_ok (on_channel chan (ch_attr_update (vc_flash_update (\<lambda>_. True))) cc)"
    "caption_ok (on_channel chan (erase_non_displayed (space_of cc chan)) cc)"
    by (auto intro!: on_channel_ok cc m channel_ok_erase simp: erase_non_displayed_def)
  ultimately show ?thesis
    using good_carriage_return [OF cc m(5)] sw(2) cc unfolding misc_control_def Let_def by (intro good_if) simp_all
qed

lemma command_channel_less: "4 * (n div 4 mod 2) + (if field2 then 2 else 0) + (if b then 1 else 0) < (8 :: nat)"
  by (auto intro: order.strict_trans1 [of _ "4 + 2 + 1"])

lemma good_caption_command:
  assumes "caption_ok cc"
  shows "good (caption_command c1 c2 field2 cc)"
proof -
  let ?chan = "4 * (cc_curr_chan cc div 4 mod 2) + (if field2 then 2 else 0) + (if bit c1 3 then 1 else 0)"
  have n: "?chan < 8" by (rule command_channel_less)
  then have n9: "?chan < 9" by (rule order.strict_trans) simp
  have c1: "c1 AND 7 < 8"
    using unat_and_mask_less [of c1 3] by (simp add: word_less_nat_alt mask_eq_exp_minus_1)
  have k: "keeps (if c2 AND 0x10 \<noteq> 0 then special_character (space_of cc ?chan) c2 else midrow_code c2)"
    by (simp add: keeps_special_character keeps_midrow_code)
  show ?thesis
    unfolding caption_command_def Let_def
    by (intro good_if good_with_channel [OF assms n9] keeps_preamble_code c1 keeps_background_code k
      good_misc_control assms n keeps_work tab_attribute_ok) (simp_all add: assms)
qed

lemma good_text_byte: "caption_ok cc \<Longrightarrow> chan < 9 \<Longrightarrow> good (text_byte chan c b cc)"
proof -
  assume cc: "caption_ok cc" "chan < 9"
  obtain u where u: "vbi_caption_unicode (word_of_int (vbi_unpar8 (ucast b) AND 0x7F)) False = Ret u"
    using caption_unicode_value by blast
  show ?thesis
    unfolding text_byte_def Let_def u c_bind_simps
    by (intro good_if good_bind good_with_channel keeps_put_char cc) (auto intro: good_itv_separator cc)
qed

lemma good_decode_text:
  assumes cc: "caption_ok cc"
  shows "good (decode_text field2 b0 b1 now cc)"
proof -
  let ?chan = "4 * (cc_curr_chan cc div 4 mod 2) + cc_curr_chan cc mod 2 + (if field2 then 2 else 0)"
  have n: "?chan < 9" by (auto intro: order.strict_trans1 [of _ "4 + 1 + 2"])
  have k: "keeps (\<lambda>w. c_bind (if ch_nul_ct (fst w) = 2 then word_break True w else Ret w) (\<lambda>w.
    Ret (apfst (ch_nul_ct_update (\<lambda>n. n + 2)) w)))"
  proof (rule keepsI)
    fix ch calls assume ok: "channel_ok ch"
    obtain ch1 calls1 where "word_break True (ch, calls) = Ret (ch1, calls1)" "channel_ok ch1" using word_break_run [OF ok] by blast
    then show "\<exists>ch' calls'. c_bind (if ch_nul_ct (fst (ch, calls)) = 2 then word_break True (ch, calls) else Ret (ch, calls))
        (\<lambda>w. Ret (apfst (ch_nul_ct_update (\<lambda>n. n + 2)) w)) = Ret (ch', calls') \<and> channel_ok ch'"
      using ok by simp
  qed
  have z: "caption_ok (on_channel ?chan (ch_nul_ct_update (\<lambda>_. 0)) (if field2 then cc else cc \<lparr> cc_last0 := 0 \<rparr>))"
    by (intro on_channel_ok n) (simp_all add: cc)
  show ?thesis
    unfolding decode_text_def Let_def
    by (intro good_if good_with_channel [OF cc n k] good_bind good_text_byte on_channel_ok z n) (simp_all add: cc z)
qed

lemma good_decode_field:
  assumes "caption_ok cc"
  shows "good (decode_field field2 b0 b1 now cc)"
  unfolding decode_field_def Let_def
  by (auto simp: assms intro!: good_bind good_caption_command good_decode_text)

subsection \<open>Extended Data Service packets\<close>

text \<open>
  The pairs of bytes that make \<^verbatim>\<open>xds_separator\<close> leave its buffers: the header of a packet of class 4, or of type 0x18, and two bytes of
  contents for a packet that was discarded after a parity error (count 0) or has an odd number of 31 bytes (count 33).
\<close>

definition xds_fault :: "caption \<Rightarrow> u8 \<Rightarrow> u8 \<Rightarrow> bool" where
  "xds_fault cc b0 b1 \<longleftrightarrow> odd_parity b0 \<and> odd_parity b1
     \<and> (let c1 = uint (b0 AND 127); c2 = uint (b1 AND 127)
        in c1 \<in> {1..10} \<and> c2 \<le> 0x18 \<and> (9 \<le> c1 \<or> c2 = 0x18)
           \<or> 0x20 \<le> c1 \<and> (\<exists>k. cc_curr_sp cc = Some k \<and> sp_count (cc_sub_packet cc ! k) \<in> {0, 33}))"

lemma caption_ok_sp: "caption_ok cc \<Longrightarrow> k < 96 \<Longrightarrow> sp_ok (cc_sub_packet cc ! k)"
  by (simp add: caption_ok_def list_all_length)

lemma caption_ok_curr: "caption_ok cc \<Longrightarrow> cc_curr_sp cc = Some k \<Longrightarrow> k < 96"
  by (simp add: caption_ok_def)

lemma caption_ok_curr_None: "caption_ok cc \<Longrightarrow> caption_ok (cc \<lparr> cc_curr_sp := None \<rparr>)"
  by (simp add: caption_ok_def)

lemma modify_sp_ok:
  assumes "caption_ok cc" "k < 96" "sp_ok (cc_sub_packet cc ! k) \<Longrightarrow> sp_ok (f (cc_sub_packet cc ! k))"
  shows "caption_ok (modify_sp k f cc)"
  using assms(1,2) assms(3) [OF caption_ok_sp [OF assms(1,2)]]
  by (auto simp: modify_sp_def caption_ok_def intro: list_all_update)

lemma sp_ok_discard: "sp_ok sp \<Longrightarrow> sp_ok (sp_discard sp)"
  by (simp add: sp_ok_def sp_discard_def)

lemma packet_start_result:
  assumes cc: "caption_ok cc" and c: "1 \<le> c1" "c1 \<le> 14" "0 \<le> c2"
  shows "if c1 \<le> 10 \<and> c2 \<le> 0x18 \<and> (9 \<le> c1 \<or> c2 = 0x18) then packet_start c1 c2 cc = Undef else good (packet_start c1 c2 cc)"
proof -
  have cls: "(4 < (c1 - 1) div 2) = (10 < c1)" "(4 \<le> (c1 - 1) div 2) = (9 \<le> c1)" using c by linarith+
  have k: "nat ((c1 - 1) div 2) * 24 + nat c2 < 96" if "c1 < 9" "c2 < 24"
  proof -
    have "nat ((c1 - 1) div 2) \<le> 3" using that c by linarith
    then show ?thesis using that c by linarith
  qed
  have "caption_ok (cc \<lparr> cc_curr_sp := Some (nat ((c1 - 1) div 2) * 24 + nat c2) \<rparr>)" if "c1 < 9" "c2 < 24"
    using cc k [OF that] by (simp add: caption_ok_def)
  then show ?thesis
    using c cc k by (auto simp: packet_start_def Let_def cls intro!: modify_sp_ok caption_ok_curr_None) (auto simp: sp_ok_def)
qed

lemma packet_end_good:
  assumes cc: "caption_ok cc" and k: "k < 96"
  shows "good (packet_end c k cc)"
proof -
  have "sp_count (cc_sub_packet cc ! k) \<le> 34" using caption_ok_sp [OF assms] by (simp add: sp_ok_def)
  then have "\<not> 32 < sp_count (cc_sub_packet cc ! k) - 2" by simp
  moreover have "caption_ok (cc \<lparr> cc_curr_sp := None, cc_calls := calls \<rparr>)" for calls
    using cc by (simp add: caption_ok_def)
  ultimately show ?thesis using k
    by (auto simp: packet_end_def Let_def cc intro!: modify_sp_ok sp_ok_discard caption_ok_curr_None)
qed

lemma packet_contents_result:
  assumes cc: "caption_ok cc" and k: "k < 96"
  shows "if sp_count (cc_sub_packet cc ! k) \<in> {0, 33} then packet_contents c1 c2 k cc = Undef else good (packet_contents c1 c2 k cc)"
proof -
  let ?sp = "cc_sub_packet cc ! k"
  have sp: "0 \<le> sp_count ?sp" "sp_count ?sp \<le> 34" "sp_count ?sp \<noteq> 1" "length (sp_buffer ?sp) = 32"
    using caption_ok_sp [OF assms] by (simp_all add: sp_ok_def)
  consider "sp_count ?sp \<in> {0, 33}" | "sp_count ?sp = 34" | "2 \<le> sp_count ?sp" "sp_count ?sp \<le> 32" using sp by fastforce
  then show ?thesis
  proof cases
    case 1
    then show ?thesis by (auto simp: packet_contents_def)
  next
    case 2
    then show ?thesis using cc k by (auto simp: packet_contents_def intro!: modify_sp_ok sp_ok_discard caption_ok_curr_None)
  next
    case 3
    then show ?thesis using cc k sp(4) by (auto simp: packet_contents_def Let_def sp_ok_def intro!: modify_sp_ok)
  qed
qed

lemma xds_separator_result:
  assumes cc: "caption_ok cc" and c1: "odd_parity b0 \<Longrightarrow> uint (b0 AND 127) \<in> {1..15} \<or> 0x20 \<le> uint (b0 AND 127)"
  shows "if xds_fault cc b0 b1 then xds_separator b0 b1 cc = Undef else good (xds_separator b0 b1 cc)"
proof (cases "odd_parity b0 \<and> odd_parity b1")
  case False
  then have "vbi_unpar8 (ucast b0) < 0 \<or> vbi_unpar8 (ucast b1) < 0" by (auto simp: vbi_unpar8_byte)
  then have x: "xds_separator b0 b1 cc = Ret (case cc_curr_sp cc of None \<Rightarrow> cc | Some k \<Rightarrow> modify_sp k sp_discard cc)"
    by (simp add: xds_separator_def)
  have "\<not> xds_fault cc b0 b1" using False by (auto simp: xds_fault_def)
  then show ?thesis
    using cc caption_ok_curr [OF cc] by (auto simp: x split: option.split intro!: modify_sp_ok sp_ok_discard)
next
  case True
  define c1 where "c1 = uint (b0 AND 127)"
  define c2 where "c2 = uint (b1 AND 127)"
  have u: "vbi_unpar8 (ucast b0) = c1" "vbi_unpar8 (ucast b1) = c2" using True by (simp_all add: vbi_unpar8_byte c1_def c2_def)
  have r: "c1 \<in> {1..15} \<or> 0x20 \<le> c1" using assms(2) True by (simp add: c1_def)
  have b: "0 \<le> c1" "0 \<le> c2" "c1 \<le> 0x7F"
  proof -
    have "unat (b0 AND mask 7) < 2 ^ 7" by (rule unat_and_mask_less)
    then have "unat (b0 AND 127) < 128" by (simp add: mask_eq_exp_minus_1)
    then have "int (unat (b0 AND 127)) < int 128" by (simp only: of_nat_less_iff)
    then show "c1 \<le> 0x7F" by (simp add: c1_def)
  qed (simp_all add: c1_def c2_def)
  have x: "xds_separator b0 b1 cc =
      (if c1 < 0 \<or> c2 < 0 then Ret (case cc_curr_sp cc of None \<Rightarrow> cc | Some k \<Rightarrow> modify_sp k sp_discard cc)
       else if 1 \<le> c1 \<and> c1 \<le> 14 then packet_start c1 c2 cc
       else if c1 = 15 then (case cc_curr_sp cc of None \<Rightarrow> Ret cc | Some k \<Rightarrow> packet_end (c1 + c2) k cc)
       else if 0x20 \<le> c1 \<and> c1 \<le> 0x7F
       then (case cc_curr_sp cc of None \<Rightarrow> Ret cc | Some k \<Rightarrow> packet_contents c1 c2 k cc) else Undef)"
    unfolding xds_separator_def Let_def u ..
  have f: "xds_fault cc b0 b1 \<longleftrightarrow> c1 \<in> {1..10} \<and> c2 \<le> 0x18 \<and> (9 \<le> c1 \<or> c2 = 0x18)
           \<or> 0x20 \<le> c1 \<and> (\<exists>k. cc_curr_sp cc = Some k \<and> sp_count (cc_sub_packet cc ! k) \<in> {0, 33})"
    using True by (simp add: xds_fault_def c1_def c2_def Let_def)
  have n1: "\<not> (c1 < 0 \<or> c2 < 0)" using b by simp
  consider "1 \<le> c1 \<and> c1 \<le> 14" | "c1 = 15" | "0x20 \<le> c1" using r by fastforce
  then show ?thesis
  proof cases
    case 1
    then have "xds_separator b0 b1 cc = packet_start c1 c2 cc" using x n1 by simp
    moreover have "xds_fault cc b0 b1 \<longleftrightarrow> c1 \<le> 10 \<and> c2 \<le> 0x18 \<and> (9 \<le> c1 \<or> c2 = 0x18)" using f 1 by auto
    ultimately show ?thesis using packet_start_result [OF cc _ _ b(2), of c1] 1 by simp
  next
    case 2
    then have "xds_separator b0 b1 cc = (case cc_curr_sp cc of None \<Rightarrow> Ret cc | Some k \<Rightarrow> packet_end (c1 + c2) k cc)"
      using x n1 by simp
    moreover have "\<not> xds_fault cc b0 b1" using f 2 by simp
    ultimately show ?thesis using cc caption_ok_curr [OF cc] packet_end_good [OF cc] by (simp split: option.split)
  next
    case 3
    then have "xds_separator b0 b1 cc = (case cc_curr_sp cc of None \<Rightarrow> Ret cc | Some k \<Rightarrow> packet_contents c1 c2 k cc)"
      using x n1 b(3) by simp
    moreover have "xds_fault cc b0 b1 \<longleftrightarrow> (\<exists>k. cc_curr_sp cc = Some k \<and> sp_count (cc_sub_packet cc ! k) \<in> {0, 33})"
      using f 3 by auto
    ultimately show ?thesis
      using cc caption_ok_curr [OF cc] packet_contents_result [OF cc, of _ c1 c2] by (cases "cc_curr_sp cc") auto
  qed
qed

section \<open>Reachable states\<close>

lemma desync_ok: "caption_ok cc \<Longrightarrow> caption_ok (vbi_caption_desync cc)"
proof -
  assume cc: "caption_ok cc"
  have z: "sp_ok xds_buffer_0" by (simp add: sp_ok_def xds_buffer_0_def)
  have "caption_ok (case cc_curr_sp cc of None \<Rightarrow> cc | Some k \<Rightarrow> (modify_sp k (\<lambda>_. xds_buffer_0) cc) \<lparr> cc_curr_sp := None \<rparr>)"
    using cc z caption_ok_curr [OF cc]
    by (auto split: option.split intro!: caption_ok_curr_None modify_sp_ok)
  then show ?thesis unfolding vbi_caption_desync_def by (simp add: caption_ok_def)
qed

lemma channel_switched_ok:
  assumes "pages_ok (ch_pg ch)" "ch_hidden ch = 0"
  shows "channel_ok (channel_switched cc i ch)"
  using assms by (simp add: channel_switched_def Let_def channel_ok_def erase_memory_def modify_page_def set_cursor_def cc_sizes pages_ok_def
      list_all_length nth_list_update less_Suc_eq numeral_2_eq_2)

lemma caption_switched_ok:
  assumes "length (cc_transp_space cc) = 2" "length (cc_channels cc) = 9" "list_all (\<lambda>ch. pages_ok (ch_pg ch) \<and> ch_hidden ch = 0) (cc_channels cc)"
    "cc_curr_chan cc < 8" "length (cc_itv_buf cc) = 256" "case cc_curr_sp cc of None \<Rightarrow> True | Some k \<Rightarrow> k < 96"
    "0 \<le> cc_itv_count cc" "cc_itv_count cc \<le> 255"
  shows "caption_ok (vbi_caption_channel_switched cc)"
  unfolding vbi_caption_channel_switched_def
  by (rule desync_ok) (use assms in \<open>auto simp: caption_ok_def list_all_iff sp_ok_def xds_buffer_0_def intro!: channel_switched_ok\<close>)

lemma init_ok: "caption_ok (vbi_caption_init t)"
  unfolding vbi_caption_init_def
  by (rule caption_switched_ok) (auto simp: list_all_iff channel_0_def Let_def pages_ok_def cc_sizes)

definition caption_fault :: "int \<Rightarrow> u8 \<Rightarrow> u8 \<Rightarrow> caption \<Rightarrow> bool" where
  "caption_fault line b0 b1 cc \<longleftrightarrow> line = 284 \<and> xds_fault cc b0 b1 \<and> (uint (b0 AND 127) < 0x20 \<or> cc_xds cc)"

lemma xds_fault_range: "xds_fault cc b0 b1 \<Longrightarrow> odd_parity b0 \<and> (1 \<le> uint (b0 AND 127) \<and> uint (b0 AND 127) \<le> 10 \<or> 0x20 \<le> uint (b0 AND 127))"
  by (auto simp: xds_fault_def Let_def)

lemma decode_result:
  assumes cc: "caption_ok cc"
  shows "if caption_fault line b0 b1 cc then vbi_decode_caption line b0 b1 now cc = Undef
    else good (vbi_decode_caption line b0 b1 now cc)"
proof (cases "line = 284")
  case False
  then show ?thesis
    using good_decode_field [OF cc] cc by (simp add: vbi_decode_caption_def caption_fault_def Let_def)
next
  case True
  define c1 where "c1 = uint (b0 AND 127)"
  have w: "(b0 AND 0x7F = 0) = (c1 = 0)" "(b0 AND 0x7F \<le> 0x0F) = (c1 \<le> 15)" "(b0 AND 0x7F \<le> 0x1F) = (c1 \<le> 31)"
    by (simp_all add: c1_def word_le_def uint_0_iff)
  have c0: "0 \<le> c1" by (simp add: c1_def)
  have cx: "caption_ok (cc \<lparr> cc_xds := False \<rparr>)" using cc by simp
  have run: "vbi_decode_caption line b0 b1 now cc =
      (if odd_parity b0
       then if c1 = 0 then Ret cc
            else if c1 \<le> 15 then c_bind (xds_separator b0 b1 cc) (\<lambda>cc. Ret (cc \<lparr> cc_xds := b0 AND 0x7F \<noteq> 15 \<rparr>))
            else if c1 \<le> 31 then decode_field True b0 b1 now (cc \<lparr> cc_xds := False \<rparr>)
            else if cc_xds cc then xds_separator b0 b1 cc else decode_field True b0 b1 now cc
       else if cc_xds cc then xds_separator b0 b1 cc else decode_field True b0 b1 now cc)"
    using True by (simp add: vbi_decode_caption_def Let_def vbi_unpar8_byte w)
  have f: "caption_fault line b0 b1 cc \<longleftrightarrow> xds_fault cc b0 b1 \<and> (c1 < 0x20 \<or> cc_xds cc)"
    using True by (simp add: caption_fault_def c1_def)
  have bind: "good r \<Longrightarrow> good (c_bind r (\<lambda>cc. Ret (cc \<lparr> cc_xds := x \<rparr>)))" for r x
    by (rule good_bind) simp_all
  consider "\<not> odd_parity b0" | "odd_parity b0" "c1 = 0" | "odd_parity b0" "1 \<le> c1" "c1 \<le> 15" | "odd_parity b0" "16 \<le> c1" "c1 \<le> 31"
    | "odd_parity b0" "32 \<le> c1" using c0 by linarith
  then show ?thesis
  proof cases
    case 1
    then have "\<not> xds_fault cc b0 b1" using xds_fault_range by blast
    then show ?thesis using 1 good_decode_field [OF cc] xds_separator_result [OF cc, of b0 b1] by (simp add: run f)
  next
    case 2
    then have "\<not> xds_fault cc b0 b1" using xds_fault_range [of cc b0 b1] by (auto simp: c1_def)
    then show ?thesis using 2 cc by (simp add: run f)
  next
    case 3
    then have "if xds_fault cc b0 b1 then xds_separator b0 b1 cc = Undef else good (xds_separator b0 b1 cc)"
      by (intro xds_separator_result cc) (simp add: c1_def)
    then show ?thesis using 3 by (auto simp: run f intro: bind)
  next
    case 4
    then have "\<not> xds_fault cc b0 b1" using xds_fault_range [of cc b0 b1] by (auto simp: c1_def)
    then show ?thesis using 4 good_decode_field [OF cx] by (simp add: run f)
  next
    case 5
    then have "if xds_fault cc b0 b1 then xds_separator b0 b1 cc = Undef else good (xds_separator b0 b1 cc)"
      by (intro xds_separator_result cc) (simp add: c1_def)
    then show ?thesis using 5 good_decode_field [OF cc] by (auto simp: run f)
  qed
qed

lemma decode_keeps: "caption_ok cc \<Longrightarrow> vbi_decode_caption line b0 b1 now cc = Ret cc' \<Longrightarrow> caption_ok cc'"
  using decode_result [of cc line b0 b1 now] by (auto split: if_splits)

lemma fetch_ok: "caption_ok cc \<Longrightarrow> vbi_fetch_cc_page pgno cc = Some (pg, cc') \<Longrightarrow> caption_ok cc'"
proof -
  assume cc: "caption_ok cc" and f: "vbi_fetch_cc_page pgno cc = Some (pg, cc')"
  have unat_bound: "(pgno - 1) AND 7 < 8" "0 \<le> (pgno - 1) AND 7" by simp_all
  define n where "n = nat ((pgno - 1) AND 7)"
  have n: "n < 9" using unat_bound unfolding n_def by linarith
  have "cc' = on_channel n (modify_page (the_other (ch_hidden (cc_channels cc ! n)))
      (\<lambda>pg. pg \<lparr> pg_dirty_y0 := ROWS, pg_dirty_y1 := -1, pg_dirty_roll := 0 \<rparr>)) cc"
    using f by (simp add: vbi_fetch_cc_page_def Let_def n_def split: if_splits)
  moreover have "channel_ok (modify_page p (\<lambda>pg. pg \<lparr> pg_dirty_y0 := ROWS, pg_dirty_y1 := -1, pg_dirty_roll := 0 \<rparr>) ch)"
    if "channel_ok ch" for p ch
    by (rule channel_ok_repaint [OF that repaint_modify_page [OF that]])
      (use that in \<open>auto simp: channel_ok_def dest: pages_ok_text\<close>)
  ultimately show ?thesis using on_channel_ok [OF cc n] by simp
qed

text \<open>
  The states of a decoder in use. A channel switch is a step of this relation only while no channel shows its second page; what
  happens otherwise is shown below.
\<close>

inductive caption_reach :: "caption \<Rightarrow> bool" where
  reach_init: "caption_reach (vbi_caption_init t)"
| reach_decode: "caption_reach cc \<Longrightarrow> vbi_decode_caption line b0 b1 now cc = Ret cc' \<Longrightarrow> caption_reach cc'"
| reach_desync: "caption_reach cc \<Longrightarrow> caption_reach (vbi_caption_desync cc)"
| reach_fetch: "caption_reach cc \<Longrightarrow> vbi_fetch_cc_page pgno cc = Some (pg, cc') \<Longrightarrow> caption_reach cc'"
| reach_switched: "caption_reach cc \<Longrightarrow> list_all (\<lambda>ch. ch_hidden ch = 0) (cc_channels cc) \<Longrightarrow>
    caption_reach (vbi_caption_channel_switched cc)"

lemma reach_ok: "caption_reach cc \<Longrightarrow> caption_ok cc"
proof (induction rule: caption_reach.induct)
  case (reach_switched cc)
  then show ?case by (intro caption_switched_ok) (auto simp: caption_ok_def list_all_iff channel_ok_def)
qed (auto intro: init_ok decode_keeps desync_ok fetch_ok)



end
