(* ===== verification/Caption_Text.thy ===== *)
theory Caption_Text
  imports Caption_Inv
begin

text \<open>
  What the Closed Caption decoder shows. The current line of a channel is a view of its hidden page: it can be read and replaced as
  a list of 34 cells, and the operations on characters are functions on this list. From these follow that a pop-on caption is
  displayed as transmitted, and how text rolls up.
\<close>

section \<open>The current line as a view\<close>

text \<open>A part \<open>get s\<close> of a state that can be replaced.\<close>

locale part_view =
  fixes ok :: "'s \<Rightarrow> bool" and width :: nat and get :: "'s \<Rightarrow> 'c list" and put :: "'c list \<Rightarrow> 's \<Rightarrow> 's"
  assumes ok_put: "ok s \<Longrightarrow> length v = width \<Longrightarrow> ok (put v s)"
    and length_get: "ok s \<Longrightarrow> length (get s) = width"
    and get_put: "ok s \<Longrightarrow> length v = width \<Longrightarrow> get (put v s) = v"
    and put_get: "ok s \<Longrightarrow> put (get s) s = s"
    and put_put: "ok s \<Longrightarrow> length v = width \<Longrightarrow> length w = width \<Longrightarrow> put w (put v s) = put w s"
begin

definition modify :: "('c list \<Rightarrow> 'c list) \<Rightarrow> 's \<Rightarrow> 's" where
  "modify f s = put (f (get s)) s"

lemma modify_modify:
  assumes "ok s" "\<And>v. length v = width \<Longrightarrow> length (f v) = width" "\<And>v. length v = width \<Longrightarrow> length (g v) = width"
  shows "modify g (modify f s) = modify (g \<circ> f) s"
  using assms by (simp add: modify_def get_put put_put length_get)

lemma get_modify: "ok s \<Longrightarrow> (\<And>v. length v = width \<Longrightarrow> length (f v) = width) \<Longrightarrow> get (modify f s) = f (get s)"
  by (simp add: modify_def get_put length_get)

lemma ok_modify: "ok s \<Longrightarrow> (\<And>v. length v = width \<Longrightarrow> length (f v) = width) \<Longrightarrow> ok (modify f s)"
  by (simp add: modify_def ok_put length_get)

lemma modify_id: "ok s \<Longrightarrow> modify (\<lambda>v. v) s = s"
  by (simp add: modify_def put_get)

end

definition text_of :: "cc_channel \<Rightarrow> nat \<Rightarrow> vbi_char list" where
  "text_of ch p = pg_text (ch_pg ch ! p)"

definition get_row :: "cc_channel \<Rightarrow> vbi_char list" where
  "get_row ch = take 34 (drop (34 * nat (ch_row ch)) (text_of ch (ch_hidden ch)))"

definition set_row :: "vbi_char list \<Rightarrow> cc_channel \<Rightarrow> cc_channel" where
  "set_row cells ch = modify_page (ch_hidden ch) (pg_text_update (c_memcpy (34 * nat (ch_row ch)) cells)) ch"

lemma nth_memcpy_text:
  "pos + length src \<le> length dst \<Longrightarrow> i < length dst \<Longrightarrow>
   c_memcpy pos src dst ! i = (if i < pos then dst ! i else if i < pos + length src then src ! (i - pos) else dst ! i)"
  by (auto simp: c_memcpy_def nth_append)

lemma c_memcpy_twice:
  "pos + length a \<le> length dst \<Longrightarrow> length b = length a \<Longrightarrow> c_memcpy pos b (c_memcpy pos a dst) = c_memcpy pos b dst"
  by (simp add: c_memcpy_def)

lemma c_memcpy_own: "pos + n \<le> length dst \<Longrightarrow> c_memcpy pos (take n (drop pos dst)) dst = dst"
  by (simp add: c_memcpy_def add.commute) (metis append_take_drop_id drop_drop)

lemma c_memcpy_get: "pos + length a \<le> length dst \<Longrightarrow> take (length a) (drop pos (c_memcpy pos a dst)) = a"
  by (simp add: c_memcpy_def)

lemma c_memcpy_set: "i < length a \<Longrightarrow> pos + length a \<le> length dst \<Longrightarrow>
  (c_memcpy pos a dst) [pos + i := c] = c_memcpy pos (a [i := c]) dst"
  by (simp add: c_memcpy_def list_update_append)

lemma list_update_memcpy: "pos + n \<le> length t \<Longrightarrow> i < n \<Longrightarrow> t [pos + i := c] = c_memcpy pos ((take n (drop pos t)) [i := c]) t"
  using c_memcpy_set [of i "take n (drop pos t)" pos t c] by (simp add: c_memcpy_own)

lemma channel_ok_text: "channel_ok ch \<Longrightarrow> p < 2 \<Longrightarrow> length (text_of ch p) = 1056"
  by (simp add: channel_ok_def text_of_def pages_ok_text)

lemma channel_ok_hidden: "channel_ok ch \<Longrightarrow> ch_hidden ch < 2"
  by (simp add: channel_ok_def)

lemma row_inside: "channel_ok ch \<Longrightarrow> 34 * nat (ch_row ch) + 34 \<le> 1056"
proof -
  assume "channel_ok ch"
  then have "ch_row ch \<le> 14" by (simp add: channel_ok_def)
  then have "nat (ch_row ch) \<le> 14" by linarith
  then show ?thesis by simp
qed

lemma pg_text_update_cong: "f (pg_text pg) = g (pg_text pg) \<Longrightarrow> pg_text_update f pg = pg_text_update g pg"
  by (cases pg) simp

lemma text_of_modify:
  "channel_ok ch \<Longrightarrow> p < 2 \<Longrightarrow> text_of (modify_page p (pg_text_update f) ch) q = (if q = p then f (text_of ch p) else text_of ch q)"
  by (auto simp: text_of_def modify_page_def channel_ok_def pages_ok_def)

lemma modify_page_fields [simp]:
  "ch_mode (modify_page p f ch) = ch_mode ch" "ch_col (modify_page p f ch) = ch_col ch" "ch_col1 (modify_page p f ch) = ch_col1 ch"
  "ch_row (modify_page p f ch) = ch_row ch" "ch_row1 (modify_page p f ch) = ch_row1 ch" "ch_roll (modify_page p f ch) = ch_roll ch"
  "ch_attr (modify_page p f ch) = ch_attr ch" "ch_line_page (modify_page p f ch) = ch_line_page ch"
  "ch_line_off (modify_page p f ch) = ch_line_off ch" "ch_hidden (modify_page p f ch) = ch_hidden ch"
  by (simp_all add: modify_page_def)

lemma set_row_fields [simp]:
  "ch_mode (set_row v ch) = ch_mode ch" "ch_col (set_row v ch) = ch_col ch" "ch_col1 (set_row v ch) = ch_col1 ch"
  "ch_row (set_row v ch) = ch_row ch" "ch_row1 (set_row v ch) = ch_row1 ch" "ch_roll (set_row v ch) = ch_roll ch"
  "ch_attr (set_row v ch) = ch_attr ch" "ch_hidden (set_row v ch) = ch_hidden ch"
  by (simp_all add: set_row_def)

lemma modify_page_twice: "modify_page p f (modify_page p g ch) = modify_page p (\<lambda>pg. f (g pg)) ch" if "p < length (ch_pg ch)"
  using that by (simp add: modify_page_def)

lemma modify_page_id: "p < length (ch_pg ch) \<Longrightarrow> f (ch_pg ch ! p) = ch_pg ch ! p \<Longrightarrow> modify_page p f ch = ch"
  by (simp add: modify_page_def)

lemma text_of_set_row:
  "channel_ok ch \<Longrightarrow> text_of (set_row v ch) q
     = (if q = ch_hidden ch then c_memcpy (34 * nat (ch_row ch)) v (text_of ch (ch_hidden ch)) else text_of ch q)"
  by (simp add: set_row_def text_of_modify channel_ok_hidden)

interpretation line: part_view channel_ok 34 get_row set_row
proof unfold_locales
  fix ch :: cc_channel and v w :: "vbi_char list"
  assume ok: "channel_ok ch"
  note len = channel_ok_text [OF ok channel_ok_hidden [OF ok]]
  note row = row_inside [OF ok]
  have p: "ch_hidden ch < length (ch_pg ch)" using ok by (simp add: channel_ok_def pages_ok_def)
  show "length (get_row ch) = 34" using len row by (simp add: get_row_def)
  have "pg_text_update (c_memcpy (34 * nat (ch_row ch)) (get_row ch)) (ch_pg ch ! ch_hidden ch) = ch_pg ch ! ch_hidden ch"
    using c_memcpy_own [of "34 * nat (ch_row ch)" 34 "text_of ch (ch_hidden ch)"] len row
    by (simp add: get_row_def text_of_def)
  then show "set_row (get_row ch) ch = ch" unfolding set_row_def by (rule modify_page_id [OF p])
  assume v: "length v = 34"
  show "channel_ok (set_row v ch)"
    unfolding set_row_def by (rule channel_ok_repaint [OF ok repaint_text [OF ok]]) (use v row in simp)
  show "get_row (set_row v ch) = v"
    using c_memcpy_get [of "34 * nat (ch_row ch)" v "text_of ch (ch_hidden ch)"] v len row ok
    by (simp add: get_row_def text_of_set_row)
  assume w: "length w = 34"
  have "length (pg_text (ch_pg ch ! ch_hidden ch)) = 1056" using len by (simp add: text_of_def)
  then have "pg_text_update (c_memcpy (34 * nat (ch_row ch)) w \<circ> c_memcpy (34 * nat (ch_row ch)) v) (ch_pg ch ! ch_hidden ch)
    = pg_text_update (c_memcpy (34 * nat (ch_row ch)) w) (ch_pg ch ! ch_hidden ch)"
    using v w row by (intro pg_text_update_cong) (simp add: c_memcpy_twice)
  then show "set_row w (set_row v ch) = set_row w ch"
    using p by (simp add: set_row_def modify_page_def)
qed

subsection \<open>Operations on the view\<close>

lemma nat_offset: "channel_ok ch \<Longrightarrow> 0 \<le> i \<Longrightarrow> nat (ch_row ch * 34 + i) = 34 * nat (ch_row ch) + nat i"
  by (auto simp: channel_ok_def nat_add_distrib nat_mult_distrib)

lemma line_get_view:
  assumes "channel_ok ch" "0 \<le> i" "i < 34"
  shows "line_get i ch = Ret (get_row ch ! nat i)"
  using line_get_ok [of ch i] assms channel_ok_text [OF assms(1) channel_ok_hidden [OF assms(1)]] row_inside [OF assms(1)]
  by (simp add: get_row_def text_of_def nat_offset)

lemma line_set_view:
  assumes "channel_ok ch" "0 \<le> i" "i < 34"
  shows "line_set i c ch = Ret (set_row ((get_row ch) [nat i := c]) ch)"
proof -
  let ?t = "text_of ch (ch_hidden ch)"
  have "?t [34 * nat (ch_row ch) + nat i := c] = c_memcpy (34 * nat (ch_row ch)) ((get_row ch) [nat i := c]) ?t"
    unfolding get_row_def
    using channel_ok_text [OF assms(1) channel_ok_hidden [OF assms(1)]] row_inside [OF assms(1)] assms(2,3)
    by (intro list_update_memcpy) auto
  then have "pg_text_update (\<lambda>t. t [34 * nat (ch_row ch) + nat i := c]) (ch_pg ch ! ch_hidden ch)
    = pg_text_update (c_memcpy (34 * nat (ch_row ch)) ((get_row ch) [nat i := c])) (ch_pg ch ! ch_hidden ch)"
    by (intro pg_text_update_cong) (simp add: text_of_def)
  then show ?thesis
    using line_set_ok [of ch i c] assms by (simp add: nat_offset set_row_def modify_page_def)
qed

text \<open>The spaces around a word, as a function on the cells.\<close>

definition blank_cell :: "vbi_char \<Rightarrow> bool" where
  "blank_cell c \<longleftrightarrow> vc_unicode c AND 0x7F = 0x20"

definition to_space :: "vbi_char \<Rightarrow> vbi_char" where
  "to_space c = c \<lparr> vc_unicode := 0x20 \<rparr>"

definition spaced :: "nat \<Rightarrow> nat \<Rightarrow> vbi_char list \<Rightarrow> vbi_char list" where
  "spaced near pos cells =
     (if \<not> blank_cell (cells ! near) \<and> vc_opacity (cells ! pos) = VBI_TRANSPARENT_SPACE
      then cells [pos := to_space (cells ! near)] else cells)"

definition word_spaces :: "nat \<Rightarrow> nat \<Rightarrow> vbi_char list \<Rightarrow> vbi_char list" where
  "word_spaces col1 col cells = (if col1 < col then spaced (col - 1) col (spaced col1 (col1 - 1) cells) else cells)"

lemma length_spaced [simp]: "length (spaced near pos cells) = length cells"
  by (simp add: spaced_def)

lemma length_word_spaces [simp]: "length (word_spaces col1 col cells) = length cells"
  by (simp add: word_spaces_def)

lemma add_space_view:
  assumes "channel_ok ch" "0 \<le> i" "i < 34" "0 \<le> j" "j < 34"
  shows "add_space i j ch = Ret (set_row (spaced (nat i) (nat j) (get_row ch)) ch)"
  using assms line.put_get [OF assms(1)]
  by (auto simp: add_space_def line_get_view line_set_view spaced_def blank_cell_def to_space_def)

lemma word_break_spaces:
  assumes ok: "channel_ok ch"
  shows "(if ch_col1 ch < ch_col ch
     then c_bind (add_space (ch_col1 ch) (ch_col1 ch - 1) ch) (\<lambda>ch. add_space (ch_col ch - 1) (ch_col ch) ch) else Ret ch)
     = Ret (set_row (word_spaces (nat (ch_col1 ch)) (nat (ch_col ch)) (get_row ch)) ch)"
proof (cases "ch_col1 ch < ch_col ch")
  case True
  have col: "1 \<le> ch_col1 ch" "ch_col ch \<le> 33" using ok by (auto simp: channel_ok_def)
  let ?s = "spaced (nat (ch_col1 ch)) (nat (ch_col1 ch - 1)) (get_row ch)"
  have len: "length ?s = 34" by (simp add: line.length_get [OF ok])
  have a: "add_space (ch_col1 ch) (ch_col1 ch - 1) ch = Ret (set_row ?s ch)"
    by (rule add_space_view [OF ok]) (use col True in auto)
  have b: "add_space (ch_col ch - 1) (ch_col ch) (set_row ?s ch)
      = Ret (set_row (spaced (nat (ch_col ch - 1)) (nat (ch_col ch)) (get_row (set_row ?s ch))) (set_row ?s ch))"
    by (rule add_space_view [OF line.ok_put [OF ok len]]) (use col True in auto)
  have n: "nat (ch_col1 ch) < nat (ch_col ch)" "nat (ch_col1 ch - 1) = nat (ch_col1 ch) - 1" "nat (ch_col ch - 1) = nat (ch_col ch) - 1"
    using col True by auto
  have len2: "length (spaced (nat (ch_col ch - 1)) (nat (ch_col ch)) ?s) = 34" using len by simp
  have "c_bind (add_space (ch_col1 ch) (ch_col1 ch - 1) ch) (\<lambda>ch. add_space (ch_col ch - 1) (ch_col ch) ch)
      = Ret (set_row (spaced (nat (ch_col ch - 1)) (nat (ch_col ch)) ?s) ch)"
    by (simp only: a c_bind_simps set_row_fields b line.get_put [OF ok len] line.put_put [OF ok len len2])
  then show ?thesis using True n by (simp add: word_spaces_def)
next
  case False
  then show ?thesis by (simp add: word_spaces_def line.put_get [OF ok])
qed

text \<open>While a pop-on caption is loaded, or without update, a word break concerns the hidden page only.\<close>

lemma word_break_pop_on:
  assumes "channel_ok ch" "\<not> upd \<or> ch_mode ch = MODE_POP_ON"
  shows "word_break upd (ch, calls) = Ret (set_row (word_spaces (nat (ch_col1 ch)) (nat (ch_col ch)) (get_row ch)) ch, calls)"
  using assms(2) by (auto simp: word_break_def word_break_spaces [OF assms(1)])

lemma update_view:
  assumes ok: "channel_ok ch"
  shows "update ch = Ret (modify_page (the_other (ch_hidden ch)) (pg_text_update (c_memcpy (34 * nat (ch_row ch)) (get_row ch))) ch)"
proof -
  have off: "ch_line_page ch = ch_hidden ch" "ch_line_off ch = ch_row ch * 34" "0 \<le> ch_row ch" "ch_row ch \<le> 14"
    using ok by (auto simp: channel_ok_def)
  have "nat (ch_row ch * 34) = 34 * nat (ch_row ch)" using nat_offset [OF ok, of 0] by simp
  then show ?thesis
    using off by (simp add: update_def text_move_def Let_def cc_sizes get_row_def text_of_def)
qed

lemma word_break_update:
  assumes ok: "channel_ok ch" and "ch_mode ch \<noteq> MODE_POP_ON"
  shows "\<exists>ch' calls'. word_break True (ch, calls) = Ret (ch', calls') \<and> repaint ch ch'
     \<and> (let cells = word_spaces (nat (ch_col1 ch)) (nat (ch_col ch)) (get_row ch)
        in text_of ch' (ch_hidden ch) = c_memcpy (34 * nat (ch_row ch)) cells (text_of ch (ch_hidden ch))
           \<and> text_of ch' (the_other (ch_hidden ch)) = c_memcpy (34 * nat (ch_row ch)) cells (text_of ch (the_other (ch_hidden ch))))"
proof -
  define cells where "cells = word_spaces (nat (ch_col1 ch)) (nat (ch_col ch)) (get_row ch)"
  define h where "h = ch_hidden ch"
  have len: "length cells = 34" by (simp add: cells_def line.length_get [OF ok])
  have ok1: "channel_ok (set_row cells ch)" using line.ok_put [OF ok len] .
  define ch2 where "ch2 = modify_page (the_other h) (pg_text_update (c_memcpy (34 * nat (ch_row ch)) cells)) (set_row cells ch)"
  have u: "update (set_row cells ch) = Ret ch2"
    using update_view [OF ok1] by (simp add: ch2_def h_def line.get_put [OF ok len])
  have h: "h < 2" "h \<noteq> the_other h" using channel_ok_hidden [OF ok] by (auto simp: h_def the_other_def)
  have ok2: "channel_ok ch2" using update_repaint [OF ok1] channel_ok_repaint [OF ok1] u by auto
  have t: "text_of ch2 h = c_memcpy (34 * nat (ch_row ch)) cells (text_of ch h)"
    "text_of ch2 (the_other h) = c_memcpy (34 * nat (ch_row ch)) cells (text_of ch (the_other h))"
    using h by (simp_all add: ch2_def text_of_modify [OF ok1] text_of_set_row [OF ok] h_def)
  let ?r = "render 1 (ch_row ch2) (ch2, calls)"
  have text_render: "text_of (fst ?r) q = text_of ch2 q" for q
    using ok2 by (cases "q = 1") (auto simp: render_def send_caption_def text_of_def modify_page_def channel_ok_def pages_ok_def)
  have run: "word_break True (ch, calls) = Ret ?r"
    using assms(2) by (simp add: word_break_def word_break_spaces [OF ok] u flip: cells_def)
  have "repaint ch (fst ?r)"
    using word_break_run [OF ok, of True calls] run by (metis c_result.inject fst_conv)
  then show ?thesis
    using run t text_render by (cases ?r) (simp add: Let_def flip: cells_def h_def)
qed

section \<open>Pop-on captions\<close>

text \<open>
  A caption of the cells \<open>cs\<close> in a row of transparent spaces, with the spaces a word break adds: one before the caption, in the style of its
  first character, and one after it in the style of the last one.
\<close>

definition caption_cells :: "vbi_char \<Rightarrow> vbi_char list \<Rightarrow> vbi_char list" where
  "caption_cells space cs =
     (if cs = [] then replicate 34 space
      else (if blank_cell (hd cs) then space else to_space (hd cs)) # cs
         @ (if blank_cell (last cs) then space else to_space (last cs)) # replicate (32 - length cs) space)"

text \<open>A caption being loaded: the first \<open>length cs\<close> characters have been received.\<close>

definition partial_cells :: "vbi_char \<Rightarrow> vbi_char \<Rightarrow> vbi_char list \<Rightarrow> vbi_char list" where
  "partial_cells x space cs = x # cs @ replicate (33 - length cs) space"

definition loading :: "vbi_char \<Rightarrow> vbi_char \<Rightarrow> nat \<Rightarrow> vbi_char list \<Rightarrow> cc_channel \<Rightarrow> bool" where
  "loading space attr r cs ch \<longleftrightarrow> channel_ok ch \<and> ch_mode ch = MODE_POP_ON \<and> ch_row ch = int r \<and> ch_attr ch = attr
     \<and> ch_col1 ch = 1 \<and> ch_col ch = 1 + int (length cs) \<and> length cs \<le> 32
     \<and> list_all (\<lambda>c. vc_opacity c \<noteq> VBI_TRANSPARENT_SPACE) cs
     \<and> (\<exists>x rest. text_of ch (ch_hidden ch) = c_memcpy (34 * r) (partial_cells x space cs) (replicate 510 space @ rest) \<and> length rest = 546
          \<and> (x = space \<or> cs \<noteq> [] \<and> \<not> blank_cell (hd cs) \<and> x = to_space (hd cs)))"

lemma length_partial: "length cs \<le> 32 \<Longrightarrow> length (partial_cells x space cs) = 34"
  by (simp add: partial_cells_def)

lemma partial_set: "length cs \<le> 32 \<Longrightarrow> (partial_cells x space cs) [Suc (length cs) := c] = partial_cells x space (cs @ [c])"
proof -
  assume "length cs \<le> 32"
  then have "33 - length cs = Suc (32 - length cs)" by simp
  then show ?thesis by (simp add: partial_cells_def list_update_append)
qed

lemma partial_nth_hd: "cs \<noteq> [] \<Longrightarrow> partial_cells x space cs ! Suc 0 = hd cs"
  by (cases cs) (simp_all add: partial_cells_def)

lemma partial_nth_last: "cs \<noteq> [] \<Longrightarrow> partial_cells x space cs ! length cs = last cs"
  by (cases cs rule: rev_cases) (simp_all add: partial_cells_def nth_append)

lemma partial_nth_next: "length cs \<le> 32 \<Longrightarrow> partial_cells x space cs ! Suc (length cs) = space"
  by (simp add: partial_cells_def nth_append)

lemma to_space_opacity [simp]: "vc_opacity (to_space c) = vc_opacity c"
  by (simp add: to_space_def)

text \<open>A word break while the caption is loaded, and at its end.\<close>

lemma word_spaces_partial:
  assumes "length cs \<le> 32" "cs \<noteq> []" "vc_opacity space = VBI_TRANSPARENT_SPACE" "list_all (\<lambda>c. vc_opacity c \<noteq> VBI_TRANSPARENT_SPACE) cs"
    and x: "x = space \<or> \<not> blank_cell (hd cs) \<and> x = to_space (hd cs)"
  shows "word_spaces 1 (Suc (length cs)) (partial_cells x space cs)
    = (if blank_cell (last cs) then partial_cells (if blank_cell (hd cs) then space else to_space (hd cs)) space cs else caption_cells space cs)"
proof -
  let ?x = "if blank_cell (hd cs) then space else to_space (hd cs)"
  have hd: "vc_opacity (hd cs) \<noteq> VBI_TRANSPARENT_SPACE" using assms(2,4) by (cases cs) simp_all
  have "partial_cells x space cs ! 0 = x" by (simp add: partial_cells_def)
  then have lead: "spaced 1 0 (partial_cells x space cs) = partial_cells ?x space cs"
    using x hd assms(3) partial_nth_hd [OF assms(2), of x space] by (auto simp: spaced_def) (simp_all add: partial_cells_def)
  have "33 - length cs = Suc (32 - length cs)" using assms(1) by simp
  then have trail: "spaced (length cs) (Suc (length cs)) (partial_cells ?x space cs)
      = (if blank_cell (last cs) then partial_cells ?x space cs else caption_cells space cs)"
    using assms(2,3) partial_nth_last [OF assms(2), of ?x space] partial_nth_next [OF assms(1), of ?x space]
    by (auto simp: spaced_def caption_cells_def) (simp_all add: partial_cells_def list_update_append)
  show ?thesis using assms(2) lead trail by (simp add: word_spaces_def)
qed

lemma caption_cells_blank:
  "length cs \<le> 32 \<Longrightarrow> cs \<noteq> [] \<Longrightarrow> blank_cell (last cs) \<Longrightarrow>
   caption_cells space cs = partial_cells (if blank_cell (hd cs) then space else to_space (hd cs)) space cs"
proof -
  assume "length cs \<le> 32" "cs \<noteq> []" "blank_cell (last cs)"
  then have "33 - length cs = Suc (32 - length cs)" by simp
  then show ?thesis using \<open>cs \<noteq> []\<close> \<open>blank_cell (last cs)\<close> by (simp add: caption_cells_def partial_cells_def)
qed

lemma length_caption_cells: "length cs \<le> 32 \<Longrightarrow> length (caption_cells space cs) = 34"
  by (simp add: caption_cells_def)

lemma word_spaces_caption:
  assumes "length cs \<le> 32" "cs \<noteq> []" "vc_opacity space = VBI_TRANSPARENT_SPACE" "list_all (\<lambda>c. vc_opacity c \<noteq> VBI_TRANSPARENT_SPACE) cs"
  shows "word_spaces 1 (Suc (length cs)) (caption_cells space cs) = caption_cells space cs"
proof (cases "blank_cell (last cs)")
  case True
  then show ?thesis
    using word_spaces_partial [OF assms, of "if blank_cell (hd cs) then space else to_space (hd cs)"]
    by (simp only: caption_cells_blank [OF assms(1,2) True]) auto
next
  case False
  have o: "vc_opacity (hd cs) \<noteq> VBI_TRANSPARENT_SPACE" "vc_opacity (last cs) \<noteq> VBI_TRANSPARENT_SPACE"
    using assms(2,4) by (auto simp: list_all_iff)
  have "caption_cells space cs ! 0 = (if blank_cell (hd cs) then space else to_space (hd cs))" "caption_cells space cs ! Suc 0 = hd cs"
    "caption_cells space cs ! Suc (length cs) = to_space (last cs)"
    using assms(2) False by (simp_all add: caption_cells_def nth_append hd_conv_nth)
  then show ?thesis using assms(2) o by (auto simp: word_spaces_def spaced_def)
qed

lemma loading_row:
  assumes "channel_ok ch" "ch_row ch = int r" "text_of ch (ch_hidden ch) = c_memcpy (34 * r) cells base" "length cells = 34" "length base = 1056"
  shows "get_row ch = cells"
proof -
  have "34 * r + 34 \<le> 1056" using row_inside [OF assms(1)] assms(2) by simp
  then show ?thesis using c_memcpy_get [of "34 * r" cells base] assms(2-) by (simp add: get_row_def)
qed

lemma loading_put_char:
  assumes l: "loading space attr r cs ch" and n: "length cs < 32" and o: "vc_opacity c \<noteq> VBI_TRANSPARENT_SPACE"
    and space: "vc_opacity space = VBI_TRANSPARENT_SPACE"
  shows "\<exists>ch'. put_char c (ch, calls) = Ret (ch', calls) \<and> loading space attr r (cs @ [c]) ch'"
proof -
  have ok: "channel_ok ch" and m: "ch_mode ch = MODE_POP_ON" and row: "ch_row ch = int r" and a: "ch_attr ch = attr"
    and col: "ch_col1 ch = 1" "ch_col ch = 1 + int (length cs)" and opq: "list_all (\<lambda>c. vc_opacity c \<noteq> VBI_TRANSPARENT_SPACE) cs"
    using l by (auto simp: loading_def)
  obtain x rest where t: "text_of ch (ch_hidden ch) = c_memcpy (34 * r) (partial_cells x space cs) (replicate 510 space @ rest)"
    and rest: "length rest = 546" and x: "x = space \<or> cs \<noteq> [] \<and> \<not> blank_cell (hd cs) \<and> x = to_space (hd cs)"
    using l by (auto simp: loading_def)
  have n32: "length cs \<le> 32" using n by simp
  have r34: "34 * r + 34 \<le> 1056" using row_inside [OF ok] row by simp
  have g: "get_row ch = partial_cells x space cs"
    by (rule loading_row [OF ok row t]) (simp_all add: length_partial n32 rest)
  define ch1 where "ch1 = (set_row (partial_cells x space (cs @ [c])) ch) \<lparr> ch_col := ch_col ch + 1 \<rparr>"
  have len1: "length (partial_cells x space (cs @ [c])) = 34" using n by (intro length_partial) simp
  have s: "line_set (ch_col ch) c ch = Ret (set_row (partial_cells x space (cs @ [c])) ch)"
    using line_set_view [OF ok, of "ch_col ch" c] col n by (simp add: g nat_add_distrib partial_set n32)
  have ok1: "channel_ok ch1"
    using line.ok_put [OF ok len1] col n by (auto simp: ch1_def channel_ok_def)
  have row1: "ch_row ch1 = int r" using row by (simp add: ch1_def)
  have "text_of ch1 (ch_hidden ch1) = text_of (set_row (partial_cells x space (cs @ [c])) ch) (ch_hidden ch)"
    by (simp add: ch1_def text_of_def)
  also have "\<dots> = c_memcpy (34 * r) (partial_cells x space (cs @ [c])) (replicate 510 space @ rest)"
    using t row r34 rest len1 length_partial [OF n32] by (simp add: text_of_set_row [OF ok] c_memcpy_twice)
  finally have t1: "text_of ch1 (ch_hidden ch1) = \<dots>" .
  have f1: "ch_mode ch1 = MODE_POP_ON" "ch_attr ch1 = attr" "ch_col1 ch1 = 1" "ch_col ch1 = 1 + int (length (cs @ [c]))"
    "list_all (\<lambda>c. vc_opacity c \<noteq> VBI_TRANSPARENT_SPACE) (cs @ [c])" "length (cs @ [c]) \<le> 32"
    using m a col opq o n by (simp_all add: ch1_def)
  have x1: "x = space \<or> cs @ [c] \<noteq> [] \<and> \<not> blank_cell (hd (cs @ [c])) \<and> x = to_space (hd (cs @ [c]))"
    using x by (cases cs) auto
  have put: "put_char c (ch, calls) = (if blank_cell c then word_break True (ch1, calls) else Ret (ch1, calls))"
    using s col n by (simp add: put_char_def cc_sizes ch1_def blank_cell_def)
  show ?thesis
  proof (cases "blank_cell c")
    case False
    then show ?thesis using put ok1 row1 t1 f1 x1 rest by (auto simp: loading_def)
  next
    case True
    let ?x = "if blank_cell (hd (cs @ [c])) then space else to_space (hd (cs @ [c]))"
    have g1: "get_row ch1 = partial_cells x space (cs @ [c])" by (rule loading_row [OF ok1 row1 t1]) (simp_all add: len1 rest)
    have ws: "word_spaces 1 (Suc (length (cs @ [c]))) (partial_cells x space (cs @ [c])) = partial_cells ?x space (cs @ [c])"
      using word_spaces_partial [OF f1(6) _ space f1(5), of x] x1 True by auto
    have nat: "nat (ch_col1 ch1) = 1" "nat (ch_col ch1) = Suc (length (cs @ [c]))" using f1(3,4) by simp_all
    let ?ch2 = "set_row (partial_cells ?x space (cs @ [c])) ch1"
    have "word_break True (ch1, calls) = Ret (?ch2, calls)"
      using word_break_pop_on [OF ok1, of True calls] f1(1) unfolding g1 nat ws by blast
    moreover have len2: "length (partial_cells ?x space (cs @ [c])) = 34" by (rule length_partial [OF f1(6)])
    have "text_of ?ch2 (ch_hidden ?ch2) = c_memcpy (34 * r) (partial_cells ?x space (cs @ [c])) (replicate 510 space @ rest)"
      using t1 row1 r34 rest len1 len2 by (simp add: text_of_set_row [OF ok1] c_memcpy_twice)
    then have "loading space attr r (cs @ [c]) ?ch2"
      using line.ok_put [OF ok1 len2] row1 f1 rest by (auto simp: loading_def)
    ultimately show ?thesis using put True by simp
  qed
qed

text \<open>The end of a caption: the text appears on the displayed page, and the hidden page is erased.\<close>

definition loaded :: "vbi_char \<Rightarrow> nat \<Rightarrow> vbi_char list \<Rightarrow> cc_channel \<Rightarrow> bool" where
  "loaded space r cs ch \<longleftrightarrow> channel_ok ch \<and> ch_mode ch = MODE_POP_ON \<and> ch_row ch = int r
     \<and> ch_col1 ch = 1 \<and> ch_col ch = 1 + int (length cs) \<and> length cs \<le> 32
     \<and> list_all (\<lambda>c. vc_opacity c \<noteq> VBI_TRANSPARENT_SPACE) cs
     \<and> (\<exists>rest. text_of ch (ch_hidden ch) = c_memcpy (34 * r) (caption_cells space cs) (replicate 510 space @ rest) \<and> length rest = 546)"

lemma loading_word_break:
  assumes l: "loading space attr r cs ch" and space: "vc_opacity space = VBI_TRANSPARENT_SPACE"
  shows "\<exists>ch'. word_break True (ch, calls) = Ret (ch', calls) \<and> loaded space r cs ch'"
proof -
  have ok: "channel_ok ch" and m: "ch_mode ch = MODE_POP_ON" and row: "ch_row ch = int r" and n: "length cs \<le> 32"
    and col: "ch_col1 ch = 1" "ch_col ch = 1 + int (length cs)" and opq: "list_all (\<lambda>c. vc_opacity c \<noteq> VBI_TRANSPARENT_SPACE) cs"
    using l by (auto simp: loading_def)
  obtain x rest where t: "text_of ch (ch_hidden ch) = c_memcpy (34 * r) (partial_cells x space cs) (replicate 510 space @ rest)"
    and rest: "length rest = 546" and x: "x = space \<or> cs \<noteq> [] \<and> \<not> blank_cell (hd cs) \<and> x = to_space (hd cs)"
    using l by (auto simp: loading_def)
  have r34: "34 * r + 34 \<le> 1056" using row_inside [OF ok] row by simp
  have g: "get_row ch = partial_cells x space cs"
    by (rule loading_row [OF ok row t]) (simp_all add: length_partial n rest)
  have ws: "word_spaces 1 (Suc (length cs)) (partial_cells x space cs) = caption_cells space cs"
  proof (cases "cs = []")
    case True
    then show ?thesis using x by (simp add: word_spaces_def caption_cells_def partial_cells_def flip: replicate_Suc)
  next
    case False
    then show ?thesis
      using word_spaces_partial [OF n False space opq, of x] x caption_cells_blank [OF n False] by auto
  qed
  have nat: "nat (ch_col1 ch) = 1" "nat (ch_col ch) = Suc (length cs)" using col by simp_all
  let ?ch = "set_row (caption_cells space cs) ch"
  have len: "length (caption_cells space cs) = 34" by (rule length_caption_cells [OF n])
  have "word_break True (ch, calls) = Ret (?ch, calls)"
    using word_break_pop_on [OF ok, of True calls] m unfolding g nat ws by blast
  moreover have "text_of ?ch (ch_hidden ?ch) = c_memcpy (34 * r) (caption_cells space cs) (replicate 510 space @ rest)"
    using t row r34 rest len length_partial [OF n] by (simp add: text_of_set_row [OF ok] c_memcpy_twice)
  then have "loaded space r cs ?ch" using line.ok_put [OF ok len] m row col n opq rest by (auto simp: loaded_def)
  ultimately show ?thesis by blast
qed

lemma loaded_word_break:
  assumes l: "loaded space r cs ch" and space: "vc_opacity space = VBI_TRANSPARENT_SPACE"
  shows "word_break True (ch, calls) = Ret (ch, calls)"
proof -
  have ok: "channel_ok ch" and m: "ch_mode ch = MODE_POP_ON" and row: "ch_row ch = int r" and n: "length cs \<le> 32"
    and col: "ch_col1 ch = 1" "ch_col ch = 1 + int (length cs)" and opq: "list_all (\<lambda>c. vc_opacity c \<noteq> VBI_TRANSPARENT_SPACE) cs"
    using l by (auto simp: loaded_def)
  obtain rest where t: "text_of ch (ch_hidden ch) = c_memcpy (34 * r) (caption_cells space cs) (replicate 510 space @ rest)" "length rest = 546"
    using l by (auto simp: loaded_def)
  have g: "get_row ch = caption_cells space cs"
    by (rule loading_row [OF ok row t(1)]) (simp_all add: length_caption_cells n t(2))
  have "word_spaces 1 (Suc (length cs)) (caption_cells space cs) = caption_cells space cs"
    using word_spaces_caption [OF n _ space opq] by (cases "cs = []") (simp_all add: word_spaces_def)
  moreover have "nat (ch_col1 ch) = 1" "nat (ch_col ch) = Suc (length cs)" using col by simp_all
  ultimately show ?thesis
    using word_break_pop_on [OF ok, of True calls] m line.put_get [OF ok] by (simp only: g) simp
qed

lemma text_of_fields [simp]:
  "text_of (ch \<lparr> ch_hidden := h \<rparr>) p = text_of ch p" "text_of (set_cursor col row ch) p = text_of ch p"
  "text_of (ch \<lparr> ch_mode := m \<rparr>) p = text_of ch p" "text_of (ch \<lparr> ch_attr := a \<rparr>) p = text_of ch p"
  by (simp_all add: text_of_def set_cursor_def)

lemma text_of_page:
  "text_of (modify_page p f ch) q = (if q = p \<and> p < length (ch_pg ch) then pg_text (f (ch_pg ch ! p)) else text_of ch q)"
  by (cases "p < length (ch_pg ch)") (auto simp: text_of_def modify_page_def list_update_beyond)

lemma text_of_render [simp]: "text_of (fst (render p row w)) q = text_of (fst w) q"
  by (cases w) (simp add: render_def send_caption_def text_of_page, auto simp: text_of_def)

lemma text_of_erase:
  "channel_ok ch \<Longrightarrow> p < 2 \<Longrightarrow> text_of (erase_memory space p ch) q
     = (if q = p then replicate 510 space @ drop 510 (text_of ch p) else text_of ch q)"
  by (simp add: erase_memory_def text_of_page channel_ok_def pages_ok_def cc_sizes) (simp add: text_of_def)

lemma render_fields [simp]:
  "ch_mode (fst (render p row w)) = ch_mode (fst w)" "ch_hidden (fst (render p row w)) = ch_hidden (fst w)"
  "ch_row (fst (render p row w)) = ch_row (fst w)" "ch_attr (fst (render p row w)) = ch_attr (fst w)"
  "length (ch_pg (fst (render p row w))) = length (ch_pg (fst w))"
  by (cases w, simp add: render_def send_caption_def modify_page_def)+

lemma show_loaded:
  assumes l: "loaded space r cs ch" and space: "vc_opacity space = VBI_TRANSPARENT_SPACE"
  shows "\<exists>ch' calls'. show_caption space (ch, calls) = Ret (ch', calls') \<and> channel_ok ch'
     \<and> take 510 (text_of ch' (the_other (ch_hidden ch'))) = c_memcpy (34 * r) (caption_cells space cs) (replicate 510 space)"
proof -
  have ok: "channel_ok ch" and m: "ch_mode ch = MODE_POP_ON" and row: "ch_row ch = int r" and n: "length cs \<le> 32" using l by (auto simp: loaded_def)
  obtain rest where t: "text_of ch (ch_hidden ch) = c_memcpy (34 * r) (caption_cells space cs) (replicate 510 space @ rest)"
    using l by (auto simp: loaded_def)
  have "ch_mode_update (\<lambda>_. MODE_POP_ON) ch = ch" using m by simp
  then have wb: "word_break True (ch_mode_update (\<lambda>_. MODE_POP_ON) ch, calls) = Ret (ch, calls)"
    using loaded_word_break [OF l space] by simp
  define h where "h = the_other (ch_hidden ch)"
  have h: "h < 2" "the_other h = ch_hidden ch" "h \<noteq> ch_hidden ch"
    using channel_ok_hidden [OF ok] by (auto simp: h_def the_other_def)
  define w where "w = render (the_other h) (-1) (ch \<lparr> ch_hidden := h \<rparr>, calls)"
  have run: "show_caption space (ch, calls) = Ret (set_cursor 1 (ROWS - 1) (erase_memory space h (fst w)), snd w)"
    using wb by (cases w) (simp add: show_caption_def Let_def h_def w_def)
  obtain ch' calls' where keep: "show_caption space (ch, calls) = Ret (ch', calls')" "channel_ok ch'"
    using show_caption_ok ok by (fastforce simp: keeps_def)
  have len: "length (ch_pg (fst w)) = 2" using ok by (simp add: w_def channel_ok_def pages_ok_def)
  have "text_of (set_cursor 1 (ROWS - 1) (erase_memory space h (fst w))) (ch_hidden ch) = text_of ch (ch_hidden ch)"
    using h by (simp add: erase_memory_def text_of_page w_def)
  moreover have "the_other (ch_hidden ch') = ch_hidden ch" using keep(1) run h by (auto simp: w_def set_cursor_def)
  moreover have "34 * r + 34 \<le> 510" using ok row by (simp add: channel_ok_def)
  then have "take 510 (c_memcpy (34 * r) (caption_cells space cs) (replicate 510 space @ rest))
      = c_memcpy (34 * r) (caption_cells space cs) (replicate 510 space)"
    using length_caption_cells [OF n] by (simp add: c_memcpy_def)
  ultimately show ?thesis using keep run t by auto
qed

text \<open>A preamble address code at the left margin, on a page that has been erased.\<close>

definition preamble_attr :: "u8 \<Rightarrow> vbi_char \<Rightarrow> vbi_char" where
  "preamble_attr c2 a = a \<lparr> vc_underline := c2 AND 1 \<noteq> 0, vc_background := VBI_BLACK, vc_opacity := VBI_OPAQUE, vc_flash := False,
     vc_italic := False, vc_foreground := VBI_WHITE \<rparr>"

definition erased_hidden :: "vbi_char \<Rightarrow> cc_channel \<Rightarrow> bool" where
  "erased_hidden space ch \<longleftrightarrow> channel_ok ch \<and> ch_mode ch = MODE_POP_ON
     \<and> (\<exists>rest. text_of ch (ch_hidden ch) = replicate 510 space @ rest)"

lemma erased_row:
  assumes "erased_hidden space ch"
  shows "get_row ch = replicate 34 space"
proof -
  have "channel_ok ch" using assms by (simp add: erased_hidden_def)
  then have "ch_row ch \<le> 14" by (simp add: channel_ok_def)
  then have "34 * nat (ch_row ch) + 34 \<le> 510" by linarith
  then show ?thesis using assms by (auto simp: erased_hidden_def get_row_def)
qed

lemma word_spaces_erased: "col \<le> 33 \<Longrightarrow> blank_cell space \<Longrightarrow> word_spaces col1 col (replicate 34 space) = replicate 34 space"
  by (auto simp: word_spaces_def spaced_def)

lemma preamble_loading:
  assumes e: "erased_hidden space ch" and c1: "c1 < 8" and row: "row_mapping ! unat (push_bit 1 c1 + (drop_bit 5 c2 AND 1)) = int r"
    and c2: "c2 AND 0x10 \<noteq> 0" "c2 AND 14 = 0" and space: "blank_cell space"
  shows "\<exists>ch'. preamble_code space c1 c2 (ch, calls) = Ret (ch', calls) \<and> loading space (preamble_attr c2 (ch_attr ch)) r [] ch'"
proof -
  have ok: "channel_ok ch" and m: "ch_mode ch = MODE_POP_ON" using e by (auto simp: erased_hidden_def)
  obtain rest where t: "text_of ch (ch_hidden ch) = replicate 510 space @ rest" using e by (auto simp: erased_hidden_def)
  have len: "length rest = 546" using channel_ok_text [OF ok channel_ok_hidden [OF ok]] t by simp
  define ch0 where "ch0 = ch_attr_update (\<lambda>a. a \<lparr> vc_underline := c2 AND 1 \<noteq> 0, vc_background := VBI_BLACK,
     vc_opacity := VBI_OPAQUE, vc_flash := False \<rparr>) ch"
  have ok0: "channel_ok ch0" using ok by (simp add: ch0_def)
  have f0: "ch_mode ch0 = MODE_POP_ON" "ch_hidden ch0 = ch_hidden ch" "text_of ch0 p = text_of ch p" for p
    using m by (simp_all add: ch0_def text_of_def)
  have e0: "erased_hidden space ch0" using e ok0 f0 by (auto simp: erased_hidden_def)
  have "ch_col ch0 \<le> 33" using ok0 by (simp add: channel_ok_def)
  then have "nat (ch_col ch0) \<le> 33" by linarith
  then have wb: "word_break True (ch0, calls) = Ret (ch0, calls)"
    using word_break_pop_on [OF ok0, of True calls] f0(1) word_spaces_erased [OF _ space] line.put_get [OF ok0]
    by (simp add: erased_row [OF e0])
  have r: "int r \<le> 14" "\<not> int r < 0" using row_mapping_bounds [OF row_index_less [OF c1], of c2] row by auto
  have "move_right (unat ((c2 AND 14) * 2)) space (set_cursor 1 (int r) ch0) = Ret (set_cursor 1 (int r) ch0)"
    using c2(2) by (simp add: move_right_def)
  then have run: "preamble_code space c1 c2 (ch, calls)
      = Ret (ch_attr_update (\<lambda>a. a \<lparr> vc_italic := False, vc_foreground := VBI_WHITE \<rparr>) (set_cursor 1 (int r) ch0), calls)"
    using r(2) m wb c2(1) f0(1) unfolding preamble_code_def Let_def row by (simp add: preamble_row_def flip: ch0_def)
  let ?ch = "ch_attr_update (\<lambda>a. a \<lparr> vc_italic := False, vc_foreground := VBI_WHITE \<rparr>) (set_cursor 1 (int r) ch0)"
  have "channel_ok ?ch" using channel_ok_set_cursor [OF ok0, of 1 "int r"] r(1) by simp
  moreover have "text_of ?ch (ch_hidden ?ch) = replicate 510 space @ rest"
    using f0 t by (simp add: text_of_def set_cursor_def)
  moreover have "c_memcpy (34 * r) (partial_cells space space []) (replicate 510 space @ rest) = replicate 510 space @ rest"
    using r(1) by (auto simp: c_memcpy_def partial_cells_def simp flip: replicate_Suc append_assoc replicate_add)
  moreover have "ch_attr ?ch = preamble_attr c2 (ch_attr ch)" by (simp add: ch0_def set_cursor_def preamble_attr_def)
  moreover have "ch_mode ?ch = MODE_POP_ON" "ch_row ?ch = int r" "ch_col1 ?ch = 1" "ch_col ?ch = 1"
    using f0(1) by (simp_all add: set_cursor_def)
  ultimately have "loading space (preamble_attr c2 (ch_attr ch)) r [] ?ch"
    unfolding loading_def using len by (auto intro!: exI [of _ rest])
  then show ?thesis using run by blast
qed

subsection \<open>The stream of a caption\<close>

text \<open>Pairs of bytes received one after the other on a line.\<close>

primrec decode_pairs :: "int \<Rightarrow> real \<Rightarrow> (u8 \<times> u8) list \<Rightarrow> caption \<Rightarrow> caption c_result" where
  "decode_pairs line now [] cc = Ret cc"
| "decode_pairs line now (p # ps) cc = c_bind (vbi_decode_caption line (fst p) (snd p) now cc) (decode_pairs line now ps)"

lemma c_bind_assoc: "c_bind (c_bind r f) g = c_bind r (\<lambda>x. c_bind (f x) g)"
  by (cases r) simp_all

lemma decode_pairs_append: "decode_pairs line now (ps @ qs) = (\<lambda>cc. c_bind (decode_pairs line now ps cc) (decode_pairs line now qs))"
proof (induction ps)
  case Nil
  show ?case by (rule ext) simp
next
  case (Cons p ps)
  show ?case by (rule ext) (simp add: Cons.IH c_bind_assoc)
qed

definition command_bytes :: "u8 \<Rightarrow> u8 \<Rightarrow> bool" where
  "command_bytes b0 b1 \<longleftrightarrow> odd_parity b0 \<and> odd_parity b1 \<and> 0x10 \<le> b0 AND 0x7F \<and> b0 AND 0x7F \<le> 0x1F"

lemma decode_command:
  assumes "command_bytes b0 b1" "\<not> (b0 = cc_last0 cc \<and> b1 = cc_last1 cc)"
  shows "vbi_decode_caption 21 b0 b1 now cc = c_bind (caption_command (b0 AND 0x7F) (b1 AND 0x7F) False cc)
    (\<lambda>cc. Ret (cc \<lparr> cc_last0 := b0, cc_last1 := b1 \<rparr>))"
proof -
  have "\<not> b0 AND 0x7F \<le> 0x0F" using assms(1) by (auto simp: command_bytes_def word_le_nat_alt)
  then show ?thesis
    using assms by (auto simp: vbi_decode_caption_def decode_field_def Let_def command_bytes_def vbi_unpar8_byte)
qed

text \<open>The state in which the first channel is the current one and satisfies \<open>P\<close>.\<close>

definition first_channel :: "vbi_char \<Rightarrow> (cc_channel \<Rightarrow> bool) \<Rightarrow> caption \<Rightarrow> bool" where
  "first_channel space P cc \<longleftrightarrow> caption_ok cc \<and> cc_curr_chan cc = 0 \<and> space_of cc 0 = space \<and> P (cc_channels cc ! 0)"

lemma with_channel_fields:
  "with_channel n f cc = Ret cc' \<Longrightarrow> cc_curr_chan cc' = cc_curr_chan cc \<and> cc_transp_space cc' = cc_transp_space cc
     \<and> cc_last0 cc' = cc_last0 cc \<and> cc_last1 cc' = cc_last1 cc"
  by (auto simp: with_channel_def c_bind_eq_Ret)

lemma with_channel_first:
  assumes s: "first_channel space P cc" and k: "keeps f"
    and f: "\<And>calls. P (cc_channels cc ! 0) \<Longrightarrow> \<exists>ch' calls'. f (cc_channels cc ! 0, calls) = Ret (ch', calls') \<and> Q ch'"
  shows "\<exists>cc'. with_channel 0 f cc = Ret cc' \<and> first_channel space Q cc' \<and> cc_last0 cc' = cc_last0 cc \<and> cc_last1 cc' = cc_last1 cc"
proof -
  have ok: "caption_ok cc" using s by (simp add: first_channel_def)
  obtain cc' where r: "with_channel 0 f cc = Ret cc'" "caption_ok cc'" using with_channel_ok [OF ok _ k, of 0] by auto
  obtain ch' calls' where q: "f (cc_channels cc ! 0, cc_calls cc) = Ret (ch', calls')" "Q ch'"
    using f [of "cc_calls cc"] s by (auto simp: first_channel_def)
  have "cc_channels cc' ! 0 = ch'" using r(1) q(1) ok by (auto simp: with_channel_def caption_ok_def)
  then show ?thesis using r q(2) s with_channel_fields [OF r(1)] by (auto simp: first_channel_def space_of_def)
qed

lemma first_channel_last:
  "first_channel space P (cc \<lparr> cc_last0 := a, cc_last1 := b \<rparr>) = first_channel space P cc"
  by (simp add: first_channel_def space_of_def)

text \<open>A word break of one channel changes nothing but pages.\<close>

lemma with_channel_word_break:
  assumes ok: "caption_ok cc" and n: "n < 9" and r: "with_channel n (word_break upd) cc = Ret cc'"
  shows "repaint (cc_channels cc ! k) (cc_channels cc' ! k) \<or> cc_channels cc' ! k = cc_channels cc ! k"
    and "ch_attr (cc_channels cc' ! k) = ch_attr (cc_channels cc ! k)"
proof -
  obtain ch' calls' where w: "word_break upd (cc_channels cc ! n, cc_calls cc) = Ret (ch', calls')" "repaint (cc_channels cc ! n) ch'"
    using word_break_run [OF caption_ok_channel [OF ok n]] by blast
  have "cc_channels cc' = (cc_channels cc) [n := ch']" using r w(1) by (auto simp: with_channel_def)
  then have "cc_channels cc' ! k = (if k = n then ch' else cc_channels cc ! k)"
    using ok n by (auto simp: caption_ok_def)
  then show "repaint (cc_channels cc ! k) (cc_channels cc' ! k) \<or> cc_channels cc' ! k = cc_channels cc ! k"
    using w(2) by auto
  then show "ch_attr (cc_channels cc' ! k) = ch_attr (cc_channels cc ! k)" by (auto dest: repaint_fields(9))
qed

text \<open>Resume caption loading, from any state.\<close>

lemma command_bytes_14:
  "command_bytes 0x94 0x20" "command_bytes 0x94 0xAE" "command_bytes 0x94 0x2F"
  by (simp_all add: command_bytes_def odd_parity_def)

lemma run_resume_loading:
  assumes ok: "caption_ok cc" and sp: "space_of cc 0 = space" and new: "\<not> (cc_last0 cc = 0x94 \<and> cc_last1 cc = 0x20)"
  shows "\<exists>cc'. vbi_decode_caption 21 0x94 0x20 now cc = Ret cc' \<and> cc_last0 cc' = 0x94 \<and> cc_last1 cc' = 0x20
    \<and> first_channel space (\<lambda>ch. channel_ok ch \<and> ch_mode ch = MODE_POP_ON \<and> ch_attr ch = ch_attr (cc_channels cc ! 0)) cc'"
proof -
  define chan where "chan = 4 * (cc_curr_chan cc div 4 mod 2)"
  have chan: "chan < 9" "chan mod 4 = 0" by (auto simp: chan_def)
  have cmd: "caption_command 0x14 0x20 False cc = resume_loading chan cc"
    by (simp add: caption_command_def misc_control_def Let_def chan_def)
  obtain cc1 where 1: "with_channel chan (word_break True) cc = Ret cc1" "caption_ok cc1"
    using with_channel_ok [OF ok chan(1) keeps_word_break] by blast
  have attr: "ch_attr (cc_channels cc1 ! 0) = ch_attr (cc_channels cc ! 0)"
    using with_channel_word_break [OF ok chan(1) 1(1), of 0] by simp
  define cc2 where "cc2 = on_channel 0 (ch_mode_update (\<lambda>_. MODE_POP_ON)) (cc1 \<lparr> cc_curr_chan := 0 \<rparr>)"
  have "caption_ok (cc1 \<lparr> cc_curr_chan := 0 \<rparr>)" using 1(2) by (simp add: caption_ok_def)
  then have ok2: "caption_ok cc2" unfolding cc2_def by (intro on_channel_ok) simp_all
  have run: "resume_loading chan cc = Ret cc2"
    by (simp add: resume_loading_def switch_channel_def 1(1) cc2_def chan(2))
  have "cc_channels cc2 ! 0 = ch_mode_update (\<lambda>_. MODE_POP_ON) (cc_channels cc1 ! 0)" "cc_curr_chan cc2 = 0" "space_of cc2 0 = space"
    using 1(2) with_channel_fields [OF 1(1)] sp by (auto simp: cc2_def on_channel_def caption_ok_def space_of_def)
  then have "first_channel space (\<lambda>ch. channel_ok ch \<and> ch_mode ch = MODE_POP_ON \<and> ch_attr ch = ch_attr (cc_channels cc ! 0)) cc2"
    using ok2 caption_ok_channel [OF ok2, of 0] attr by (simp add: first_channel_def)
  then show ?thesis
    using decode_command [OF command_bytes_14(1), of cc now] new run cmd by (auto simp: first_channel_last)
qed

lemma run_erase_non_displayed:
  assumes s: "first_channel space (\<lambda>ch. channel_ok ch \<and> ch_mode ch = MODE_POP_ON \<and> ch_attr ch = a) cc"
    and new: "\<not> (cc_last0 cc = 0x94 \<and> cc_last1 cc = 0xAE)"
  shows "\<exists>cc'. vbi_decode_caption 21 0x94 0xAE now cc = Ret cc' \<and> cc_last0 cc' = 0x94 \<and> cc_last1 cc' = 0xAE
    \<and> first_channel space (\<lambda>ch. erased_hidden space ch \<and> ch_attr ch = a) cc'"
proof -
  have ok: "caption_ok cc" and c0: "cc_curr_chan cc = 0" and sp: "space_of cc 0 = space"
    and ch: "channel_ok (cc_channels cc ! 0)" "ch_mode (cc_channels cc ! 0) = MODE_POP_ON" "ch_attr (cc_channels cc ! 0) = a"
    using s by (auto simp: first_channel_def)
  define cc1 where "cc1 = on_channel 0 (erase_non_displayed space) cc"
  have cmd: "caption_command 0x14 0x2E False cc = Ret cc1"
    by (simp add: caption_command_def misc_control_def Let_def c0 sp cc1_def)
  have ok1: "caption_ok cc1" unfolding cc1_def by (intro on_channel_ok ok) (auto simp: erase_non_displayed_def channel_ok_erase)
  have "cc_channels cc1 ! 0 = erase_memory space (ch_hidden (cc_channels cc ! 0)) (cc_channels cc ! 0)"
    using ok ch(2) by (simp add: cc1_def on_channel_def caption_ok_def erase_non_displayed_def)
  then have "erased_hidden space (cc_channels cc1 ! 0) \<and> ch_attr (cc_channels cc1 ! 0) = a"
    using ch channel_ok_erase [OF ch(1)] channel_ok_hidden [OF ch(1)] by (auto simp: erased_hidden_def text_of_erase)
  then have "first_channel space (\<lambda>ch. erased_hidden space ch \<and> ch_attr ch = a) cc1"
    using ok1 c0 sp by (simp add: first_channel_def cc1_def on_channel_def space_of_def)
  then show ?thesis
    using decode_command [OF command_bytes_14(2), of cc now] new cmd by (auto simp: first_channel_last)
qed

text \<open>The preamble, the text and the end of the caption.\<close>

lemma run_preamble:
  assumes s: "first_channel space (\<lambda>ch. erased_hidden space ch \<and> ch_attr ch = a) cc" and space: "blank_cell space"
    and new: "\<not> (cc_last0 cc = p0 \<and> cc_last1 cc = p1)"
    and p: "command_bytes p0 p1" "\<not> bit p0 3" "0x40 \<le> p1 AND 0x7F" "p1 AND 0x10 \<noteq> 0" "p1 AND 14 = 0"
    and row: "row_mapping ! unat (push_bit 1 (p0 AND 7) + (drop_bit 5 (p1 AND 0x7F) AND 1)) = int r"
  shows "\<exists>cc'. vbi_decode_caption 21 p0 p1 now cc = Ret cc' \<and> cc_last0 cc' = p0 \<and> cc_last1 cc' = p1
    \<and> first_channel space (loading space (preamble_attr (p1 AND 0x7F) a) r []) cc'"
proof -
  have c0: "cc_curr_chan cc = 0" and sp: "space_of cc 0 = space" using s by (auto simp: first_channel_def)
  have m: "(p0 AND 0x7F) AND 7 = p0 AND 7" by (simp add: and.assoc)
  have c1: "p0 AND 7 < 8" using unat_and_mask_less [of p0 3] by (simp add: word_less_nat_alt mask_eq_exp_minus_1)
  have b: "bit (p0 AND 0x7F) 3 = bit p0 3" by (simp add: bit_and_iff)
  have pb: "(p1 AND 0x7F) AND 0x10 \<noteq> 0" "(p1 AND 0x7F) AND 14 = 0" using p(4,5) by (simp_all add: and.assoc)
  have cmd: "caption_command (p0 AND 0x7F) (p1 AND 0x7F) False cc = with_channel 0 (preamble_code space (p0 AND 7) (p1 AND 0x7F)) cc"
    using p(2,3) by (simp add: caption_command_def Let_def c0 sp m b)
  obtain cc' where r: "with_channel 0 (preamble_code space (p0 AND 7) (p1 AND 0x7F)) cc = Ret cc'"
    "first_channel space (loading space (preamble_attr (p1 AND 0x7F) a) r []) cc'"
    using with_channel_first [OF s keeps_preamble_code [OF c1, of space "p1 AND 0x7F"],
        where Q = "loading space (preamble_attr (p1 AND 0x7F) a) r []"]
      preamble_loading [OF _ c1 row pb space] by metis
  then show ?thesis
    using decode_command [OF p(1), of cc now] new cmd by (auto simp: first_channel_last)
qed

definition caption_text :: "vbi_char \<Rightarrow> u8 \<Rightarrow> vbi_char" where
  "caption_text attr b = attr \<lparr> vc_unicode := (case vbi_caption_unicode (ucast (b AND 0x7F)) False of Ret u \<Rightarrow> ucast u | Undef \<Rightarrow> 0) \<rparr>"

definition text_char :: "u8 \<Rightarrow> bool" where
  "text_char b \<longleftrightarrow> odd_parity b \<and> 0x20 \<le> b AND 0x7F"

lemma text_char_code:
  assumes "text_char b"
  shows "vbi_unpar8 (ucast b) AND 0x7F = uint (b AND 0x7F)" "0x20 \<le> uint (b AND 0x7F)" "word_of_int (uint (b AND 0x7F)) = (ucast (b AND 0x7F) :: u32)"
proof -
  have val: "vbi_unpar8 (ucast b) = uint (b AND 0x7F)" using assms by (simp add: text_char_def vbi_unpar8_byte)
  have "(0x7F :: int) = uint (0x7F :: u8)" by simp
  then have "uint (b AND 0x7F) AND 0x7F = uint (b AND 0x7F) AND uint (0x7F :: u8)" by (rule arg_cong)
  also have "\<dots> = uint ((b AND 0x7F) AND 0x7F)" by (rule unsigned_and_eq [symmetric])
  also have "(b AND 0x7F) AND 0x7F = b AND 0x7F" by (simp add: and.assoc)
  finally have own: "uint (b AND 0x7F) AND 0x7F = uint (b AND 0x7F)" .
  show "vbi_unpar8 (ucast b) AND 0x7F = uint (b AND 0x7F)" unfolding val by (rule own)
  have "uint (0x20 :: u8) \<le> uint (b AND 0x7F)" using assms unfolding text_char_def word_le_def by (rule conjunct2)
  moreover have "uint (0x20 :: u8) = 0x20" by simp
  ultimately show "0x20 \<le> uint (b AND 0x7F)" by (simp only:)
  show "word_of_int (uint (b AND 0x7F)) = (ucast (b AND 0x7F) :: u32)" by (rule ucast_eq [symmetric])
qed

lemma run_text_byte:
  assumes s: "first_channel space (loading space attr r cs) cc" and b: "text_char b" and n: "length cs < 32"
    and space: "vc_opacity space = VBI_TRANSPARENT_SPACE" and o: "vc_opacity attr \<noteq> VBI_TRANSPARENT_SPACE"
  shows "\<exists>cc'. text_byte 0 attr b cc = Ret cc' \<and> first_channel space (loading space attr r (cs @ [caption_text attr b])) cc'
    \<and> cc_last0 cc' = cc_last0 cc"
proof -
  obtain u where u: "vbi_caption_unicode (ucast (b AND 0x7F)) False = Ret u" using caption_unicode_value by blast
  have c: "attr \<lparr> vc_unicode := ucast u \<rparr> = caption_text attr b" by (simp add: caption_text_def u)
  have "vc_opacity (caption_text attr b) \<noteq> VBI_TRANSPARENT_SPACE" using o by (simp add: caption_text_def)
  then have put: "\<exists>ch' calls'. put_char (caption_text attr b) (cc_channels cc ! 0, calls) = Ret (ch', calls')
      \<and> loading space attr r (cs @ [caption_text attr b]) ch'" if "loading space attr r cs (cc_channels cc ! 0)" for calls
    using loading_put_char [OF that n _ space] by blast
  have "text_byte 0 attr b cc = with_channel 0 (put_char (caption_text attr b)) cc"
    using text_char_code [OF b] by (simp add: text_byte_def Let_def u c)
  then show ?thesis
    using with_channel_first [OF s keeps_put_char put] by auto
qed

lemma run_text:
  assumes s: "first_channel space (loading space attr r cs) cc" and b: "text_char b0" "text_char b1" and n: "length cs < 31"
    and space: "vc_opacity space = VBI_TRANSPARENT_SPACE" and o: "vc_opacity attr \<noteq> VBI_TRANSPARENT_SPACE"
  shows "\<exists>cc'. vbi_decode_caption 21 b0 b1 now cc = Ret cc' \<and> cc_last0 cc' = 0
    \<and> first_channel space (loading space attr r (cs @ [caption_text attr b0, caption_text attr b1])) cc'"
proof -
  have ok: "caption_ok cc" and c0: "cc_curr_chan cc = 0" and l: "loading space attr r cs (cc_channels cc ! 0)"
    using s by (auto simp: first_channel_def)
  have m: "ch_mode (cc_channels cc ! 0) \<noteq> MODE_NONE" "ch_attr (cc_channels cc ! 0) = attr" using l by (auto simp: loading_def)
  have big: "\<not> b0 AND 0x7F \<le> 0x0F" "\<not> b0 AND 0x7F \<le> 0x1F" "b0 \<noteq> 0x80"
    using b(1) by (auto simp: text_char_def word_le_nat_alt)
  define cc1 where "cc1 = on_channel 0 (ch_time_update (\<lambda>_. now)) (on_channel 0 (ch_nul_ct_update (\<lambda>_. 0)) (cc \<lparr> cc_last0 := 0 \<rparr>))"
  have ch1: "cc_channels cc1 ! 0 = (cc_channels cc ! 0) \<lparr> ch_nul_ct := 0, ch_time := now \<rparr>"
    using ok by (simp add: cc1_def on_channel_def caption_ok_def)
  have "caption_ok cc1" unfolding cc1_def by (intro on_channel_ok) (simp_all add: ok)
  moreover have "loading space attr r cs (cc_channels cc1 ! 0)"
    using l unfolding ch1 by (simp add: loading_def text_of_def channel_ok_def)
  ultimately have s1: "first_channel space (loading space attr r cs) cc1"
    using s by (simp add: first_channel_def cc1_def on_channel_def space_of_def)
  obtain cc2 where 2: "text_byte 0 attr b0 cc1 = Ret cc2" "first_channel space (loading space attr r (cs @ [caption_text attr b0])) cc2"
    "cc_last0 cc2 = cc_last0 cc1"
    using run_text_byte [OF s1 b(1) _ space o] n by auto
  obtain cc3 where 3: "text_byte 0 attr b1 cc2 = Ret cc3"
    "first_channel space (loading space attr r ((cs @ [caption_text attr b0]) @ [caption_text attr b1])) cc3" "cc_last0 cc3 = cc_last0 cc2"
    using run_text_byte [OF 2(2) b(2) _ space o] n by auto
  have "vbi_decode_caption 21 b0 b1 now cc = decode_text False b0 b1 now cc"
    using b(1) big by (simp add: vbi_decode_caption_def decode_field_def Let_def vbi_unpar8_byte text_char_def)
  also have "\<dots> = c_bind (text_byte 0 (ch_attr (cc_channels cc1 ! 0)) b0 cc1) (text_byte 0 (ch_attr (cc_channels cc1 ! 0)) b1)"
    using big(3) m(1) by (simp add: decode_text_def Let_def c0 cc1_def)
  also have "\<dots> = Ret cc3" using 2(1) 3(1) m(2) by (simp add: ch1)
  finally show ?thesis using 3(2,3) 2(3) by (simp add: cc1_def on_channel_def)
qed

lemma run_texts:
  assumes "first_channel space (loading space attr r cs) cc" "list_all (\<lambda>p. text_char (fst p) \<and> text_char (snd p)) ps"
    "length cs + 2 * length ps \<le> 32" "vc_opacity space = VBI_TRANSPARENT_SPACE" "vc_opacity attr \<noteq> VBI_TRANSPARENT_SPACE"
  shows "\<exists>cc'. decode_pairs 21 now ps cc = Ret cc' \<and> (ps \<noteq> [] \<longrightarrow> cc_last0 cc' = 0) \<and> (ps = [] \<longrightarrow> cc' = cc)
    \<and> first_channel space (loading space attr r (cs @ concat (map (\<lambda>p. [caption_text attr (fst p), caption_text attr (snd p)]) ps))) cc'"
  using assms
proof (induction ps arbitrary: cs cc)
  case Nil
  then show ?case by simp
next
  case (Cons p ps)
  let ?new = "[caption_text attr (fst p), caption_text attr (snd p)]"
  obtain cc1 where 1: "vbi_decode_caption 21 (fst p) (snd p) now cc = Ret cc1" "cc_last0 cc1 = 0"
    "first_channel space (loading space attr r (cs @ ?new)) cc1"
    using run_text [OF Cons.prems(1), of "fst p" "snd p" now] Cons.prems(2-) by auto
  obtain cc2 where "decode_pairs 21 now ps cc1 = Ret cc2" "ps \<noteq> [] \<longrightarrow> cc_last0 cc2 = 0" "ps = [] \<longrightarrow> cc2 = cc1"
    "first_channel space (loading space attr r ((cs @ ?new) @ concat (map (\<lambda>p. [caption_text attr (fst p), caption_text attr (snd p)]) ps))) cc2"
    using Cons.IH [OF 1(3)] Cons.prems(2-) by auto
  then show ?case using 1 by (cases "ps = []") auto
qed

lemma run_end:
  assumes s: "first_channel space (loading space attr r cs) cc" and new: "\<not> (cc_last0 cc = 0x94 \<and> cc_last1 cc = 0x2F)"
    and space: "vc_opacity space = VBI_TRANSPARENT_SPACE"
  shows "\<exists>cc'. vbi_decode_caption 21 0x94 0x2F now cc = Ret cc' \<and> first_channel space (\<lambda>ch.
     take 510 (text_of ch (the_other (ch_hidden ch))) = c_memcpy (34 * r) (caption_cells space cs) (replicate 510 space)) cc'"
proof -
  have c0: "cc_curr_chan cc = 0" and sp: "space_of cc 0 = space" using s by (auto simp: first_channel_def)
  have cmd: "caption_command 0x14 0x2F False cc = end_of_caption 0 cc"
    by (simp add: caption_command_def misc_control_def Let_def c0)
  have wb: "\<exists>ch' calls'. word_break True (cc_channels cc ! 0, calls) = Ret (ch', calls') \<and> loaded space r cs ch'"
    if "loading space attr r cs (cc_channels cc ! 0)" for calls
    using loading_word_break [OF that space] by blast
  obtain cc1 where 1: "with_channel 0 (word_break True) cc = Ret cc1" "first_channel space (loaded space r cs) cc1"
    using with_channel_first [OF s keeps_word_break wb] by blast
  have "cc1 \<lparr> cc_curr_chan := 0 \<rparr> = cc1" using 1(2) by (cases cc1) (simp add: first_channel_def)
  then have sw: "switch_channel 0 0 cc = Ret cc1" by (simp add: switch_channel_def 1(1))
  let ?Q = "\<lambda>ch. take 510 (text_of ch (the_other (ch_hidden ch))) = c_memcpy (34 * r) (caption_cells space cs) (replicate 510 space)"
  have sh: "\<exists>ch' calls'. show_caption space (cc_channels cc1 ! 0, calls) = Ret (ch', calls') \<and> ?Q ch'"
    if "loaded space r cs (cc_channels cc1 ! 0)" for calls
    using show_loaded [OF that space] by blast
  obtain cc2 where 2: "with_channel 0 (show_caption space) cc1 = Ret cc2" "first_channel space ?Q cc2"
    using with_channel_first [OF 1(2) show_caption_ok sh] by blast
  have "space_of cc1 0 = space" using 1(2) by (simp add: first_channel_def)
  then have "end_of_caption 0 cc = Ret cc2" by (simp add: end_of_caption_def sw 2(1))
  then show ?thesis
    using decode_command [OF command_bytes_14(3), of cc now] new cmd 2(2) by (auto simp: first_channel_last)
qed



end
