(* ===== verification/Caption_Roll.thy ===== *)
theory Caption_Roll
  imports Caption_Text
begin

text \<open>
  Roll-up captions and text: what a carriage return does to the displayed page. Further how repeated commands are
  recognised, and what becomes of a channel switch while the second page of a channel is displayed.
\<close>

section \<open>Carriage return\<close>

definition page_row :: "nat \<Rightarrow> vbi_char list \<Rightarrow> vbi_char list" where
  "page_row r t = take 34 (drop (34 * r) t)"

lemma nth_page_row: "34 * r + 34 \<le> length t \<Longrightarrow> j < 34 \<Longrightarrow> page_row r t ! j = t ! (34 * r + j)"
  by (simp add: page_row_def)

lemma length_page_row: "34 * r + 34 \<le> length t \<Longrightarrow> length (page_row r t) = 34"
  by (simp add: page_row_def)

lemma page_row_eqI:
  "34 * r + 34 \<le> length t \<Longrightarrow> length v = 34 \<Longrightarrow> (\<And>j. j < 34 \<Longrightarrow> t ! (34 * r + j) = v ! j) \<Longrightarrow> page_row r t = v"
  by (rule nth_equalityI) (simp_all add: length_page_row nth_page_row)

text \<open>The loop that clears the line writes 35 characters, one of them in the next row of the hidden page.\<close>

lemma line_fill_text:
  assumes "channel_ok ch" "0 \<le> col" "col \<le> 35" "nat (35 - col) \<le> n"
  shows "\<exists>col' ch'. line_fill n col 35 c ch = Ret (col', ch') \<and> repaint ch ch'
     \<and> (\<forall>q. q \<noteq> ch_hidden ch \<longrightarrow> text_of ch' q = text_of ch q)
     \<and> (\<forall>i < 1056. text_of ch' (ch_hidden ch) ! i
          = (if 34 * nat (ch_row ch) + nat col \<le> i \<and> i < 34 * nat (ch_row ch) + 35 then c else text_of ch (ch_hidden ch) ! i))"
  using assms
proof (induction n arbitrary: col ch)
  case 0
  then show ?case by (auto intro: repaint_refl)
next
  case (Suc n)
  note ok = \<open>channel_ok ch\<close>
  let ?k = "34 * nat (ch_row ch)"
  let ?t = "text_of ch (ch_hidden ch)"
  show ?case
  proof (cases "col < 35")
    case True
    define ch1 where "ch1 = modify_page (ch_hidden ch) (pg_text_update (\<lambda>t. t [?k + nat col := c])) ch"
    have s: "line_set col c ch = Ret ch1"
      using line_set_ok [OF ok, of col c] Suc.prems True by (simp add: nat_offset [OF ok] ch1_def)
    have r1: "repaint ch ch1" unfolding ch1_def by (rule repaint_text [OF ok]) simp
    have ok1: "channel_ok ch1" by (rule channel_ok_repaint [OF ok r1])
    have f1: "ch_hidden ch1 = ch_hidden ch" "ch_row ch1 = ch_row ch" by (simp_all add: ch1_def)
    have t1: "text_of ch1 q = (if q = ch_hidden ch then ?t [?k + nat col := c] else text_of ch q)" for q
      by (simp add: ch1_def text_of_modify [OF ok channel_ok_hidden [OF ok]])
    have le: "0 \<le> col + 1" "col + 1 \<le> 35" "nat (35 - (col + 1)) \<le> n" using Suc.prems(2,4) True by linarith+
    obtain col' ch' where f: "line_fill n (col + 1) 35 c ch1 = Ret (col', ch')" "repaint ch1 ch'"
      "\<forall>q. q \<noteq> ch_hidden ch \<longrightarrow> text_of ch' q = text_of ch1 q"
      "\<forall>i < 1056. text_of ch' (ch_hidden ch) ! i = (if ?k + nat (col + 1) \<le> i \<and> i < ?k + 35 then c else text_of ch1 (ch_hidden ch) ! i)"
      using Suc.IH [OF ok1 le] unfolding f1 by blast
    have n1: "nat (col + 1) = Suc (nat col)" using Suc.prems(2) by simp
    have len: "length ?t = 1056" by (rule channel_ok_text [OF ok channel_ok_hidden [OF ok]])
    have "text_of ch' (ch_hidden ch) ! i = (if ?k + nat col \<le> i \<and> i < ?k + 35 then c else ?t ! i)" if i: "i < 1056" for i
    proof (cases "i = ?k + nat col")
      case eq: True
      have "nat col < 35" using True Suc.prems(2) by linarith
      then show ?thesis using f(4) i len eq by (simp add: n1 t1)
    next
      case False
      then show ?thesis using f(4) i len by (auto simp: n1 t1)
    qed
    then show ?thesis using s f(1,2,3) t1 repaint_trans [OF r1 f(2)] True by auto
  next
    case False
    then have "col = 35" using Suc.prems(3) by simp
    then show ?thesis using repaint_refl [OF ok] by auto
  qed
qed

lemma text_of_roll_up [simp]: "text_of (fst (roll_up p a b w)) q = text_of (fst w) q"
  by (cases w) (simp add: roll_up_def send_caption_def text_of_page, auto simp: text_of_def)

lemma roll_up_fields [simp]:
  "ch_row (fst (roll_up p a b w)) = ch_row (fst w)" "ch_hidden (fst (roll_up p a b w)) = ch_hidden (fst w)"
  by (cases w, simp add: roll_up_def send_caption_def modify_page_def)+

text \<open>The rows of a page after a scroll of rows \<open>a\<close> to \<open>b\<close>.\<close>

definition scrolled :: "vbi_char \<Rightarrow> nat \<Rightarrow> nat \<Rightarrow> vbi_char list \<Rightarrow> vbi_char list \<Rightarrow> bool" where
  "scrolled space a b t t' \<longleftrightarrow> (\<forall>r < 15. page_row r t' =
     (if a \<le> r \<and> r < b then page_row (r + 1) t else if r = b then replicate 34 space else page_row r t))"

lemma scrolled_copy:
  assumes t: "length t = 1056" and ab: "a \<le> b" "b \<le> 14"
    and t': "t' = c_memcpy (34 * b) (replicate 34 space) (c_memcpy (34 * a) (take (34 * (b - a)) (drop (34 * (a + 1)) t)) t)"
  shows "scrolled space a b t t'"
  unfolding scrolled_def
proof (intro allI impI)
  fix r :: nat assume r: "r < 15"
  let ?m = "take (34 * (b - a)) (drop (34 * (a + 1)) t)"
  have lm: "length ?m = 34 * (b - a)" using t ab by simp
  have in1: "34 * a + length ?m \<le> length t" unfolding lm using t ab by simp
  have l1: "length (c_memcpy (34 * a) ?m t) = 1056" using in1 t by (simp only: length_c_memcpy)
  have lt: "length t' = 1056" unfolding t' using l1 ab by (subst length_c_memcpy) simp_all
  have rr: "34 * r + 34 \<le> length t'" using r lt by simp
  show "page_row r t' = (if a \<le> r \<and> r < b then page_row (r + 1) t else if r = b then replicate 34 space else page_row r t)"
  proof (rule page_row_eqI [OF rr])
    show "length (if a \<le> r \<and> r < b then page_row (r + 1) t else if r = b then replicate 34 space else page_row r t) = 34"
      using r ab t by (auto simp: length_page_row)
    fix j :: nat assume j: "j < 34"
    have i: "34 * r + j < 1056" using r j by simp
    have n1: "t' ! (34 * r + j) = (if 34 * r + j < 34 * b then c_memcpy (34 * a) ?m t ! (34 * r + j)
        else if 34 * r + j < 34 * b + 34 then space else c_memcpy (34 * a) ?m t ! (34 * r + j))"
      unfolding t' using l1 ab i by (subst nth_memcpy_text) auto
    have n2: "c_memcpy (34 * a) ?m t ! (34 * r + j) = (if 34 * r + j < 34 * a then t ! (34 * r + j)
        else if 34 * r + j < 34 * a + 34 * (b - a) then ?m ! (34 * r + j - 34 * a) else t ! (34 * r + j))"
      using nth_memcpy_text [OF in1, of "34 * r + j"] i t unfolding lm by simp
    consider "r < a" | "a \<le> r" "r < b" | "r = b" | "b < r" by linarith
    then show "t' ! (34 * r + j) = (if a \<le> r \<and> r < b then page_row (r + 1) t else if r = b then replicate 34 space else page_row r t) ! j"
    proof cases
      case 1
      then have "34 * r + j < 34 * a" "34 * r + j < 34 * b" using j ab by linarith+
      then show ?thesis using 1 ab n1 n2 j t r by (simp add: nth_page_row)
    next
      case 2
      then have c: "\<not> 34 * r + j < 34 * a" "34 * r + j < 34 * b" "34 * r + j < 34 * a + 34 * (b - a)" using j by linarith+
      then have "?m ! (34 * r + j - 34 * a) = t ! (34 * (r + 1) + j)"
        using t 2 ab j by (simp add: algebra_simps)
      then show ?thesis using 2 c ab n1 n2 j t by (simp add: nth_page_row)
    next
      case 3
      then show ?thesis using n1 j by simp
    next
      case 4
      then have "\<not> 34 * r + j < 34 * a" "\<not> 34 * r + j < 34 * b" "\<not> 34 * r + j < 34 * b + 34" "\<not> 34 * r + j < 34 * a + 34 * (b - a)"
        using ab by linarith+
      then show ?thesis using 4 n1 n2 j t r by (simp add: nth_page_row)
    qed
  qed
qed

lemma page_row_hidden: "channel_ok ch \<Longrightarrow> get_row ch = page_row (nat (ch_row ch)) (text_of ch (ch_hidden ch))"
  by (simp add: get_row_def page_row_def)

text \<open>The row that is scrolled up: the line with the spaces of a word break.\<close>

definition finished_line :: "cc_channel \<Rightarrow> vbi_char list" where
  "finished_line ch = word_spaces (nat (ch_col1 ch)) (nat (ch_col ch)) (get_row ch)"

lemma scroll_text:
  assumes ok: "channel_ok ch" and m: "ch_mode ch \<noteq> MODE_POP_ON" and row: "ch_row ch = ch_row1 ch + ch_roll ch - 1"
  shows "\<exists>ch' calls'. scroll space last_row (ch, calls) = Ret (ch', calls') \<and> channel_ok ch' \<and> ch_col ch' = 1 \<and> ch_row ch' = ch_row ch
     \<and> scrolled space (nat (ch_row1 ch)) (nat (ch_row ch))
         (c_memcpy (34 * nat (ch_row ch)) (finished_line ch) (text_of ch (the_other (ch_hidden ch)))) (text_of ch' (the_other (ch_hidden ch')))"
proof -
  define h where "h = ch_hidden ch"
  define d where "d = the_other h"
  define k where "k = 34 * nat (ch_row ch)"
  have h: "h < 2" "d < 2" "d \<noteq> h" "the_other d = h" using channel_ok_hidden [OF ok] by (auto simp: h_def d_def the_other_def)
  have b: "0 \<le> ch_row1 ch" "1 \<le> ch_roll ch" "ch_row1 ch + ch_roll ch \<le> 15" using ok by (auto simp: channel_ok_def)
  obtain ch1 calls1 where 1: "word_break True (ch, calls) = Ret (ch1, calls1)" "repaint ch ch1"
    "text_of ch1 h = c_memcpy k (finished_line ch) (text_of ch h)" "text_of ch1 d = c_memcpy k (finished_line ch) (text_of ch d)"
    using word_break_update [OF ok m, of calls] by (auto simp: Let_def finished_line_def h_def d_def k_def)
  have ok1: "channel_ok ch1" by (rule channel_ok_repaint [OF ok 1(2)])
  have f1: "ch_hidden ch1 = h" "ch_row ch1 = ch_row ch" "ch_row1 ch1 = ch_row1 ch" "ch_roll ch1 = ch_roll ch" "ch_mode ch1 = ch_mode ch"
    using repaint_fields [OF 1(2)] by (simp_all add: h_def)
  have len: "length (finished_line ch) = 34" by (simp add: finished_line_def line.length_get [OF ok])
  have in_text: "k + 34 \<le> 1056" using row_inside [OF ok] by (simp add: k_def)
  have g1: "get_row ch1 = finished_line ch"
    using c_memcpy_get [of k "finished_line ch" "text_of ch h"] channel_ok_text [OF ok h(1)] in_text
    by (simp add: get_row_def f1 1(3) len flip: k_def)
  define ch2 where "ch2 = modify_page d (pg_text_update (c_memcpy k (finished_line ch))) ch1"
  have 2: "update ch1 = Ret ch2" using update_view [OF ok1] by (simp add: f1 g1 ch2_def d_def k_def)
  have r2: "repaint ch1 ch2" using update_repaint [OF ok1] 2 by auto
  have ok2: "channel_ok ch2" by (rule channel_ok_repaint [OF ok1 r2])
  have t2: "text_of ch2 d = text_of ch1 d"
    using channel_ok_text [OF ok h(2)] in_text len by (simp add: ch2_def text_of_modify [OF ok1 h(2)] 1(4) c_memcpy_twice)
  have f2: "ch_hidden ch2 = h" "ch_row ch2 = ch_row ch" "ch_row1 ch2 = ch_row1 ch" "ch_roll ch2 = ch_roll ch" "ch_mode ch2 = ch_mode ch"
    using repaint_fields [OF r2] f1 by simp_all
  define a where "a = nat (ch_row1 ch)"
  define n where "n = nat (ch_roll ch) - 1"
  have an: "nat (ch_row1 ch * COLUMNS) = 34 * a" "nat ((ch_row1 ch + 1) * COLUMNS) = 34 * (a + 1)" "nat ((ch_roll ch - 1) * COLUMNS) = 34 * n"
    "nat (ch_row ch) = a + n" "a + n \<le> 14"
    using b by (simp_all add: a_def n_def cc_sizes row nat_mult_distrib nat_add_distrib nat_diff_distrib)
  define t1 where "t1 = text_of ch1 d"
  define ch3 where "ch3 = modify_page d (pg_text_update (c_memcpy (34 * a) (take (34 * n) (drop (34 * (a + 1)) t1)))) ch2"
  have 3: "text_move d (ch_row1 ch2 * COLUMNS) d ((ch_row1 ch2 + 1) * COLUMNS) ((ch_roll ch2 - 1) * COLUMNS) ch2 = Ret ch3"
    using b by (simp add: text_move_def Let_def f2 an ch3_def t1_def flip: t2) (simp add: cc_sizes text_of_def)
  have r3: "repaint ch2 ch3"
    using text_move_repaint [OF ok2 h(2), of "ch_row1 ch2 * COLUMNS" "(ch_row1 ch2 + 1) * COLUMNS" "(ch_roll ch2 - 1) * COLUMNS" d] b 3
    by (auto simp: f2 cc_sizes)
  have ok3: "channel_ok ch3" by (rule channel_ok_repaint [OF ok2 r3])
  have t3: "text_of ch3 d = c_memcpy (34 * a) (take (34 * n) (drop (34 * (a + 1)) t1)) t1"
    by (simp add: ch3_def text_of_modify [OF ok2 h(2)] t2 flip: t1_def)
  have f3: "ch_hidden ch3 = h" "ch_row ch3 = ch_row ch" "ch_row1 ch3 = ch_row1 ch" "ch_mode ch3 = ch_mode ch"
    using repaint_fields [OF r3] f2 by simp_all
  obtain col ch4 where 4: "line_fill (nat (COLUMNS + 1)) 0 (COLUMNS + 1) space ch3 = Ret (col, ch4)" "repaint ch3 ch4"
    "text_of ch4 d = text_of ch3 d" "\<forall>i < 1056. text_of ch4 h ! i = (if k \<le> i \<and> i < k + 35 then space else text_of ch3 h ! i)"
    using line_fill_text [OF ok3, of 0 "nat (COLUMNS + 1)" space] h(3) by (auto simp: cc_sizes f3 k_def)
  have ok4: "channel_ok ch4" by (rule channel_ok_repaint [OF ok3 4(2)])
  have f4: "ch_hidden ch4 = h" "ch_row ch4 = ch_row ch" "ch_row1 ch4 = ch_row1 ch" "ch_mode ch4 = ch_mode ch"
    using repaint_fields [OF 4(2)] f3 by simp_all
  have "page_row (nat (ch_row ch)) (text_of ch4 h) = replicate 34 space"
    using in_text 4(4) channel_ok_text [OF ok4 h(1)] by (intro page_row_eqI) (auto simp: k_def)
  then have g4: "get_row ch4 = replicate 34 space" by (simp add: page_row_hidden [OF ok4] f4)
  define ch5 where "ch5 = modify_page d (pg_text_update (c_memcpy k (replicate 34 space))) ch4"
  have 5: "update ch4 = Ret ch5" using update_view [OF ok4] by (simp add: f4 g4 ch5_def d_def k_def)
  have ok5: "channel_ok ch5" using update_repaint [OF ok4] channel_ok_repaint [OF ok4] 5 by auto
  have t5: "text_of ch5 d = c_memcpy k (replicate 34 space) (c_memcpy (34 * a) (take (34 * n) (drop (34 * (a + 1)) t1)) t1)"
    by (simp add: ch5_def text_of_modify [OF ok4 h(2)] 4(3) t3)
  have f5: "ch_hidden ch5 = h" "ch_row ch5 = ch_row ch" "ch_row1 ch5 = ch_row1 ch" using f4 by (simp_all add: ch5_def)
  define w where "w = roll_up d (ch_row1 ch) last_row (ch5, calls1)"
  have run: "scroll space last_row (ch, calls) = Ret ((fst w) \<lparr> ch_col := 1, ch_col1 := 1 \<rparr>, snd w)"
  proof -
    have p: "(if ch_mode ch \<noteq> MODE_POP_ON then the_other (ch_hidden ch) else ch_hidden ch) = d" using m by (simp add: d_def h_def)
    have m4: "(ch_mode ch4 \<noteq> MODE_POP_ON) = True" using m f4 by simp
    show ?thesis
      by (simp only: scroll_def Let_def fst_conv p 1(1) c_bind_simps prod.case 2 3 4(1) m4 if_True 5 f5 d_def [symmetric])
        (simp add: w_def prod.case_eq_if)
  qed
  have "t1 = c_memcpy k (finished_line ch) (text_of ch d)" by (simp add: t1_def 1(4))
  moreover have "length t1 = 1056" using channel_ok_text [OF ok1 h(2)] by (simp add: t1_def)
  then have "scrolled space a (a + n) t1 (text_of ch5 d)"
    using an(4,5) t5 by (intro scrolled_copy) (simp_all add: k_def)
  ultimately have "scrolled space (nat (ch_row1 ch)) (nat (ch_row ch)) (c_memcpy k (finished_line ch) (text_of ch d)) (text_of ch5 d)"
    by (simp add: a_def [symmetric] an(4))
  moreover have "text_of ((fst w) \<lparr> ch_col := 1, ch_col1 := 1 \<rparr>) d = text_of (fst w) d" by (simp add: text_of_def)
  moreover have "text_of (fst w) d = text_of ch5 d" "ch_hidden (fst w) = h" "ch_row (fst w) = ch_row ch" using f5 by (simp_all add: w_def)
  moreover have "channel_ok ((fst w) \<lparr> ch_col := 1, ch_col1 := 1 \<rparr>)"
  proof -
    have "\<exists>w'. scroll space last_row (ch, calls) = Ret w' \<and> channel_ok (fst w')"
      using keeps_scroll ok unfolding keeps_def by (metis fst_conv)
    then show ?thesis unfolding run by simp
  qed
  ultimately show ?thesis
    unfolding run by (simp flip: h_def d_def k_def)
qed

text \<open>
  C31. A carriage return on the last row of a roll-up caption (or of painted captions and text): the rows of the displayed page from the
  second one of the window on move up by one, the line just finished, completed with the spaces around its last word, moves with them, the
  last row becomes blank, and all rows outside the window are unchanged. The cursor is at the beginning of the last row.
\<close>

theorem carriage_return_rolls:
  assumes "channel_ok ch" "ch_mode ch \<noteq> MODE_POP_ON" "ch_mode ch \<noteq> MODE_NONE" "ch_row ch = ch_row1 ch + ch_roll ch - 1"
  shows "\<exists>ch' calls'. new_line space (ch, calls) = Ret (ch', calls') \<and> channel_ok ch' \<and> ch_col ch' = 1 \<and> ch_row ch' = ch_row ch
     \<and> scrolled space (nat (ch_row1 ch)) (nat (ch_row ch))
         (c_memcpy (34 * nat (ch_row ch)) (finished_line ch) (text_of ch (the_other (ch_hidden ch)))) (text_of ch' (the_other (ch_hidden ch')))"
proof -
  have "\<not> ch_row ch < min (ROWS - 1) (ch_row1 ch + ch_roll ch - 1)" using assms(4) by simp
  then have "new_line space (ch, calls) = scroll space (min (ROWS - 1) (ch_row1 ch + ch_roll ch - 1)) (ch, calls)"
    using assms(3) unfolding new_line_def Let_def fst_conv by (simp only: if_False)
  then show ?thesis using scroll_text [OF assms(1,2,4)] by simp
qed

theorem carriage_return_rolls_witness:
  "\<exists>ch' calls'. new_line vbi_char_0 ((cc_channels (vbi_caption_init True) ! 4) \<lparr> ch_row := 14, ch_line_off := 476 \<rparr>, []) = Ret (ch', calls')
     \<and> page_row 14 (text_of ch' (the_other (ch_hidden ch'))) = replicate 34 vbi_char_0"
proof -
  let ?ch = "(cc_channels (vbi_caption_init True) ! 4) \<lparr> ch_row := 14, ch_line_off := 476 \<rparr>"
  have f: "ch_mode (cc_channels (vbi_caption_init True) ! 4) = MODE_TEXT" "ch_row1 (cc_channels (vbi_caption_init True) ! 4) = 0"
    "ch_roll (cc_channels (vbi_caption_init True) ! 4) = 15"
    by (simp_all add: vbi_caption_init_def vbi_caption_channel_switched_def vbi_caption_desync_def channel_switched_def Let_def
      set_cursor_def cc_sizes)
  have "channel_ok (cc_channels (vbi_caption_init True) ! 4)" by (rule caption_ok_channel [OF init_ok]) simp
  then have ok: "channel_ok ?ch" by (simp add: channel_ok_def)
  obtain ch' calls' where "new_line vbi_char_0 (?ch, []) = Ret (ch', calls')"
    "scrolled vbi_char_0 0 14 (c_memcpy (34 * 14) (finished_line ?ch) (text_of ?ch (the_other (ch_hidden ?ch)))) (text_of ch' (the_other (ch_hidden ch')))"
    using carriage_return_rolls [OF ok, of vbi_char_0 "[]"] f by auto
  then show ?thesis by (auto simp: scrolled_def)
qed

section \<open>Repeated commands\<close>

text \<open>
  C32. Commands on the first field are transmitted twice for reliability and executed once: in any state of the decoder in use, after a
  command was executed its repetition on the same or the other line of the field only forgets the command, so that a third
  transmission is a new command.
\<close>

theorem command_repetition:
  assumes "caption_reach cc" "command_bytes b0 b1" "\<not> (b0 = cc_last0 cc \<and> b1 = cc_last1 cc)" "line = 21 \<or> line = 22"
  shows "\<exists>cc'. vbi_decode_caption 21 b0 b1 now cc = Ret cc' \<and> vbi_decode_caption line b0 b1 later cc' = Ret (cc' \<lparr> cc_last0 := 0 \<rparr>)
     \<and> vbi_decode_caption 21 b0 b1 later (cc' \<lparr> cc_last0 := 0 \<rparr>) = c_bind (caption_command (b0 AND 0x7F) (b1 AND 0x7F) False (cc' \<lparr> cc_last0 := 0 \<rparr>))
        (\<lambda>cc. Ret (cc \<lparr> cc_last0 := b0, cc_last1 := b1 \<rparr>))"
proof -
  have "good (caption_command (b0 AND 0x7F) (b1 AND 0x7F) False cc)" by (rule good_caption_command [OF reach_ok [OF assms(1)]])
  then obtain cc1 where 1: "caption_command (b0 AND 0x7F) (b1 AND 0x7F) False cc = Ret cc1" by (auto simp: good_def)
  define cc' where "cc' = cc1 \<lparr> cc_last0 := b0, cc_last1 := b1 \<rparr>"
  have run: "vbi_decode_caption 21 b0 b1 now cc = Ret cc'"
    using decode_command [OF assms(2), of cc now] assms(3) 1 by (simp add: cc'_def)
  have "\<not> b0 AND 0x7F \<le> 0x0F" using assms(2) by (auto simp: command_bytes_def word_le_nat_alt)
  then have "vbi_decode_caption line b0 b1 later cc' = Ret (cc' \<lparr> cc_last0 := 0 \<rparr>)"
    using assms(2,4) by (auto simp: vbi_decode_caption_def decode_field_def Let_def command_bytes_def vbi_unpar8_byte cc'_def)
  moreover have "b0 \<noteq> 0" using assms(2) by (auto simp: command_bytes_def)
  then have "vbi_decode_caption 21 b0 b1 later (cc' \<lparr> cc_last0 := 0 \<rparr>) = c_bind (caption_command (b0 AND 0x7F) (b1 AND 0x7F) False (cc' \<lparr> cc_last0 := 0 \<rparr>))
        (\<lambda>cc. Ret (cc \<lparr> cc_last0 := b0, cc_last1 := b1 \<rparr>))"
    using decode_command [OF assms(2), of "cc' \<lparr> cc_last0 := 0 \<rparr>" later] by simp
  ultimately show ?thesis using run by blast
qed

theorem command_repetition_witness:
  "\<exists>cc'. vbi_decode_caption 21 0x94 0x20 0 (vbi_caption_init True) = Ret cc'
     \<and> vbi_decode_caption 21 0x94 0x20 0 cc' = Ret (cc' \<lparr> cc_last0 := 0 \<rparr>)"
  using command_repetition [OF reach_init [of True] command_bytes_14(1), of 21 0 0]
  by (auto simp: vbi_caption_init_def vbi_caption_channel_switched_def vbi_caption_desync_def)

section \<open>A channel switch while the second page is displayed\<close>

lemma show_caption_hidden:
  assumes "channel_ok ch"
  shows "\<exists>ch' calls'. show_caption space (ch, calls) = Ret (ch', calls') \<and> ch_hidden ch' = the_other (ch_hidden ch)"
proof -
  obtain ch1 calls1 where 1: "word_break True (ch_mode_update (\<lambda>_. MODE_POP_ON) ch, calls) = Ret (ch1, calls1)"
    "repaint (ch_mode_update (\<lambda>_. MODE_POP_ON) ch) ch1"
    using word_break_run [of "ch_mode_update (\<lambda>_. MODE_POP_ON) ch" True calls] assms by (auto simp only: channel_ok_mode_update)
  have "ch_hidden ch1 = ch_hidden ch" using repaint_fields(12) [OF 1(2)] by simp
  then show ?thesis by (simp add: show_caption_def Let_def 1(1) set_cursor_def prod_eq_iff)
qed

lemma end_of_caption_flips:
  assumes ok: "caption_ok cc" and cur: "cc_curr_chan cc = 0" and new: "\<not> (cc_last0 cc = 0x94 \<and> cc_last1 cc = 0x2F)"
  shows "\<exists>cc'. vbi_decode_caption 21 0x94 0x2F now cc = Ret cc' \<and> cc_curr_chan cc' = 0 \<and> cc_last1 cc' = 0x2F
     \<and> ch_hidden (cc_channels cc' ! 0) = the_other (ch_hidden (cc_channels cc ! 0))"
proof -
  have cmd: "caption_command 0x14 0x2F False cc = end_of_caption 0 cc"
    by (simp add: caption_command_def misc_control_def Let_def cur)
  have s: "first_channel (space_of cc 0) (\<lambda>ch. channel_ok ch \<and> ch = cc_channels cc ! 0) cc"
    using ok cur caption_ok_channel [OF ok, of 0] by (simp add: first_channel_def)
  let ?h = "ch_hidden (cc_channels cc ! 0)"
  obtain cc1 where 1: "with_channel 0 (word_break True) cc = Ret cc1"
    "first_channel (space_of cc 0) (\<lambda>ch. channel_ok ch \<and> ch_hidden ch = ?h) cc1"
  proof -
    have wb: "\<exists>ch' calls'. word_break True (cc_channels cc ! 0, calls) = Ret (ch', calls') \<and> channel_ok ch' \<and> ch_hidden ch' = ?h" for calls
      using word_break_run [OF caption_ok_channel [OF ok], of 0 True calls] repaint_fields(12) by force
    show thesis using that with_channel_first [OF s keeps_word_break, where Q = "\<lambda>ch. channel_ok ch \<and> ch_hidden ch = ?h"] wb by blast
  qed
  have "cc1 \<lparr> cc_curr_chan := 0 \<rparr> = cc1" using 1(2) by (cases cc1) (simp add: first_channel_def)
  then have sw: "switch_channel 0 0 cc = Ret cc1" by (simp add: switch_channel_def 1(1))
  have sp: "space_of cc1 0 = space_of cc 0" using 1(2) by (simp add: first_channel_def)
  obtain cc2 where 2: "with_channel 0 (show_caption (space_of cc 0)) cc1 = Ret cc2"
    "first_channel (space_of cc 0) (\<lambda>ch. ch_hidden ch = the_other ?h) cc2"
    using with_channel_first [OF 1(2) show_caption_ok, where Q = "\<lambda>ch. ch_hidden ch = the_other ?h"] show_caption_hidden by metis
  have "end_of_caption 0 cc = Ret cc2" by (simp add: end_of_caption_def sw sp 2(1))
  then show ?thesis
    using decode_command [OF command_bytes_14(3), of cc now] new cmd 2(2) by (auto simp: first_channel_def)
qed

text \<open>
  C33. A channel switch does not leave a usable decoder when the hidden page of caption channel 1 is its second page (after an odd number
  of pop-on captions): \<^verbatim>\<open>vbi_caption_channel_switched\<close> sets the line pointer of the channel before it resets \<^verbatim>\<open>hidden\<close>, the pointer is left in
  the page that is now displayed, and the next Resume Caption Loading command copies a line from there to beyond the second page.
\<close>

theorem channel_switch_defect:
  assumes cc: "caption_reach cc" and h: "ch_hidden (cc_channels cc ! 0) = 1" and cur: "cc_curr_chan cc < 4"
    and new: "\<not> (cc_last0 cc = 0x94 \<and> cc_last1 cc = 0x20)"
  shows "vbi_decode_caption 21 0x94 0x20 now (vbi_caption_channel_switched cc) = Undef"
proof -
  define cc1 where "cc1 = vbi_caption_channel_switched cc"
  have l: "cc_last0 cc1 = cc_last0 cc" "cc_last1 cc1 = cc_last1 cc" "cc_curr_chan cc1 = cc_curr_chan cc"
    "cc_channels cc1 ! 0 = channel_switched cc 0 (cc_channels cc ! 0)"
    by (simp_all add: cc1_def vbi_caption_channel_switched_def vbi_caption_desync_def modify_sp_def split: option.split)
  have "ch_line_page (cc_channels cc1 ! 0) = 1" "ch_hidden (cc_channels cc1 ! 0) = 0" "ch_mode (cc_channels cc1 ! 0) = MODE_NONE"
    "ch_col1 (cc_channels cc1 ! 0) = ch_col (cc_channels cc1 ! 0)"
    using h by (simp_all add: l channel_switched_def Let_def set_cursor_def erase_memory_def)
  then have "word_break True (cc_channels cc1 ! 0, cc_calls cc1) = Undef"
    by (simp add: word_break_def update_def)
  moreover have "cc_curr_chan cc1 div 4 = 0" using cur l by simp
  then have "caption_command 0x14 0x20 False cc1 = resume_loading 0 cc1"
    by (simp add: caption_command_def misc_control_def Let_def)
  ultimately have "caption_command 0x14 0x20 False cc1 = Undef"
    by (simp add: resume_loading_def switch_channel_def with_channel_def)
  then show ?thesis
    using decode_command [OF command_bytes_14(1), of cc1 now] new l by (auto simp flip: cc1_def)
qed

theorem channel_switch_defect_witness:
  "\<exists>cc. vbi_decode_caption 21 0x94 0x2F 0 (vbi_caption_init True) = Ret cc
     \<and> vbi_decode_caption 21 0x94 0x20 0 (vbi_caption_channel_switched cc) = Undef"
proof -
  let ?cc = "vbi_caption_init True"
  have f: "cc_curr_chan ?cc = 0" "cc_last0 ?cc = 0" "ch_hidden (cc_channels ?cc ! 0) = 0"
    by (simp_all add: vbi_caption_init_def vbi_caption_channel_switched_def vbi_caption_desync_def channel_switched_def Let_def set_cursor_def
      erase_memory_def)
  obtain cc where 1: "vbi_decode_caption 21 0x94 0x2F 0 ?cc = Ret cc" "cc_curr_chan cc = 0" "cc_last1 cc = 0x2F" "ch_hidden (cc_channels cc ! 0) = 1"
    using end_of_caption_flips [OF init_ok f(1), of 0] f by (auto simp: the_other_def)
  have "caption_reach cc" by (rule reach_decode [OF reach_init 1(1)])
  from channel_switch_defect [OF this 1(4)] show ?thesis using 1(1,2,3) by auto
qed

end
