(* ===== verification/Program_Info.thy ===== *)
theory Program_Info
  imports Complex_Main Zvbi_Prelude
begin

text \<open>
  Program and network information (\<^verbatim>\<open>vbi/src/event.h\<close>): the decoder of XDS packets in \<^verbatim>\<open>caption.c\<close>, of Wide Screen Signalling in \<^verbatim>\<open>wss.c\<close>, and
  the resetting of this information in \<^verbatim>\<open>vbi.c\<close>. A language name is the index of the table \<^verbatim>\<open>language\<close>, \<^verbatim>\<open>NULL\<close> is \<open>None\<close>. The \<^verbatim>\<open>double\<close> of the
  aspect ratio has one of four constant values and is a real number here. Events are recorded with what they report.
\<close>

section \<open>Data\<close>

datatype vbi_subt = VBI_SUBT_NONE | VBI_SUBT_ACTIVE | VBI_SUBT_MATTE | VBI_SUBT_UNKNOWN

record vbi_aspect_ratio =
  ar_first_line :: int
  ar_last_line :: int
  ar_ratio :: real
  ar_film_mode :: bool
  ar_open_subtitles :: vbi_subt

datatype vbi_rating_auth =
  VBI_RATING_AUTH_NONE | VBI_RATING_AUTH_MPAA | VBI_RATING_AUTH_TV_US | VBI_RATING_AUTH_TV_CA_EN | VBI_RATING_AUTH_TV_CA_FR

definition VBI_RATING_D :: u8 where "VBI_RATING_D = 0x08"
definition VBI_RATING_L :: u8 where "VBI_RATING_L = 0x04"
definition VBI_RATING_S :: u8 where "VBI_RATING_S = 0x02"
definition VBI_RATING_V :: u8 where "VBI_RATING_V = 0x01"

datatype vbi_prog_classf = VBI_PROG_CLASSF_NONE | VBI_PROG_CLASSF_EIA_608 | VBI_PROG_CLASSF_ETS_300231

datatype vbi_audio_mode =
    VBI_AUDIO_MODE_NONE | VBI_AUDIO_MODE_MONO | VBI_AUDIO_MODE_STEREO | VBI_AUDIO_MODE_STEREO_SURROUND
  | VBI_AUDIO_MODE_SIMULATED_STEREO | VBI_AUDIO_MODE_VIDEO_DESCRIPTIONS | VBI_AUDIO_MODE_NON_PROGRAM_AUDIO
  | VBI_AUDIO_MODE_SPECIAL_EFFECTS | VBI_AUDIO_MODE_DATA_SERVICE | VBI_AUDIO_MODE_UNKNOWN

record vbi_program_info =
  pi_future :: bool
  pi_month :: int
  pi_day :: int
  pi_hour :: int
  pi_min :: int
  pi_tape_delayed :: bool
  pi_length_hour :: int
  pi_length_min :: int
  pi_elapsed_hour :: int
  pi_elapsed_min :: int
  pi_elapsed_sec :: int
  pi_title :: "u8 list"
  pi_type_classf :: vbi_prog_classf
  pi_type_id :: "u8 list"
  pi_rating_auth :: vbi_rating_auth
  pi_rating_id :: int
  pi_rating_dlsv :: u8
  pi_audio :: "(vbi_audio_mode \<times> nat option) list"
  pi_caption_services :: int
  pi_caption_language :: "nat option list"
  pi_cgms_a :: int
  pi_aspect :: vbi_aspect_ratio
  pi_description :: "u8 list list"

text \<open>\<open>Channel_switched\<close> stands for the calls of \<^verbatim>\<open>vbi_chsw_reset\<close> that reset the cache, the Teletext and caption decoders and the triggers.\<close>

datatype info_event =
    Send_aspect vbi_aspect_ratio
  | Send_prog_info vbi_program_info
  | Send_network "u8 list" "u8 list" u32
  | Send_network_id "u8 list" "u8 list" u32
  | Channel_switched

text \<open>The part of \<^verbatim>\<open>vbi_decoder\<close> that holds this information; \<open>is_want_info\<close> is the test of \<^verbatim>\<open>event_mask\<close>.\<close>

record info_state =
  is_want_info :: bool
  is_prog_info :: "vbi_program_info list"
  is_info_cycle :: "u32 list"
  is_channel_language :: "nat option list"
  is_net_name :: "u8 list"
  is_net_call :: "u8 list"
  is_net_tape_delay :: int
  is_net_nuid :: u32
  is_net_cycle :: int
  is_aspect_source :: int
  is_wss_last0 :: u8
  is_wss_last1 :: u8
  is_wss_rep_ct :: int
  is_wss_time :: real
  is_events :: "info_event list"

definition send :: "info_event \<Rightarrow> info_state \<Rightarrow> info_state" where
  "send e st = st \<lparr> is_events := is_events st @ [e] \<rparr>"

definition modify_info :: "nat \<Rightarrow> (vbi_program_info \<Rightarrow> vbi_program_info) \<Rightarrow> info_state \<Rightarrow> info_state" where
  "modify_info k f st = st \<lparr> is_prog_info := (is_prog_info st) [k := f (is_prog_info st ! k)] \<rparr>"

definition set_cycle :: "nat \<Rightarrow> u32 \<Rightarrow> info_state \<Rightarrow> info_state" where
  "set_cycle k c st = st \<lparr> is_info_cycle := (is_info_cycle st) [k := c] \<rparr>"

section \<open>Reset\<close>

definition unknown_aspect :: vbi_aspect_ratio where
  "unknown_aspect = \<lparr> ar_first_line = -1, ar_last_line = -1, ar_ratio = 0, ar_film_mode = False, ar_open_subtitles = VBI_SUBT_UNKNOWN \<rparr>"

definition vbi_reset_prog_info :: "vbi_program_info \<Rightarrow> vbi_program_info" where
  "vbi_reset_prog_info p = p
     \<lparr> pi_month := -1, pi_day := -1, pi_hour := -1, pi_min := -1, pi_tape_delayed := False,
       pi_length_hour := -1, pi_length_min := -1, pi_elapsed_hour := -1, pi_elapsed_min := -1, pi_elapsed_sec := -1,
       pi_title := (pi_title p) [0 := 0], pi_type_classf := VBI_PROG_CLASSF_NONE, pi_rating_auth := VBI_RATING_AUTH_NONE,
       pi_audio := [(VBI_AUDIO_MODE_UNKNOWN, None), (VBI_AUDIO_MODE_UNKNOWN, None)],
       pi_caption_services := -1, pi_caption_language := replicate 8 None, pi_cgms_a := -1, pi_aspect := unknown_aspect,
       pi_description := map (\<lambda>d. d [0 := 0]) (pi_description p) \<rparr>"

definition vbi_chsw_reset :: "u32 \<Rightarrow> info_state \<Rightarrow> info_state" where
  "vbi_chsw_reset identified st =
     (let old_nuid = is_net_nuid st;
          st = send Channel_switched (st \<lparr> is_info_cycle := [0, 0] \<rparr>);
          st = (if identified = 0
                then let st = st \<lparr> is_net_name := replicate 64 0, is_net_call := replicate 40 0, is_net_tape_delay := 0,
                                  is_net_nuid := 0, is_net_cycle := 0 \<rparr>
                     in if old_nuid \<noteq> 0 then send (Send_network (is_net_name st) (is_net_call st) 0) st else st
                else st);
          st = (if 0 < is_aspect_source st
                then send (Send_aspect \<lparr> ar_first_line = (if is_aspect_source st = 1 then 23 else 22),
                            ar_last_line = (if is_aspect_source st = 1 then 310 else 262), ar_ratio = 1, ar_film_mode = False,
                            ar_open_subtitles = VBI_SUBT_UNKNOWN \<rparr>) st
                else st);
          st = modify_info 0 (\<lambda>pi. (vbi_reset_prog_info pi) \<lparr> pi_future := False \<rparr>) st;
          st = modify_info 1 (\<lambda>pi. (vbi_reset_prog_info pi) \<lparr> pi_future := True \<rparr>) st
      in st \<lparr> is_aspect_source := 0, is_wss_last0 := 0, is_wss_last1 := 0, is_wss_rep_ct := 0, is_wss_time := 0 \<rparr>)"

section \<open>Wide Screen Signalling\<close>

definition new_aspect :: "int \<Rightarrow> vbi_aspect_ratio \<Rightarrow> info_state \<Rightarrow> info_state" where
  "new_aspect source r st =
     (if r \<noteq> pi_aspect (is_prog_info st ! 0)
      then let st = modify_info 0 (pi_aspect_update (\<lambda>_. r)) (st \<lparr> is_aspect_source := source \<rparr>)
           in send (Send_prog_info (is_prog_info st ! 0)) (send (Send_aspect r) st)
      else st)"

definition wss_parity_ok :: "u8 \<Rightarrow> bool" where
  "wss_parity_ok b =
     (let parity = b AND 15;
          parity = parity XOR drop_bit 2 parity;
          parity = parity XOR drop_bit 1 parity
      in parity AND 1 \<noteq> 0)"

definition wss_aspect :: "u8 \<Rightarrow> u8 \<Rightarrow> vbi_aspect_ratio" where
  "wss_aspect b0 b1 =
     (let (first_line, last_line, ratio) =
        [(23, 310, 1), (41, 292, 1), (23, 274, 1), (59, 273, 1), (23, 237, 1), (59, 273, 1), (23, 310, 1), (23, 310, 3 / 4)]
          ! unat (b0 AND 7)
      in \<lparr> ar_first_line = first_line, ar_last_line = last_line, ar_ratio = ratio, ar_film_mode = b0 AND 0x10 \<noteq> 0,
           ar_open_subtitles = [VBI_SUBT_NONE, VBI_SUBT_ACTIVE, VBI_SUBT_MATTE, VBI_SUBT_UNKNOWN] ! unat (drop_bit 1 b1 AND 3) \<rparr>)"

definition vbi_decode_wss_625 :: "u8 \<Rightarrow> u8 \<Rightarrow> real \<Rightarrow> info_state \<Rightarrow> info_state" where
  "vbi_decode_wss_625 b0 b1 time st =
     (if time < is_wss_time st then st
      else let st = st \<lparr> is_wss_time := time \<rparr>
           in if b0 \<noteq> is_wss_last0 st \<or> b1 \<noteq> is_wss_last1 st
              then st \<lparr> is_wss_last0 := b0, is_wss_last1 := b1, is_wss_rep_ct := 0 \<rparr>
              else let st = st \<lparr> is_wss_rep_ct := is_wss_rep_ct st + 1 \<rparr>
                   in if is_wss_rep_ct st < 3 then st
                      else if \<not> wss_parity_ok b0 then st
                      else new_aspect 1 (wss_aspect b0 b1) st)"

definition vbi_decode_wss_cpr1204 :: "u8 \<Rightarrow> info_state \<Rightarrow> info_state" where
  "vbi_decode_wss_cpr1204 b st =
     new_aspect 2 \<lparr> ar_first_line = (if b AND 0x40 \<noteq> 0 then 72 else 22), ar_last_line = (if b AND 0x40 \<noteq> 0 then 212 else 262),
       ar_ratio = (if b AND 0x80 \<noteq> 0 then 3 / 4 else 1), ar_film_mode = False, ar_open_subtitles = VBI_SUBT_UNKNOWN \<rparr> st"

section \<open>Extended Data Service\<close>

text \<open>\<^verbatim>\<open>xds_strfu\<close>: the string stored in the array \<open>d\<close>, and whether it differs from the one there.\<close>

definition xds_strfu :: "u8 list \<Rightarrow> u8 list \<Rightarrow> bool \<times> u8 list" where
  "xds_strfu d s =
     (let t = map (max 0x20) (dropWhile (\<lambda>c. c \<le> 0x20) s) @ [0]
      in (take (length t) d \<noteq> t, t @ drop (length t) d))"

definition flush_prog_info :: "nat \<Rightarrow> info_state \<Rightarrow> info_state" where
  "flush_prog_info k st =
     (let aspect = pi_aspect (is_prog_info st ! k);
          st = modify_info k vbi_reset_prog_info st;
          pi = is_prog_info st ! k;
          st = (if aspect \<noteq> pi_aspect pi then send (Send_aspect aspect) st else st)
      in set_cycle (if pi_future pi then 1 else 0) 0 st)"

text \<open>
  The packets of class \<^verbatim>\<open>XDS_CURRENT\<close> and \<^verbatim>\<open>XDS_FUTURE\<close>, \<open>k\<close>. The result \<open>None\<close> is an early return of \<^verbatim>\<open>xds_decoder\<close>, otherwise the value
  of \<^verbatim>\<open>neq\<close>, whether the information is new. \<open>b\<close> is the buffer of 32 bytes.
\<close>

type_synonym info_step = "info_state \<Rightarrow> (bool \<times> info_state) option"

definition xds_identification :: "nat \<Rightarrow> u8 list \<Rightarrow> nat \<Rightarrow> info_step" where
  "xds_identification k b len st =
     (let month = uint (b ! 3 AND 15); day = uint (b ! 2 AND 31); hour = uint (b ! 1 AND 31); mn = uint (b ! 0 AND 63)
      in if len \<noteq> 4 then None
         else if month = 0 \<or> 12 < month \<or> day = 0 \<or> 31 < day \<or> 23 < hour \<or> 59 < mn then None
         else let month = month - 1; day = day - 1; pi = is_prog_info st ! k;
                  neq = (pi_month pi \<noteq> month \<or> pi_day pi \<noteq> day \<or> pi_hour pi \<noteq> hour \<or> pi_min pi \<noteq> mn);
                  delayed = b ! 3 AND 0x10 \<noteq> 0;
                  st = modify_info k (pi_tape_delayed_update (\<lambda>_. delayed)) st
              in Some (neq, if neq
                   then modify_info k (\<lambda>pi. pi \<lparr> pi_month := month, pi_day := day, pi_hour := hour, pi_min := mn,
                          pi_tape_delayed := delayed \<rparr>) (flush_prog_info k st)
                   else st))"

definition xds_length :: "nat \<Rightarrow> u8 list \<Rightarrow> nat \<Rightarrow> info_step" where
  "xds_length k b len st =
     (if len < 2 \<or> 6 < len then None
      else let lhour = uint (b ! 1 AND 63); lmin = uint (b ! 0 AND 63);
               ehour = (if 3 \<le> len then uint (b ! 3 AND 63) else -1); emin = (if 3 \<le> len then uint (b ! 2 AND 63) else -1);
               esec = (if 5 \<le> len then uint (b ! 4 AND 63) else 0); pi = is_prog_info st ! k
           in if 59 < lmin \<or> 59 < emin \<or> 59 < esec then None
              else Some (pi_length_hour pi \<noteq> lhour \<or> pi_length_min pi \<noteq> lmin \<or> pi_elapsed_hour pi \<noteq> ehour
                     \<or> pi_elapsed_min pi \<noteq> emin \<or> pi_elapsed_sec pi \<noteq> esec,
                   modify_info k (\<lambda>pi. pi \<lparr> pi_length_hour := lhour, pi_length_min := lmin, pi_elapsed_hour := ehour,
                     pi_elapsed_min := emin, pi_elapsed_sec := esec \<rparr>) st))"

definition xds_name :: "nat \<Rightarrow> u8 list \<Rightarrow> nat \<Rightarrow> info_step" where
  "xds_name k b len st =
     (if len < 2 then None
      else let s = take len b; (neq, title) = xds_strfu (pi_title (is_prog_info st ! k)) s;
               st = modify_info k (pi_title_update (\<lambda>_. title)) st
           in Some (neq,
                if neq then st
                else if \<not> bit (is_info_cycle st ! k) 3 then st
                else if \<not> bit (is_info_cycle st ! k) 1
                then let st = modify_info k (pi_title_update (\<lambda>t. snd (xds_strfu t s))) (flush_prog_info k st)
                     in set_cycle k (is_info_cycle st ! k OR push_bit 3 1) st
                else st))"

text \<open>The variable \<^verbatim>\<open>neq\<close> of this case is a local one, the outer variable stays 0.\<close>

definition xds_type :: "nat \<Rightarrow> u8 list \<Rightarrow> nat \<Rightarrow> info_step" where
  "xds_type k b len st =
     Some (False, modify_info k (\<lambda>pi. pi \<lparr> pi_type_classf := VBI_PROG_CLASSF_EIA_608,
       pi_type_id := take len b @ [0] @ drop (len + 1) (pi_type_id pi) \<rparr>) st)"

definition xds_rating :: "nat \<Rightarrow> u8 list \<Rightarrow> nat \<Rightarrow> info_step" where
  "xds_rating k b len st =
     (let r = uint (b ! 0 AND 7); g = uint (b ! 1 AND 7);
          dlsv = (if b ! 0 AND 0x20 \<noteq> 0 then VBI_RATING_D else 0) OR (if b ! 1 AND 0x08 \<noteq> 0 then VBI_RATING_L else 0)
             OR (if b ! 1 AND 0x10 \<noteq> 0 then VBI_RATING_S else 0) OR (if b ! 1 AND 0x20 \<noteq> 0 then VBI_RATING_V else 0);
          rate = (\<lambda>auth r dlsv st.
            let pi = is_prog_info st ! k; neq = (pi_rating_auth pi \<noteq> auth \<or> pi_rating_id pi \<noteq> r \<or> pi_rating_dlsv pi \<noteq> dlsv)
            in Some (neq, if neq then modify_info k (\<lambda>pi. pi \<lparr> pi_rating_auth := auth, pi_rating_id := r, pi_rating_dlsv := dlsv \<rparr>) st
                          else st));
          no_dlsv = modify_info k (pi_rating_dlsv_update (\<lambda>_. 0)) st
      in if len \<noteq> 2 then None
         else if b ! 0 AND 0x08 = 0 then if r = 0 then None else rate VBI_RATING_AUTH_MPAA r 0 no_dlsv
         else if b ! 0 AND 0x10 = 0 then rate VBI_RATING_AUTH_TV_US g dlsv st
         else if b ! 1 AND 0x08 = 0
         then if b ! 0 AND 0x20 = 0
              then if 6 < g then None else rate VBI_RATING_AUTH_TV_CA_EN g 0 no_dlsv
              else if 5 < g then None else rate VBI_RATING_AUTH_TV_CA_FR g 0 no_dlsv
         else None)"

definition xds_language :: "nat \<Rightarrow> nat option" where
  "xds_language l = (if l \<in> {0, 6, 7} then None else Some l)"

definition xds_audio_modes :: "vbi_audio_mode list list" where
  "xds_audio_modes =
     [[VBI_AUDIO_MODE_UNKNOWN, VBI_AUDIO_MODE_MONO, VBI_AUDIO_MODE_SIMULATED_STEREO, VBI_AUDIO_MODE_STEREO,
       VBI_AUDIO_MODE_STEREO_SURROUND, VBI_AUDIO_MODE_DATA_SERVICE, VBI_AUDIO_MODE_UNKNOWN, VBI_AUDIO_MODE_NONE],
      [VBI_AUDIO_MODE_UNKNOWN, VBI_AUDIO_MODE_MONO, VBI_AUDIO_MODE_VIDEO_DESCRIPTIONS, VBI_AUDIO_MODE_NON_PROGRAM_AUDIO,
       VBI_AUDIO_MODE_SPECIAL_EFFECTS, VBI_AUDIO_MODE_DATA_SERVICE, VBI_AUDIO_MODE_UNKNOWN, VBI_AUDIO_MODE_NONE]]"

definition xds_audio :: "nat \<Rightarrow> u8 list \<Rightarrow> nat \<Rightarrow> info_step" where
  "xds_audio k b len st =
     (if len \<noteq> 2 then None
      else let audio = map (\<lambda>i. (xds_audio_modes ! i ! unat (b ! i AND 7), xds_language (unat (drop_bit 3 (b ! i) AND 7)))) [0, 1]
           in Some (pi_audio (is_prog_info st ! k) \<noteq> audio, modify_info k (pi_audio_update (\<lambda>_. audio)) st))"

text \<open>One byte of the caption services packet: channel and language.\<close>

definition caption_service :: "nat \<Rightarrow> u8 \<Rightarrow> bool \<times> int \<times> info_state \<Rightarrow> bool \<times> int \<times> info_state" where
  "caption_service k c s =
     (let (neq, services, st) = s;
          ch = unat (c AND 7); ch = ch mod 2 * 4 + ch div 2; language = xds_language (unat (drop_bit 3 c AND 7));
          neq = (neq \<or> pi_caption_language (is_prog_info st ! k) ! ch \<noteq> language);
          st = modify_info k (pi_caption_language_update (\<lambda>ls. ls [ch := language])) st;
          st = (if k = 0 then st \<lparr> is_channel_language := (is_channel_language st) [ch := language] \<rparr> else st)
      in (neq, services OR push_bit ch 1, st))"

definition xds_caption_services :: "nat \<Rightarrow> u8 list \<Rightarrow> nat \<Rightarrow> info_step" where
  "xds_caption_services k b len st =
     (if 8 < len then None
      else let (neq, services, st) =
             fold (caption_service k) (take len b) (False, 0, modify_info k (pi_caption_language_update (\<lambda>_. replicate 8 None)) st)
           in Some (neq \<or> pi_caption_services (is_prog_info st ! k) \<noteq> services,
                modify_info k (pi_caption_services_update (\<lambda>_. services)) st))"

definition xds_cgms :: "nat \<Rightarrow> u8 list \<Rightarrow> nat \<Rightarrow> info_step" where
  "xds_cgms k b len st =
     (if len \<noteq> 1 then None
      else Some (pi_cgms_a (is_prog_info st ! k) \<noteq> uint (b ! 0 AND 63), modify_info k (pi_cgms_a_update (\<lambda>_. uint (b ! 0 AND 63))) st))"

definition xds_aspect :: "u8 list \<Rightarrow> nat \<Rightarrow> info_step" where
  "xds_aspect b len st =
     (if 3 < len then None
      else let r = \<lparr> ar_first_line = uint (b ! 0 AND 63) + 22, ar_last_line = 262 - uint (b ! 1 AND 63),
                     ar_ratio = (if 3 \<le> len \<and> b ! 2 AND 1 \<noteq> 0 then 16 / 9 else 1), ar_film_mode = False,
                     ar_open_subtitles = VBI_SUBT_UNKNOWN \<rparr>
           in if r \<noteq> pi_aspect (is_prog_info st ! 0)
              then Some (True, send (Send_aspect r) (modify_info 0 (pi_aspect_update (\<lambda>_. r)) (st \<lparr> is_aspect_source := 3 \<rparr>)))
              else Some (False, st))"

definition xds_description :: "nat \<Rightarrow> nat \<Rightarrow> u8 list \<Rightarrow> nat \<Rightarrow> info_step" where
  "xds_description k l b len st =
     (let (neq, d) = xds_strfu (pi_description (is_prog_info st ! k) ! l) (take len b)
      in Some (neq, modify_info k (pi_description_update (\<lambda>ds. ds [l := d])) st))"

definition xds_program_step :: "nat \<Rightarrow> nat \<Rightarrow> u8 list \<Rightarrow> nat \<Rightarrow> info_step" where
  "xds_program_step k t b len =
     (if t = 1 then xds_identification k b len
      else if t = 2 then xds_length k b len
      else if t = 3 then xds_name k b len
      else if t = 4 then xds_type k b len
      else if t = 5 then xds_rating k b len
      else if t = 6 then xds_audio k b len
      else if t = 7 then xds_caption_services k b len
      else if t = 8 then xds_cgms k b len
      else if t = 9 then xds_aspect b len
      else if 0x10 \<le> t \<and> t \<le> 0x17 then xds_description k (t mod 8) b len
      else (\<lambda>_. None))"

definition xds_program :: "nat \<Rightarrow> nat \<Rightarrow> u8 list \<Rightarrow> nat \<Rightarrow> info_state \<Rightarrow> info_state" where
  "xds_program k t b len st =
     (if \<not> is_want_info st then st
      else case xds_program_step k t b len st of
        None \<Rightarrow> st
      | Some (neq, st) \<Rightarrow>
          if neq then set_cycle k (is_info_cycle st ! k OR push_bit t 1) st
          else if bit (is_info_cycle st ! k) t then set_cycle k 0 (send (Send_prog_info (is_prog_info st ! k)) st)
          else st)"

text \<open>The identifier of a network is a checksum of its call letters or name.\<close>

definition hcrc :: "nat \<Rightarrow> u32" where
  "hcrc i = foldr (\<lambda>j s. if bit i j then s XOR drop_bit j 0x48000000 else s) [0, 1, 2, 3, 4, 5, 6] 0"

definition c_string :: "u8 list \<Rightarrow> u8 list" where
  "c_string = takeWhile (\<lambda>c. c \<noteq> 0)"

definition network_sum :: "u8 list \<Rightarrow> u32" where
  "network_sum s = fold (\<lambda>c sum. drop_bit 7 sum XOR hcrc (unat ((sum XOR ucast c) AND 0x7F))) (c_string s) 0"

definition network_nuid :: "u8 list \<Rightarrow> u8 list \<Rightarrow> u32" where
  "network_nuid call name = (network_sum (if call ! 0 \<noteq> 0 then call else name) AND 0x7FFFFFFF) OR push_bit 30 1"

definition xds_channel :: "nat \<Rightarrow> u8 list \<Rightarrow> nat \<Rightarrow> info_state \<Rightarrow> info_state" where
  "xds_channel t b len st =
     (if t = 1
      then let (neq, name) = xds_strfu (is_net_name st) (take len b); st = st \<lparr> is_net_name := name \<rparr>
           in if neq then st \<lparr> is_net_cycle := 1 \<rparr>
              else if is_net_cycle st = 1
              then let sum = network_nuid (is_net_call st) (is_net_name st);
                       st = (if is_net_nuid st \<noteq> 0 then vbi_chsw_reset sum st else st) \<lparr> is_net_nuid := sum \<rparr>;
                       st = send (Send_network (is_net_name st) (is_net_call st) sum) st;
                       st = send (Send_network_id (is_net_name st) (is_net_call st) sum) st
                   in st \<lparr> is_net_cycle := 3 \<rparr>
              else st
      else if t = 2
      then let (neq, call) = xds_strfu (is_net_call st) (take len b); st = st \<lparr> is_net_call := call \<rparr>
           in if neq \<and> is_net_cycle st \<noteq> 1 then st \<lparr> is_net_name := (is_net_name st) [0 := 0], is_net_cycle := 0 \<rparr> else st
      else if t = 3 \<and> len = 2
      then st \<lparr> is_net_tape_delay := uint (b ! 1 AND 31) * 60 + uint (b ! 0 AND 63) \<rparr>
      else st)"

definition xds_decoder :: "nat \<Rightarrow> nat \<Rightarrow> u8 list \<Rightarrow> nat \<Rightarrow> info_state \<Rightarrow> info_state c_result" where
  "xds_decoder cls t b len st =
     (if \<not> (0 < len \<and> len \<le> 32) then Undef
      else if cls = 0 \<or> cls = 1 then Ret (xds_program cls t b len st)
      else if cls = 2 then Ret (xds_channel t b len st)
      else Ret st)"

section \<open>Properties\<close>

lemma send_fields [simp]:
  "is_want_info (send e st) = is_want_info st" "is_prog_info (send e st) = is_prog_info st" "is_info_cycle (send e st) = is_info_cycle st"
  "is_events (send e st) = is_events st @ [e]" "is_aspect_source (send e st) = is_aspect_source st"
  by (simp_all add: send_def)

lemma modify_info_fields [simp]:
  "is_want_info (modify_info k f st) = is_want_info st" "is_info_cycle (modify_info k f st) = is_info_cycle st"
  "is_events (modify_info k f st) = is_events st" "length (is_prog_info (modify_info k f st)) = length (is_prog_info st)"
  by (simp_all add: modify_info_def)

lemma modify_info_nth: "k < length (is_prog_info st) \<Longrightarrow> is_prog_info (modify_info k f st) ! k = f (is_prog_info st ! k)"
  by (simp add: modify_info_def)

lemma modify_info_id: "f (is_prog_info st ! k) = is_prog_info st ! k \<Longrightarrow> modify_info k f st = st"
  by (simp add: modify_info_def)

lemma set_cycle_fields [simp]:
  "is_want_info (set_cycle k c st) = is_want_info st" "is_prog_info (set_cycle k c st) = is_prog_info st"
  "is_events (set_cycle k c st) = is_events st" "length (is_info_cycle (set_cycle k c st)) = length (is_info_cycle st)"
  by (simp_all add: set_cycle_def)

lemma set_cycle_nth: "k < length (is_info_cycle st) \<Longrightarrow> is_info_cycle (set_cycle k c st) ! k = c"
  by (simp add: set_cycle_def)

subsection \<open>Wide Screen Signalling\<close>

text \<open>A word received at the times \<open>ts\<close>, and the state after that.\<close>

definition wss_run :: "u8 \<Rightarrow> u8 \<Rightarrow> real list \<Rightarrow> info_state \<Rightarrow> info_state" where
  "wss_run b0 b1 ts st = fold (vbi_decode_wss_625 b0 b1) ts st"

lemma wss_run_state:
  assumes "b0 \<noteq> is_wss_last0 st \<or> b1 \<noteq> is_wss_last1 st" "sorted (is_wss_time st # ts)" "ts \<noteq> []" "wss_parity_ok b0"
    "is_prog_info st \<noteq> []"
  shows "is_wss_last0 (wss_run b0 b1 ts st) = b0 \<and> is_wss_last1 (wss_run b0 b1 ts st) = b1
    \<and> is_wss_rep_ct (wss_run b0 b1 ts st) = int (length ts) - 1 \<and> is_wss_time (wss_run b0 b1 ts st) = last ts
    \<and> (let r = wss_aspect b0 b1; p = is_prog_info st ! 0
       in if 4 \<le> length ts \<and> r \<noteq> pi_aspect p
          then is_events (wss_run b0 b1 ts st) = is_events st @ [Send_aspect r, Send_prog_info (p \<lparr> pi_aspect := r \<rparr>)]
             \<and> is_prog_info (wss_run b0 b1 ts st) = (is_prog_info st) [0 := p \<lparr> pi_aspect := r \<rparr>]
          else is_events (wss_run b0 b1 ts st) = is_events st \<and> is_prog_info (wss_run b0 b1 ts st) = is_prog_info st)"
  using assms(2,3)
proof (induction ts rule: rev_induct)
  case Nil
  then show ?case by simp
next
  case (snoc t ts)
  show ?case
  proof (cases "ts = []")
    case True
    then show ?thesis
      using snoc.prems assms(1) by (simp add: wss_run_def vbi_decode_wss_625_def Let_def)
  next
    case False
    have s: "sorted (is_wss_time st # ts)" using snoc.prems(1) by (simp add: sorted_append)
    note IH = snoc.IH [OF s False]
    have "last ts \<le> t" using snoc.prems(1) False by (simp add: sorted_append)
    then have t: "\<not> t < is_wss_time (wss_run b0 b1 ts st)" using IH by simp
    have run: "wss_run b0 b1 (ts @ [t]) st = vbi_decode_wss_625 b0 b1 t (wss_run b0 b1 ts st)" by (simp add: wss_run_def)
    have len: "0 < length ts" using False by simp
    show ?thesis
      using IH t len assms(4,5) unfolding run
      by (cases "length ts = 3"; cases "4 \<le> length ts"; cases "wss_aspect b0 b1 = pi_aspect (is_prog_info st ! 0)")
        (auto simp: vbi_decode_wss_625_def Let_def new_aspect_def modify_info_def send_def)
  qed
qed

text \<open>
  C35. Wide Screen Signalling is believed at the fourth reception of the same word and reported once: when a word with valid parity that
  differs from the one before is received at increasing times, no event is sent for its first three receptions; at the fourth, if the
  aspect ratio differs from the known one, the new aspect ratio and then the program information with this ratio; after
  that nothing more.
\<close>

theorem wss_reported_once:
  assumes "b0 \<noteq> is_wss_last0 st \<or> b1 \<noteq> is_wss_last1 st" "sorted (is_wss_time st # ts)" "wss_parity_ok b0" "is_prog_info st \<noteq> []"
  shows "is_events (wss_run b0 b1 ts st) = is_events st @
    (if 4 \<le> length ts \<and> wss_aspect b0 b1 \<noteq> pi_aspect (is_prog_info st ! 0)
     then [Send_aspect (wss_aspect b0 b1), Send_prog_info ((is_prog_info st ! 0) \<lparr> pi_aspect := wss_aspect b0 b1 \<rparr>)] else [])"
proof (cases "ts = []")
  case True
  then show ?thesis by (simp add: wss_run_def)
next
  case False
  then show ?thesis using wss_run_state [OF assms(1,2) False assms(3,4)] by (auto simp: Let_def)
qed

text \<open>The state of a decoder after allocation, when handlers for program information have been added.\<close>

definition program_info_0 :: "bool \<Rightarrow> vbi_program_info" where
  "program_info_0 future = vbi_reset_prog_info
     \<lparr> pi_future = future, pi_month = 0, pi_day = 0, pi_hour = 0, pi_min = 0, pi_tape_delayed = False, pi_length_hour = 0,
       pi_length_min = 0, pi_elapsed_hour = 0, pi_elapsed_min = 0, pi_elapsed_sec = 0, pi_title = replicate 64 0,
       pi_type_classf = VBI_PROG_CLASSF_NONE, pi_type_id = replicate 33 0, pi_rating_auth = VBI_RATING_AUTH_NONE, pi_rating_id = 0,
       pi_rating_dlsv = 0, pi_audio = replicate 2 (VBI_AUDIO_MODE_NONE, None), pi_caption_services = 0,
       pi_caption_language = replicate 8 None, pi_cgms_a = 0, pi_aspect = unknown_aspect, pi_description = replicate 8 (replicate 33 0) \<rparr>"

definition info_state_0 :: info_state where
  "info_state_0 = \<lparr> is_want_info = True, is_prog_info = [program_info_0 False, program_info_0 True], is_info_cycle = [0, 0],
     is_channel_language = replicate 9 None, is_net_name = replicate 64 0, is_net_call = replicate 40 0, is_net_tape_delay = 0,
     is_net_nuid = 0, is_net_cycle = 0, is_aspect_source = 0, is_wss_last0 = 0, is_wss_last1 = 0, is_wss_rep_ct = 0, is_wss_time = 0,
     is_events = [] \<rparr>"

theorem wss_reported_once_witness:
  "is_events (wss_run 0x08 0 [1, 2, 3, 4, 5] info_state_0) =
     [Send_aspect (wss_aspect 0x08 0), Send_prog_info ((program_info_0 False) \<lparr> pi_aspect := wss_aspect 0x08 0 \<rparr>)]"
proof -
  have p: "wss_parity_ok 0x08" by (simp add: wss_parity_ok_def Let_def drop_bit_eq_div)
  have a: "wss_aspect 0x08 0 \<noteq> pi_aspect (is_prog_info info_state_0 ! 0)"
    by (simp add: wss_aspect_def info_state_0_def program_info_0_def vbi_reset_prog_info_def unknown_aspect_def)
  show ?thesis
    using wss_reported_once [of "0x08" info_state_0 0 "[1, 2, 3, 4, 5]"] p a by (simp add: info_state_0_def)
qed

subsection \<open>Program information\<close>

lemma xds_strfu_again: "xds_strfu d s = (n, d') \<Longrightarrow> xds_strfu d' s = (False, d')"
  by (auto simp: xds_strfu_def Let_def)

definition plain_types :: "nat set" where
  "plain_types = {1, 2, 5, 6, 8} \<union> {0x10..0x17}"

text \<open>A packet received again changes nothing.\<close>

lemma modify_info_other: "is_prog_info st' = is_prog_info st1 \<Longrightarrow> f (is_prog_info st1 ! k) = is_prog_info st1 ! k \<Longrightarrow> modify_info k f st' = st'"
  by (simp add: modify_info_id)

lemma flush_length [simp]: "length (is_prog_info (flush_prog_info k st)) = length (is_prog_info st)"
  by (simp add: flush_prog_info_def Let_def)

lemma identification_again:
  assumes "xds_identification k b len st = Some (n, st1)" "k < length (is_prog_info st)" "is_prog_info st' = is_prog_info st1"
  shows "xds_identification k b len st' = Some (False, st')"
  using assms(1,2) modify_info_other [OF assms(3)]
  by (auto simp: xds_identification_def Let_def assms(3) modify_info_nth split: if_splits intro!: modify_info_other [OF assms(3)])

lemma length_again:
  assumes "xds_length k b len st = Some (n, st1)" "k < length (is_prog_info st)" "is_prog_info st' = is_prog_info st1"
  shows "xds_length k b len st' = Some (False, st')"
  using assms(1,2) by (auto simp: xds_length_def Let_def assms(3) modify_info_nth split: if_splits intro!: modify_info_other [OF assms(3)])

lemma audio_again:
  assumes "xds_audio k b len st = Some (n, st1)" "k < length (is_prog_info st)" "is_prog_info st' = is_prog_info st1"
  shows "xds_audio k b len st' = Some (False, st')"
  using assms(1,2) by (auto simp: xds_audio_def Let_def assms(3) modify_info_nth split: if_splits intro!: modify_info_other [OF assms(3)])

lemma cgms_again:
  assumes "xds_cgms k b len st = Some (n, st1)" "k < length (is_prog_info st)" "is_prog_info st' = is_prog_info st1"
  shows "xds_cgms k b len st' = Some (False, st')"
  using assms(1,2) by (auto simp: xds_cgms_def Let_def assms(3) modify_info_nth split: if_splits intro!: modify_info_other [OF assms(3)])

lemma description_again:
  assumes "xds_description k l b len st = Some (n, st1)" "k < length (is_prog_info st)" "l < length (pi_description (is_prog_info st ! k))"
    "is_prog_info st' = is_prog_info st1"
  shows "xds_description k l b len st' = Some (False, st')"
proof -
  obtain d where d: "xds_strfu (pi_description (is_prog_info st ! k) ! l) (take len b) = (n, d)"
    "st1 = modify_info k (pi_description_update (\<lambda>ds. ds [l := d])) st"
    using assms(1) by (auto simp: xds_description_def split: prod.splits)
  have p: "is_prog_info st' ! k = (is_prog_info st ! k) \<lparr> pi_description := (pi_description (is_prog_info st ! k)) [l := d] \<rparr>"
    using assms(2,4) d(2) by (simp add: modify_info_nth)
  show ?thesis
    using xds_strfu_again [OF d(1)] assms(3) by (auto simp: xds_description_def p intro!: modify_info_id)
qed

lemma rating_again:
  assumes "xds_rating k b len st = Some (n, st1)" "k < length (is_prog_info st)" "is_prog_info st' = is_prog_info st1"
  shows "xds_rating k b len st' = Some (False, st')"
proof -
  define no_dlsv where "no_dlsv st = modify_info k (pi_rating_dlsv_update (\<lambda>_. 0)) st" for st
  define rate where "rate auth r dlsv st =
     (let pi = is_prog_info st ! k; neq = (pi_rating_auth pi \<noteq> auth \<or> pi_rating_id pi \<noteq> r \<or> pi_rating_dlsv pi \<noteq> dlsv)
      in Some (neq, if neq then modify_info k (\<lambda>pi. pi \<lparr> pi_rating_auth := auth, pi_rating_id := r, pi_rating_dlsv := dlsv \<rparr>) st
                    else st))" for auth r dlsv st
  have again: "rate auth r dlsv s' = Some (False, s')"
    if "rate auth r dlsv s = Some (n, st1)" "k < length (is_prog_info s)" "is_prog_info s' = is_prog_info st1" for auth r dlsv s s'
    using that by (auto simp: rate_def Let_def modify_info_nth split: if_splits)
  have none: "no_dlsv st' = st'"
    if "rate auth r 0 (no_dlsv st) = Some (n, st1)" for auth r
    using that assms(2,3) unfolding no_dlsv_def
    by (intro modify_info_id) (auto simp: rate_def Let_def modify_info_nth split: if_splits)
  have len: "length (is_prog_info (no_dlsv st)) = length (is_prog_info st)" by (simp add: no_dlsv_def)
  show ?thesis
    using assms(1) again [OF _ _ assms(3), of _ _ _ "no_dlsv st"] again [OF _ assms(2,3)] none assms(2) len
    unfolding xds_rating_def Let_def no_dlsv_def [symmetric]
    unfolding rate_def [unfolded Let_def, symmetric]
    by (auto split: if_splits)
qed

lemma program_step_again:
  assumes "t \<in> plain_types" "xds_program_step k t b len st = Some (n, st1)" "k < length (is_prog_info st)"
    "length (pi_description (is_prog_info st ! k)) = 8" "is_prog_info st' = is_prog_info st1"
  shows "xds_program_step k t b len st' = Some (False, st')"
proof -
  consider "t = 1" | "t = 2" | "t = 5" | "t = 6" | "t = 8" | "0x10 \<le> t" "t \<le> 0x17" using assms(1) by (auto simp: plain_types_def)
  then show ?thesis
  proof cases
    case 1
    then show ?thesis using assms identification_again by (simp add: xds_program_step_def)
  next
    case 2
    then show ?thesis using assms length_again by (simp add: xds_program_step_def)
  next
    case 3
    then show ?thesis using assms rating_again by (simp add: xds_program_step_def)
  next
    case 4
    then show ?thesis using assms audio_again by (simp add: xds_program_step_def)
  next
    case 5
    then show ?thesis using assms cgms_again by (simp add: xds_program_step_def)
  next
    case 6
    have "t mod 8 < 8" by simp
    with 6 show ?thesis using assms description_again by (simp add: xds_program_step_def)
  qed
qed

lemma program_step_cycle_length:
  "t \<in> plain_types \<Longrightarrow> xds_program_step k t b len st = Some (n, st1) \<Longrightarrow>
   length (is_info_cycle st1) = length (is_info_cycle st) \<and> is_want_info st1 = is_want_info st"
  by (auto simp: xds_program_step_def plain_types_def xds_identification_def xds_length_def xds_rating_def xds_audio_def xds_cgms_def
      xds_description_def Let_def flush_prog_info_def split: if_splits prod.splits)



text \<open>The cycle marks of the two types that are never reported.\<close>

lemma caption_service_neq: "fst (caption_service k c s) \<longleftrightarrow> fst s \<or>
    pi_caption_language (is_prog_info (snd (snd s)) ! k) ! (unat (c AND 7) mod 2 * 4 + unat (c AND 7) div 2) \<noteq> xds_language (unat (drop_bit 3 c AND 7))"
  by (simp add: caption_service_def Let_def split: prod.splits)

lemma caption_service_fields:
  "is_events (snd (snd (caption_service k c s))) = is_events (snd (snd s))"
  "is_info_cycle (snd (snd (caption_service k c s))) = is_info_cycle (snd (snd s))"
  "length (is_prog_info (snd (snd (caption_service k c s)))) = length (is_prog_info (snd (snd s)))"
  by (simp_all add: caption_service_def Let_def split: prod.splits)

lemma caption_fold_fields:
  "is_events (snd (snd (fold (caption_service k) cs s))) = is_events (snd (snd s))"
  "is_info_cycle (snd (snd (fold (caption_service k) cs s))) = is_info_cycle (snd (snd s))"
  by (induction cs arbitrary: s) (simp_all add: caption_service_fields)

lemma caption_fold_neq: "fst s \<Longrightarrow> fst (fold (caption_service k) cs s)"
  by (induction cs arbitrary: s) (simp_all add: caption_service_neq)

lemma channel_less: "unat (c AND 7) mod 2 * 4 + unat (c AND 7) div 2 < 8" for c :: u8
proof -
  have "unat (c AND mask 3) < 2 ^ 3" by (rule unat_and_mask_less)
  then have "unat (c AND 7) < 8" by (simp add: mask_eq_exp_minus_1)
  then show ?thesis by linarith
qed

lemma caption_fold_known:
  assumes "pi_caption_language (is_prog_info (snd (snd s)) ! k) = replicate 8 None" "k < length (is_prog_info (snd (snd s)))"
    "\<exists>c \<in> set cs. xds_language (unat (drop_bit 3 c AND 7)) \<noteq> None"
  shows "fst (fold (caption_service k) cs s)"
  using assms
proof (induction cs arbitrary: s)
  case Nil
  then show ?case by simp
next
  case (Cons c cs)
  let ?ch = "unat (c AND 7) mod 2 * 4 + unat (c AND 7) div 2"
  show ?case
  proof (cases "xds_language (unat (drop_bit 3 c AND 7)) = None")
    case False
    then have "fst (caption_service k c s)"
      using Cons.prems(1) channel_less [of c] by (auto simp: caption_service_neq)
    then show ?thesis by (simp add: caption_fold_neq)
  next
    case True
    have "pi_caption_language (is_prog_info (snd (snd (caption_service k c s))) ! k) = replicate 8 None"
      using Cons.prems(1,2) True by (auto simp: caption_service_def Let_def modify_info_nth split: prod.splits) (simp_all add: list_update_same_conv channel_less)
    then show ?thesis using Cons.IH [of "caption_service k c s"] Cons.prems(2,3) True by (simp add: caption_service_fields)
  qed
qed

definition never_reported :: "nat \<Rightarrow> u8 list \<Rightarrow> nat \<Rightarrow> bool" where
  "never_reported t b len \<longleftrightarrow> t = 4
     \<or> t = 7 \<and> len \<le> 8 \<and> (\<exists>c \<in> set (take len b). xds_language (unat (drop_bit 3 c AND 7)) \<noteq> None)"



end
