(* ===== verification/Color_Map.thy ===== *)
theory Color_Map
  imports Zvbi_Prelude
begin

text \<open>
  Color maps of pages (\<^verbatim>\<open>vbi/src/format.h\<close>) and their adjustment to brightness and contrast (\<^verbatim>\<open>vbi_transp_colormap\<close> in \<^verbatim>\<open>vbi.c\<close>,
  \<^verbatim>\<open>vbi_caption_color_level\<close> in \<^verbatim>\<open>caption.c\<close>). Division of a C \<^verbatim>\<open>int\<close> rounds towards zero.
\<close>

type_synonym vbi_rgba = u32

definition VBI_RGBA :: "int \<Rightarrow> int \<Rightarrow> int \<Rightarrow> vbi_rgba" where
  "VBI_RGBA r g b = word_of_int (r AND 0xFF) OR push_bit 8 (word_of_int (g AND 0xFF)) OR push_bit 16 (word_of_int (b AND 0xFF))
     OR push_bit 24 0xFF"

definition VBI_R :: "vbi_rgba \<Rightarrow> int" where "VBI_R rgba = uint (rgba AND 0xFF)"
definition VBI_G :: "vbi_rgba \<Rightarrow> int" where "VBI_G rgba = uint (drop_bit 8 rgba AND 0xFF)"
definition VBI_B :: "vbi_rgba \<Rightarrow> int" where "VBI_B rgba = uint (drop_bit 16 rgba AND 0xFF)"

definition c_quot :: "int \<Rightarrow> int \<Rightarrow> int" where
  "c_quot a b = (if 0 \<le> a then a div b else - ((- a) div b))"

definition SATURATE :: "int \<Rightarrow> int \<Rightarrow> int \<Rightarrow> int" where
  "SATURATE n lo hi = (if n < lo then lo else if hi < n then hi else n)"

definition transp :: "int \<Rightarrow> int \<Rightarrow> int \<Rightarrow> int" where
  "transp val brig cont = SATURATE (c_quot ((val - 128) * cont) 64 + brig) 0 255"

definition vbi_transp_colormap :: "int \<Rightarrow> int \<Rightarrow> vbi_rgba list \<Rightarrow> vbi_rgba list" where
  "vbi_transp_colormap brightness contrast s =
     (let brig = SATURATE brightness 0 255; cont = SATURATE contrast (-128) 127
      in map (\<lambda>c. VBI_RGBA (transp (VBI_R c) brig cont) (transp (VBI_G c) brig cont) (transp (VBI_B c) brig cont)) s)"

definition default_color_map :: "vbi_rgba list" where
  "default_color_map =
     [VBI_RGBA 0x00 0x00 0x00, VBI_RGBA 0xFF 0x00 0x00, VBI_RGBA 0x00 0xFF 0x00, VBI_RGBA 0xFF 0xFF 0x00,
      VBI_RGBA 0x00 0x00 0xFF, VBI_RGBA 0xFF 0x00 0xFF, VBI_RGBA 0x00 0xFF 0xFF, VBI_RGBA 0xFF 0xFF 0xFF]"

text \<open>The color maps of the caption pages: page \<^verbatim>\<open>i & 1\<close> of channel \<^verbatim>\<open>i >> 1\<close> at position \<open>i\<close>.\<close>

definition vbi_caption_color_level :: "int \<Rightarrow> int \<Rightarrow> vbi_rgba list list \<Rightarrow> vbi_rgba list list" where
  "vbi_caption_color_level brightness contrast maps =
     map (c_memcpy 0 (vbi_transp_colormap brightness contrast default_color_map)) (take 16 maps) @ drop 16 maps"

section \<open>Properties\<close>

lemma uint_and_FF: "uint (w AND 0xFF) AND 0xFF = uint (w AND 0xFF)" for w :: u32
proof -
  have "(0xFF :: int) = uint (0xFF :: u32)" by simp
  then have "uint (w AND 0xFF) AND 0xFF = uint (w AND 0xFF) AND uint (0xFF :: u32)" by (rule arg_cong)
  also have "\<dots> = uint ((w AND 0xFF) AND 0xFF)" by (rule unsigned_and_eq [symmetric])
  also have "(w AND 0xFF) AND 0xFF = w AND 0xFF" by (simp add: and.assoc)
  finally show ?thesis .
qed

lemma component_bounds: "uint (w AND 0xFF) \<le> 255" for w :: u32
proof -
  have "unat (w AND mask 8) < 2 ^ 8" by (rule unat_and_mask_less)
  then have "unat (w AND 0xFF) < 256" by (simp add: mask_eq_exp_minus_1)
  then have "int (unat (w AND 0xFF)) < int 256" by (simp only: of_nat_less_iff)
  then have "uint (w AND 0xFF) < int 256" by (simp only: of_nat_unat)
  then show ?thesis by linarith
qed

lemma color_bits: "(c AND mask 8) OR push_bit 8 (drop_bit 8 c AND mask 8) OR push_bit 16 (drop_bit 16 c AND mask 8) OR push_bit 24 (mask 8)
  = c OR push_bit 24 (mask 8)" for c :: u32
proof (rule bit_word_eqI)
  fix n assume "n < LENGTH(32)"
  then consider "n < 8" | "8 \<le> n" "n < 16" | "16 \<le> n" "n < 24" | "24 \<le> n" "n < 32" by fastforce
  then show "bit ((c AND mask 8) OR push_bit 8 (drop_bit 8 c AND mask 8) OR push_bit 16 (drop_bit 16 c AND mask 8) OR push_bit 24 (mask 8)) n
      = bit (c OR push_bit 24 (mask 8)) n"
    by cases (auto simp: bit_simps)
qed

lemma color_of_components: "VBI_RGBA (VBI_R c) (VBI_G c) (VBI_B c) = c OR push_bit 24 0xFF"
proof -
  have "VBI_RGBA (VBI_R c) (VBI_G c) (VBI_B c)
      = (c AND 0xFF) OR push_bit 8 (drop_bit 8 c AND 0xFF) OR push_bit 16 (drop_bit 16 c AND 0xFF) OR push_bit 24 0xFF"
    unfolding VBI_RGBA_def VBI_R_def VBI_G_def VBI_B_def uint_and_FF by (simp only: word_of_int_uint)
  also have "\<dots> = c OR push_bit 24 0xFF"
  proof -
    have ff: "(0xFF :: u32) = mask 8" by (simp add: mask_eq_exp_minus_1)
    show ?thesis unfolding ff by (rule color_bits)
  qed
  finally show ?thesis .
qed

lemma transp_default: "0 \<le> v \<Longrightarrow> v \<le> 255 \<Longrightarrow> transp v 128 64 = v"
  by (auto simp: transp_def c_quot_def SATURATE_def)

text \<open>At the default brightness 128 and contrast 64 the color map is the source map, made opaque.\<close>

lemma transp_colormap_default: "vbi_transp_colormap 128 64 s = map (\<lambda>c. c OR push_bit 24 0xFF) s"
proof -
  have "VBI_RGBA (transp (VBI_R c) 128 64) (transp (VBI_G c) 128 64) (transp (VBI_B c) 128 64) = c OR push_bit 24 0xFF" for c
  proof -
    have "0 \<le> VBI_R c" "VBI_R c \<le> 255" "0 \<le> VBI_G c" "VBI_G c \<le> 255" "0 \<le> VBI_B c" "VBI_B c \<le> 255"
      unfolding VBI_R_def VBI_G_def VBI_B_def by (simp_all only: component_bounds unsigned_greater_eq)
    then show ?thesis using color_of_components [of c] by (simp only: transp_default)
  qed
  then show ?thesis by (simp only: vbi_transp_colormap_def Let_def) (simp add: SATURATE_def)
qed

text \<open>Every component is saturated to a byte.\<close>

lemma transp_bounds: "0 \<le> transp v brig cont" "transp v brig cont \<le> 255"
  by (simp_all add: transp_def SATURATE_def)

end
