(* ===== verification/Event_Handlers.thy ===== *)
theory Event_Handlers
  imports Zvbi_Prelude "HOL-Library.Sublist"
begin

text \<open>
  Lists of event handlers (\<^verbatim>\<open>vbi/src/event.c\<close>, \<^verbatim>\<open>event-priv.h\<close>). A handler record has an address, by which clients and a traversal refer to
  it; \<open>eh_client\<close> stands for the pair of callback and user data. Addresses
  are not reused in the model: a client does not pass the address of a record that was freed. Handlers are code of the client:
  \<open>react\<close> gives the operations on the list a handler performs when it is called; a handler does not send events itself. While a traversal
  is under way records are only marked for removal.

  First the code, then the loops in closed form and the invariant: records keep their order, addresses and clients are distinct. From these
  follow the theorems on the traversal and, for a list that is not traversed, the refinement of a map.
\<close>

section \<open>The list\<close>

record 'c event_handler_rec =
  eh_addr :: nat
  eh_client :: 'c
  eh_event_mask :: u32
  eh_remove :: bool

text \<open>\<open>el_fresh\<close> is the address of the next record allocated.\<close>

record 'c event_handler_list =
  el_handlers :: "'c event_handler_rec list"
  el_event_mask :: u32
  el_ref_count :: u32
  el_fresh :: nat

text \<open>Unlinking a record, or marking it when a traversal is under way.\<close>

definition drop_or_mark :: "u32 \<Rightarrow> 'c event_handler_rec \<Rightarrow> 'c event_handler_rec list" where
  "drop_or_mark ref_count eh = (if ref_count = 0 then [] else [eh \<lparr> eh_remove := True \<rparr>])"

definition handler_list_remove_by_event :: "u32 \<Rightarrow> 'c event_handler_list \<Rightarrow> 'c event_handler_list" where
  "handler_list_remove_by_event event_mask el =
     (let clear_mask = NOT event_mask
      in el \<lparr> el_handlers := concat (map (\<lambda>eh.
                let eh = eh \<lparr> eh_event_mask := eh_event_mask eh AND clear_mask \<rparr>
                in if eh_event_mask eh = 0 then drop_or_mark (el_ref_count el) eh else [eh]) (el_handlers el)),
              el_event_mask := el_event_mask el AND clear_mask \<rparr>)"

text \<open>The loops below return the new list and the union of event masks.\<close>

fun remove_loop :: "nat \<Rightarrow> u32 \<Rightarrow> 'c event_handler_rec list \<Rightarrow> u32 \<Rightarrow> 'c event_handler_rec list \<times> u32" where
  "remove_loop a ref_count [] event_union = ([], event_union)"
| "remove_loop a ref_count (eh # ehs) event_union =
     (if eh_addr eh = a
      then apfst (\<lambda>r. drop_or_mark ref_count eh @ r) (remove_loop a ref_count ehs event_union)
      else apfst (\<lambda>r. eh # r) (remove_loop a ref_count ehs (event_union OR eh_event_mask eh)))"

definition handler_list_remove :: "nat \<Rightarrow> 'c event_handler_list \<Rightarrow> 'c event_handler_list" where
  "handler_list_remove a el =
     (let (ehs, event_union) = remove_loop a (el_ref_count el) (el_handlers el) 0
      in el \<lparr> el_handlers := ehs, el_event_mask := event_union \<rparr>)"

text \<open>\<open>found\<close> is the address of the last record of the client.\<close>

fun add_loop :: "u32 \<Rightarrow> 'c \<Rightarrow> u32 \<Rightarrow> 'c event_handler_rec list \<Rightarrow> nat option \<Rightarrow> u32 \<Rightarrow>
    'c event_handler_rec list \<times> nat option \<times> u32" where
  "add_loop event_mask c ref_count [] found event_union = ([], found, event_union)"
| "add_loop event_mask c ref_count (eh # ehs) found event_union =
     (if eh_client eh = c \<and> event_mask = 0
      then apfst (\<lambda>r. drop_or_mark ref_count eh @ r) (add_loop event_mask c ref_count ehs found event_union)
      else let (eh, found) = (if eh_client eh = c then (eh \<lparr> eh_event_mask := event_mask \<rparr>, Some (eh_addr eh)) else (eh, found))
           in apfst (\<lambda>r. eh # r) (add_loop event_mask c ref_count ehs found (event_union OR eh_event_mask eh)))"

text \<open>\<open>alloc\<close> tells whether \<^verbatim>\<open>malloc\<close> succeeds.\<close>

definition handler_list_add :: "u32 \<Rightarrow> 'c \<Rightarrow> bool \<Rightarrow> 'c event_handler_list \<Rightarrow> nat option \<times> 'c event_handler_list" where
  "handler_list_add event_mask c alloc el =
     (let (ehs, found, event_union) = add_loop event_mask c (el_ref_count el) (el_handlers el) None 0
      in if found = None \<and> event_mask \<noteq> 0 \<and> alloc
         then (Some (el_fresh el), el \<lparr>
           el_handlers := ehs @ [\<lparr> eh_addr = el_fresh el, eh_client = c, eh_event_mask = event_mask, eh_remove = False \<rparr>],
           el_event_mask := event_union OR event_mask, el_fresh := el_fresh el + 1 \<rparr>)
         else (found, el \<lparr> el_handlers := ehs, el_event_mask := event_union \<rparr>))"

definition handler_list_remove_by_callback :: "'c \<Rightarrow> 'c event_handler_list \<Rightarrow> 'c event_handler_list" where
  "handler_list_remove_by_callback c el = snd (handler_list_add 0 c True el)"

definition handler_list_init :: "'c event_handler_list" where
  "handler_list_init = \<lparr> el_handlers = [], el_event_mask = 0, el_ref_count = 0, el_fresh = 0 \<rparr>"

definition handler_list_destroy :: "'c event_handler_list \<Rightarrow> 'c event_handler_list" where
  "handler_list_destroy el =
     (handler_list_remove_by_event (- 1) el) \<lparr> el_handlers := [], el_event_mask := 0, el_ref_count := 0 \<rparr>"

section \<open>Sending an event\<close>

datatype 'c handler_op = Add u32 'c bool | Remove_client 'c | Remove_record nat | Remove_events u32

primrec do_handler_op :: "'c handler_op \<Rightarrow> 'c event_handler_list \<Rightarrow> 'c event_handler_list" where
  "do_handler_op (Add m c alloc) el = snd (handler_list_add m c alloc el)"
| "do_handler_op (Remove_client c) el = handler_list_remove_by_callback c el"
| "do_handler_op (Remove_record a) el = handler_list_remove a el"
| "do_handler_op (Remove_events m) el = handler_list_remove_by_event m el"

text \<open>The record at an address, with the records behind it; a record that was freed is not found.\<close>

definition record_at :: "nat \<Rightarrow> 'c event_handler_list \<Rightarrow> 'c event_handler_rec list" where
  "record_at a el = dropWhile (\<lambda>eh. eh_addr eh \<noteq> a) (el_handlers el)"

definition first_addr :: "'c event_handler_rec list \<Rightarrow> nat option" where
  "first_addr ehs = (case ehs of [] \<Rightarrow> None | eh # _ \<Rightarrow> Some (eh_addr eh))"

text \<open>
  The traversal: at most \<open>n\<close> records, \<open>None\<close> when they do not suffice. \<open>called\<close> are the clients called so far. Access to a freed record
  is \<open>Undef\<close>.
\<close>

fun send_loop :: "('c \<Rightarrow> 'u \<Rightarrow> 'c handler_op list \<times> 'u) \<Rightarrow> u32 \<Rightarrow> nat \<Rightarrow> nat option \<Rightarrow> 'c event_handler_list \<times> 'u \<times> 'c list \<Rightarrow>
    ('c event_handler_list \<times> 'u \<times> 'c list) c_result option" where
  "send_loop react ev n None s = Some (Ret s)"
| "send_loop react ev 0 (Some a) s = None"
| "send_loop react ev (Suc n) (Some a) (el, u, called) =
     (case record_at a el of
        [] \<Rightarrow> Some Undef
      | eh # _ \<Rightarrow>
          let (el, u, called) =
                (if eh_event_mask eh AND ev \<noteq> 0 \<and> \<not> eh_remove eh
                 then let (ops, u) = react (eh_client eh) u in (fold do_handler_op ops el, u, called @ [eh_client eh])
                 else (el, u, called))
          in case record_at a el of
               [] \<Rightarrow> Some Undef
             | _ # rest \<Rightarrow> send_loop react ev n (first_addr rest) (el, u, called))"

definition handler_list_cleanup :: "'c event_handler_list \<Rightarrow> 'c event_handler_list" where
  "handler_list_cleanup el = el \<lparr> el_handlers := filter (\<lambda>eh. \<not> eh_remove eh) (el_handlers el) \<rparr>"

definition handler_list_send :: "('c \<Rightarrow> 'u \<Rightarrow> 'c handler_op list \<times> 'u) \<Rightarrow> u32 \<Rightarrow> nat \<Rightarrow> 'c event_handler_list \<Rightarrow> 'u \<Rightarrow>
    ('c event_handler_list \<times> 'u \<times> 'c list) c_result option" where
  "handler_list_send react ev n el u =
     (if el_event_mask el AND ev = 0 then Some (Ret (el, u, []))
      else let ref_count = el_ref_count el + 1
           in if ref_count = 0 then Some (Ret (el, u, []))
              else case send_loop react ev n (first_addr (el_handlers el)) (el \<lparr> el_ref_count := ref_count \<rparr>, u, []) of
                     None \<Rightarrow> None
                   | Some Undef \<Rightarrow> Some Undef
                   | Some (Ret (el, u, called)) \<Rightarrow>
                       let el = el \<lparr> el_ref_count := ref_count - 1 \<rparr>
                       in Some (Ret (if ref_count - 1 \<noteq> 0 then el else handler_list_cleanup el, u, called)))"


section \<open>The loops in closed form\<close>

definition mask_union :: "'c event_handler_rec list \<Rightarrow> u32" where
  "mask_union ehs = foldr (\<lambda>eh. (OR) (eh_event_mask eh)) ehs 0"

lemma mask_union_simps [simp]: "mask_union [] = 0" "mask_union (eh # ehs) = eh_event_mask eh OR mask_union ehs"
  by (simp_all add: mask_union_def)

lemma mask_union_append [simp]: "mask_union (xs @ ys) = mask_union xs OR mask_union ys"
  by (induction xs) (auto simp: or.assoc)

lemma remove_loop_eq: "remove_loop a rc ehs u =
    (concat (map (\<lambda>eh. if eh_addr eh = a then drop_or_mark rc eh else [eh]) ehs),
     u OR mask_union (filter (\<lambda>eh. eh_addr eh \<noteq> a) ehs))"
  by (induction ehs arbitrary: u) (auto simp: or.assoc)

lemma add_loop_remove: "add_loop 0 c rc ehs found u =
    (concat (map (\<lambda>eh. if eh_client eh = c then drop_or_mark rc eh else [eh]) ehs), found,
     u OR mask_union (filter (\<lambda>eh. eh_client eh \<noteq> c) ehs))"
  by (induction ehs arbitrary: u) (auto simp: or.assoc)

definition set_mask :: "u32 \<Rightarrow> 'c \<Rightarrow> 'c event_handler_rec \<Rightarrow> 'c event_handler_rec" where
  "set_mask m c eh = (if eh_client eh = c then eh \<lparr> eh_event_mask := m \<rparr> else eh)"

lemma set_mask_simps [simp]: "eh_addr (set_mask m c eh) = eh_addr eh" "eh_client (set_mask m c eh) = eh_client eh"
    "eh_remove (set_mask m c eh) = eh_remove eh"
    "eh_event_mask (set_mask m c eh) = (if eh_client eh = c then m else eh_event_mask eh)"
  by (auto simp: set_mask_def)

lemma add_loop_add: "m \<noteq> 0 \<Longrightarrow> add_loop m c rc ehs found u =
    (map (set_mask m c) ehs,
     (case filter (\<lambda>eh. eh_client eh = c) (rev ehs) of [] \<Rightarrow> found | eh # _ \<Rightarrow> Some (eh_addr eh)),
     u OR mask_union (map (set_mask m c) ehs))"
proof (induction ehs arbitrary: found u)
  case (Cons eh ehs)
  then show ?case by (auto simp: or.assoc set_mask_def split: list.splits)
qed simp

section \<open>Records keep their place\<close>

definition handler_keys :: "'c event_handler_list \<Rightarrow> (nat \<times> 'c) list" where
  "handler_keys el = map (\<lambda>eh. (eh_addr eh, eh_client eh)) (el_handlers el)"

text \<open>Addresses and clients are distinct, and the union of the list covers the handlers that are not marked.\<close>

definition handlers_well :: "'c event_handler_list \<Rightarrow> bool" where
  "handlers_well el \<longleftrightarrow>
     distinct (map fst (handler_keys el)) \<and> distinct (map snd (handler_keys el)) \<and>
     (\<forall>eh \<in> set (el_handlers el). eh_addr eh < el_fresh el) \<and>
     (\<forall>eh \<in> set (el_handlers el). eh_remove eh \<or> eh_event_mask eh OR el_event_mask el = el_event_mask el)"

lemma mask_union_covers: "eh \<in> set ehs \<Longrightarrow> eh_event_mask eh OR mask_union ehs = mask_union ehs"
  by (induction ehs) (auto simp: or.left_commute)

text \<open>What all the operations do to the list: records are dropped, or changed in mask and mark only.\<close>

definition op_step :: "u32 \<Rightarrow> u32 \<Rightarrow> 'c event_handler_rec \<Rightarrow> 'c event_handler_rec list" where
  "op_step em rc eh =
     (let eh = eh \<lparr> eh_event_mask := eh_event_mask eh AND NOT em \<rparr>
      in if eh_event_mask eh = 0 then drop_or_mark rc eh else [eh])"

primrec handler_step :: "'c handler_op \<Rightarrow> u32 \<Rightarrow> 'c event_handler_rec \<Rightarrow> 'c event_handler_rec list" where
  "handler_step (Add m c alloc) rc eh =
     (if m = 0 then if eh_client eh = c then drop_or_mark rc eh else [eh] else [set_mask m c eh])"
| "handler_step (Remove_client c) rc eh = (if eh_client eh = c then drop_or_mark rc eh else [eh])"
| "handler_step (Remove_record a) rc eh = (if eh_addr eh = a then drop_or_mark rc eh else [eh])"
| "handler_step (Remove_events m) rc eh = op_step m rc eh"

primrec handler_new :: "'c handler_op \<Rightarrow> 'c event_handler_list \<Rightarrow> 'c event_handler_rec list" where
  "handler_new (Add m c alloc) el =
     (if m \<noteq> 0 \<and> alloc \<and> c \<notin> eh_client ` set (el_handlers el)
      then [\<lparr> eh_addr = el_fresh el, eh_client = c, eh_event_mask = m, eh_remove = False \<rparr>] else [])"
| "handler_new (Remove_client c) el = []"
| "handler_new (Remove_record a) el = []"
| "handler_new (Remove_events m) el = []"

lemma add_found: "(case filter (\<lambda>eh. eh_client eh = c) (rev ehs) of [] \<Rightarrow> None | eh # _ \<Rightarrow> Some (eh_addr eh)) = None \<longleftrightarrow>
    c \<notin> eh_client ` set ehs"
proof -
  have "filter (\<lambda>eh. eh_client eh = c) (rev ehs) = [] \<longleftrightarrow> c \<notin> eh_client ` set ehs" by (auto simp: filter_empty_conv)
  then show ?thesis by (auto split: list.splits)
qed

lemma add_steps: "m \<noteq> 0 \<Longrightarrow> concat (map (handler_step (Add m c alloc) rc) ehs) = map (set_mask m c) ehs"
  by (induction ehs) auto

lemma handler_step_fun:
  "handler_step (Add 0 c alloc) rc = (\<lambda>eh. if eh_client eh = c then drop_or_mark rc eh else [eh])"
  "handler_step (Remove_client c) rc = (\<lambda>eh. if eh_client eh = c then drop_or_mark rc eh else [eh])"
  "handler_step (Remove_record a) rc = (\<lambda>eh. if eh_addr eh = a then drop_or_mark rc eh else [eh])"
  "handler_step (Remove_events m) rc = op_step m rc"
  by auto

lemma handler_op_shape:
  "el_handlers (do_handler_op p el) = concat (map (handler_step p (el_ref_count el)) (el_handlers el)) @ handler_new p el"
  "el_ref_count (do_handler_op p el) = el_ref_count el"
  "el_fresh (do_handler_op p el) = el_fresh el + length (handler_new p el)"
proof -
  have "el_handlers (do_handler_op p el) = concat (map (handler_step p (el_ref_count el)) (el_handlers el)) @ handler_new p el
      \<and> el_ref_count (do_handler_op p el) = el_ref_count el \<and> el_fresh (do_handler_op p el) = el_fresh el + length (handler_new p el)"
  proof (cases p)
    case (Add m c alloc)
    then show ?thesis
      by (cases "m = 0") (simp_all add: handler_list_add_def add_loop_remove add_loop_add add_steps add_found split del: if_split,
          simp_all add: handler_list_add_def handler_step_fun)
  qed (simp_all add: handler_list_remove_by_callback_def handler_list_add_def add_loop_remove handler_list_remove_def remove_loop_eq
      handler_list_remove_by_event_def op_step_def [abs_def] handler_step_fun Let_def)
  then show "el_handlers (do_handler_op p el) = concat (map (handler_step p (el_ref_count el)) (el_handlers el)) @ handler_new p el"
    "el_ref_count (do_handler_op p el) = el_ref_count el" "el_fresh (do_handler_op p el) = el_fresh el + length (handler_new p el)"
    by auto
qed


lemma handler_step_cases:
  obtains "handler_step p rc eh = []" "rc = 0"
  | eh' where "handler_step p rc eh = [eh']" "eh_addr eh' = eh_addr eh" "eh_client eh' = eh_client eh" "eh_remove eh \<Longrightarrow> eh_remove eh'"
proof -
  have "handler_step p rc eh = [] \<and> rc = 0 \<or>
      (\<exists>eh'. handler_step p rc eh = [eh'] \<and> eh_addr eh' = eh_addr eh \<and> eh_client eh' = eh_client eh \<and> (eh_remove eh \<longrightarrow> eh_remove eh'))"
    by (cases p) (auto simp: op_step_def drop_or_mark_def Let_def)
  then show ?thesis using that by blast
qed

lemma step_keys_subseq: "subseq (map (\<lambda>eh. (eh_addr eh, eh_client eh)) (concat (map (handler_step p rc) ehs)))
    (map (\<lambda>eh. (eh_addr eh, eh_client eh)) ehs)"
proof (induction ehs)
  case (Cons eh ehs)
  show ?case by (cases rule: handler_step_cases [of p rc eh]) (use Cons in auto)
qed simp

lemma step_keys_eq: "rc \<noteq> 0 \<Longrightarrow> map (\<lambda>eh. (eh_addr eh, eh_client eh)) (concat (map (handler_step p rc) ehs)) =
    map (\<lambda>eh. (eh_addr eh, eh_client eh)) ehs"
proof (induction ehs)
  case (Cons eh ehs)
  show ?case by (cases rule: handler_step_cases [of p rc eh]) (use Cons in auto)
qed simp

lemma subseq_distinct: "subseq xs ys \<Longrightarrow> distinct ys \<Longrightarrow> distinct xs"
  by (induction rule: list_emb.induct) (auto dest: list_emb_set)

lemma subseq_subset: "subseq xs ys \<Longrightarrow> set xs \<subseteq> set ys"
  by (induction rule: list_emb.induct) auto

lemma handler_op_keys: "handler_keys (do_handler_op p el) =
    map (\<lambda>eh. (eh_addr eh, eh_client eh)) (concat (map (handler_step p (el_ref_count el)) (el_handlers el))) @
    map (\<lambda>eh. (eh_addr eh, eh_client eh)) (handler_new p el)"
  by (simp add: handler_keys_def handler_op_shape)

text \<open>While the list is traversed records are only appended.\<close>

lemma handler_op_prefix: "el_ref_count el \<noteq> 0 \<Longrightarrow> prefix (handler_keys el) (handler_keys (do_handler_op p el))"
  unfolding handler_op_keys by (simp only: step_keys_eq not_False_eq_True) (simp add: handler_keys_def)

lemma or_and_mono: "(a :: u32) OR b = b \<Longrightarrow> (a AND c) OR (b AND c) = b AND c"
  by (metis bit.conj_disj_distrib2)

lemma handler_op_covers:
  assumes "\<forall>eh \<in> set (el_handlers el). eh_remove eh \<or> eh_event_mask eh OR el_event_mask el = el_event_mask el"
  shows "\<forall>eh \<in> set (el_handlers (do_handler_op p el)). eh_remove eh \<or>
    eh_event_mask eh OR el_event_mask (do_handler_op p el) = el_event_mask (do_handler_op p el)"
proof (cases p)
  case (Add m c alloc)
  show ?thesis
  proof (cases "m = 0")
    case True
    then show ?thesis using mask_union_covers [of _ "filter (\<lambda>eh. eh_client eh \<noteq> c) (el_handlers el)"]
      by (auto simp: Add handler_list_add_def add_loop_remove drop_or_mark_def split: if_splits)
  next
    case False
    then show ?thesis using mask_union_covers [of _ "map (set_mask m c) (el_handlers el)"]
      by (auto simp: Add handler_list_add_def add_loop_add or.left_commute or.commute split: if_splits)
  qed
next
  case (Remove_client c)
  then show ?thesis using mask_union_covers [of _ "filter (\<lambda>eh. eh_client eh \<noteq> c) (el_handlers el)"]
    by (auto simp: handler_list_remove_by_callback_def handler_list_add_def add_loop_remove drop_or_mark_def split: if_splits)
next
  case (Remove_record a)
  then show ?thesis using mask_union_covers [of _ "filter (\<lambda>eh. eh_addr eh \<noteq> a) (el_handlers el)"]
    by (auto simp: handler_list_remove_def remove_loop_eq drop_or_mark_def split: if_splits)
next
  case (Remove_events m)
  then show ?thesis using assms
    by (auto simp: handler_list_remove_by_event_def drop_or_mark_def Let_def or_and_mono split: if_splits)
qed

lemma keys_append:
  assumes "distinct (map fst (map (\<lambda>eh. (eh_addr eh, eh_client eh)) old))"
    and "distinct (map snd (map (\<lambda>eh. (eh_addr eh, eh_client eh)) old))"
    and "\<forall>eh \<in> set old. eh_addr eh < a" "\<forall>eh \<in> set old. eh_client eh \<in> D" "eh_addr e = a" "eh_client e \<notin> D"
  shows "distinct (map fst (map (\<lambda>eh. (eh_addr eh, eh_client eh)) old @ map (\<lambda>eh. (eh_addr eh, eh_client eh)) [e])) \<and>
    distinct (map snd (map (\<lambda>eh. (eh_addr eh, eh_client eh)) old @ map (\<lambda>eh. (eh_addr eh, eh_client eh)) [e])) \<and>
    (\<forall>eh \<in> set (old @ [e]). eh_addr eh < a + length [e])"
  using assms by (auto simp: comp_def)

lemma handler_op_well:
  assumes "handlers_well el"
  shows "handlers_well (do_handler_op p el)"
proof -
  let ?k = "\<lambda>ehs. map (\<lambda>eh. (eh_addr eh, eh_client eh)) ehs"
  let ?old = "concat (map (handler_step p (el_ref_count el)) (el_handlers el))"
  have ss: "subseq (?k ?old) (handler_keys el)" using step_keys_subseq by (auto simp: handler_keys_def)
  have old: "distinct (map fst (?k ?old))" "distinct (map snd (?k ?old))"
    using assms by (auto simp only: handlers_well_def intro: subseq_distinct [OF subseq_map [OF ss]])
  have old3: "set (?k ?old) \<subseteq> set (handler_keys el)" using subseq_subset [OF ss] .
  have sub: "\<exists>e \<in> set (el_handlers el). eh_addr e = eh_addr eh \<and> eh_client e = eh_client eh" if "eh \<in> set ?old" for eh
    using that old3 by (fastforce simp: handler_keys_def)
  have new: "handler_new p el = [] \<or> (\<exists>eh. handler_new p el = [eh] \<and> eh_addr eh = el_fresh el \<and> eh_client eh \<notin> eh_client ` set (el_handlers el))"
    by (cases p) auto
  have fresh: "\<forall>eh \<in> set (el_handlers el). eh_addr eh < el_fresh el" using assms by (simp add: handlers_well_def)
  have bound: "\<forall>eh \<in> set ?old. eh_addr eh < el_fresh el" "\<forall>eh \<in> set ?old. eh_client eh \<in> eh_client ` set (el_handlers el)"
    using sub fresh by (metis, metis imageI)
  have "distinct (map fst (handler_keys (do_handler_op p el))) \<and> distinct (map snd (handler_keys (do_handler_op p el))) \<and>
      (\<forall>eh \<in> set (el_handlers (do_handler_op p el)). eh_addr eh < el_fresh (do_handler_op p el))"
    using new
  proof (elim disjE exE conjE)
    assume n: "handler_new p el = []"
    show ?thesis using old bound unfolding handler_op_keys handler_op_shape n by simp
  next
    fix e
    assume n: "handler_new p el = [e]" and e: "eh_addr e = el_fresh el" "eh_client e \<notin> eh_client ` set (el_handlers el)"
    show ?thesis using keys_append [OF old bound e] unfolding handler_op_keys handler_op_shape n by simp
  qed
  then show ?thesis using handler_op_covers assms unfolding handlers_well_def by blast
qed


lemma handler_ops_well: "handlers_well el \<Longrightarrow> handlers_well (fold do_handler_op ops el)"
  by (induction ops arbitrary: el) (auto simp: handler_op_well)

lemma handler_ops_ref_count: "el_ref_count (fold do_handler_op ops el) = el_ref_count el"
  by (induction ops arbitrary: el) (auto simp: handler_op_shape)

lemma handler_ops_prefix: "el_ref_count el \<noteq> 0 \<Longrightarrow> prefix (handler_keys el) (handler_keys (fold do_handler_op ops el))"
proof (induction ops arbitrary: el)
  case (Cons p ops)
  then show ?case using prefix_order.trans [OF handler_op_prefix Cons.IH] by (simp add: handler_op_shape)
qed simp

section \<open>The traversal\<close>

text \<open>The clients an operation may add.\<close>

primrec adds_in :: "'c set \<Rightarrow> 'c handler_op \<Rightarrow> bool" where
  "adds_in C (Add m c alloc) \<longleftrightarrow> c \<in> C"
| "adds_in C (Remove_client c) \<longleftrightarrow> True"
| "adds_in C (Remove_record a) \<longleftrightarrow> True"
| "adds_in C (Remove_events m) \<longleftrightarrow> True"

definition handler_clients :: "'c event_handler_list \<Rightarrow> 'c list" where
  "handler_clients el = map eh_client (el_handlers el)"

lemma handler_clients_keys: "handler_clients el = map snd (handler_keys el)"
  by (simp add: handler_clients_def handler_keys_def)

lemma handler_op_clients: "adds_in C p \<Longrightarrow> set (handler_clients el) \<subseteq> C \<Longrightarrow> set (handler_clients (do_handler_op p el)) \<subseteq> C"
proof -
  assume p: "adds_in C p" and el: "set (handler_clients el) \<subseteq> C"
  have "set (map snd (map (\<lambda>eh. (eh_addr eh, eh_client eh)) (concat (map (handler_step p (el_ref_count el)) (el_handlers el)))))
      \<subseteq> set (map snd (map (\<lambda>eh. (eh_addr eh, eh_client eh)) (el_handlers el)))"
    by (rule subseq_subset [OF subseq_map [OF step_keys_subseq]])
  moreover have "set (map snd (map (\<lambda>eh. (eh_addr eh, eh_client eh)) (el_handlers el))) \<subseteq> C"
    using el by (simp add: handler_clients_keys handler_keys_def)
  moreover have "set (map snd (map (\<lambda>eh. (eh_addr eh, eh_client eh)) (handler_new p el))) \<subseteq> C" using p by (cases p) auto
  ultimately show ?thesis unfolding handler_clients_keys handler_op_keys map_append set_append by blast
qed

lemma handler_ops_clients: "\<forall>p \<in> set ops. adds_in C p \<Longrightarrow> set (handler_clients el) \<subseteq> C \<Longrightarrow>
    set (handler_clients (fold do_handler_op ops el)) \<subseteq> C"
proof (induction ops arbitrary: el)
  case (Cons p ops)
  then show ?case by (simp add: handler_op_clients)
qed simp

lemma record_at_nth:
  assumes "handlers_well el" "i < length (el_handlers el)"
  shows "record_at (eh_addr (el_handlers el ! i)) el = drop i (el_handlers el)"
proof -
  have d: "distinct (map eh_addr (el_handlers el))" using assms by (simp add: handlers_well_def handler_keys_def comp_def)
  have "dropWhile (\<lambda>eh. eh_addr eh \<noteq> eh_addr (ehs ! j)) ehs = drop j ehs" if "distinct (map eh_addr ehs)" "j < length ehs"
    for ehs :: "'a event_handler_rec list" and j
    using that
  proof (induction ehs arbitrary: j)
    case (Cons eh ehs)
    show ?case
    proof (cases j)
      case (Suc k)
      then have "eh_addr eh \<noteq> eh_addr (ehs ! k)" using Cons.prems by (auto simp: image_iff)
      then show ?thesis using Cons Suc by simp
    qed simp
  qed simp
  then show ?thesis using d assms by (simp add: record_at_def)
qed

text \<open>One record of the traversal.\<close>

definition send_one :: "('c \<Rightarrow> 'u \<Rightarrow> 'c handler_op list \<times> 'u) \<Rightarrow> u32 \<Rightarrow> 'c event_handler_rec \<Rightarrow>
    'c event_handler_list \<times> 'u \<times> 'c list \<Rightarrow> 'c event_handler_list \<times> 'u \<times> 'c list" where
  "send_one react ev eh s = (case s of (el, u, called) \<Rightarrow>
     if eh_event_mask eh AND ev \<noteq> 0 \<and> \<not> eh_remove eh
     then let (ops, u) = react (eh_client eh) u in (fold do_handler_op ops el, u, called @ [eh_client eh])
     else (el, u, called))"

lemma first_addr_drop: "first_addr (drop i ehs) = (if i < length ehs then Some (eh_addr (ehs ! i)) else None)"
  by (simp add: first_addr_def Cons_nth_drop_Suc [symmetric])

lemma send_one_keeps:
  assumes "handlers_well el" "el_ref_count el \<noteq> 0"
  obtains el' u' new where "send_one react ev eh (el, u, called) = (el', u', called @ new)" "handlers_well el'"
    "el_ref_count el' = el_ref_count el" "prefix (handler_keys el) (handler_keys el')" "new = [] \<or> new = [eh_client eh]"
    "new = [] \<longleftrightarrow> \<not> (eh_event_mask eh AND ev \<noteq> 0 \<and> \<not> eh_remove eh)"
proof (cases "eh_event_mask eh AND ev \<noteq> 0 \<and> \<not> eh_remove eh")
  case True
  obtain ops u' where r: "react (eh_client eh) u = (ops, u')" by fastforce
  show ?thesis
    by (rule that [of "fold do_handler_op ops el" u' "[eh_client eh]"])
      (use True r assms in \<open>auto simp: send_one_def handler_ops_well handler_ops_prefix handler_ops_ref_count\<close>)
next
  case False
  then show ?thesis using assms by (intro that [of el u "[]"]) (auto simp: send_one_def)
qed

text \<open>The traversal at position \<open>i\<close> does not touch a freed record: the record of a handler is still there when the handler returns.\<close>

lemma send_loop_step:
  assumes "handlers_well el" "el_ref_count el \<noteq> 0" "i < length (el_handlers el)"
    and "send_one react ev (el_handlers el ! i) (el, u, called) = (el', u', called')"
  shows "send_loop react ev (Suc n) (first_addr (drop i (el_handlers el))) (el, u, called) =
    send_loop react ev n (first_addr (drop (Suc i) (el_handlers el'))) (el', u', called')"
proof -
  obtain new where k: "handlers_well el'" "prefix (handler_keys el) (handler_keys el')"
    using send_one_keeps [OF assms(1, 2), of react ev "el_handlers el ! i" u called] assms(4) by (metis prod.inject)
  have l: "i < length (el_handlers el')" using prefix_length_le [OF k(2)] assms(3) by (simp add: handler_keys_def)
  have "handler_keys el' ! i = handler_keys el ! i" using k(2) assms(3) by (auto simp: prefix_def nth_append handler_keys_def)
  then have a: "eh_addr (el_handlers el' ! i) = eh_addr (el_handlers el ! i)" using l assms(3) by (simp add: handler_keys_def)
  have r: "record_at (eh_addr (el_handlers el ! i)) el = el_handlers el ! i # drop (Suc i) (el_handlers el)"
    using record_at_nth [OF assms(1, 3)] assms(3) by (simp add: Cons_nth_drop_Suc)
  have r': "record_at (eh_addr (el_handlers el ! i)) el' = el_handlers el' ! i # drop (Suc i) (el_handlers el')"
    using record_at_nth [OF k(1) l] l unfolding a by (simp add: Cons_nth_drop_Suc)
  have "send_loop react ev (Suc n) (first_addr (drop i (el_handlers el))) (el, u, called) =
      (case send_one react ev (el_handlers el ! i) (el, u, called) of (el, u, called) \<Rightarrow>
        case record_at (eh_addr (el_handlers (fst (el', u', called')) ! i)) el of [] \<Rightarrow> Some Undef
        | _ # rest \<Rightarrow> send_loop react ev n (first_addr rest) (el, u, called))"
    using assms(3) by (simp add: first_addr_drop r a send_one_def split: prod.splits)
  then show ?thesis by (simp add: assms(4) a r')
qed


lemma drop_subseq_Cons: "i < length xs \<Longrightarrow> subseq new (drop (Suc i) xs) \<Longrightarrow> subseq new (drop i xs)"
  by (simp add: Cons_nth_drop_Suc [symmetric] list_emb_Cons)

lemma drop_subseq_Cons2: "i < length xs \<Longrightarrow> subseq new (drop (Suc i) xs) \<Longrightarrow> subseq (xs ! i # new) (drop i xs)"
  by (simp add: Cons_nth_drop_Suc [symmetric])

lemma keys_prefix_clients:
  assumes "prefix (handler_keys el) (handler_keys el')" "i < length (el_handlers el)"
  shows "i < length (handler_clients el')" "handler_clients el' ! i = eh_client (el_handlers el ! i)"
proof -
  obtain ks where k: "handler_clients el' = handler_clients el @ ks"
    using assms(1) by (auto simp: prefix_def handler_clients_keys)
  have l: "i < length (handler_clients el)" using assms(2) by (simp add: handler_clients_def)
  show "i < length (handler_clients el')" using k l by simp
  show "handler_clients el' ! i = eh_client (el_handlers el ! i)" using k l assms(2) by (simp add: nth_append) (simp add: handler_clients_def)
qed

lemma send_loop_run:
  assumes "handlers_well el" "el_ref_count el \<noteq> 0" "i \<le> length (el_handlers el)"
    and "send_loop react ev n (first_addr (drop i (el_handlers el))) (el, u, called) = Some r"
  obtains el' u' new where "r = Ret (el', u', called @ new)" "handlers_well el'" "el_ref_count el' = el_ref_count el"
    "prefix (handler_keys el) (handler_keys el')" "subseq new (drop i (handler_clients el'))"
  using assms
proof (induction n arbitrary: i el u called thesis)
  case 0
  show ?case
  proof (cases "i < length (el_handlers el)")
    case True
    then show ?thesis using 0(5) by (simp add: first_addr_drop)
  next
    case False
    then show ?thesis using 0 by (intro 0(1) [of el u "[]"]) (auto simp: first_addr_def)
  qed
next
  case (Suc n)
  show ?case
  proof (cases "i < length (el_handlers el)")
    case False
    then show ?thesis using Suc.prems by (intro Suc.prems(1) [of el u "[]"]) (auto simp: first_addr_def)
  next
    case i: True
    let ?eh = "el_handlers el ! i"
    obtain el1 u1 new1 where o: "send_one react ev ?eh (el, u, called) = (el1, u1, called @ new1)" "handlers_well el1"
      "el_ref_count el1 = el_ref_count el" "prefix (handler_keys el) (handler_keys el1)" "new1 = [] \<or> new1 = [eh_client ?eh]"
      using send_one_keeps [OF Suc.prems(2, 3)] by metis
    have l: "Suc i \<le> length (el_handlers el1)" using prefix_length_le [OF o(4)] i by (simp add: handler_keys_def)
    have s: "send_loop react ev n (first_addr (drop (Suc i) (el_handlers el1))) (el1, u1, called @ new1) = Some r"
      using Suc.prems(5) send_loop_step [OF Suc.prems(2, 3) i o(1)] by simp
    obtain el2 u2 new2 where h: "r = Ret (el2, u2, (called @ new1) @ new2)" "handlers_well el2" "el_ref_count el2 = el_ref_count el1"
      "prefix (handler_keys el1) (handler_keys el2)" "subseq new2 (drop (Suc i) (handler_clients el2))"
      using Suc.IH [OF _ o(2) _ l s] o(3) Suc.prems(3) by metis
    have p: "prefix (handler_keys el) (handler_keys el2)" using o(4) h(4) by (rule prefix_order.trans)
    have c: "i < length (handler_clients el2)" "handler_clients el2 ! i = eh_client ?eh"
      using keys_prefix_clients [OF p i] by auto
    have "subseq (new1 @ new2) (drop i (handler_clients el2))"
      using o(5) drop_subseq_Cons [OF c(1) h(5)] drop_subseq_Cons2 [OF c(1) h(5)] c(2) by auto
    then show ?thesis using h o(3) p by (intro Suc.prems(1) [of el2 u2 "new1 @ new2"]) auto
  qed
qed

lemma send_one_clients:
  assumes "\<forall>c u. \<forall>p \<in> set (fst (react c u)). adds_in C p" "set (handler_clients el) \<subseteq> C"
    and "send_one react ev eh (el, u, called) = (el', u', called')"
  shows "set (handler_clients el') \<subseteq> C"
proof -
  have "\<forall>p \<in> set (fst (react (eh_client eh) u)). adds_in C p" using assms(1) by blast
  then show ?thesis using assms(2, 3) handler_ops_clients [of "fst (react (eh_client eh) u)" C el]
    by (auto simp: send_one_def split: if_splits prod.splits)
qed

lemma clients_card: "handlers_well el \<Longrightarrow> finite C \<Longrightarrow> set (handler_clients el) \<subseteq> C \<Longrightarrow> length (el_handlers el) \<le> card C"
  using card_mono [of C "set (handler_clients el)"] distinct_card [of "handler_clients el"]
  by (simp only: handlers_well_def handler_clients_keys [symmetric]) (simp add: handler_clients_def)

lemma send_loop_returns:
  assumes "handlers_well el" "el_ref_count el \<noteq> 0" "i \<le> length (el_handlers el)"
    and "finite C" "\<forall>c u. \<forall>p \<in> set (fst (react c u)). adds_in C p" "set (handler_clients el) \<subseteq> C" "card C \<le> n + i"
  shows "send_loop react ev n (first_addr (drop i (el_handlers el))) (el, u, called) \<noteq> None"
  using assms
proof (induction n arbitrary: i el u called)
  case 0
  then have "i = length (el_handlers el)" using clients_card [OF 0(1, 4, 6)] by simp
  then show ?case by (simp add: first_addr_def)
next
  case (Suc n)
  show ?case
  proof (cases "i < length (el_handlers el)")
    case i: True
    let ?eh = "el_handlers el ! i"
    obtain el1 u1 new1 where o: "send_one react ev ?eh (el, u, called) = (el1, u1, called @ new1)" "handlers_well el1"
      "el_ref_count el1 = el_ref_count el" "prefix (handler_keys el) (handler_keys el1)"
      using send_one_keeps [OF Suc.prems(1, 2)] by metis
    have l: "Suc i \<le> length (el_handlers el1)" using prefix_length_le [OF o(4)] i by (simp add: handler_keys_def)
    show ?thesis
      using Suc.IH [OF o(2) _ l Suc.prems(4, 5) send_one_clients [OF Suc.prems(5, 6) o(1)]] Suc.prems(2, 7) o(3)
      by (simp add: send_loop_step [OF Suc.prems(1, 2) i o(1)])
  qed (simp add: first_addr_def)
qed


section \<open>A handler that waits for an event\<close>

text \<open>An operation that does not concern the handler of a client, at an address, that waits for the event.\<close>

primrec leaves_alone :: "u32 \<Rightarrow> 'c \<Rightarrow> nat \<Rightarrow> 'c handler_op \<Rightarrow> bool" where
  "leaves_alone ev c a (Add m c' alloc) \<longleftrightarrow> c' \<noteq> c"
| "leaves_alone ev c a (Remove_client c') \<longleftrightarrow> c' \<noteq> c"
| "leaves_alone ev c a (Remove_record a') \<longleftrightarrow> a' \<noteq> a"
| "leaves_alone ev c a (Remove_events m) \<longleftrightarrow> m AND ev = 0"

definition waits_at :: "u32 \<Rightarrow> nat \<Rightarrow> 'c \<Rightarrow> nat \<Rightarrow> 'c event_handler_list \<Rightarrow> bool" where
  "waits_at ev j c a el \<longleftrightarrow> j < length (el_handlers el) \<and> (let eh = el_handlers el ! j in
     eh_client eh = c \<and> eh_addr eh = a \<and> eh_event_mask eh AND ev \<noteq> 0 \<and> \<not> eh_remove eh)"

lemma masked_event: "m AND ev = (0 :: u32) \<Longrightarrow> (x AND NOT m) AND ev = x AND ev"
proof -
  assume "m AND ev = 0"
  then have "\<not> (bit m n \<and> bit ev n)" for n by (metis bit_and_iff bit_0_eq bot_apply bot_bool_def)
  then show ?thesis by (auto intro!: bit_word_eqI simp: bit_simps)
qed

lemma leaves_step:
  assumes "leaves_alone ev (eh_client eh) (eh_addr eh) p" "eh_event_mask eh AND ev \<noteq> 0" "\<not> eh_remove eh"
  shows "\<exists>eh'. handler_step p rc eh = [eh'] \<and> eh_client eh' = eh_client eh \<and> eh_addr eh' = eh_addr eh \<and>
    eh_event_mask eh' AND ev \<noteq> 0 \<and> \<not> eh_remove eh'"
proof (cases p)
  case (Remove_events m)
  then have "(eh_event_mask eh AND NOT m) AND ev \<noteq> 0" using masked_event [of m ev] assms by simp
  then show ?thesis using Remove_events assms by (auto simp: op_step_def Let_def)
qed (use assms in auto)

lemma concat_singles: "\<forall>x \<in> set xs. length (f x) = 1 \<Longrightarrow> i < length xs \<Longrightarrow>
    length (concat (map f xs)) = length xs \<and> concat (map f xs) ! i = f (xs ! i) ! 0"
proof (induction xs arbitrary: i)
  case (Cons x xs)
  obtain y where "f x = [y]" using Cons.prems(1) by (auto simp: length_Suc_conv)
  moreover have "length (concat (map f xs)) = length xs"
    using Cons by (cases xs) auto
  ultimately show ?case using Cons by (cases i) auto
qed simp

lemma waits_op:
  assumes "waits_at ev j c a el" "leaves_alone ev c a p" "el_ref_count el \<noteq> 0"
  shows "waits_at ev j c a (do_handler_op p el)"
proof -
  let ?f = "handler_step p (el_ref_count el)"
  let ?eh = "el_handlers el ! j"
  have w: "j < length (el_handlers el)" "eh_client ?eh = c" "eh_addr ?eh = a" "eh_event_mask ?eh AND ev \<noteq> 0" "\<not> eh_remove ?eh"
    using assms(1) by (auto simp: waits_at_def Let_def)
  have single: "length (?f eh) = 1" for eh using assms(3) by (cases rule: handler_step_cases [of p "el_ref_count el" eh]) auto
  have n: "length (concat (map ?f (el_handlers el))) = length (el_handlers el)" "concat (map ?f (el_handlers el)) ! j = ?f ?eh ! 0"
    using concat_singles [of "el_handlers el" ?f j] single w(1) by auto
  show ?thesis using leaves_step [of ev ?eh p "el_ref_count el"] assms(2) w n
    by (auto simp: waits_at_def handler_op_shape Let_def nth_append)
qed

lemma waits_ops:
  "waits_at ev j c a el \<Longrightarrow> \<forall>p \<in> set ops. leaves_alone ev c a p \<Longrightarrow> el_ref_count el \<noteq> 0 \<Longrightarrow>
    waits_at ev j c a (fold do_handler_op ops el)"
  by (induction ops arbitrary: el) (auto simp: waits_op handler_op_shape)

lemma send_loop_calls:
  assumes "handlers_well el" "el_ref_count el \<noteq> 0" "i \<le> j" "waits_at ev j c a el"
    and "\<forall>c' u. c' \<noteq> c \<longrightarrow> (\<forall>p \<in> set (fst (react c' u)). leaves_alone ev c a p)"
    and "send_loop react ev n (first_addr (drop i (el_handlers el))) (el, u, called) = Some (Ret (el', u', called'))"
  shows "c \<in> set called'"
  using assms
proof (induction n arbitrary: i el u called)
  case 0
  then show ?case by (simp add: first_addr_drop waits_at_def)
next
  case (Suc n)
  have j: "j < length (el_handlers el)" using Suc.prems(4) by (simp add: waits_at_def)
  then have i: "i < length (el_handlers el)" using Suc.prems(3) by simp
  let ?eh = "el_handlers el ! i"
  obtain el1 u1 new1 where o: "send_one react ev ?eh (el, u, called) = (el1, u1, called @ new1)" "handlers_well el1"
    "el_ref_count el1 = el_ref_count el" "prefix (handler_keys el) (handler_keys el1)"
    "new1 = [] \<or> new1 = [eh_client ?eh]" "new1 = [] \<longleftrightarrow> \<not> (eh_event_mask ?eh AND ev \<noteq> 0 \<and> \<not> eh_remove ?eh)"
    using send_one_keeps [OF Suc.prems(1, 2)] by metis
  have s: "send_loop react ev n (first_addr (drop (Suc i) (el_handlers el1))) (el1, u1, called @ new1) = Some (Ret (el', u', called'))"
    using Suc.prems(6) send_loop_step [OF Suc.prems(1, 2) i o(1)] by simp
  show ?case
  proof (cases "i = j")
    case True
    then have "c \<in> set (called @ new1)" using o(5, 6) Suc.prems(4) by (auto simp: waits_at_def Let_def)
    moreover have l: "Suc i \<le> length (el_handlers el1)" using prefix_length_le [OF o(4)] i by (simp add: handler_keys_def)
    ultimately show ?thesis
      using send_loop_run [OF o(2) _ l s] o(3) Suc.prems(2) by (metis Un_iff c_result.inject prod.inject set_append)
  next
    case False
    have "eh_client ?eh \<noteq> c"
    proof
      assume "eh_client ?eh = c"
      then have "handler_clients el ! i = handler_clients el ! j" using Suc.prems(4) i j by (simp add: handler_clients_def waits_at_def Let_def)
      then show False using Suc.prems(1) False i j nth_eq_iff_index_eq [of "handler_clients el" i j]
        by (auto simp: handlers_well_def handler_clients_keys [symmetric]) (simp add: handler_clients_def)
    qed
    then have "waits_at ev j c a el1"
      using o(1) Suc.prems(2, 4, 5) waits_ops [OF Suc.prems(4) _ Suc.prems(2), of "fst (react (eh_client ?eh) u)"]
      by (auto simp: send_one_def split: if_splits prod.splits)
    then show ?thesis using Suc.IH [OF o(2) _ _ _ Suc.prems(5) s] o(3) Suc.prems(2, 3) False by simp
  qed
qed


section \<open>The function that sends\<close>

lemma cleanup_well: "handlers_well el \<Longrightarrow> handlers_well (handler_list_cleanup el)"
  by (auto simp: handlers_well_def handler_keys_def handler_list_cleanup_def distinct_map comp_def intro: inj_on_subset)

lemma cleanup_simps: "el_ref_count (handler_list_cleanup el) = el_ref_count el"
  "el_handlers (handler_list_cleanup el) = filter (\<lambda>eh. \<not> eh_remove eh) (el_handlers el)"
  by (simp_all add: handler_list_cleanup_def)

lemma well_ref_count: "handlers_well (el \<lparr> el_ref_count := rc \<rparr>) \<longleftrightarrow> handlers_well el"
  by (simp add: handlers_well_def handler_keys_def)

lemma handler_list_send_cases:
  assumes "handlers_well el" "handler_list_send react ev n el u = Some r"
  obtains "r = Ret (el, u, [])" "el_event_mask el AND ev = 0 \<or> el_ref_count el + 1 = 0"
  | el1 u' called where "el_ref_count el + 1 \<noteq> 0"
      "send_loop react ev n (first_addr (el_handlers el)) (el \<lparr> el_ref_count := el_ref_count el + 1 \<rparr>, u, []) = Some (Ret (el1, u', called))"
      "handlers_well el1" "prefix (handler_keys el) (handler_keys el1)" "subseq called (handler_clients el1)"
      "r = Ret (let el = el1 \<lparr> el_ref_count := el_ref_count el \<rparr> in if el_ref_count el \<noteq> 0 then el else handler_list_cleanup el, u', called)"
proof (cases "el_event_mask el AND ev = 0 \<or> el_ref_count el + 1 = 0")
  case True
  then show ?thesis using assms(2) that(1) by (auto simp: handler_list_send_def Let_def split: if_splits)
next
  case False
  let ?el = "el \<lparr> el_ref_count := el_ref_count el + 1 \<rparr>"
  obtain s where s: "send_loop react ev n (first_addr (el_handlers el)) (?el, u, []) = Some s"
    using assms(2) False by (auto simp: handler_list_send_def Let_def split: option.splits)
  obtain el1 u' called where h: "s = Ret (el1, u', called)" "handlers_well el1" "el_ref_count el1 = el_ref_count el + 1"
    "prefix (handler_keys el) (handler_keys el1)" "subseq called (handler_clients el1)"
    using send_loop_run [of ?el 0 react ev n u "[]" s] assms(1) False s well_ref_count [where el = el]
    by (auto simp: handler_keys_def)
  show ?thesis using False s h assms(2) by (intro that(2) [of el1 u' called]) (auto simp: handler_list_send_def Let_def)
qed

lemma subseq_common:
  assumes "subseq xs ys" "prefix zs ys" "distinct ys"
  shows "subseq (filter (\<lambda>x. x \<in> set zs) xs) zs"
proof -
  obtain ws where w: "ys = zs @ ws" using assms(2) by (auto simp: prefix_def)
  have "filter (\<lambda>x. x \<in> set zs) ys = zs" using assms(3) by (auto simp: w filter_id_conv filter_empty_conv)
  then show ?thesis using subseq_filter [OF assms(1), of "\<lambda>x. x \<in> set zs"] by simp
qed

section \<open>Outside a traversal the list is a map\<close>

text \<open>The contract: a client has at most one handler, an address and the events it waits for. Addresses are numbered as they are allocated.\<close>

type_synonym 'c handler_map = "('c \<Rightarrow> (nat \<times> u32) option) \<times> nat"

fun handler_contract :: "'c handler_op \<Rightarrow> 'c handler_map \<Rightarrow> 'c handler_map" where
  "handler_contract (Add m c alloc) (M, a) =
     (case M c of
        Some (b, _) \<Rightarrow> (M(c := if m = 0 then None else Some (b, m)), a)
      | None \<Rightarrow> if m \<noteq> 0 \<and> alloc then (M(c \<mapsto> (a, m)), a + 1) else (M, a))"
| "handler_contract (Remove_client c) (M, a) = (M(c := None), a)"
| "handler_contract (Remove_record b) (M, a) = (\<lambda>c. if map_option fst (M c) = Some b then None else M c, a)"
| "handler_contract (Remove_events em) (M, a) =
     (\<lambda>c. case M c of None \<Rightarrow> None | Some (b, m) \<Rightarrow> if m AND NOT em = 0 then None else Some (b, m AND NOT em), a)"

definition registered :: "'c event_handler_rec list \<Rightarrow> 'c \<Rightarrow> (nat \<times> u32) option" where
  "registered ehs = map_of (map (\<lambda>eh. (eh_client eh, eh_addr eh, eh_event_mask eh)) ehs)"

lemma registered_simps [simp]: "registered [] c = None"
  "registered (eh # ehs) c = (if c = eh_client eh then Some (eh_addr eh, eh_event_mask eh) else registered ehs c)"
  by (auto simp: registered_def)

lemma registered_append: "registered (xs @ ys) c = (case registered xs c of None \<Rightarrow> registered ys c | r \<Rightarrow> r)"
  by (induction xs) auto

lemma registered_None: "registered ehs c = None \<longleftrightarrow> c \<notin> eh_client ` set ehs"
  by (induction ehs) auto

text \<open>The step of a record, on its address and events.\<close>

primrec entry_step :: "'c handler_op \<Rightarrow> 'c \<Rightarrow> nat \<times> u32 \<Rightarrow> (nat \<times> u32) option" where
  "entry_step (Add m c' alloc) c e = (if c = c' then if m = 0 then None else Some (fst e, m) else Some e)"
| "entry_step (Remove_client c') c e = (if c = c' then None else Some e)"
| "entry_step (Remove_record b) c e = (if fst e = b then None else Some e)"
| "entry_step (Remove_events em) c e = (if snd e AND NOT em = 0 then None else Some (fst e, snd e AND NOT em))"

lemma entry_step: "(case handler_step p 0 eh of [] \<Rightarrow> None | eh' # _ \<Rightarrow> Some (eh_addr eh', eh_event_mask eh')) =
    entry_step p (eh_client eh) (eh_addr eh, eh_event_mask eh)"
  by (cases p) (auto simp: drop_or_mark_def op_step_def Let_def)

lemma registered_steps:
  assumes "distinct (map eh_client ehs)"
  shows "registered (concat (map (handler_step p 0) ehs)) c = Option.bind (registered ehs c) (entry_step p c)"
  using assms
proof (induction ehs)
  case (Cons eh ehs)
  have "registered ehs c = None" if "c = eh_client eh" using Cons.prems that by (auto simp: registered_None)
  then show ?case using Cons entry_step [of p eh]
    by (cases rule: handler_step_cases [of p 0 eh]) (auto simp: registered_append split: option.splits)
qed simp

lemma registered_op:
  assumes "handlers_well el" "el_ref_count el = 0"
  shows "(registered (el_handlers (do_handler_op p el)), el_fresh (do_handler_op p el)) =
    handler_contract p (registered (el_handlers el), el_fresh el)"
proof -
  have d: "distinct (map eh_client (el_handlers el))" using assms(1) by (simp add: handlers_well_def handler_keys_def comp_def)
  have r: "registered (el_handlers (do_handler_op p el)) c =
      (case Option.bind (registered (el_handlers el) c) (entry_step p c) of None \<Rightarrow> registered (handler_new p el) c | r \<Rightarrow> r)" for c
    by (simp add: handler_op_shape assms(2) registered_append registered_steps [OF d])
  have "handler_contract p (registered (el_handlers el), el_fresh el) =
      (\<lambda>c. case Option.bind (registered (el_handlers el) c) (entry_step p c) of None \<Rightarrow> registered (handler_new p el) c | r \<Rightarrow> r,
       el_fresh el + length (handler_new p el))"
  proof (cases p)
    case (Add m c alloc)
    show ?thesis
      by (cases "registered (el_handlers el) c")
        (auto simp: fun_eq_iff Add registered_None [symmetric] split: option.splits Option.bind_splits)
  qed (auto simp: fun_eq_iff split: option.splits Option.bind_splits)
  then show ?thesis by (simp add: r [abs_def] handler_op_shape(3))
qed

definition idle :: "'c event_handler_list \<Rightarrow> bool" where
  "idle el \<longleftrightarrow> handlers_well el \<and> el_ref_count el = 0 \<and> el_event_mask el = mask_union (el_handlers el)"

lemma mask_union_steps: "mask_union (concat (map (op_step em 0) ehs)) = mask_union ehs AND NOT em"
  by (induction ehs) (auto simp: op_step_def drop_or_mark_def Let_def bit.conj_disj_distrib2)

lemma mask_union_drop: "concat (map (\<lambda>eh. if P eh then drop_or_mark 0 eh else [eh]) ehs) = filter (\<lambda>eh. \<not> P eh) ehs"
  by (induction ehs) (auto simp: drop_or_mark_def)

lemma idle_op: "idle el \<Longrightarrow> idle (do_handler_op p el)"
proof -
  assume i: "idle el"
  have "el_event_mask (do_handler_op p el) = mask_union (el_handlers (do_handler_op p el))"
  proof (cases p)
    case (Add m c alloc)
    then show ?thesis using i
      by (cases "m = 0") (simp_all add: idle_def handler_list_add_def add_loop_remove add_loop_add mask_union_drop)
  next
    case (Remove_client c)
    then show ?thesis using i
      by (simp add: idle_def handler_list_remove_by_callback_def handler_list_add_def add_loop_remove mask_union_drop)
  next
    case (Remove_record a)
    then show ?thesis using i by (simp add: idle_def handler_list_remove_def remove_loop_eq mask_union_drop)
  next
    case (Remove_events em)
    then show ?thesis using i by (simp add: idle_def handler_list_remove_by_event_def Let_def)
        (simp only: mask_union_steps [unfolded op_step_def [abs_def] Let_def, simplified])
  qed
  then show ?thesis using i by (simp add: idle_def handler_op_well handler_op_shape)
qed

lemma idle_init: "idle handler_list_init"
  by (simp add: idle_def handler_list_init_def handlers_well_def handler_keys_def)

lemma idle_registered:
  assumes "idle el"
  shows "idle (fold do_handler_op ops el) \<and>
    (registered (el_handlers (fold do_handler_op ops el)), el_fresh (fold do_handler_op ops el)) =
      fold handler_contract ops (registered (el_handlers el), el_fresh el)"
  using assms
proof (induction ops arbitrary: el)
  case (Cons p ops)
  then have "handlers_well el" "el_ref_count el = 0" by (simp_all add: idle_def)
  then show ?case using Cons.IH [OF idle_op [OF Cons.prems], of p] by (simp add: registered_op)
qed simp

lemma bit_mask_union: "bit (mask_union ehs) i \<longleftrightarrow> (\<exists>eh \<in> set ehs. bit (eh_event_mask eh) i)"
  by (induction ehs) (auto simp: bit_or_iff)

lemma registered_member:
  assumes "distinct (map eh_client ehs)"
  shows "(\<exists>eh \<in> set ehs. bit (eh_event_mask eh) i) \<longleftrightarrow> (\<exists>c a m. registered ehs c = Some (a, m) \<and> bit m i)"
  using assms
proof (induction ehs)
  case (Cons eh ehs)
  have "registered ehs (eh_client eh) = None" using Cons.prems by (auto simp: registered_None)
  then show ?case using Cons by (auto split: if_splits) (metis option.distinct(1))
qed simp


lemma send_loop_total:
  "(el_ref_count el + 1 \<noteq> 0 \<Longrightarrow>
      send_loop react ev n (first_addr (el_handlers el)) (el \<lparr> el_ref_count := el_ref_count el + 1 \<rparr>, u, []) \<noteq> None) \<Longrightarrow>
    \<exists>r. handler_list_send react ev n el u = Some r"
  by (cases "el_ref_count el + 1 = 0") (auto simp: handler_list_send_def Let_def split: c_result.splits)

lemma send_returns:
  assumes "handlers_well el" "finite C" "set (handler_clients el) \<subseteq> C"
    and "\<forall>c u. \<forall>p \<in> set (fst (react c u)). adds_in C p" "card C \<le> n"
  shows "\<exists>r. handler_list_send react ev n el u = Some r"
proof (rule send_loop_total)
  let ?el = "el \<lparr> el_ref_count := el_ref_count el + 1 \<rparr>"
  show "send_loop react ev n (first_addr (el_handlers el)) (?el, u, []) \<noteq> None" if "el_ref_count el + 1 \<noteq> 0"
    using send_loop_returns [of ?el 0 C react n ev u "[]"] that assms by (simp add: well_ref_count handler_clients_def)
qed

lemma covered_event:
  assumes "handlers_well el" "eh \<in> set (el_handlers el)" "\<not> eh_remove eh" "eh_event_mask eh AND ev \<noteq> 0"
  shows "el_event_mask el AND ev \<noteq> 0"
proof
  assume "el_event_mask el AND ev = 0"
  moreover have "eh_event_mask eh OR el_event_mask el = el_event_mask el" using assms by (auto simp: handlers_well_def)
  then have "(eh_event_mask eh AND ev) OR (el_event_mask el AND ev) = el_event_mask el AND ev" by (rule or_and_mono)
  ultimately show False using assms(4) by simp
qed

section \<open>Properties\<close>


text \<open>
  C37. Handlers may add and remove handlers, themselves included, while an event is sent. The traversal returns whatever they do, as long as
  the clients they register belong to a finite set, it never touches a freed record, and it calls each client at most once, in the order
  of registration. Afterwards the list is well formed, and at the outermost level no record marked for removal is left.
\<close>

theorem event_send_safe:
  assumes "handlers_well el" "finite C" "set (handler_clients el) \<subseteq> C"
    and "\<forall>c u. \<forall>p \<in> set (fst (react c u)). adds_in C p"
    and "card C \<le> n" "\<forall>eh \<in> set (el_handlers el). el_ref_count el = 0 \<longrightarrow> \<not> eh_remove eh"
  shows "\<exists>el' u' called. handler_list_send react ev n el u = Some (Ret (el', u', called)) \<and>
    distinct called \<and> subseq (filter (\<lambda>c. c \<in> set (handler_clients el)) called) (handler_clients el) \<and>
    handlers_well el' \<and> el_ref_count el' = el_ref_count el \<and> (el_ref_count el = 0 \<longrightarrow> (\<forall>eh \<in> set (el_handlers el'). \<not> eh_remove eh))"
proof -
  obtain r where s: "handler_list_send react ev n el u = Some r" using send_returns [OF assms(1-5)] by blast
  from assms(1) s show ?thesis
  proof (cases rule: handler_list_send_cases)
    case 1
    then show ?thesis using s assms by (auto simp: handler_clients_def)
  next
    case (2 el1 u' called)
    have d: "distinct (handler_clients el1)" using 2(3) by (simp add: handlers_well_def handler_clients_keys)
    have p: "prefix (handler_clients el) (handler_clients el1)" using 2(4) by (auto simp: prefix_def handler_clients_keys)
    have w: "handlers_well (el1 \<lparr> el_ref_count := el_ref_count el \<rparr>)" using 2(3) by (simp add: well_ref_count)
    show ?thesis
      using s 2(6) subseq_distinct [OF 2(5) d] subseq_common [OF 2(5) p d] w cleanup_well [OF w]
      by (auto simp: Let_def cleanup_simps)
  qed
qed


lemma event_send_safe_witness:
  "let el = fold do_handler_op [Add 3 0 True, Add 1 1 True, Add 2 2 True] handler_list_init;
       react = \<lambda>c u. if c = (0 :: nat) then ([Remove_client 0, Remove_client 1, Add 1 3 True], u + 1) else ([], u + (1 :: nat))
   in \<exists>el' u' called. handler_list_send react 1 4 el 0 = Some (Ret (el', u', called)) \<and>
        distinct called \<and> subseq (filter (\<lambda>c. c \<in> set (handler_clients el)) called) (handler_clients el) \<and>
        handlers_well el' \<and> el_ref_count el' = el_ref_count el \<and> (el_ref_count el = 0 \<longrightarrow> (\<forall>eh \<in> set (el_handlers el'). \<not> eh_remove eh))"
  unfolding Let_def
  by (rule event_send_safe [where C = "{0, 1, 2, 3}"])
    (auto simp: handler_list_init_def handler_list_add_def handlers_well_def handler_keys_def handler_clients_def)

text \<open>
  C39. A handler that waits for an event is called. When no other handler changes or removes its registration the handler receives the event,
  whatever else happens to the list during the traversal.
\<close>

theorem waiting_handler_called:
  assumes "handlers_well el" "finite C" "set (handler_clients el) \<subseteq> C"
    and "\<forall>c u. \<forall>p \<in> set (fst (react c u)). adds_in C p" "card C \<le> n"
    and "eh \<in> set (el_handlers el)" "eh_event_mask eh AND ev \<noteq> 0" "\<not> eh_remove eh" "el_ref_count el \<noteq> - 1"
    and "\<forall>c u. c \<noteq> eh_client eh \<longrightarrow> (\<forall>p \<in> set (fst (react c u)). leaves_alone ev (eh_client eh) (eh_addr eh) p)"
  shows "\<exists>el' u' called. handler_list_send react ev n el u = Some (Ret (el', u', called)) \<and> eh_client eh \<in> set called"
proof -
  obtain r where s: "handler_list_send react ev n el u = Some r" using send_returns [OF assms(1-5)] by blast
  have rc: "el_ref_count el + 1 \<noteq> 0" using assms(9) by (simp add: eq_neg_iff_add_eq_0)
  from assms(1) s show ?thesis
  proof (cases rule: handler_list_send_cases)
    case 1
    then show ?thesis using covered_event [OF assms(1, 6, 8, 7)] rc by blast
  next
    case (2 el1 u' called)
    let ?el = "el \<lparr> el_ref_count := el_ref_count el + 1 \<rparr>"
    obtain j where "waits_at ev j (eh_client eh) (eh_addr eh) ?el"
      using assms(6-8) by (auto simp: waits_at_def Let_def in_set_conv_nth)
    then have "eh_client eh \<in> set called"
      using send_loop_calls [of ?el 0 j ev "eh_client eh" "eh_addr eh" react n u "[]" el1 u' called] rc 2(2) assms(1, 10)
      by (simp add: well_ref_count)
    then show ?thesis using s 2(6) by auto
  qed
qed

lemma waiting_handler_called_witness:
  "let el = fold do_handler_op [Add 3 0 True, Add 1 1 True, Add 2 2 True] handler_list_init;
       react = \<lambda>c u. if c = (0 :: nat) then ([Remove_client 0, Remove_client 2, Add 1 3 True], u + 1) else ([], u + (1 :: nat))
   in \<exists>el' u' called. handler_list_send react 1 4 el 0 = Some (Ret (el', u', called)) \<and> 1 \<in> set called"
  unfolding Let_def
  using waiting_handler_called [of "fold do_handler_op [Add 3 0 True, Add 1 1 True, Add 2 2 True] handler_list_init" "{0, 1, 2, 3}"
    "\<lambda>c u. if c = (0 :: nat) then ([Remove_client 0, Remove_client 2, Add 1 3 True], u + 1) else ([], u + (1 :: nat))" 4
    "\<lparr> eh_addr = 1, eh_client = 1, eh_event_mask = 1, eh_remove = False \<rparr>" 1 0]
  by (auto simp: handler_list_init_def handler_list_add_def handlers_well_def handler_keys_def handler_clients_def)

text \<open>
  C40. A defect. A handler that has been removed during a traversal and is added again before the traversal ends is lost: the function
  that adds finds the marked record, updates its events and returns its address, but the mark stays, and the record is freed at the end.
\<close>

theorem readded_handler_lost:
  assumes "handlers_well el" "eh \<in> set (el_handlers el)" "eh_remove eh" "m \<noteq> 0"
  shows "fst (handler_list_add m (eh_client eh) alloc el) = Some (eh_addr eh) \<and>
    eh_client eh \<notin> set (handler_clients (handler_list_cleanup (snd (handler_list_add m (eh_client eh) alloc el))))"
proof -
  let ?c = "eh_client eh" and ?ehs = "el_handlers el"
  have d: "distinct (map eh_client ?ehs)" using assms(1) by (simp add: handlers_well_def handler_keys_def comp_def)
  have one: "e = eh" if "e \<in> set ?ehs" "eh_client e = ?c" for e
    using that d assms(2) by (auto simp: distinct_map dest: inj_onD)
  have "filter (\<lambda>e. eh_client e = ?c) (rev ?ehs) \<noteq> []" using assms(2) by (auto simp: filter_empty_conv)
  then obtain e es where f: "filter (\<lambda>e. eh_client e = ?c) (rev ?ehs) = e # es" by (cases "filter (\<lambda>e. eh_client e = ?c) (rev ?ehs)") auto
  have "e \<in> set (filter (\<lambda>e. eh_client e = ?c) (rev ?ehs))" unfolding f by simp
  then have "e = eh" using one by simp
  then have a: "handler_list_add m ?c alloc el = (Some (eh_addr eh),
      el \<lparr> el_handlers := map (set_mask m ?c) ?ehs, el_event_mask := mask_union (map (set_mask m ?c) ?ehs) \<rparr>)"
    using assms(4) by (simp add: handler_list_add_def add_loop_add f)
  show ?thesis using one assms(3) by (auto simp: a handler_clients_def cleanup_simps)
qed

text \<open>The defect in a traversal: the handler renews its registration, is told that this succeeded, and is gone when the function returns.\<close>

lemma lost_in_send:
  "map_option (map_c_result (\<lambda>(el, u, called). (handler_clients el, called)))
    (handler_list_send (\<lambda>c u. if c = (0 :: nat) then ([Remove_client 0, Add 3 0 True], u) else ([], u)) 1 (Suc (Suc 0))
      (fold do_handler_op [Add 3 0 True, Add 1 1 True] handler_list_init) ()) = Some (Ret ([1], [0, 1]))"
  by (simp add: handler_list_init_def handler_list_add_def handler_list_remove_by_callback_def drop_or_mark_def handler_list_send_def
      first_addr_def record_at_def handler_list_cleanup_def handler_clients_def)

lemma readded_handler_lost_witness:
  "let el = do_handler_op (Remove_client 0) (fold do_handler_op [Add 3 0 True, Add 1 (1 :: nat) True] handler_list_init \<lparr> el_ref_count := 1 \<rparr>)
   in fst (handler_list_add 3 0 True el) = Some 0 \<and>
      0 \<notin> set (handler_clients (handler_list_cleanup (snd (handler_list_add 3 0 True el))))"
  using readded_handler_lost [of "do_handler_op (Remove_client 0) (fold do_handler_op [Add 3 0 True, Add 1 1 True] handler_list_init \<lparr> el_ref_count := 1 \<rparr>)"
    "\<lparr> eh_addr = 0, eh_client = 0 :: nat, eh_event_mask = 3, eh_remove = True \<rparr>" 3 True]
  by (simp add: handler_list_init_def handler_list_add_def handlers_well_def handler_keys_def handler_list_remove_by_callback_def
      drop_or_mark_def)

end
