(* ===== verification/Spec2Isabelle.thy ===== *)
theory Spec2Isabelle
  imports Zvbi_Prelude Hamm_Tables Hammgen Hamm Bcd Program_Id Vps Packet830 Sliced Pfc_Demux Idl_Demux Xds_Demux Page_Table Sliced_Filter C_Time Pdc Pil_String Dvb_Mux Dvb_Demux Dvb_Round_Trip Dvb_Pes_Demux Dvb_Pes_Stream Sampling_Par Dvb_Pes_Mux Dvb_Mux_Inv Dvb_Pes_Round_Trip Page_Format Lang Caption_State Caption Caption_Inv Caption_Text Caption_Roll Program_Info Color_Map Event_Handlers
begin

text \<open>
  A verification development for libzvbi (\<^verbatim>\<open>vbi/src\<close>), the library that decodes
  Teletext, Closed Caption, VPS and other data transmitted in the vertical blanking interval of a television
  signal. A frame reaches the library as an array of sliced lines (\<^verbatim>\<open>vbi_sliced\<close>: a data service, a line number and up to
  56 bytes). The modules modelled here decode the protection of these bytes, reassemble what the data services
  transmit in them, carry lines in DVB streams, select and convert lines, decode captions and program information, and
  interpret the program labels.

  Theories and the code they model, all under \<^verbatim>\<open>src/vbi/src\<close>:

  \<^item> \<open>Zvbi_Prelude\<close>: machine types, undefined behaviour as a value (\<open>c_result\<close>), lemmas on words and tables.
  \<^item> \<open>Hamm_Tables\<close>, \<open>Hammgen\<close>, \<open>Hamm\<close>: \<^verbatim>\<open>hamm-tables.h\<close>, the program \<^verbatim>\<open>hammgen.c\<close> that generates these tables, and the
    parity and Hamming functions of \<^verbatim>\<open>hamm.h\<close> and \<^verbatim>\<open>hamm.c\<close>. The tables are the ones the generator
    computes; both Hamming codes meet one interface (the locale \<open>secded\<close>, interpreted for 8/4 and 24/18), from which error
    correction and detection follow.
  \<^item> \<open>Bcd\<close>: packed BCD arithmetic of \<^verbatim>\<open>bcd.h\<close> on 32 bit words.
  \<^item> \<open>Program_Id\<close>, \<open>Vps\<close>, \<open>Packet830\<close>: program labels (\<^verbatim>\<open>pdc.h\<close>, \<^verbatim>\<open>network.h\<close>), their decoders and encoders in
    VPS lines and DVB descriptors (\<^verbatim>\<open>vps.c\<close>) and the decoders of Teletext packets 8/30 (\<^verbatim>\<open>packet-830.c\<close>).
  \<^item> \<open>C_Time\<close>, \<open>Pdc\<close>, \<open>Pil_String\<close>: the calendar functions of the C library, and the conversion of labels to times and validity
    windows and the parser of labels of \<^verbatim>\<open>pdc.c\<close>. The process environment (TZ, \<^verbatim>\<open>errno\<close>) is explicit state.
  \<^item> \<open>Sliced\<close>: the line record, the loop over the lines of a frame, and the interface \<open>line_demux\<close> of the demultiplexers it feeds.
  \<^item> \<open>Pfc_Demux\<close>, \<open>Idl_Demux\<close>, \<open>Xds_Demux\<close>: the demultiplexers of Page Format Clear, Independent Data Line and Extended Data
    Service streams (\<^verbatim>\<open>pfc_demux.c\<close>, \<^verbatim>\<open>idl_demux.c\<close>, \<^verbatim>\<open>xds_demux.c\<close>). A callback is a parameter that
    transforms a state of the client; the first two are interpretations of \<open>line_demux\<close>.
  \<^item> \<open>Page_Table\<close>, \<open>Sliced_Filter\<close>: sets of Teletext pages (\<^verbatim>\<open>page_table.c\<close>) with their vector of subpage ranges and the allocator as
    a parameter, and the filter of sliced lines that holds such a set (\<^verbatim>\<open>sliced_filter.c\<close>). Both interpret the interface
    \<open>page_numbers\<close>: a set of pages under a history of additions and removals.
  \<^item> \<open>Dvb_Mux\<close>, \<open>Dvb_Demux\<close>, \<open>Dvb_Round_Trip\<close>: the data units of sliced lines in DVB VBI packets, their encoder
    (\<^verbatim>\<open>dvb_mux.c\<close>) and decoder (\<^verbatim>\<open>dvb_demux.c\<close>), and the theorems on both together.
  \<^item> \<open>Dvb_Pes_Demux\<close>, \<open>Dvb_Pes_Stream\<close>: the PES layer of the demultiplexer with its wrap-around buffer, the callback and the coroutine
    interface (\<^verbatim>\<open>dvb_demux.c\<close>), and the reference parser on the stream of all bytes that it is shown to compute.
  \<^item> \<open>Sampling_Par\<close>, \<open>Dvb_Pes_Mux\<close>, \<open>Dvb_Mux_Inv\<close>: the check of sampling parameters (\<^verbatim>\<open>sampling_par.c\<close>), raw data units, the generator of PES
    and TS packets and the interfaces of the multiplexer (\<^verbatim>\<open>dvb_mux.c\<close>), and its invariant.
  \<^item> \<open>Dvb_Pes_Round_Trip\<close>: multiplexer and demultiplexer together, from the frames fed to one to the frames the other reports.
  \<^item> \<open>Page_Format\<close>, \<open>Lang\<close>: the attributed character (\<^verbatim>\<open>format.h\<close>), the character sets and the optimization of attributes (\<^verbatim>\<open>lang.c\<close>).
  \<^item> \<open>Caption_State\<close>, \<open>Caption\<close>, \<open>Caption_Inv\<close>, \<open>Caption_Text\<close>, \<open>Caption_Roll\<close>: the Closed Caption decoder (\<^verbatim>\<open>caption.c\<close>, \<^verbatim>\<open>cc.h\<close>): channels and
    pages, commands and the entry points, the invariant, pop-on captions, and roll-up captions with the repetition of commands and
    channel switches. The current line of a channel is a part of its state that can be read and replaced (the locale
    \<open>part_view\<close>, interpreted for the line of the hidden page).
  \<^item> \<open>Program_Info\<close>, \<open>Color_Map\<close>: program and network information from XDS packets and Wide Screen Signalling (\<^verbatim>\<open>caption.c\<close>,
    \<^verbatim>\<open>wss.c\<close>, \<^verbatim>\<open>vbi.c\<close>, \<^verbatim>\<open>event.h\<close>), and color maps (\<^verbatim>\<open>vbi.c\<close>).
  \<^item> \<open>Event_Handlers\<close>: lists of event handlers and the traversal that calls them while they change the list (\<^verbatim>\<open>event.c\<close>).

  What the theorems show. Decoders invert encoders (VPS and DVB labels, parity, Hamming, BCD, DVB data units with any padding and
  stuffing, and whole frames from the multiplexer through a PES stream cut into any portions to the demultiplexer), with the
  errors they correct and report. Optimised code equals a plain definition (tables and generator, CRC table and bit
  serial division, the PES demultiplexer and its reference parser). The stateful modules keep their invariants on every input, or the input on
  which the code leaves its buffers is given (for captions exactly: \<open>caption_fault\<close>); the XDS demultiplexer, the filter and the event handler list
  refine abstract ones. The page table is the set its history
  defines, and its iteration visits each page once. Captions are displayed as transmitted, a carriage return rolls the lines of
  a caption, commands that are repeated are executed once. Information is reported when it has been confirmed. Labels are converted to the
  time they mean, the windows contain that time, and TZ is put back on every path. Theorems that state a defect say so in
  their text; the manifest lists the defects.

  Conventions. Bytes are 8 bit and unsigned integers 32 bit words, which wrap; a C \<^verbatim>\<open>int\<close> that stays in range is a HOL
  integer, sizes and indexes are natural numbers. A buffer is a list of bytes, and an access outside it, a failed assertion or the use of an
  uninitialised value or a freed record is the result \<open>Undef\<close>. A function that returns through pointers returns a tuple. Calls of other
  modules and of the client are parameters, or recorded in order.

  Loops and bounds. All loops are structural or carry a termination proof, but for three with fuel: the iteration over
  a page table (0x801 calls, one more than there are page numbers below 0x900), the loop that clears a line of a caption (one step per
  column) and the traversal of event handlers (one step per client); all three are shown to end within it. The statements on
  times are for start times from 1972 to the year 36,000 and offsets up to a day, away from the ends of \<^verbatim>\<open>time_t\<close>.

  Not modelled. Logging, the printing of structures for debugging and the release of memory. Of \<^verbatim>\<open>dvb_demux.c\<close>, raw VBI data, which
  no context enables, and the demultiplexer of TS streams. Of the decoders above the packet level, the Teletext decoder (\<^verbatim>\<open>packet.c\<close>)
  and the formatting of its pages (\<^verbatim>\<open>teletext.c\<close>), the page cache, the search, triggers, and \<^verbatim>\<open>cc608_decoder.c\<close>. Not modelled at all: raw signal
  decoding, export, capture devices and the proxy, which are floating point or input and output for the most part. The other programs of the repository
  (\<^verbatim>\<open>rte\<close>, \<^verbatim>\<open>zapping\<close>) are separate; \<^verbatim>\<open>zapping/libvbi\<close> is an older copy of this library.
\<close>

end
